(* ===== verification/Prelude.thy ===== *)
theory Prelude
  imports Main "HOL-Library.Word" "HOL-Library.Char_ord" "HOL-Library.List_Lexorder"
    "HOL-Library.Sublist"
begin

unbundle bit_operations_syntax

text \<open>
  What the components share.

  Go values are modelled as follows. A Go \<^verbatim>\<open>string\<close> is a HOL \<open>string\<close>, whose characters are
  bytes; Go compares strings byte by byte, which is the lexicographic order the library theories
  \<open>Char_ord\<close> and \<open>List_Lexorder\<close> give. A \<^verbatim>\<open>[]byte\<close> is a \<open>byte list\<close>; \<^verbatim>\<open>uint32\<close> and
  \<^verbatim>\<open>uint64\<close> are words of that width. A run-time panic (an index or a slice bound out of range, a
  nil dereference, an explicit \<^verbatim>\<open>panic\<close>) and a \<^verbatim>\<open>log.Fatal\<close> are values of \<open>fault\<close>; a Go
  function that may raise one returns \<open>fault + 'a\<close> or, where there is one way to fail only,
  an option.
\<close>

type_synonym byte = "8 word"
type_synonym u32 = "32 word"
type_synonym u64 = "64 word"

datatype fault =
    Panic string   \<comment> \<open>a Go run-time panic or a call of panic\<close>
  | Fatal string   \<comment> \<open>log.Fatal: the process exits\<close>

type_synonym 'a result = "fault + 'a"

named_theorems codec_simps "equations of the byte-level encoders and decoders"
named_theorems reader_simps "equations of the index readers"

subsection \<open>Results\<close>

definition bindR :: "'e + 'a \<Rightarrow> ('a \<Rightarrow> 'e + 'b) \<Rightarrow> 'e + 'b" where
  "bindR r f = (case r of Inl e \<Rightarrow> Inl e | Inr x \<Rightarrow> f x)"

lemma bindR_simps [simp]: "bindR (Inl e) f = Inl e" "bindR (Inr x) f = f x"
  by (simp_all add: bindR_def)

lemma bindR_Inr: "bindR r f = Inr y \<longleftrightarrow> (\<exists>x. r = Inr x \<and> f x = Inr y)"
  by (cases r) auto

lemma bindR_Inl: "bindR r f = Inl e \<longleftrightarrow> r = Inl e \<or> (\<exists>x. r = Inr x \<and> f x = Inl e)"
  by (cases r) auto

text \<open>A loop over a list whose body may fail.\<close>

fun foldR :: "('s \<Rightarrow> 'x \<Rightarrow> 'e + 's) \<Rightarrow> 's \<Rightarrow> 'x list \<Rightarrow> 'e + 's" where
  "foldR f s [] = Inr s"
| "foldR f s (x # xs) = bindR (f s x) (\<lambda>s'. foldR f s' xs)"

lemma foldR_append: "foldR f s (xs @ ys) = bindR (foldR f s xs) (\<lambda>s'. foldR f s' ys)"
  by (induction xs arbitrary: s) (auto simp: bindR_def split: sum.splits)

lemma foldR_invariant:
  assumes "foldR f s xs = Inr s'" and "P s"
    and "\<And>s x s''. x \<in> set xs \<Longrightarrow> P s \<Longrightarrow> f s x = Inr s'' \<Longrightarrow> P s''"
  shows "P s'"
  using assms
proof (induction xs arbitrary: s)
  case Nil
  then show ?case by simp
next
  case (Cons x xs)
  from Cons.prems(1) obtain t where t: "f s x = Inr t" "foldR f t xs = Inr s'"
    by (auto simp: bindR_Inr)
  have "P t" using Cons.prems(2) t(1) Cons.prems(3)[of x s t] by simp
  then show ?case by (rule Cons.IH[OF t(2)]) (rule Cons.prems(3), simp_all)
qed

subsection \<open>Slices\<close>

text \<open>\<^verbatim>\<open>xs[lo:hi]\<close>; \<open>None\<close> is the panic of a bound out of range.\<close>

definition go_slice :: "'a list \<Rightarrow> nat \<Rightarrow> nat \<Rightarrow> 'a list option" where
  "go_slice xs lo hi = (if lo \<le> hi \<and> hi \<le> length xs then Some (take (hi - lo) (drop lo xs)) else None)"

text \<open>\<^verbatim>\<open>xs[i]\<close>.\<close>

definition go_index :: "'a list \<Rightarrow> nat \<Rightarrow> 'a option" where
  "go_index xs i = (if i < length xs then Some (xs ! i) else None)"

lemma go_slice_Some_iff:
  "go_slice xs lo hi = Some ys \<longleftrightarrow> lo \<le> hi \<and> hi \<le> length xs \<and> ys = take (hi - lo) (drop lo xs)"
  by (auto simp: go_slice_def)

lemma length_go_slice: "go_slice xs lo hi = Some ys \<Longrightarrow> length ys = hi - lo"
  by (auto simp: go_slice_Some_iff)

text \<open>
  The in-place filter loop of the source: \<open>w\<close> is the part of the array already kept, an element
  is dropped when the test holds of the last element kept.
\<close>

fun keep_loop :: "('a \<Rightarrow> 'a \<Rightarrow> bool) \<Rightarrow> 'a list \<Rightarrow> 'a list \<Rightarrow> 'a list" where
  "keep_loop drop_if w [] = w"
| "keep_loop drop_if w (x # xs) =
     (if w = [] \<or> \<not> drop_if (last w) x then keep_loop drop_if (w @ [x]) xs
      else keep_loop drop_if w xs)"

lemma in_set_butlast_or_last: "y \<in> set w \<Longrightarrow> y = last w \<or> y \<in> set (butlast w)"
  by (induction w) auto

lemma keep_loop_subset: "set (keep_loop d w xs) \<subseteq> set w \<union> set xs"
  by (induction d w xs rule: keep_loop.induct) auto

lemma keep_loop_mono: "set w \<subseteq> set (keep_loop d w xs)"
  by (induction d w xs rule: keep_loop.induct) auto

lemma keep_loop_covers:
  "x \<in> set xs \<Longrightarrow> x \<in> set (keep_loop d w xs) \<or> (\<exists>y\<in>set (keep_loop d w xs). d y x)"
proof (induction d w xs rule: keep_loop.induct)
  case (1 d w)
  then show ?case by simp
next
  case (2 d w y ys)
  show ?case
  proof (cases "w = [] \<or> \<not> d (last w) y")
    case True
    then have eq: "keep_loop d w (y # ys) = keep_loop d (w @ [y]) ys" by simp
    have "y \<in> set (keep_loop d (w @ [y]) ys)"
      using keep_loop_mono[of "w @ [y]" d ys] by auto
    with 2(1)[OF True] 2(3) show ?thesis unfolding eq by auto
  next
    case False
    then have eq: "keep_loop d w (y # ys) = keep_loop d w ys" by simp
    have "last w \<in> set (keep_loop d w ys)"
      using False keep_loop_mono[of w d ys] by (meson last_in_set subsetD)
    with 2(2)[OF False] 2(3) False show ?thesis unfolding eq by auto
  qed
qed

lemma set_keep_loop_eq: "set (keep_loop (=) w xs) = set w \<union> set xs"
  using keep_loop_subset[of "(=)" w xs] keep_loop_mono[of w "(=)" xs]
    keep_loop_covers[of _ xs "(=)" w]
  by blast

lemma keep_loop_sorted_wrt:
  assumes "transp P" and "sorted_wrt Q (w @ xs)" and "sorted_wrt P w"
    and "\<And>x y. Q x y \<Longrightarrow> \<not> d x y \<Longrightarrow> P x y"
  shows "sorted_wrt P (keep_loop d w xs)"
  using assms(2,3)
proof (induction xs arbitrary: w)
  case Nil
  then show ?case by simp
next
  case (Cons x xs)
  show ?case
  proof (cases "w = [] \<or> \<not> d (last w) x")
    case True
    have step: "P y x" if y: "y \<in> set w" for y
    proof -
      from y have ne: "w \<noteq> []" by auto
      have lastx: "P (last w) x"
        using True ne Cons.prems(1) assms(4)[of "last w" x]
        by (auto simp: sorted_wrt_append)
      show ?thesis
      proof (cases "y = last w")
        case True
        with lastx show ?thesis by simp
      next
        case False
        then have "y \<in> set (butlast w)" using in_set_butlast_or_last[OF y] by simp
        moreover have "sorted_wrt P (butlast w @ [last w])"
          using Cons.prems(2) ne by simp
        ultimately have "P y (last w)" by (simp add: sorted_wrt_append)
        with lastx show ?thesis using \<open>transp P\<close> by (blast dest: transpD)
      qed
    qed
    have "sorted_wrt P (w @ [x])" using Cons.prems(2) step by (simp add: sorted_wrt_append)
    moreover have "sorted_wrt Q ((w @ [x]) @ xs)" using Cons.prems(1) by simp
    ultimately have "sorted_wrt P (keep_loop d (w @ [x]) xs)" by (rule Cons.IH[rotated])
    with True show ?thesis by simp
  next
    case False
    have "sorted_wrt Q (w @ xs)" using Cons.prems(1) by (simp add: sorted_wrt_append)
    then have "sorted_wrt P (keep_loop d w xs)" by (rule Cons.IH) (rule Cons.prems(2))
    with False show ?thesis by simp
  qed
qed

subsection \<open>Bytes and characters\<close>

definition byte_of :: "char \<Rightarrow> byte" where
  "byte_of c = word_of_nat (of_char c)"

definition char_of_byte :: "byte \<Rightarrow> char" where
  "char_of_byte b = char_of (unat b)"

definition bytes_of :: "string \<Rightarrow> byte list" where
  "bytes_of s = map byte_of s"

definition string_of_bytes :: "byte list \<Rightarrow> string" where
  "string_of_bytes bs = map char_of_byte bs"

lemma unat_byte_of: "unat (byte_of c) = of_char c"
  using nat_of_char_less_256[of c]
  by (simp add: byte_of_def unat_of_nat take_bit_eq_mod)

lemma char_of_byte_of [simp]: "char_of_byte (byte_of c) = c"
  by (simp add: char_of_byte_def unat_byte_of)

lemma byte_of_char_of_byte [simp]: "byte_of (char_of_byte b) = b"
proof -
  have "unat b < 256" using unsigned_less[of b] by simp
  then have "of_char (char_of_byte b) = unat b"
    by (simp add: char_of_byte_def)
  then show ?thesis by (simp add: byte_of_def)
qed

lemma byte_of_inject [simp]: "byte_of c = byte_of d \<longleftrightarrow> c = d"
  by (metis char_of_byte_of)

lemma string_bytes_roundtrip [simp]: "string_of_bytes (bytes_of s) = s"
  by (induction s) (auto simp: string_of_bytes_def bytes_of_def)

lemma length_bytes_of [simp]: "length (bytes_of s) = length s"
  by (simp add: bytes_of_def)

subsection \<open>Windows\<close>

text \<open>The substrings of length three, in order: the trigrams of a text.\<close>

definition windows3 :: "'a list \<Rightarrow> 'a list list" where
  "windows3 xs = map (\<lambda>i. take 3 (drop i xs)) [0..<length xs - 2]"

lemma in_windows3_iff: "t \<in> set (windows3 xs) \<longleftrightarrow> length t = 3 \<and> sublist t xs"
proof
  assume "t \<in> set (windows3 xs)"
  then obtain i where i: "i < length xs - 2" "t = take 3 (drop i xs)"
    by (auto simp: windows3_def)
  moreover have "sublist (take 3 (drop i xs)) xs"
    by (meson sublist_drop sublist_order.order_trans sublist_take)
  ultimately show "length t = 3 \<and> sublist t xs" by auto
next
  assume t: "length t = 3 \<and> sublist t xs"
  then obtain ps ss where xs: "xs = ps @ t @ ss" by (auto simp: sublist_def)
  with t have "t = take 3 (drop (length ps) xs)" and "length ps < length xs - 2" by auto
  then show "t \<in> set (windows3 xs)" by (auto simp: windows3_def)
qed

lemma windows3_short: "length xs < 3 \<Longrightarrow> windows3 xs = []"
  by (simp add: windows3_def)

subsection \<open>Counting on words\<close>

lemma word_count_down: "0 < c \<Longrightarrow> unat (c - 1) < unat (c :: 'a::len word)"
proof -
  assume c: "0 < c"
  then have "c \<noteq> 0" by auto
  then have "unat (c - 1) = unat c - 1" by (rule unat_minus_one)
  moreover have "0 < unat c" using c by (simp add: word_less_nat_alt)
  ultimately show ?thesis by simp
qed

lemma word_count_up: "i < n \<Longrightarrow> unat (n - (i + 1)) < unat (n - i :: 'a::len word)"
proof -
  assume "i < n"
  then have "0 < n - i" by (simp add: word_gt_0)
  then have "unat (n - i - 1) < unat (n - i)" by (rule word_count_down)
  then show ?thesis by (simp add: diff_diff_eq)
qed

end
