(* ===== verification/String_Set.thy ===== *)
theory String_Set
  imports Prelude
begin

text \<open>
  The string sets of \<^verbatim>\<open>index/regexp.go\<close>: lists of strings that \<open>clean\<close> sorts, by prefix or by
  suffix, and rids of duplicates. The nil set of the source ("not having a set") is \<open>None\<close>
  where a component keeps one; the operations work on the elements.
\<close>

type_synonym string_set = "string list"

definition have_set :: "string_set option \<Rightarrow> bool" where
  "have_set s = (s \<noteq> None)"

fun ss_contains :: "string_set \<Rightarrow> string \<Rightarrow> bool" where
  "ss_contains [] str = False"
| "ss_contains (ss # s) str = (if ss = str then True else ss_contains s str)"

definition byPrefix_Less :: "string \<Rightarrow> string \<Rightarrow> bool" where
  "byPrefix_Less x y = (x < y)"

text \<open>The loop of \<^verbatim>\<open>bySuffix.Less\<close>, with \<open>i\<close> counting from the end of both strings.\<close>

function suffix_less_loop :: "string \<Rightarrow> string \<Rightarrow> nat \<Rightarrow> bool" where
  "suffix_less_loop s t i =
     (if i \<le> length s \<and> i \<le> length t then
        let si = s ! (length s - i); ti = t ! (length t - i)
        in if si < ti then True else if si > ti then False else suffix_less_loop s t (i + 1)
      else length s < length t)"
  by pat_completeness auto
termination by (relation "measure (\<lambda>(s, t, i). length s + 1 - i)") auto

declare suffix_less_loop.simps [simp del]

definition bySuffix_Less :: "string \<Rightarrow> string \<Rightarrow> bool" where
  "bySuffix_Less s t = suffix_less_loop s t 1"

text \<open>\<^verbatim>\<open>sort.Sort\<close> on either order. Strings that neither order tells apart are equal, so the
  result does not depend on how the library sorts.\<close>

definition ss_sort :: "bool \<Rightarrow> string_set \<Rightarrow> string_set" where
  "ss_sort isSuffix s = (if isSuffix then sort_key rev s else sort s)"

definition clean :: "bool \<Rightarrow> string_set \<Rightarrow> string_set" where
  "clean isSuffix s = keep_loop (=) [] (ss_sort isSuffix s)"

definition ss_add :: "string_set \<Rightarrow> string \<Rightarrow> string_set" where
  "ss_add s str = s @ [str]"

definition minLen :: "string_set \<Rightarrow> nat" where
  "minLen s = (if s = [] then 0
     else foldl (\<lambda>m str. if m > length str then length str else m) (length (hd s)) s)"

definition maxLen :: "string_set \<Rightarrow> nat" where
  "maxLen s = (if s = [] then 0
     else foldl (\<lambda>m str. if m < length str then length str else m) (length (hd s)) s)"

definition ss_union :: "string_set \<Rightarrow> string_set \<Rightarrow> bool \<Rightarrow> string_set" where
  "ss_union s t isSuffix = clean isSuffix (s @ t)"

definition cross :: "string_set \<Rightarrow> string_set \<Rightarrow> bool \<Rightarrow> string_set" where
  "cross s t isSuffix = clean isSuffix (concat (map (\<lambda>ss. map (\<lambda>tt. ss @ tt) t) s))"

text \<open>\<^verbatim>\<open>isSubsetOf\<close> walks \<open>t\<close> once; it is meant for sorted sets.\<close>

fun isSubsetOf :: "string_set \<Rightarrow> string_set \<Rightarrow> bool" where
  "isSubsetOf [] t = True"
| "isSubsetOf (ss # s) t =
     (let t' = dropWhile (\<lambda>x. x < ss) t
      in if t' = [] \<or> hd t' \<noteq> ss then False else isSubsetOf s t')"

subsection \<open>The orders\<close>

lemma Nil_less_iff: "[] < (xs :: 'a :: linorder list) \<longleftrightarrow> xs \<noteq> []"
  by (cases xs) auto

lemma suffix_less_loop_rev:
  "suffix_less_loop s t (Suc i) \<longleftrightarrow> drop i (rev s) < drop i (rev t)"
  if "i \<le> length s" "i \<le> length t"
  using that
proof (induction "length s - i" arbitrary: i)
  case 0
  then show ?case
    by (subst suffix_less_loop.simps) (auto simp: Nil_less_iff)
next
  case (Suc n)
  show ?case
  proof (cases "i < length t")
    case True
    have i: "i < length s" using Suc.hyps(2) by simp
    have s: "drop i (rev s) = s ! (length s - Suc i) # drop (Suc i) (rev s)"
      using i by (metis Cons_nth_drop_Suc length_rev rev_nth)
    have t: "drop i (rev t) = t ! (length t - Suc i) # drop (Suc i) (rev t)"
      using True by (metis Cons_nth_drop_Suc length_rev rev_nth)
    have "suffix_less_loop s t (Suc (Suc i)) \<longleftrightarrow> drop (Suc i) (rev s) < drop (Suc i) (rev t)"
      using Suc.hyps i True by (intro Suc.hyps(1)) auto
    then show ?thesis using i True
      by (subst suffix_less_loop.simps) (auto simp: s t Let_def)
  next
    case False
    then have "i = length t" using Suc.prems by simp
    then show ?thesis using Suc.hyps(2) by (subst suffix_less_loop.simps) auto
  qed
qed

lemma bySuffix_Less_rev: "bySuffix_Less s t \<longleftrightarrow> rev s < rev t"
  using suffix_less_loop_rev[of 0 s t] by (simp add: bySuffix_Less_def)

subsection \<open>Elements\<close>

lemma ss_contains_iff [simp]: "ss_contains s str \<longleftrightarrow> str \<in> set s"
  by (induction s) auto

lemma set_ss_sort [simp]: "set (ss_sort b s) = set s"
  by (simp add: ss_sort_def)

lemma set_clean [simp]: "set (clean b s) = set s"
  by (simp add: clean_def set_keep_loop_eq)

lemma set_ss_add [simp]: "set (ss_add s x) = insert x (set s)"
  by (simp add: ss_add_def)

lemma set_ss_union [simp]: "set (ss_union s t b) = set s \<union> set t"
  by (simp add: ss_union_def)

lemma set_cross: "set (cross s t b) = {x @ y | x y. x \<in> set s \<and> y \<in> set t}"
  by (auto simp: cross_def)

lemma in_cross: "x \<in> set s \<Longrightarrow> y \<in> set t \<Longrightarrow> x @ y \<in> set (cross s t b)"
  by (auto simp: set_cross)

lemma clean_strict_sorted: "sorted_wrt (<) (clean False s)"
  unfolding clean_def
  by (rule keep_loop_sorted_wrt [where Q = "(\<le>)"]) (auto simp: ss_sort_def transp_def)

lemma clean_suffix_sorted: "sorted_wrt bySuffix_Less (clean True s)"
  unfolding clean_def
proof (rule keep_loop_sorted_wrt [where Q = "\<lambda>x y. rev x \<le> rev y"])
  show "transp bySuffix_Less" by (auto simp: transp_def bySuffix_Less_rev)
  show "sorted_wrt (\<lambda>x y. rev x \<le> rev y) ([] @ ss_sort True s)"
    using sorted_sort_key[of rev s] by (simp add: ss_sort_def sorted_map)
qed (auto simp: bySuffix_Less_rev order.strict_iff_order)

lemma foldl_min_le:
  "foldl (\<lambda>m str. if m > length str then length str else m) a s \<le> a \<and>
   (\<forall>x \<in> set s. foldl (\<lambda>m str. if m > length str then length str else m) a s \<le> length (x :: 'a list))"
proof (induction s arbitrary: a)
  case Nil
  then show ?case by simp
next
  case (Cons y s)
  show ?case using Cons[of "if a > length y then length y else a"] by auto
qed

lemma minLen_le: "x \<in> set s \<Longrightarrow> minLen s \<le> length x"
  using foldl_min_le[of "length (hd s)" s] by (auto simp: minLen_def)

lemma foldl_min_mem:
  "foldl (\<lambda>m str. if m > length str then length str else m) a s \<in> insert a (length ` set (s :: 'a list list))"
proof (induction s arbitrary: a)
  case Nil
  then show ?case by simp
next
  case (Cons y s)
  show ?case using Cons[of "if a > length y then length y else a"] by (auto split: if_splits)
qed

lemma minLen_attained: "s \<noteq> [] \<Longrightarrow> \<exists>x \<in> set s. length x = minLen s"
  using foldl_min_mem[of "length (hd s)" s] by (cases s) (auto simp: minLen_def)

lemma minLen_pos_nonempty: "0 < minLen s \<Longrightarrow> s \<noteq> []"
  by (auto simp: minLen_def)

lemma isSubsetOf_sound: "isSubsetOf s t \<Longrightarrow> set s \<subseteq> set t"
proof (induction s arbitrary: t)
  case Nil
  then show ?case by simp
next
  case (Cons ss s)
  let ?t = "dropWhile (\<lambda>x. x < ss) t"
  from Cons.prems have "?t \<noteq> []" "hd ?t = ss" "isSubsetOf s ?t"
    by (auto simp: Let_def split: if_splits)
  then have "ss \<in> set ?t" "set s \<subseteq> set ?t" using Cons.IH by (metis hd_in_set, blast)
  then show ?case by (auto dest: set_dropWhileD)
qed

lemma dropWhile_less_keeps:
  "sorted_wrt (<) t \<Longrightarrow> (y :: 'a :: linorder) \<in> set t \<Longrightarrow> x \<le> y \<Longrightarrow> y \<in> set (dropWhile (\<lambda>z. z < x) t)"
  by (induction t) auto

lemma hd_dropWhile_member:
  "sorted_wrt (<) t \<Longrightarrow> (x :: 'a :: linorder) \<in> set t \<Longrightarrow>
     dropWhile (\<lambda>z. z < x) t \<noteq> [] \<and> hd (dropWhile (\<lambda>z. z < x) t) = x"
  by (induction t) auto

lemma sorted_wrt_dropWhile: "sorted_wrt P t \<Longrightarrow> sorted_wrt P (dropWhile Q t)"
  by (induction t) auto

lemma isSubsetOf_complete:
  "sorted_wrt (<) s \<Longrightarrow> sorted_wrt (<) t \<Longrightarrow> set s \<subseteq> set t \<Longrightarrow> isSubsetOf s t"
proof (induction s arbitrary: t)
  case Nil
  then show ?case by simp
next
  case (Cons ss s)
  let ?t = "dropWhile (\<lambda>x. x < ss) t"
  have hd: "?t \<noteq> []" "hd ?t = ss" using hd_dropWhile_member[of t ss] Cons.prems by auto
  have "set s \<subseteq> set ?t"
  proof
    fix y assume y: "y \<in> set s"
    then have "ss < y" using Cons.prems(1) by simp
    with y Cons.prems show "y \<in> set ?t"
      by (intro dropWhile_less_keeps) auto
  qed
  moreover have "sorted_wrt (<) ?t" using Cons.prems(2) by (rule sorted_wrt_dropWhile)
  ultimately have "isSubsetOf s ?t" using Cons.IH Cons.prems(1) by simp
  with hd show ?case by (simp add: Let_def)
qed

lemma isSubsetOf_iff:
  "sorted_wrt (<) s \<Longrightarrow> sorted_wrt (<) t \<Longrightarrow> isSubsetOf s t \<longleftrightarrow> set s \<subseteq> set t"
  using isSubsetOf_sound isSubsetOf_complete by blast

text \<open>\<open>clean\<close> keeps the elements and leaves them sorted with no duplicates, in the order of
  prefixes or, for suffix sets, in the order of the reversed strings.\<close>

theorem clean_normalises:
  "set (clean b s) = set s \<and> sorted_wrt (<) (map (if b then rev else id) (clean b s))"
proof (cases b)
  case True
  have "bySuffix_Less = (\<lambda>x y. rev x < rev y)" by (simp add: fun_eq_iff bySuffix_Less_rev)
  then show ?thesis using True clean_suffix_sorted[of s] by (simp add: sorted_wrt_map)
qed (use clean_strict_sorted[of s] in simp)

text \<open>\<open>isSubsetOf\<close>, one pass over both, decides inclusion of sorted sets.\<close>

theorem isSubsetOf_decides:
  assumes "sorted_wrt (<) s" and "sorted_wrt (<) t"
  shows "isSubsetOf s t \<longleftrightarrow> set s \<subseteq> set t"
  using assms by (rule isSubsetOf_iff)

lemma isSubsetOf_decides_witness:
  "isSubsetOf [''abc'', ''bcd''] [''abc'', ''abd'', ''bcd''] \<longleftrightarrow> set [''abc'', ''bcd''] \<subseteq> set [''abc'', ''abd'', ''bcd'']"
  by (rule isSubsetOf_decides) (simp_all add: less_char_def)

end
