(* ===== verification/Query.thy ===== *)
theory Query
  imports String_Set
begin

text \<open>
  The trigram queries of \<^verbatim>\<open>index/regexp.go\<close> and the Boolean simplifications on them. A query
  node has an operator, trigrams and sub-queries, as the struct has. The source reuses the storage
  of the nodes it combines; every node has one owner at a time (the shared \<^verbatim>\<open>allQuery\<close> and
  \<^verbatim>\<open>noneQuery\<close> are returned, never written), so queries are values here.

  \<open>qeval has q\<close> says what a query means, for a text known by the trigrams it has.
\<close>

datatype query_op = QAll | QNone | QAnd | QOr

datatype query = Query (q_op: query_op) (trigrams: "string list") (subs: "query list")

definition allQuery :: query where
  "allQuery = Query QAll [] []"

definition noneQuery :: query where
  "noneQuery = Query QNone [] []"

fun qeval :: "(string \<Rightarrow> bool) \<Rightarrow> query \<Rightarrow> bool" where
  "qeval has (Query QAll ts ss) = True"
| "qeval has (Query QNone ts ss) = False"
| "qeval has (Query QAnd ts ss) = (list_all has ts \<and> list_all (qeval has) ss)"
| "qeval has (Query QOr ts ss) = (list_ex has ts \<or> list_ex (qeval has) ss)"

text \<open>Constant nodes carry nothing.\<close>

fun wf_query :: "query \<Rightarrow> bool" where
  "wf_query (Query op ts ss) =
     ((op = QAll \<or> op = QNone \<longrightarrow> ts = [] \<and> ss = []) \<and> list_all wf_query ss)"

subsection \<open>Implication\<close>

fun trigramsImply :: "string list \<Rightarrow> query \<Rightarrow> bool" where
  "trigramsImply t (Query op ts ss) =
     (case op of
        QOr \<Rightarrow> list_ex (trigramsImply t) ss
               \<or> list_ex (\<lambda>x. isSubsetOf [x] ts) t
      | QAnd \<Rightarrow> list_all (trigramsImply t) ss \<and> isSubsetOf ts t
      | _ \<Rightarrow> False)"

definition implies :: "query \<Rightarrow> query \<Rightarrow> bool" where
  "implies q r =
     (if q_op q = QNone \<or> q_op r = QAll then True
      else if q_op q = QAll \<or> q_op r = QNone then False
      else if q_op q = QAnd \<or> q_op q = QOr \<and> length (trigrams q) = 1 \<and> length (subs q) = 0
      then trigramsImply (trigrams q) r
      else if q_op q = QOr \<and> q_op r = QOr \<and> length (trigrams q) > 0 \<and> length (subs q) = 0
              \<and> isSubsetOf (trigrams q) (trigrams r)
      then True
      else False)"

lemma trigramsImply_sound:
  "trigramsImply t q \<Longrightarrow> list_all has t \<Longrightarrow> qeval has q"
proof (induction t q rule: trigramsImply.induct)
  case (1 t op ts ss)
  show ?case
  proof (cases op)
    case QAnd
    with 1 have "set ts \<subseteq> set t" "\<forall>s \<in> set ss. qeval has s"
      by (auto simp: list_all_iff dest: isSubsetOf_sound)
    with QAnd 1(4) show ?thesis by (auto simp: list_all_iff)
  next
    case QOr
    from 1(3) QOr consider s where "s \<in> set ss" "trigramsImply t s"
      | x where "x \<in> set t" "isSubsetOf [x] ts"
      by (auto simp: list_ex_iff simp del: isSubsetOf.simps)
    then show ?thesis
    proof cases
      case 1
      then have "qeval has s" using "1.IH"(2)[OF QOr] "1.prems"(2) by blast
      with 1 QOr show ?thesis by (auto simp: list_ex_iff)
    next
      case 2
      then have "x \<in> set ts" using isSubsetOf_sound[of "[x]" ts] by simp
      with 2 "1.prems"(2) QOr show ?thesis by (auto simp: list_ex_iff list_all_iff)
    qed
  qed (use 1 in auto)
qed

lemma qeval_atom_or:
  "q_op q = QOr \<Longrightarrow> length (trigrams q) = 1 \<Longrightarrow> subs q = [] \<Longrightarrow>
     qeval has q = list_all has (trigrams q)"
  by (cases q; cases "trigrams q") auto

lemma implies_sound: "implies q r \<Longrightarrow> qeval has q \<Longrightarrow> qeval has r"
proof -
  assume imp: "implies q r" and q: "qeval has q"
  obtain qo qt qs where [simp]: "q = Query qo qt qs" by (cases q) auto
  obtain ro rt rs where [simp]: "r = Query ro rt rs" by (cases r) auto
  show "qeval has r"
  proof (cases "qo = QNone \<or> ro = QAll")
    case True
    with q show ?thesis by auto
  next
    case False
    show ?thesis
    proof (cases "qo = QAnd \<or> qo = QOr \<and> length qt = 1 \<and> qs = []")
      case True
      then have "list_all has qt" using q qeval_atom_or[of q has] by auto
      moreover have "trigramsImply qt r" using True False imp
        by (auto simp: implies_def split: if_splits)
      ultimately show ?thesis by (intro trigramsImply_sound)
    next
      case nand: False
      with False imp have "qo = QOr" "ro = QOr" "qs = []" "isSubsetOf qt rt"
        by (auto simp: implies_def split: if_splits)
      moreover from this have "set qt \<subseteq> set rt" by (simp add: isSubsetOf_sound)
      ultimately show ?thesis using q by (auto simp: list_ex_iff)
    qed
  qed
qed

subsection \<open>andOr\<close>

definition unwrap :: "query \<Rightarrow> query" where
  "unwrap q = (if length (trigrams q) = 0 \<and> length (subs q) = 1 then hd (subs q) else q)"

definition is_atom :: "query \<Rightarrow> bool" where
  "is_atom q = (length (trigrams q) = 1 \<and> length (subs q) = 0)"

text \<open>\<^verbatim>\<open>QAnd + QOr - op\<close>, for the two operators \<open>andOr\<close> is called with.\<close>

definition other_op :: "query_op \<Rightarrow> query_op" where
  "other_op op = (if op = QAnd then QOr else QAnd)"

text \<open>The loop that factors the common trigrams out of the two lists: what is left of the first, what
  is left of the second, and the common ones.\<close>

fun factor :: "string list \<Rightarrow> string list \<Rightarrow> string list \<times> string list \<times> string list" where
  "factor (qt # q) (rt # r) =
     (if qt < rt then (case factor q (rt # r) of (a, b, c) \<Rightarrow> (qt # a, b, c))
      else if qt > rt then (case factor (qt # q) r of (a, b, c) \<Rightarrow> (a, rt # b, c))
      else (case factor q r of (a, b, c) \<Rightarrow> (a, b, qt # c)))"
| "factor q r = (q, r, [])"

fun tri_count :: "query \<Rightarrow> nat" where
  "tri_count (Query op ts ss) = length ts + sum_list (map tri_count ss)"

lemma factor_set:
  "factor q r = (a, b, c) \<Longrightarrow> set q = set a \<union> set c \<and> set r = set b \<union> set c"
  by (induction q r arbitrary: a b c rule: factor.induct) (auto split: if_splits prod.splits)

lemma factor_length:
  "factor q r = (a, b, c) \<Longrightarrow> length a + length c = length q \<and> length b + length c = length r"
  by (induction q r arbitrary: a b c rule: factor.induct) (auto split: if_splits prod.splits)

lemma factor_shrinks:
  "factor q r = (a, b, c) \<Longrightarrow> c \<noteq> [] \<Longrightarrow> length a < length q \<and> length b < length r"
  using factor_length[of q r a b c] by (cases c) auto

lemma tri_count_eq: "tri_count q = length (trigrams q) + sum_list (map tri_count (subs q))"
  by (cases q) auto

lemma tri_count_unwrap: "tri_count (unwrap q) \<le> tri_count q"
proof (cases "length (trigrams q) = 0 \<and> length (subs q) = 1")
  case True
  then obtain s where "subs q = [s]" by (auto simp: length_Suc_conv)
  with True show ?thesis by (cases q) (auto simp: unwrap_def)
next
  case False
  then have "unwrap q = q" by (auto simp: unwrap_def)
  then show ?thesis by simp
qed

function andOr :: "query \<Rightarrow> query \<Rightarrow> query_op \<Rightarrow> query" where
  "andOr q0 r0 op =
     (let q = unwrap q0; r = unwrap r0
      in if implies q r then (if op = QAnd then q else r)
         else if implies r q then (if op = QAnd then r else q)
         else if q_op q = op \<and> (q_op r = op \<or> is_atom r)
         then Query (q_op q) (ss_union (trigrams q) (trigrams r) False) (subs q @ subs r)
         else if q_op r = op \<and> is_atom q
         then Query (q_op r) (ss_union (trigrams r) (trigrams q) False) (subs r)
         else if is_atom q \<and> is_atom r
         then Query op (trigrams q @ trigrams r) (subs q)
         else if q_op q = op then Query (q_op q) (trigrams q) (subs q @ [r])
         else if q_op r = op then Query (q_op r) (trigrams r) (subs r @ [q])
         else case factor (trigrams q) (trigrams r) of (qt, rt, common) \<Rightarrow>
           let q' = Query (q_op q) qt (subs q); r' = Query (q_op r) rt (subs r)
           in if length common > 0
              then let s = andOr q' r' op
                   in andOr (Query (other_op op) common []) s (other_op op)
              else Query op [] [q', r'])"
  by pat_completeness auto
termination
proof (relation "measure (\<lambda>(q, r, op). if q_op q = op \<and> trigrams q \<noteq> [] then 0
         else Suc (tri_count q + tri_count r))", goal_cases)
  case 1
  then show ?case by simp
next
  case (2 q0 r0 op q r qt y rt common q' r')
  have ne: "q_op q \<noteq> op" using 2 by blast
  then have "\<not> (q_op q0 = op \<and> trigrams q0 \<noteq> [])" using 2(1) by (auto simp: unwrap_def split: if_splits)
  moreover have "tri_count q' < tri_count q" "tri_count r' \<le> tri_count r"
    using factor_shrinks[of "trigrams q" "trigrams r" qt rt common] 2
    by (auto simp: tri_count_eq[of "unwrap q0"] tri_count_eq[of "unwrap r0"])
  moreover have "tri_count q \<le> tri_count q0" "tri_count r \<le> tri_count r0"
    using tri_count_unwrap 2 by auto
  ultimately show ?case using ne 2 by auto
next
  case (3 q0 r0 op q r qt y rt common q' r' s)
  have "q_op q \<noteq> op" using 3 by blast
  then have "\<not> (q_op q0 = op \<and> trigrams q0 \<noteq> [])" using 3(1) by (auto simp: unwrap_def split: if_splits)
  with 3 show ?case by auto
qed

declare andOr.simps [simp del]

definition and_query :: "query \<Rightarrow> query \<Rightarrow> query" where
  "and_query q r = andOr q r QAnd"

definition or_query :: "query \<Rightarrow> query \<Rightarrow> query" where
  "or_query q r = andOr q r QOr"

subsection \<open>andOr keeps the meaning\<close>

definition op_eval :: "query_op \<Rightarrow> bool \<Rightarrow> bool \<Rightarrow> bool" where
  "op_eval op a b = (if op = QAnd then a \<and> b else a \<or> b)"

definition node_eval :: "(string \<Rightarrow> bool) \<Rightarrow> query_op \<Rightarrow> string set \<Rightarrow> query set \<Rightarrow> bool" where
  "node_eval has op T S =
     (if op = QAnd then (\<forall>t\<in>T. has t) \<and> (\<forall>s\<in>S. qeval has s)
      else (\<exists>t\<in>T. has t) \<or> (\<exists>s\<in>S. qeval has s))"

lemma qeval_node:
  "op = QAnd \<or> op = QOr \<Longrightarrow> qeval has (Query op ts ss) = node_eval has op (set ts) (set ss)"
  by (auto simp: node_eval_def list_all_iff list_ex_iff)

lemma qeval_node':
  "q_op q = QAnd \<or> q_op q = QOr \<Longrightarrow>
     qeval has q = node_eval has (q_op q) (set (trigrams q)) (set (subs q))"
  by (cases q) (simp add: qeval_node)

lemma qeval_atom: "is_atom q \<Longrightarrow> q_op q = QAnd \<or> q_op q = QOr \<Longrightarrow> op = QAnd \<or> op = QOr \<Longrightarrow>
     node_eval has op (set (trigrams q)) (set (subs q)) = qeval has q"
  by (auto simp: qeval_node' node_eval_def is_atom_def length_Suc_conv)

lemma unwrap_wf: "wf_query q \<Longrightarrow> wf_query (unwrap q)"
  by (cases q; cases "subs q") (auto simp: unwrap_def)

lemma unwrap_eval: "wf_query q \<Longrightarrow> qeval has (unwrap q) = qeval has q"
proof (cases "length (trigrams q) = 0 \<and> length (subs q) = 1")
  case True
  assume "wf_query q"
  moreover obtain s where "subs q = [s]" using True by (auto simp: length_Suc_conv)
  moreover obtain op ts ss where "q = Query op ts ss" by (cases q)
  ultimately show ?thesis using True by (cases op) (auto simp: unwrap_def)
next
  case False
  then have "unwrap q = q" by (auto simp: unwrap_def)
  then show ?thesis by simp
qed

lemma wf_const: "wf_query q \<Longrightarrow> q_op q \<noteq> QAnd \<Longrightarrow> q_op q \<noteq> QOr \<Longrightarrow> q = allQuery \<or> q = noneQuery"
  by (cases q; cases "q_op q") (auto simp: allQuery_def noneQuery_def)

lemma not_implies_proper:
  "\<not> implies q r \<Longrightarrow> \<not> implies r q \<Longrightarrow>
     (q_op q = QAnd \<or> q_op q = QOr) \<and> (q_op r = QAnd \<or> q_op r = QOr)"
  by (cases "q_op q"; cases "q_op r") (auto simp: implies_def)

lemma op_eval_union:
  "op = QAnd \<or> op = QOr \<Longrightarrow>
     node_eval has op (A \<union> B) (C \<union> D) = op_eval op (node_eval has op A C) (node_eval has op B D)"
  by (auto simp: op_eval_def node_eval_def)

lemma op_eval_sub:
  "op = QAnd \<or> op = QOr \<Longrightarrow>
     node_eval has op A (insert r C) = op_eval op (node_eval has op A C) (qeval has r)"
  by (auto simp: op_eval_def node_eval_def)

lemma op_eval_comm: "op_eval op a b = op_eval op b a"
  by (auto simp: op_eval_def)

lemma node_eval_factor:
  assumes "op = QAnd \<or> op = QOr" and "op' = other_op op"
  shows "op_eval op (node_eval has op' (A \<union> C) S) (node_eval has op' (B \<union> C) T)
       = op_eval op' (node_eval has op' C {}) (op_eval op (node_eval has op' A S) (node_eval has op' B T))"
  using assms by (auto simp: op_eval_def node_eval_def other_op_def)

lemma andOr_step:
  assumes q: "q = unwrap q0" and r: "r = unwrap r0"
    and ni: "\<not> implies q r" "\<not> implies r q"
    and f: "factor (trigrams q) (trigrams r) = (qt, rt, common)"
    and ops: "q_op q \<noteq> op" "q_op r \<noteq> op" and na: "\<not> (is_atom q \<and> is_atom r)"
  shows "andOr q0 r0 op =
    (if common \<noteq> []
     then andOr (Query (other_op op) common [])
            (andOr (Query (q_op q) qt (subs q)) (Query (q_op r) rt (subs r)) op) (other_op op)
     else Query op [] [Query (q_op q) qt (subs q), Query (q_op r) rt (subs r)])"
  using assms by (subst andOr.simps) (auto simp: Let_def)

theorem andOr_correct:
  assumes "wf_query q0" "wf_query r0" "op = QAnd \<or> op = QOr"
  shows "wf_query (andOr q0 r0 op)
       \<and> (\<forall>has. qeval has (andOr q0 r0 op) = op_eval op (qeval has q0) (qeval has r0))"
  using assms
proof (induction q0 r0 op rule: andOr.induct)
  case (1 q0 r0 op)
  define q where "q = unwrap q0"
  define r where "r = unwrap r0"
  have wf: "wf_query q" "wf_query r" using "1.prems" by (auto simp: q_def r_def unwrap_wf)
  have ev: "qeval has q0 = qeval has q" "qeval has r0 = qeval has r" for has
    using "1.prems" by (auto simp: q_def r_def unwrap_eval)
  note op = \<open>op = QAnd \<or> op = QOr\<close>
  consider (imp) "implies q r \<or> implies r q" | (no) "\<not> implies q r" "\<not> implies r q" by blast
  then show ?case
  proof cases
    case imp
    then have eq: "andOr q0 r0 op = (if implies q r then (if op = QAnd then q else r)
        else if op = QAnd then r else q)"
      by (subst andOr.simps) (auto simp: Let_def simp flip: q_def r_def)
    show ?thesis
    proof (cases "implies q r")
      case True
      then show ?thesis using wf op implies_sound[of q r] unfolding eq
        by (auto simp: ev op_eval_def)
    next
      case False
      then show ?thesis using imp wf op implies_sound[of r q] unfolding eq
        by (auto simp: ev op_eval_def)
    qed
  next
    case no
    then have pr: "q_op q = QAnd \<or> q_op q = QOr" "q_op r = QAnd \<or> q_op r = QOr"
      using not_implies_proper by blast+
    have qe: "qeval has q = node_eval has (q_op q) (set (trigrams q)) (set (subs q))"
         and re: "qeval has r = node_eval has (q_op r) (set (trigrams r)) (set (subs r))" for has
      using pr by (simp_all add: qeval_node')
    have wfs: "list_all wf_query (subs q)" "list_all wf_query (subs r)"
      using wf by (cases q, simp) (use wf in \<open>cases r, simp\<close>)
    consider (merge) "q_op q = op" "q_op r = op \<or> is_atom r"
      | (mergeR) "q_op q \<noteq> op \<or> \<not> (q_op r = op \<or> is_atom r)" "q_op r = op" "is_atom q"
      | (atoms) "q_op q \<noteq> op" "q_op r \<noteq> op" "is_atom q" "is_atom r"
      | (addq) "q_op q = op" "q_op r \<noteq> op" "\<not> is_atom r"
      | (addr) "q_op q \<noteq> op" "q_op r = op" "\<not> is_atom q"
      | (fac) "q_op q \<noteq> op" "q_op r \<noteq> op" "\<not> (is_atom q \<and> is_atom r)"
      by blast
    then show ?thesis
    proof cases
      case merge
      then have eq: "andOr q0 r0 op
          = Query op (ss_union (trigrams q) (trigrams r) False) (subs q @ subs r)"
        using no by (subst andOr.simps) (auto simp: Let_def simp flip: q_def r_def)
      have "node_eval has op (set (trigrams r)) (set (subs r)) = qeval has r" for has
        using merge(2) qeval_atom[of r op has] re pr op by auto
      then show ?thesis unfolding eq using wfs op merge
        by (auto simp: qeval_node op_eval_union ev qe)
    next
      case mergeR
      then have eq: "andOr q0 r0 op = Query op (ss_union (trigrams r) (trigrams q) False) (subs r)"
        using no by (subst andOr.simps) (auto simp: Let_def simp flip: q_def r_def)
      have "node_eval has op (set (trigrams q)) (set (subs q)) = qeval has q" for has
        using mergeR qeval_atom[of q op has] pr op by auto
      moreover have "subs q = []" using mergeR by (simp add: is_atom_def)
      ultimately have "qeval has (andOr q0 r0 op) = op_eval op (qeval has r) (qeval has q)" for has
        unfolding eq using op mergeR op_eval_union[of op has "set (trigrams r)" "set (trigrams q)" "set (subs r)" "{}"]
        by (simp add: qeval_node re)
      then show ?thesis unfolding eq using wfs op by (auto simp: ev op_eval_comm)
    next
      case atoms
      then have eq: "andOr q0 r0 op = Query op (trigrams q @ trigrams r) (subs q)"
        using no by (subst andOr.simps) (auto simp: Let_def simp flip: q_def r_def)
      have "subs q = []" "subs r = []" using atoms by (auto simp: is_atom_def)
      then have "qeval has (andOr q0 r0 op) = op_eval op (qeval has q) (qeval has r)" for has
        unfolding eq using op pr qeval_atom[of q op has] qeval_atom[of r op has] atoms
          op_eval_union[of op has "set (trigrams q)" "set (trigrams r)" "{}" "{}"]
        by (simp add: qeval_node)
      then show ?thesis unfolding eq using wfs op by (auto simp: ev)
    next
      case addq
      then have eq: "andOr q0 r0 op = Query op (trigrams q) (subs q @ [r])"
        using no by (subst andOr.simps) (auto simp: Let_def simp flip: q_def r_def)
      show ?thesis unfolding eq using wfs wf op addq
        by (auto simp: qeval_node op_eval_sub ev qe)
    next
      case addr
      then have eq: "andOr q0 r0 op = Query op (trigrams r) (subs r @ [q])"
        using no by (subst andOr.simps) (auto simp: Let_def simp flip: q_def r_def)
      show ?thesis unfolding eq using wfs wf op addr
        by (auto simp: qeval_node op_eval_sub ev re op_eval_comm)
    next
      case fac
      obtain qt rt common where f: "factor (trigrams q) (trigrams r) = (qt, rt, common)"
        by (metis prod_cases3)
      have oq: "q_op q = other_op op" "q_op r = other_op op"
        using fac op pr by (auto simp: other_op_def)
      have oop: "other_op op = QAnd \<or> other_op op = QOr" by (auto simp: other_op_def)
      note fs = factor_set[OF f]
      let ?q = "Query (q_op q) qt (subs q)" and ?r = "Query (q_op r) rt (subs r)"
      have wf': "wf_query ?q" "wf_query ?r" using wfs pr by auto
      have split: "op_eval op (qeval has q) (qeval has r)
          = op_eval (other_op op) (node_eval has (other_op op) (set common) {})
              (op_eval op (qeval has ?q) (qeval has ?r))" for has
        using node_eval_factor[OF op refl, of has "set qt" "set common" "set (subs q)" "set rt" "set (subs r)"]
          fs oop by (simp add: qe re oq qeval_node)
      note step = andOr_step[OF q_def r_def no f fac]
      show ?thesis
      proof (cases "common = []")
        case True
        have "node_eval has (other_op op) {} {} = (other_op op = QAnd)" for has
          by (simp add: node_eval_def)
        with step True wf' op split show ?thesis
          by (auto simp: ev op_eval_def list_all_iff list_ex_iff)
      next
        case False
        let ?s = "andOr ?q ?r op" and ?t = "Query (other_op op) common []"
        have s: "wf_query ?s" "qeval has ?s = op_eval op (qeval has ?q) (qeval has ?r)" for has
          using "1.IH"(1)[OF q_def r_def, of qt _ rt common ?q ?r] no fac f False wf' op
          by (auto simp: is_atom_def)
        have "wf_query (andOr ?t ?s (other_op op)) \<and> (\<forall>has. qeval has (andOr ?t ?s (other_op op))
            = op_eval (other_op op) (qeval has ?t) (qeval has ?s))"
          using "1.IH"(2)[OF q_def r_def, of qt _ rt common ?q ?r ?s] no fac f False s(1) oop
          by (auto simp: is_atom_def)
        with step False s(2) split oop show ?thesis
          by (simp add: ev qeval_node)
      qed
    qed
  qed
qed

lemmas wf_andOr = andOr_correct [THEN conjunct1]
lemmas qeval_andOr = andOr_correct [THEN conjunct2, rule_format]

lemma wf_and_or [intro]:
  "wf_query q \<Longrightarrow> wf_query r \<Longrightarrow> wf_query (and_query q r)"
  "wf_query q \<Longrightarrow> wf_query r \<Longrightarrow> wf_query (or_query q r)"
  by (auto simp: and_query_def or_query_def intro: wf_andOr)

lemma qeval_and_or:
  "wf_query q \<Longrightarrow> wf_query r \<Longrightarrow> qeval has (and_query q r) = (qeval has q \<and> qeval has r)"
  "wf_query q \<Longrightarrow> wf_query r \<Longrightarrow> qeval has (or_query q r) = (qeval has q \<or> qeval has r)"
  by (auto simp: and_query_def or_query_def qeval_andOr op_eval_def)

subsection \<open>maybeRewrite\<close>

text \<open>
  \<^verbatim>\<open>maybeRewrite\<close> is not called anywhere. Its last two steps are not alternatives: after the wrapper
  of a single sub-query is thrown away, the operator of that sub-query is overwritten.
\<close>

definition maybeRewrite :: "query \<Rightarrow> query_op \<Rightarrow> query" where
  "maybeRewrite q op =
     (if q_op q \<noteq> QAnd \<and> q_op q \<noteq> QOr then q
      else let n = length (subs q) + length (trigrams q)
      in if n > 1 then q
         else if n = 0 then (if q_op q = QAnd then Query QAll (trigrams q) (subs q)
                             else Query QNone (trigrams q) (subs q))
         else let q' = (if length (subs q) = 1 then hd (subs q) else q)
              in Query op (trigrams q') (subs q'))"

lemma maybeRewrite_eval:
  assumes "wf_query q" "op = QAnd \<or> op = QOr" "subs q = []"
  shows "qeval has (maybeRewrite q op) = qeval has q"
  using assms
  by (cases q; cases "q_op q"; cases "trigrams q") (auto simp: maybeRewrite_def)

subsection \<open>andTrigrams\<close>

definition trigram_set :: "string \<Rightarrow> string list" where
  "trigram_set tt = clean False (map (\<lambda>i. take 3 (drop i tt)) [0..<length tt - 2])"

definition andTrigrams :: "query \<Rightarrow> string_set \<Rightarrow> query" where
  "andTrigrams q t =
     (if minLen t < 3 then q
      else and_query q (foldl (\<lambda>acc tt. or_query acc (Query QAnd (trigram_set tt) [])) noneQuery t))"

lemma set_trigram_set: "set (trigram_set tt) = set (windows3 tt)"
  by (simp add: trigram_set_def windows3_def)

lemma or_of_ands:
  assumes "wf_query acc"
  shows "wf_query (foldl (\<lambda>acc tt. or_query acc (Query QAnd (trigram_set tt) [])) acc t)
     \<and> (\<forall>has. qeval has (foldl (\<lambda>acc tt. or_query acc (Query QAnd (trigram_set tt) [])) acc t)
          = (qeval has acc \<or> (\<exists>tt\<in>set t. \<forall>g\<in>set (windows3 tt). has g)))"
  using assms
proof (induction t arbitrary: acc)
  case Nil
  then show ?case by simp
next
  case (Cons tt t)
  have "wf_query (Query QAnd (trigram_set tt) [])" by simp
  with Cons.prems have "wf_query (or_query acc (Query QAnd (trigram_set tt) []))" by blast
  from Cons.IH[OF this] Cons.prems show ?case
    by (auto simp: qeval_and_or list_all_iff set_trigram_set)
qed

lemma andTrigrams_wf: "wf_query q \<Longrightarrow> wf_query (andTrigrams q t)"
  using or_of_ands[of noneQuery t] by (auto simp: andTrigrams_def noneQuery_def)

lemma andTrigrams_eval:
  "wf_query q \<Longrightarrow> qeval has (andTrigrams q t)
     = (qeval has q \<and> (minLen t < 3 \<or> (\<exists>tt\<in>set t. \<forall>g\<in>set (windows3 tt). has g)))"
  using or_of_ands[of noneQuery t]
  by (auto simp: andTrigrams_def noneQuery_def qeval_and_or)

text \<open>A text that contains one of the strings satisfies the query that andTrigrams adds.\<close>

lemma andTrigrams_sublist:
  assumes "wf_query q" and "qeval has q" and "tt \<in> set t"
    and "\<And>g. sublist g tt \<Longrightarrow> has g"
  shows "qeval has (andTrigrams q t)"
proof -
  have "\<forall>g\<in>set (windows3 tt). has g" using assms(4) by (auto simp: in_windows3_iff)
  with assms(1-3) show ?thesis by (auto simp: andTrigrams_eval)
qed

lemma qeval_mono: "qeval has q \<Longrightarrow> (\<And>t. has t \<Longrightarrow> has' t) \<Longrightarrow> qeval has' q"
proof (induction has q rule: qeval.induct)
  case (3 has ts ss)
  then show ?case by (auto simp: list_all_iff)
next
  case (4 has ts ss)
  then show ?case by (auto simp: list_ex_iff)
qed auto

subsection \<open>Printing\<close>

text \<open>\<^verbatim>\<open>Query.String\<close>; \<open>quote\<close> stands for \<^verbatim>\<open>strconv.Quote\<close>.\<close>

fun join :: "string \<Rightarrow> string list \<Rightarrow> string" where
  "join sep [] = []"
| "join sep [x] = x"
| "join sep (x # xs) = x @ sep @ join sep xs"

fun query_String :: "(string \<Rightarrow> string) \<Rightarrow> query \<Rightarrow> string" where
  "query_String quote (Query op ts ss) =
     (if op = QNone then ''-''
      else if op = QAll then ''+''
      else if length ss = 0 \<and> length ts = 1 then quote (hd ts)
      else let (s, sjoin, endS, tjoin) =
             (if op = QAnd then ([], '' '', [], '' '') else (''('', '')|('', '')'', ''|''))
           in s @ join tjoin (map quote ts)
              @ (if length ss > 0
                 then (if length ts > 0 then sjoin else []) @ join sjoin (map (query_String quote) ss)
                 else [])
              @ endS)"

text \<open>C9. The simplifying \<open>and\<close> and \<open>or\<close> keep the meaning: whatever rewriting \<open>andOr\<close> chooses
  (implication, absorption, unwrapping, merging of trigram lists, factoring of common trigrams), the
  query it returns is true of exactly the texts both, or one, of its arguments are true of.\<close>

theorem and_or_meaning:
  assumes "wf_query q" and "wf_query r"
  shows "wf_query (and_query q r) \<and> wf_query (or_query q r)
    \<and> (\<forall>has. qeval has (and_query q r) = (qeval has q \<and> qeval has r))
    \<and> (\<forall>has. qeval has (or_query q r) = (qeval has q \<or> qeval has r))"
  using assms by (auto simp: qeval_and_or)

lemma and_or_meaning_witness:
  "\<forall>has. qeval has (or_query (Query QAnd [''abc'', ''bcd''] []) (Query QAnd [''abc'', ''xyz''] []))
    = (has ''abc'' \<and> (has ''bcd'' \<or> has ''xyz''))"
  using and_or_meaning[of "Query QAnd [''abc'', ''bcd''] []" "Query QAnd [''abc'', ''xyz''] []"] by auto

text \<open>C28. \<open>implies\<close> errs on one side only: when it says that a query implies another, it does.\<close>

theorem implies_correct:
  assumes "implies q r" and "qeval has q"
  shows "qeval has r"
  using assms by (rule implies_sound)

lemma implies_correct_witness:
  "qeval (\<lambda>t. t = ''abc'' \<or> t = ''bcd'') (Query QOr [''abc'', ''xyz''] [])"
  by (rule implies_correct[of "Query QAnd [''abc'', ''bcd''] []"])
    (simp_all add: implies_def less_char_def)

end
