(* ===== verification/Regexp_Syntax.thy ===== *)
theory Regexp_Syntax
  imports Prelude
begin

text \<open>
  What the repository uses of Go's \<^verbatim>\<open>regexp/syntax\<close> and \<^verbatim>\<open>unicode/utf8\<close>: the parsed regular
  expressions, the UTF-8 encoding of a rune, and what text an expression matches. A match is
  relative to the text before and after it, because of the empty-width assertions. The case
  folding of the \<^verbatim>\<open>unicode\<close> package, \<^verbatim>\<open>SimpleFold\<close>, is a parameter \<open>sf\<close>; its documentation
  says that iterating it runs through the runes of one folding class and comes back.
\<close>

type_synonym rune = int

datatype regexp =
    OpNoMatch
  | OpEmptyMatch
  | OpLiteral bool "rune list"      \<comment> \<open>the flag FoldCase, the runes\<close>
  | OpCharClass "rune list"         \<comment> \<open>pairs lo, hi\<close>
  | OpAnyCharNotNL
  | OpAnyChar
  | OpBeginLine
  | OpEndLine
  | OpBeginText
  | OpEndText
  | OpWordBoundary
  | OpNoWordBoundary
  | OpCapture regexp
  | OpStar regexp
  | OpPlus regexp
  | OpQuest regexp
  | OpRepeat int int regexp         \<comment> \<open>Min, Max (-1: none)\<close>
  | OpConcat "regexp list"
  | OpAlternate "regexp list"

subsection \<open>Runes\<close>

text \<open>\<^verbatim>\<open>utf8.EncodeRune\<close>, which is also the conversion \<^verbatim>\<open>string(r)\<close>: a value that is no valid rune is
  encoded as U+FFFD.\<close>

definition valid_rune :: "rune \<Rightarrow> bool" where
  "valid_rune r = (0 \<le> r \<and> r < 0xD800 \<or> 0xDFFF < r \<and> r \<le> 0x10FFFF)"

definition chr :: "int \<Rightarrow> char" where
  "chr n = char_of (nat n)"

definition encode_rune :: "rune \<Rightarrow> string" where
  "encode_rune r0 =
     (let r = (if valid_rune r0 then r0 else 0xFFFD)
      in if r < 0x80 then [chr r]
         else if r < 0x800 then [chr (0xC0 + r div 0x40), chr (0x80 + r mod 0x40)]
         else if r < 0x10000 then
           [chr (0xE0 + r div 0x1000), chr (0x80 + r div 0x40 mod 0x40), chr (0x80 + r mod 0x40)]
         else [chr (0xF0 + r div 0x40000), chr (0x80 + r div 0x1000 mod 0x40),
               chr (0x80 + r div 0x40 mod 0x40), chr (0x80 + r mod 0x40)])"

definition encode_runes :: "rune list \<Rightarrow> string" where
  "encode_runes rs = concat (map encode_rune rs)"

lemma encode_rune_nonempty: "encode_rune r \<noteq> []"
  by (simp add: encode_rune_def Let_def)

subsection \<open>Matching\<close>

fun class_runes :: "rune list \<Rightarrow> rune set" where
  "class_runes [] = {}"
| "class_runes [x] = {x}"
| "class_runes (lo # hi # rs) = {lo..hi} \<union> class_runes rs"

definition fold_orbit :: "(rune \<Rightarrow> rune) \<Rightarrow> rune \<Rightarrow> rune set" where
  "fold_orbit sf r = {(sf ^^ n) r | n. True}"

definition literal_runes :: "(rune \<Rightarrow> rune) \<Rightarrow> bool \<Rightarrow> rune \<Rightarrow> rune set" where
  "literal_runes sf fc r = (if fc then fold_orbit sf r else {r})"

definition is_word_char :: "char \<Rightarrow> bool" where
  "is_word_char c = (CHR ''A'' \<le> c \<and> c \<le> CHR ''Z'' \<or> CHR ''a'' \<le> c \<and> c \<le> CHR ''z''
     \<or> CHR ''0'' \<le> c \<and> c \<le> CHR ''9'' \<or> c = CHR ''_'')"

definition at_word_boundary :: "string \<Rightarrow> string \<Rightarrow> bool" where
  "at_word_boundary l r =
     ((l \<noteq> [] \<and> is_word_char (last l)) \<noteq> (r \<noteq> [] \<and> is_word_char (hd r)))"

text \<open>\<open>rmatch sf re l w r\<close>: the expression matches \<open>w\<close> in the text \<open>l @ w @ r\<close>.\<close>

inductive rmatch :: "(rune \<Rightarrow> rune) \<Rightarrow> regexp \<Rightarrow> string \<Rightarrow> string \<Rightarrow> string \<Rightarrow> bool"
  and rmatches :: "(rune \<Rightarrow> rune) \<Rightarrow> regexp list \<Rightarrow> string \<Rightarrow> string \<Rightarrow> string \<Rightarrow> bool"
  for sf where
  m_empty: "rmatch sf OpEmptyMatch l [] r"
| m_literal: "list_all2 (\<lambda>x y. y \<in> literal_runes sf fc x) rs rs' \<Longrightarrow>
    rmatch sf (OpLiteral fc rs) l (encode_runes rs') r"
| m_class: "x \<in> class_runes rs \<Longrightarrow> rmatch sf (OpCharClass rs) l (encode_rune x) r"
| m_any_not_nl: "x \<noteq> 10 \<Longrightarrow> rmatch sf OpAnyCharNotNL l (encode_rune x) r"
| m_any: "rmatch sf OpAnyChar l (encode_rune x) r"
| m_begin_line: "l = [] \<or> last l = CHR 0x0A \<Longrightarrow> rmatch sf OpBeginLine l [] r"
| m_end_line: "r = [] \<or> hd r = CHR 0x0A \<Longrightarrow> rmatch sf OpEndLine l [] r"
| m_begin_text: "rmatch sf OpBeginText [] [] r"
| m_end_text: "rmatch sf OpEndText l [] []"
| m_word: "at_word_boundary l r \<Longrightarrow> rmatch sf OpWordBoundary l [] r"
| m_no_word: "\<not> at_word_boundary l r \<Longrightarrow> rmatch sf OpNoWordBoundary l [] r"
| m_capture: "rmatch sf re l w r \<Longrightarrow> rmatch sf (OpCapture re) l w r"
| m_star: "rmatches sf (replicate n re) l w r \<Longrightarrow> rmatch sf (OpStar re) l w r"
| m_plus: "rmatches sf (replicate (Suc n) re) l w r \<Longrightarrow> rmatch sf (OpPlus re) l w r"
| m_quest: "n \<le> 1 \<Longrightarrow> rmatches sf (replicate n re) l w r \<Longrightarrow> rmatch sf (OpQuest re) l w r"
| m_repeat: "mn \<le> int n \<Longrightarrow> mx = -1 \<or> int n \<le> mx \<Longrightarrow> rmatches sf (replicate n re) l w r \<Longrightarrow>
    rmatch sf (OpRepeat mn mx re) l w r"
| m_concat: "rmatches sf res l w r \<Longrightarrow> rmatch sf (OpConcat res) l w r"
| m_alternate: "re \<in> set res \<Longrightarrow> rmatch sf re l w r \<Longrightarrow> rmatch sf (OpAlternate res) l w r"
| ms_nil: "rmatches sf [] l [] r"
| ms_cons: "rmatch sf re l u (v @ r) \<Longrightarrow> rmatches sf res (l @ u) v r \<Longrightarrow>
    rmatches sf (re # res) l (u @ v) r"

inductive_cases rmatch_cases [elim!]:
  "rmatch sf OpNoMatch l w r"
  "rmatch sf OpEmptyMatch l w r"
  "rmatch sf (OpLiteral fc rs) l w r"
  "rmatch sf (OpCharClass rs) l w r"
  "rmatch sf OpBeginLine l w r"
  "rmatch sf OpEndLine l w r"
  "rmatch sf OpBeginText l w r"
  "rmatch sf OpEndText l w r"
  "rmatch sf OpWordBoundary l w r"
  "rmatch sf OpNoWordBoundary l w r"
  "rmatch sf (OpCapture re) l w r"

inductive_cases rmatch_loops:
  "rmatch sf (OpStar re) l w r"
  "rmatch sf (OpPlus re) l w r"
  "rmatch sf (OpQuest re) l w r"
  "rmatch sf (OpRepeat mn mx re) l w r"

inductive_simps rmatch_concat_iff: "rmatch sf (OpConcat res) l w r"
inductive_simps rmatch_alternate_iff: "rmatch sf (OpAlternate res) l w r"
inductive_simps rmatches_nil_iff [simp]: "rmatches sf [] l w r"
inductive_simps rmatches_cons_iff: "rmatches sf (re # res) l w r"

definition lang :: "(rune \<Rightarrow> rune) \<Rightarrow> regexp \<Rightarrow> string set" where
  "lang sf re = {w. \<exists>l r. rmatch sf re l w r}"

definition fold_cyclic :: "(rune \<Rightarrow> rune) \<Rightarrow> bool" where
  "fold_cyclic sf = (\<forall>r. \<exists>n > 0. (sf ^^ n) r = r)"

end
