(* ===== verification/Regexp_Info.thy ===== *)
theory Regexp_Info
  imports Query Regexp_Syntax "HOL-Library.Monad_Syntax"
begin

text \<open>
  The analysis of \<^verbatim>\<open>index/regexp.go\<close> that computes, for a regular expression, a trigram query
  every text it matches satisfies: the record \<open>regexpInfo\<close>, its simplification, the
  combinators for concatenation and alternation, \<open>analyze\<close> and \<open>RegexpQuery\<close>. The result
  \<open>None\<close> stands for a run that gives no value: a slice bound out of range in \<open>simplifySet\<close>, or
  the case-folding loop that does not come back (theory \<open>Regexp_Sound\<close> shows there is none), or
  the second case of \<open>alternate\<close> when it lets sets share an array.

  Sets are values here, except for that case; theory \<open>Alternate_Alias\<close> has it over an array.
\<close>

record regexpInfo =
  ri_canEmpty :: bool
  ri_exact :: "string_set option"
  ri_prefix :: string_set
  ri_suffix :: string_set
  ri_match :: query

definition maxExact :: nat where "maxExact = 7"
definition maxSet :: nat where "maxSet = 20"

definition anyMatch :: regexpInfo where
  "anyMatch = \<lparr>ri_canEmpty = True, ri_exact = None, ri_prefix = [[]], ri_suffix = [[]],
     ri_match = allQuery\<rparr>"

definition anyChar :: regexpInfo where
  "anyChar = \<lparr>ri_canEmpty = False, ri_exact = None, ri_prefix = [[]], ri_suffix = [[]],
     ri_match = allQuery\<rparr>"

definition noMatch :: regexpInfo where
  "noMatch = \<lparr>ri_canEmpty = False, ri_exact = None, ri_prefix = [], ri_suffix = [],
     ri_match = noneQuery\<rparr>"

definition emptyString :: regexpInfo where
  "emptyString = \<lparr>ri_canEmpty = True, ri_exact = Some [[]], ri_prefix = [], ri_suffix = [],
     ri_match = allQuery\<rparr>"

text \<open>The elements of a set that may be nil.\<close>

definition elems_of :: "string_set option \<Rightarrow> string_set" where
  "elems_of s = (case s of None \<Rightarrow> [] | Some xs \<Rightarrow> xs)"

definition addExact :: "regexpInfo \<Rightarrow> regexpInfo" where
  "addExact info = (case ri_exact info of None \<Rightarrow> info
     | Some e \<Rightarrow> info\<lparr>ri_match := andTrigrams (ri_match info) e\<rparr>)"

subsection \<open>simplify\<close>

text \<open>\<^verbatim>\<open>str[:n-1]\<close> for a prefix set, \<^verbatim>\<open>str[len(str)-n+1:]\<close> for a suffix set, of the strings
  of length at least \<open>n\<close>.\<close>

definition shorten :: "bool \<Rightarrow> nat \<Rightarrow> string \<Rightarrow> string" where
  "shorten isSuffix n str =
     (if length str \<ge> n then (if isSuffix then drop (length str - n + 1) str else take (n - 1) str)
      else str)"

text \<open>The test \<open>f\<close> of \<open>simplifySet\<close>: \<^verbatim>\<open>strings.HasPrefix\<close> or \<^verbatim>\<open>strings.HasSuffix\<close>.\<close>

definition reaches :: "bool \<Rightarrow> string \<Rightarrow> string \<Rightarrow> bool" where
  "reaches isSuffix p str = (if isSuffix then suffix p str else prefix p str)"

text \<open>The loop \<^verbatim>\<open>for n := 3; n == 3 || t.size() > maxSet; n--\<close>; with \<open>n = 0\<close> the slice
  expression is out of range.\<close>

fun shrink_loop :: "bool \<Rightarrow> nat \<Rightarrow> string_set \<Rightarrow> string_set option" where
  "shrink_loop isSuffix 0 t = (if length t > maxSet then None else Some t)"
| "shrink_loop isSuffix (Suc n) t =
     (if Suc n = 3 \<or> length t > maxSet
      then shrink_loop isSuffix n
             (clean isSuffix (keep_loop (=) [] (map (shorten isSuffix (Suc n)) t)))
      else Some t)"

definition simplifySet :: "bool \<Rightarrow> string_set \<Rightarrow> query \<Rightarrow> (string_set \<times> query) option" where
  "simplifySet isSuffix s mtch = do {
     let t = clean isSuffix s;
     let mtch' = andTrigrams mtch t;
     t' \<leftarrow> shrink_loop isSuffix 3 t;
     Some (keep_loop (reaches isSuffix) [] t', mtch')
   }"

definition split_exact :: "regexpInfo \<Rightarrow> string \<Rightarrow> regexpInfo" where
  "split_exact info s =
     (let n = length s
      in if n < 3 then info\<lparr>ri_prefix := ss_add (ri_prefix info) s,
                            ri_suffix := ss_add (ri_suffix info) s\<rparr>
         else info\<lparr>ri_prefix := ss_add (ri_prefix info) (take 2 s),
                   ri_suffix := ss_add (ri_suffix info) (drop (n - 2) s)\<rparr>)"

text \<open>The first half of \<open>simplify\<close>: too many or too long exact strings move into prefix and suffix.\<close>

definition spill_exact :: "bool \<Rightarrow> regexpInfo \<Rightarrow> regexpInfo" where
  "spill_exact force info =
     (let e = elems_of (ri_exact info)
      in if length e > maxExact \<or> minLen e \<ge> 3 \<and> force \<or> minLen e \<ge> 4
         then (foldl split_exact (addExact info) e)\<lparr>ri_exact := None\<rparr>
         else info)"

definition simplify :: "bool \<Rightarrow> regexpInfo \<Rightarrow> regexpInfo option" where
  "simplify force info0 = do {
     let info = spill_exact force (info0\<lparr>ri_exact := map_option (clean False) (ri_exact info0)\<rparr>);
     if \<not> have_set (ri_exact info) then do {
       (p, m) \<leftarrow> simplifySet False (ri_prefix info) (ri_match info);
       (s, m') \<leftarrow> simplifySet True (ri_suffix info) m;
       Some (info\<lparr>ri_prefix := p, ri_suffix := s, ri_match := m'\<rparr>)
     } else Some info
   }"

subsection \<open>concat and alternate\<close>

definition concat_info :: "regexpInfo \<Rightarrow> regexpInfo \<Rightarrow> regexpInfo option" where
  "concat_info x y =
     (let m = and_query (ri_match x) (ri_match y);
          xe = elems_of (ri_exact x); ye = elems_of (ri_exact y);
          hx = have_set (ri_exact x); hy = have_set (ri_exact y);
          xy = (if hx \<and> hy
                then \<lparr>ri_canEmpty = False, ri_exact = Some (cross xe ye False),
                      ri_prefix = [], ri_suffix = [], ri_match = m\<rparr>
                else \<lparr>ri_canEmpty = False, ri_exact = None,
                      ri_prefix = (if hx then cross xe (ri_prefix y) False
                                   else if ri_canEmpty x then ss_union (ri_prefix x) (ri_prefix y) False
                                   else ri_prefix x),
                      ri_suffix = (if hy then cross (ri_suffix x) ye True
                                   else if ri_canEmpty y then ss_union (ri_suffix y) (ri_suffix x) True
                                   else ri_suffix y),
                      ri_match = m\<rparr>);
          xy = (if \<not> hx \<and> \<not> hy \<and> length (ri_suffix x) \<le> maxSet \<and> length (ri_prefix y) \<le> maxSet
                   \<and> minLen (ri_suffix x) + minLen (ri_prefix y) \<ge> 3
                then xy\<lparr>ri_match := andTrigrams (ri_match xy)
                                       (cross (ri_suffix x) (ri_prefix y) False)\<rparr>
                else xy)
      in simplify False xy)"

text \<open>
  \<^verbatim>\<open>union\<close> appends to its receiver in place when the array has room, and sorts it there. The
  second case calls it twice on \<^verbatim>\<open>x.exact\<close>: unless the first append has to move to a new array,
  prefix, suffix and exact set end in one array, and values no longer describe the run. The
  parameter \<open>room s n\<close> says whether the array of \<open>s\<close> has room for \<open>n\<close> more strings; appending
  nothing always stays. Such a run is \<open>None\<close> here.
\<close>

definition stays_in_place :: "(string_set \<Rightarrow> nat \<Rightarrow> bool) \<Rightarrow> string_set \<Rightarrow> string_set \<Rightarrow> bool" where
  "stays_in_place room s t = (t = [] \<or> room s (length t))"

definition alternate ::
  "(string_set \<Rightarrow> nat \<Rightarrow> bool) \<Rightarrow> regexpInfo \<Rightarrow> regexpInfo \<Rightarrow> regexpInfo option" where
  "alternate room x y =
     (let xe = elems_of (ri_exact x); ye = elems_of (ri_exact y);
          hx = have_set (ri_exact x); hy = have_set (ri_exact y);
          (e, p, s, x', y') =
            (if hx \<and> hy then (Some (ss_union xe ye False), [], [], x, y)
             else if hx then (None, ss_union xe (ri_prefix y) False, ss_union xe (ri_suffix y) True,
                              addExact x, y)
             else if hy then (None, ss_union (ri_prefix x) ye False, ss_union (ri_suffix x) ye True,
                              x, addExact y)
             else (None, ss_union (ri_prefix x) (ri_prefix y) False,
                   ss_union (ri_suffix x) (ri_suffix y) True, x, y))
      in if hx \<and> \<not> hy \<and> (stays_in_place room xe (ri_prefix y) \<or> stays_in_place room xe (ri_suffix y))
         then None
         else simplify False \<lparr>ri_canEmpty = (ri_canEmpty x \<or> ri_canEmpty y), ri_exact = e,
           ri_prefix = p, ri_suffix = s, ri_match = or_query (ri_match x') (ri_match y')\<rparr>)"

subsection \<open>analyze\<close>

text \<open>\<^verbatim>\<open>re.Rune[i], re.Rune[i+1]\<close> for \<open>i = 0, 2, ..\<close>; an odd number of runes is an index
  out of range.\<close>

fun class_pairs :: "rune list \<Rightarrow> (rune \<times> rune) list option" where
  "class_pairs [] = Some []"
| "class_pairs [x] = None"
| "class_pairs (lo # hi # rs) = map_option ((#) (lo, hi)) (class_pairs rs)"

definition class_size :: "(rune \<times> rune) list \<Rightarrow> int" where
  "class_size ps = sum_list (map (\<lambda>(lo, hi). hi - lo) ps)"

definition class_strings :: "(rune \<times> rune) list \<Rightarrow> string_set" where
  "class_strings ps = concat (map (\<lambda>(lo, hi). map encode_rune [lo..hi]) ps)"

text \<open>The cases of \<open>analyze\<close> that end in \<^verbatim>\<open>info.simplify(false)\<close> start from this record.\<close>

definition exact_info :: "string_set \<Rightarrow> regexpInfo" where
  "exact_info e = \<lparr>ri_canEmpty = False, ri_exact = Some e, ri_prefix = [], ri_suffix = [],
     ri_match = allQuery\<rparr>"

definition analyze_class :: "rune list \<Rightarrow> regexpInfo option" where
  "analyze_class rs =
     (if length rs = 0 then Some noMatch
      else if length rs = 1 then simplify False (exact_info [encode_rune (hd rs)])
      else do {
        ps \<leftarrow> class_pairs rs;
        if class_size ps > 100 then Some anyChar
        else simplify False (exact_info (class_strings ps))
      })"

text \<open>The runes of a folding class, as the pairs \<^verbatim>\<open>r, r\<close>:
  \<^verbatim>\<open>for r1 := SimpleFold(r0); r1 != r0; r1 = SimpleFold(r1)\<close>.\<close>

partial_function (option) fold_loop :: "(rune \<Rightarrow> rune) \<Rightarrow> rune \<Rightarrow> rune \<Rightarrow> rune list \<Rightarrow> rune list option"
  where
  "fold_loop sf r0 r1 acc =
     (if r1 \<noteq> r0 then fold_loop sf r0 (sf r1) (acc @ [r1, r1]) else Some acc)"

declare fold_loop.simps [code]

definition analyze_fold1 :: "(rune \<Rightarrow> rune) \<Rightarrow> rune \<Rightarrow> regexpInfo option" where
  "analyze_fold1 sf r0 = Option.bind (fold_loop sf r0 (sf r0) [r0, r0]) analyze_class"

definition analyze_literal :: "(rune \<Rightarrow> rune) \<Rightarrow> bool \<Rightarrow> rune list \<Rightarrow> regexpInfo option" where
  "analyze_literal sf fc rs =
     (if fc then
        (case rs of
           [] \<Rightarrow> Some emptyString
         | [r0] \<Rightarrow> analyze_fold1 sf r0
         | _ \<Rightarrow> foldl (\<lambda>acc r. do { info \<leftarrow> acc; y \<leftarrow> analyze_fold1 sf r; concat_info info y })
                  (Some emptyString) rs)
      else simplify False (exact_info [encode_runes rs]))"

definition plus_info :: "regexpInfo \<Rightarrow> regexpInfo option" where
  "plus_info info =
     simplify False
       (case ri_exact info of None \<Rightarrow> info
        | Some e \<Rightarrow> info\<lparr>ri_prefix := e, ri_suffix := e, ri_exact := None\<rparr>)"

text \<open>\<^verbatim>\<open>fold\<close>, on the results of analysing the sub-expressions.\<close>

fun fold_info :: "(regexpInfo \<Rightarrow> regexpInfo \<Rightarrow> regexpInfo option) \<Rightarrow> regexpInfo option list \<Rightarrow> regexpInfo
    \<Rightarrow> regexpInfo option" where
  "fold_info f [] zero = Some zero"
| "fold_info f (x # xs) zero =
     foldl (\<lambda>acc y. do { info \<leftarrow> acc; y' \<leftarrow> y; f info y' }) x xs"

fun analyze :: "(string_set \<Rightarrow> nat \<Rightarrow> bool) \<Rightarrow> (rune \<Rightarrow> rune) \<Rightarrow> regexp \<Rightarrow> regexpInfo option" where
  "analyze room sf OpNoMatch = Some noMatch"
| "analyze room sf OpEmptyMatch = Some emptyString"
| "analyze room sf OpBeginLine = Some emptyString"
| "analyze room sf OpEndLine = Some emptyString"
| "analyze room sf OpBeginText = Some emptyString"
| "analyze room sf OpEndText = Some emptyString"
| "analyze room sf OpWordBoundary = Some emptyString"
| "analyze room sf OpNoWordBoundary = Some emptyString"
| "analyze room sf (OpLiteral fc rs) = analyze_literal sf fc rs"
| "analyze room sf OpAnyCharNotNL = Some anyChar"
| "analyze room sf OpAnyChar = Some anyChar"
| "analyze room sf (OpCapture re) = analyze room sf re"
| "analyze room sf (OpConcat res) = fold_info concat_info (map (analyze room sf) res) emptyString"
| "analyze room sf (OpAlternate res) = fold_info (alternate room) (map (analyze room sf) res) noMatch"
| "analyze room sf (OpQuest re) = Option.bind (analyze room sf re) (\<lambda>x. alternate room x emptyString)"
| "analyze room sf (OpStar re) = Some anyMatch"
| "analyze room sf (OpRepeat mn mx re) =
     (if mn = 0 then Some anyMatch else Option.bind (analyze room sf re) plus_info)"
| "analyze room sf (OpPlus re) = Option.bind (analyze room sf re) plus_info"
| "analyze room sf (OpCharClass rs) = analyze_class rs"

definition RegexpQuery ::
  "(string_set \<Rightarrow> nat \<Rightarrow> bool) \<Rightarrow> (rune \<Rightarrow> rune) \<Rightarrow> regexp \<Rightarrow> query option" where
  "RegexpQuery room sf re = do {
     info \<leftarrow> analyze room sf re;
     info \<leftarrow> simplify True info;
     Some (ri_match (addExact info))
   }"

text \<open>\<^verbatim>\<open>regexpInfo.String\<close>.\<close>

definition info_String :: "(string \<Rightarrow> string) \<Rightarrow> regexpInfo \<Rightarrow> string" where
  "info_String quote info =
     (if ri_canEmpty info then ''canempty '' else [])
     @ (if have_set (ri_exact info) then ''exact:'' @ join '','' (elems_of (ri_exact info))
        else ''prefix:'' @ join '','' (ri_prefix info) @ '' suffix:'' @ join '','' (ri_suffix info))
     @ '' match: '' @ query_String quote (ri_match info)"

end
