(* ===== verification/Alternate_Alias.thy ===== *)
theory Alternate_Alias
  imports Regexp_Info
begin

text \<open>
  The second case of \<open>alternate\<close> over an array. A slice is the first \<open>n\<close> elements of the array;
  \<^verbatim>\<open>union\<close> with room writes behind them, sorts in place and drops duplicates in place. Both unions
  of the case start from \<^verbatim>\<open>x.exact\<close>, so the second one overwrites what the first one appended.
\<close>

definition union_in_place :: "string list \<Rightarrow> nat \<Rightarrow> string_set \<Rightarrow> bool \<Rightarrow> string list \<times> nat" where
  "union_in_place arr n t isSuffix =
     (let m = n + length t;
          s = ss_sort isSuffix (take n arr @ t);
          kept = keep_loop (=) [] s
      in (kept @ drop (length kept) s @ drop m arr, length kept))"

text \<open>What prefix, suffix and exact set of the case are when both unions have room.\<close>

definition alternate_views ::
  "string list \<Rightarrow> nat \<Rightarrow> string_set \<Rightarrow> string_set \<Rightarrow> string_set \<times> string_set \<times> string_set" where
  "alternate_views arr n yprefix ysuffix =
     (let (arr1, np) = union_in_place arr n yprefix False;
          (arr2, ns) = union_in_place arr1 n ysuffix True
      in (take np arr2, take ns arr2, take n arr2))"

lemma length_keep_loop_le: "length (keep_loop d w xs) \<le> length w + length xs"
  by (induction d w xs rule: keep_loop.induct) auto

text \<open>One union is what the value says.\<close>

lemma union_in_place_view:
  assumes "union_in_place arr n t b = (arr', k)" and "n + length t \<le> length arr"
  shows "take k arr' = ss_union (take n arr) t b" and "length arr' = length arr"
proof -
  define s where "s = ss_sort b (take n arr @ t)"
  define kept where "kept = keep_loop (=) [] s"
  have s: "length s = n + length t" using assms(2) by (simp add: s_def ss_sort_def)
  have k: "length kept \<le> length s" using length_keep_loop_le[of "(=)" "[]" s] by (simp add: kept_def)
  have eq: "arr' = kept @ drop (length kept) s @ drop (n + length t) arr" "k = length kept"
    using assms(1) by (auto simp: union_in_place_def Let_def kept_def s_def)
  show "take k arr' = ss_union (take n arr) t b"
    by (simp add: eq ss_union_def clean_def kept_def s_def)
  show "length arr' = length arr" using k s assms(2) by (simp add: eq)
qed

text \<open>An instance: the exact set \<^verbatim>\<open>[abc]\<close> in an array of four, as \<^verbatim>\<open>append\<close> leaves it, and
  the edges of \<^verbatim>\<open>xyzw\<close>; the expression is \<^verbatim>\<open>[abc]|xyzw\<close>.\<close>

lemma sort_instances:
  "ss_sort False [''a'', ''b'', ''c'', ''xy''] = [''a'', ''b'', ''c'', ''xy'']"
  "ss_sort True [''a'', ''b'', ''c'', ''zw''] = [''a'', ''b'', ''c'', ''zw'']"
  by (simp_all add: ss_sort_def sort_key_def less_eq_char_def less_char_def)

lemma views_instance:
  "alternate_views [''a'', ''b'', ''c'', []] 3 [''xy''] [''zw'']
   = ([''a'', ''b'', ''c'', ''zw''], [''a'', ''b'', ''c'', ''zw''], [''a'', ''b'', ''c''])"
  by (simp add: alternate_views_def union_in_place_def Let_def sort_instances)


end
