(* ===== verification/Buf_Writer.thy ===== *)
theory Buf_Writer
  imports Prelude
begin

text \<open>
  The buffered writer at the end of \<^verbatim>\<open>index/write.go\<close> and the byte-level encodings of the index:
  three-byte trigrams, big-endian 32-bit numbers and varints, with the decoders the readers use
  (\<^verbatim>\<open>binary.Uvarint\<close> and \<^verbatim>\<open>binary.BigEndian.Uint32\<close> of Go's library).

  A writer is the bytes already in the file and the bytes still in the buffer. Reads and writes of
  files succeed in the model: the \<^verbatim>\<open>log.Fatalf\<close> of an I/O error has no counterpart, the one of an
  offset past 4GB has.
\<close>

record bufWriter =
  bw_file :: "byte list"
  bw_buf :: "byte list"

definition bw_cap :: nat where "bw_cap = 256 * 1024"

definition bufCreate :: bufWriter where
  "bufCreate = \<lparr>bw_file = [], bw_buf = []\<rparr>"

definition contents :: "bufWriter \<Rightarrow> byte list" where
  "contents b = bw_file b @ bw_buf b"

definition bw_flush :: "bufWriter \<Rightarrow> bufWriter" where
  "bw_flush b = (if length (bw_buf b) = 0 then b
     else b\<lparr>bw_file := bw_file b @ bw_buf b, bw_buf := []\<rparr>)"

definition bw_write :: "bufWriter \<Rightarrow> byte list \<Rightarrow> bufWriter" where
  "bw_write b x =
     (let n = bw_cap - length (bw_buf b)
      in if length x > n
         then let b' = bw_flush b
              in if length x \<ge> bw_cap then b'\<lparr>bw_file := bw_file b' @ x\<rparr>
                 else b'\<lparr>bw_buf := bw_buf b' @ x\<rparr>
         else b\<lparr>bw_buf := bw_buf b @ x\<rparr>)"

definition bw_writeByte :: "bufWriter \<Rightarrow> byte \<Rightarrow> bufWriter" where
  "bw_writeByte b x =
     (let b' = (if length (bw_buf b) \<ge> bw_cap then bw_flush b else b)
      in b'\<lparr>bw_buf := bw_buf b' @ [x]\<rparr>)"

definition bw_writeString :: "bufWriter \<Rightarrow> string \<Rightarrow> bufWriter" where
  "bw_writeString b s =
     (let n = bw_cap - length (bw_buf b)
      in if length s > n
         then let b' = bw_flush b
              in if length s \<ge> bw_cap then b'\<lparr>bw_file := bw_file b' @ bytes_of s\<rparr>
                 else b'\<lparr>bw_buf := bw_buf b' @ bytes_of s\<rparr>
         else b\<lparr>bw_buf := bw_buf b @ bytes_of s\<rparr>)"

text \<open>\<^verbatim>\<open>offset\<close>: \<^verbatim>\<open>log.Fatalf\<close> when the offset is not a \<^verbatim>\<open>uint32\<close>.\<close>

definition bw_offset :: "bufWriter \<Rightarrow> u32 result" where
  "bw_offset b =
     (let off = length (bw_file b) + length (bw_buf b)
      in if off < 2 ^ 32 then Inr (word_of_nat off) else Inl (Fatal ''index is larger than 4GB''))"

definition bw_finish :: "bufWriter \<Rightarrow> byte list" where
  "bw_finish b = bw_file (bw_flush b)"

definition copyFile :: "bufWriter \<Rightarrow> bufWriter \<Rightarrow> bufWriter" where
  "copyFile dst src =
     (let dst' = bw_flush dst in dst'\<lparr>bw_file := bw_file dst' @ bw_finish src\<rparr>)"

subsection \<open>Encodings\<close>

definition trigram_bytes :: "u32 \<Rightarrow> byte list" where
  "trigram_bytes t = [ucast (drop_bit 16 t), ucast (drop_bit 8 t), ucast t]"

definition uint32_bytes :: "u32 \<Rightarrow> byte list" where
  "uint32_bytes x = [ucast (drop_bit 24 x), ucast (drop_bit 16 x), ucast (drop_bit 8 x), ucast x]"

definition uvarint_bytes :: "u32 \<Rightarrow> byte list" where
  "uvarint_bytes x =
     (if x < push_bit 7 1 then [ucast x]
      else if x < push_bit 14 1 then [ucast (x OR 0x80), ucast (drop_bit 7 x)]
      else if x < push_bit 21 1 then
        [ucast (x OR 0x80), ucast (drop_bit 7 x OR 0x80), ucast (drop_bit 14 x)]
      else if x < push_bit 28 1 then
        [ucast (x OR 0x80), ucast (drop_bit 7 x OR 0x80), ucast (drop_bit 14 x OR 0x80),
         ucast (drop_bit 21 x)]
      else [ucast (x OR 0x80), ucast (drop_bit 7 x OR 0x80), ucast (drop_bit 14 x OR 0x80),
            ucast (drop_bit 21 x OR 0x80), ucast (drop_bit 28 x)])"

definition bw_writeTrigram :: "bufWriter \<Rightarrow> u32 \<Rightarrow> bufWriter" where
  "bw_writeTrigram b t =
     (let b' = (if bw_cap - length (bw_buf b) < 3 then bw_flush b else b)
      in b'\<lparr>bw_buf := bw_buf b' @ trigram_bytes t\<rparr>)"

definition bw_writeUint32 :: "bufWriter \<Rightarrow> u32 \<Rightarrow> bufWriter" where
  "bw_writeUint32 b x =
     (let b' = (if bw_cap - length (bw_buf b) < 4 then bw_flush b else b)
      in b'\<lparr>bw_buf := bw_buf b' @ uint32_bytes x\<rparr>)"

definition bw_writeUvarint :: "bufWriter \<Rightarrow> u32 \<Rightarrow> bufWriter" where
  "bw_writeUvarint b x =
     (let b' = (if bw_cap - length (bw_buf b) < 5 then bw_flush b else b)
      in b'\<lparr>bw_buf := bw_buf b' @ uvarint_bytes x\<rparr>)"

subsection \<open>Decodings\<close>

definition be32 :: "byte list \<Rightarrow> u32" where
  "be32 d = push_bit 24 (ucast (d ! 0)) OR push_bit 16 (ucast (d ! 1))
            OR push_bit 8 (ucast (d ! 2)) OR ucast (d ! 3)"

definition be24 :: "byte list \<Rightarrow> u32" where
  "be24 d = push_bit 16 (ucast (d ! 0)) OR push_bit 8 (ucast (d ! 1)) OR ucast (d ! 2)"

text \<open>\<^verbatim>\<open>binary.Uvarint\<close>: the value and the number of bytes read, 0 for a buffer too short and a
  negative number for an overflow.\<close>

fun uvarint_loop :: "nat \<Rightarrow> u64 \<Rightarrow> byte list \<Rightarrow> u64 \<times> int" where
  "uvarint_loop i x [] = (0, 0)"
| "uvarint_loop i x (b # bs) =
     (if b < 0x80 then
        (if i > 9 \<or> i = 9 \<and> b > 1 then (0, - (int i + 1))
         else (x OR push_bit (7 * i) (ucast b), int i + 1))
      else uvarint_loop (i + 1) (x OR push_bit (7 * i) (ucast (b AND 0x7f))) bs)"

definition Uvarint :: "byte list \<Rightarrow> u64 \<times> int" where
  "Uvarint buf = uvarint_loop 0 0 buf"

subsection \<open>The writer appends\<close>

definition bw_ok :: "bufWriter \<Rightarrow> bool" where
  "bw_ok b \<longleftrightarrow> length (bw_buf b) \<le> bw_cap"

lemma contents_flush [codec_simps]: "contents (bw_flush b) = contents b"
  by (simp add: contents_def bw_flush_def)

lemma flush_buf [simp]: "bw_buf (bw_flush b) = []"
  by (simp add: bw_flush_def)

lemma contents_create [codec_simps]: "contents bufCreate = []"
  by (simp add: contents_def bufCreate_def)

lemma flush_file: "bw_file (bw_flush b) = contents b"
  by (simp add: contents_def bw_flush_def)

lemma contents_writes [codec_simps]:
  "contents (bw_write b x) = contents b @ x"
  "contents (bw_writeByte b c) = contents b @ [c]"
  "contents (bw_writeString b s) = contents b @ bytes_of s"
  "contents (bw_writeTrigram b t) = contents b @ trigram_bytes t"
  "contents (bw_writeUint32 b n) = contents b @ uint32_bytes n"
  "contents (bw_writeUvarint b n) = contents b @ uvarint_bytes n"
  by (auto simp: contents_def bw_write_def bw_writeByte_def bw_writeString_def bw_writeTrigram_def
      bw_writeUint32_def bw_writeUvarint_def Let_def flush_file)

lemma finish_contents [codec_simps]: "bw_finish b = contents b"
  by (simp add: bw_finish_def flush_file)

lemma contents_copyFile [codec_simps]: "contents (copyFile dst src) = contents dst @ contents src"
  by (simp add: copyFile_def Let_def contents_def finish_contents[unfolded contents_def] flush_file)

lemma length_encodings [codec_simps]:
  "length (trigram_bytes t) = 3" "length (uint32_bytes n) = 4"
  "1 \<le> length (uvarint_bytes n) \<and> length (uvarint_bytes n) \<le> 5"
  by (simp_all add: trigram_bytes_def uint32_bytes_def uvarint_bytes_def)

lemma writes_ok:
  "bw_ok b \<Longrightarrow> bw_ok (bw_write b x)" "bw_ok b \<Longrightarrow> bw_ok (bw_writeByte b c)"
  "bw_ok b \<Longrightarrow> bw_ok (bw_writeString b s)" "bw_ok b \<Longrightarrow> bw_ok (bw_writeTrigram b t)"
  "bw_ok b \<Longrightarrow> bw_ok (bw_writeUint32 b n)" "bw_ok b \<Longrightarrow> bw_ok (bw_writeUvarint b n)"
  using conjunct2[OF length_encodings(3)[of n]]
  by (auto simp: bw_ok_def bw_write_def bw_writeByte_def bw_writeString_def bw_writeTrigram_def
      bw_writeUint32_def bw_writeUvarint_def Let_def bw_flush_def bw_cap_def length_encodings(1,2)
      simp del: One_nat_def)

lemma offset_contents:
  "bw_offset b = (if length (contents b) < 2 ^ 32 then Inr (word_of_nat (length (contents b)))
                  else Inl (Fatal ''index is larger than 4GB''))"
  by (simp add: bw_offset_def contents_def Let_def)

subsection \<open>Decoding undoes encoding\<close>

lemma be32_uint32_bytes [codec_simps]: "be32 (uint32_bytes x @ rest) = x"
proof (rule bit_word_eqI)
  fix n assume "n < LENGTH(32)"
  then consider "n < 8" | "8 \<le> n" "n < 16" | "16 \<le> n" "n < 24" | "24 \<le> n" "n < 32" by fastforce
  then show "bit (be32 (uint32_bytes x @ rest)) n \<longleftrightarrow> bit x n"
    by cases (auto simp: be32_def uint32_bytes_def bit_simps)
qed

lemma less_2p_iff:
  assumes "k < LENGTH('a)"
  shows "(w :: 'a::len word) < 2 ^ k \<longleftrightarrow> take_bit k w = w"
proof -
  have "unat (2 ^ k :: 'a word) = unat (word_of_nat (2 ^ k) :: 'a word)" by simp
  also have "\<dots> = 2 ^ k"
    unfolding unat_of_nat using assms by (intro mod_less power_strict_increasing) auto
  finally have p: "unat (2 ^ k :: 'a word) = 2 ^ k" .
  show ?thesis
    by (simp add: word_less_nat_alt word_unat_eq_iff p unsigned_take_bit_eq take_bit_nat_eq_self_iff)
qed

lemma bit_of_less: "t < 2 ^ k \<Longrightarrow> bit (t :: 'a::len word) n \<Longrightarrow> k < LENGTH('a) \<Longrightarrow> n < k"
  by (metis bit_take_bit_iff less_2p_iff)

lemma be24_trigram_bytes [codec_simps]:
  assumes "t < 2 ^ 24" shows "be24 (trigram_bytes t @ rest) = t"
proof (rule bit_word_eqI)
  fix n assume "n < LENGTH(32)"
  then consider "n < 8" | "8 \<le> n" "n < 16" | "16 \<le> n" "n < 24" | "24 \<le> n" "n < 32" by fastforce
  then show "bit (be24 (trigram_bytes t @ rest)) n \<longleftrightarrow> bit t n"
    by cases (use bit_of_less[OF assms, of n] in \<open>auto simp: be24_def trigram_bytes_def bit_simps\<close>)
qed

lemma byte_less_128: "(b :: byte) < 0x80 \<longleftrightarrow> \<not> bit b 7"
proof -
  have "(b < 0x80) \<longleftrightarrow> take_bit 7 b = b" using less_2p_iff[of 7 b] by simp
  also have "\<dots> \<longleftrightarrow> \<not> bit b 7"
  proof
    assume "take_bit 7 b = b"
    then show "\<not> bit b 7" by (metis bit_take_bit_iff less_irrefl)
  next
    assume b: "\<not> bit b 7"
    show "take_bit 7 b = b"
    proof (rule bit_word_eqI)
      fix n assume "n < LENGTH(8)"
      then have "n < 7 \<or> n = 7" by auto
      with b show "bit (take_bit 7 b) n = bit b n" by (auto simp: bit_take_bit_iff)
    qed
  qed
  finally show ?thesis .
qed

lemma bit_0x80: "bit (0x80 :: 'a::len word) n \<longleftrightarrow> n = 7 \<and> n < LENGTH('a)"
proof -
  have "(0x80 :: 'a word) = push_bit 7 1" by (simp add: push_bit_eq_mult)
  then show ?thesis by (simp only: bit_push_bit_iff bit_1_iff) auto
qed

lemma bit_0x7f: "bit (0x7f :: byte) n \<longleftrightarrow> n < 7"
proof -
  have "(0x7f :: byte) = mask 7" by (simp add: mask_eq_exp_minus_1)
  then show ?thesis by (simp only: bit_mask_iff) auto
qed

lemma cont_byte: "\<not> ucast (y OR 0x80 :: u32) < (0x80 :: byte)"
  by (simp add: byte_less_128 bit_simps bit_0x80 del: bit_numeral_word_iff)

lemma last_byte:
  "y < 2 ^ 7 \<Longrightarrow> ucast (y :: u32) < (0x80 :: byte)"
  using bit_of_less[of y 7 7] by (auto simp: byte_less_128 bit_simps)

lemma uvarint_piece:
  "ucast ((ucast (y OR 0x80 :: u32) :: byte) AND 0x7f) = (ucast (take_bit 7 y) :: u64)"
  by (rule bit_word_eqI) (auto simp: bit_simps bit_0x80 bit_0x7f simp del: bit_numeral_word_iff)

lemma ucast_byte_small: "y < 2 ^ 7 \<Longrightarrow> ucast (ucast (y :: u32) :: byte) = (ucast y :: u64)"
  by (rule bit_word_eqI) (use bit_of_less[of y 7] in \<open>force simp: bit_simps\<close>)

lemma drop_bit_less: "x < 2 ^ (k + m) \<Longrightarrow> k + m < 32 \<Longrightarrow> drop_bit k (x :: u32) < 2 ^ m"
  using less_2p_iff[of "k + m" x] less_2p_iff[of m "drop_bit k x"]
  by (simp add: take_bit_drop_bit add.commute)

lemma drop_bit_28_less: "drop_bit 28 (x :: u32) < 2 ^ 4"
proof -
  have "take_bit 4 (drop_bit 28 x) = drop_bit 28 x"
    by (rule bit_word_eqI) (auto simp: bit_simps dest: bit_imp_le_length)
  then show ?thesis using less_2p_iff[of 4 "drop_bit 28 x"] by simp
qed

lemma push_OR_take:
  "push_bit k (ucast (take_bit 7 (drop_bit k x))) OR push_bit (k + 7) (ucast (drop_bit (k + 7) x))
   = push_bit k (ucast (drop_bit k (x :: u32)) :: u64)"
proof (rule bit_word_eqI)
  fix n assume "n < LENGTH(64)"
  consider "n < k" | "k \<le> n" "n < k + 7" | "k + 7 \<le> n" by linarith
  then show "bit (push_bit k (ucast (take_bit 7 (drop_bit k x)))
      OR push_bit (k + 7) (ucast (drop_bit (k + 7) x)) :: u64) n
    \<longleftrightarrow> bit (push_bit k (ucast (drop_bit k (x :: u32)) :: u64)) n"
    by cases (auto simp: bit_simps)
qed

lemma uvarint_loop_piece:
  "uvarint_loop i a (ucast (y OR 0x80 :: u32) # bs)
   = uvarint_loop (i + 1) (a OR push_bit (7 * i) (ucast (take_bit 7 y))) bs"
  using cont_byte[of y] uvarint_piece[of y] by simp

lemma uvarint_loop_last:
  "y < 2 ^ 7 \<Longrightarrow> i < 9 \<Longrightarrow>
   uvarint_loop i a (ucast (y :: u32) # bs) = (a OR push_bit (7 * i) (ucast y), int i + 1)"
  using last_byte[of y] ucast_byte_small[of y] by simp

lemma uvarint_rest:
  fixes x :: u32
  shows "x < 2 ^ 7 \<Longrightarrow> uvarint_loop 0 0 (ucast x # bs) = (ucast x, 1)"
    and "x < 2 ^ 14 \<Longrightarrow> uvarint_loop 0 0 (ucast (x OR 0x80) # ucast (drop_bit 7 x) # bs)
      = (ucast x, 2)"
    and "x < 2 ^ 21 \<Longrightarrow> uvarint_loop 0 0 (ucast (x OR 0x80) # ucast (drop_bit 7 x OR 0x80)
      # ucast (drop_bit 14 x) # bs) = (ucast x, 3)"
    and "x < 2 ^ 28 \<Longrightarrow> uvarint_loop 0 0 (ucast (x OR 0x80) # ucast (drop_bit 7 x OR 0x80)
      # ucast (drop_bit 14 x OR 0x80) # ucast (drop_bit 21 x) # bs) = (ucast x, 4)"
    and "uvarint_loop 0 0 (ucast (x OR 0x80) # ucast (drop_bit 7 x OR 0x80)
      # ucast (drop_bit 14 x OR 0x80) # ucast (drop_bit 21 x OR 0x80) # ucast (drop_bit 28 x) # bs)
      = (ucast x, 5)"
  using push_OR_take[of 0 x] push_OR_take[of 7 x] push_OR_take[of 14 x] push_OR_take[of 21 x]
    drop_bit_less[of x 7 7] drop_bit_less[of x 14 7] drop_bit_less[of x 21 7]
    order_less_trans[OF drop_bit_28_less[of x], of "2 ^ 7"]
  by (simp_all add: uvarint_loop_piece uvarint_loop_last or.assoc
      del: uvarint_loop.simps One_nat_def)

lemma Uvarint_uvarint_bytes [codec_simps]:
  "Uvarint (uvarint_bytes x @ rest) = (ucast x, int (length (uvarint_bytes x)))"
proof -
  have p: "push_bit k (1 :: u32) = 2 ^ k" for k by (simp add: push_bit_eq_mult)
  show ?thesis
    by (cases "x < 2 ^ 7"; cases "x < 2 ^ 14"; cases "x < 2 ^ 21"; cases "x < 2 ^ 28")
      (simp_all only: Uvarint_def uvarint_bytes_def p if_True if_False append.simps uvarint_rest
        list.size, simp_all)
qed

subsection \<open>Properties\<close>

text \<open>C25. What the writers encode, the readers decode, whatever follows it: varints of every 32-bit
  value (with their length), big-endian words and 24-bit trigrams.\<close>

theorem codec_roundtrip:
  "Uvarint (uvarint_bytes x @ rest) = (ucast x, int (length (uvarint_bytes x)))
   \<and> be32 (uint32_bytes x @ rest) = x \<and> be24 (trigram_bytes (x AND mask 24) @ rest) = x AND mask 24"
proof -
  have "x AND mask 24 < 2 ^ 24" using less_2p_iff[of 24 "x AND mask 24"] by (simp add: take_bit_eq_mask)
  then show ?thesis by (simp add: Uvarint_uvarint_bytes be32_uint32_bytes be24_trigram_bytes)
qed

datatype bw_op = OpBytes "byte list" | OpByte byte | OpString string | OpTrigram u32 | OpUint32 u32
  | OpUvarint u32 | OpFlush

fun run_op :: "bufWriter \<Rightarrow> bw_op \<Rightarrow> bufWriter" where
  "run_op b (OpBytes x) = bw_write b x"
| "run_op b (OpByte x) = bw_writeByte b x"
| "run_op b (OpString s) = bw_writeString b s"
| "run_op b (OpTrigram t) = bw_writeTrigram b t"
| "run_op b (OpUint32 x) = bw_writeUint32 b x"
| "run_op b (OpUvarint x) = bw_writeUvarint b x"
| "run_op b OpFlush = bw_flush b"

fun op_bytes :: "bw_op \<Rightarrow> byte list" where
  "op_bytes (OpBytes x) = x"
| "op_bytes (OpByte x) = [x]"
| "op_bytes (OpString s) = bytes_of s"
| "op_bytes (OpTrigram t) = trigram_bytes t"
| "op_bytes (OpUint32 x) = uint32_bytes x"
| "op_bytes (OpUvarint x) = uvarint_bytes x"
| "op_bytes OpFlush = []"

lemma run_op_step:
  shows "contents (run_op b x) = contents b @ op_bytes x" and "bw_ok b \<Longrightarrow> bw_ok (run_op b x)"
proof -
  show "contents (run_op b x) = contents b @ op_bytes x" by (cases x) (simp_all add: codec_simps)
  have "bw_ok (bw_flush b)" by (simp add: bw_ok_def)
  then show "bw_ok (run_op b x)" if "bw_ok b" using that by (cases x) (simp_all add: writes_ok)
qed

text \<open>C24. A buffered writer appends: whatever its buffering does, the bytes of file and buffer
  together grow by exactly what is written, in order, and the buffer stays within its capacity.\<close>

theorem writer_appends:
  "let b = foldl run_op bufCreate ops
   in bw_finish b = concat (map op_bytes ops) \<and> length (bw_buf b) \<le> bw_cap"
proof -
  have "contents (foldl run_op b ops) = contents b @ concat (map op_bytes ops)
    \<and> bw_ok (foldl run_op b ops)" if "bw_ok b" for b
    using that by (induction ops arbitrary: b) (simp_all add: run_op_step)
  from this[of bufCreate] show ?thesis
    by (simp add: bw_ok_def bufCreate_def contents_def Let_def finish_contents)
qed



end
