(* ===== verification/Post_Sort.thy ===== *)
theory Post_Sort
  imports Prelude "HOL-Library.Multiset"
begin

text \<open>
  Post entries and their sorting, from \<^verbatim>\<open>index/write.go\<close>. A \<^verbatim>\<open>postEntry\<close> packs a trigram and a
  file id into a \<^verbatim>\<open>uint64\<close>. \<^verbatim>\<open>sortPost\<close> runs two passes of a 12-bit radix sort over the trigram;
  each pass counts the keys, turns the counts into start positions and scatters the entries. The
  second pass writes into the array the caller passed.

  The lemmas show that a pass is the stable distribution of the entries over the keys, and that the
  two passes sort a list that comes sorted by file id.
\<close>

type_synonym postEntry = u64

definition trigram :: "postEntry \<Rightarrow> u32" where
  "trigram p = ucast (drop_bit 32 p)"

definition fileid :: "postEntry \<Rightarrow> u32" where
  "fileid p = ucast p"

definition makePostEntry :: "u32 \<Rightarrow> u32 \<Rightarrow> postEntry" where
  "makePostEntry t f = push_bit 32 (ucast t) OR ucast f"

subsection \<open>The radix sort\<close>

definition sortK :: nat where "sortK = 12"

definition count_keys :: "(postEntry \<Rightarrow> nat) \<Rightarrow> postEntry list \<Rightarrow> nat list" where
  "count_keys r post = foldl (\<lambda>sortN p. sortN[r p := sortN ! r p + 1]) (replicate (2 ^ sortK) 0) post"

fun start_positions :: "nat \<Rightarrow> nat list \<Rightarrow> nat list" where
  "start_positions tot [] = []"
| "start_positions tot (c # cs) = tot # start_positions (tot + c) cs"

fun scatter :: "(postEntry \<Rightarrow> nat) \<Rightarrow> nat list \<Rightarrow> postEntry list \<Rightarrow> postEntry list \<Rightarrow> postEntry list" where
  "scatter r sortN tmp [] = tmp"
| "scatter r sortN tmp (p # post) =
     (let o' = sortN ! r p
      in scatter r (sortN[r p := o' + 1]) (tmp[o' := p]) post)"

definition radix_pass :: "(postEntry \<Rightarrow> nat) \<Rightarrow> postEntry list \<Rightarrow> postEntry list \<Rightarrow> postEntry list" where
  "radix_pass r post tmp = scatter r (start_positions 0 (count_keys r post)) tmp post"

definition low_key :: "postEntry \<Rightarrow> nat" where
  "low_key p = unat (drop_bit 32 p AND mask sortK)"

definition high_key :: "postEntry \<Rightarrow> nat" where
  "high_key p = unat (drop_bit (32 + sortK) p AND mask sortK)"

definition sortPost :: "postEntry list \<Rightarrow> postEntry list" where
  "sortPost post =
     (let tmp = radix_pass low_key post (replicate (length post) 0)
      in radix_pass high_key tmp post)"

subsection \<open>Entries as numbers\<close>

lemma unat_trigram: "unat (trigram p) = unat p div 2 ^ 32"
proof -
  have "unat p < 2 ^ 64" using unsigned_less[of p] by simp
  then have "unat p div 2 ^ 32 < 2 ^ 32" by (simp add: less_mult_imp_div_less)
  then show ?thesis unfolding trigram_def
    by (simp only: unsigned_ucast_eq unat_drop_bit_eq) (simp add: drop_bit_eq_div take_bit_eq_mod)
qed

lemma unat_fileid: "unat (fileid p) = unat p mod 2 ^ 32"
  by (simp add: fileid_def unsigned_ucast_eq take_bit_eq_mod)

lemma unat_entry: "unat p = unat (trigram p) * 2 ^ 32 + unat (fileid p)"
  by (simp only: unat_trigram unat_fileid div_mult_mod_eq)

lemma low_key_eq: "low_key p = unat (trigram p) mod 2 ^ 12"
  unfolding low_key_def sortK_def unat_trigram take_bit_eq_mask[symmetric]
  by (simp only: unsigned_take_bit_eq unat_drop_bit_eq) (simp add: drop_bit_eq_div take_bit_eq_mod)

lemma high_key_eq: "high_key p = unat (trigram p) div 2 ^ 12 mod 2 ^ 12"
  unfolding high_key_def sortK_def unat_trigram take_bit_eq_mask[symmetric]
  by (simp only: unsigned_take_bit_eq unat_drop_bit_eq)
    (simp add: drop_bit_eq_div take_bit_eq_mod div_mult2_eq[symmetric])

lemma trigram_makePostEntry [simp]: "trigram (makePostEntry t f) = t"
  by (rule bit_word_eqI) (auto simp: trigram_def makePostEntry_def bit_simps dest: bit_imp_le_length)

lemma fileid_makePostEntry [simp]: "fileid (makePostEntry t f) = f"
  by (rule bit_word_eqI) (auto simp: fileid_def makePostEntry_def bit_simps dest: bit_imp_le_length)

lemma unat_makePostEntry: "unat (makePostEntry t f) = unat t * 2 ^ 32 + unat f"
  using unat_entry[of "makePostEntry t f"] by simp

lemma makePostEntry_parts [simp]: "makePostEntry (trigram p) (fileid p) = p"
  by (simp only: word_unat_eq_iff unat_makePostEntry unat_entry[symmetric])

lemma entry_le_iff:
  "p \<le> q \<longleftrightarrow> trigram p < trigram q \<or> trigram p = trigram q \<and> fileid p \<le> fileid q"
proof -
  have "unat (fileid p) < 2 ^ 32" "unat (fileid q) < 2 ^ 32"
    using unsigned_less[of "fileid p"] unsigned_less[of "fileid q"] by auto
  moreover have "a * 2 ^ 32 + f \<le> b * 2 ^ 32 + g \<longleftrightarrow> a < b \<or> a = b \<and> f \<le> g"
    if "f < 2 ^ 32" "g < 2 ^ 32" for a b f g :: nat using that by auto
  ultimately show ?thesis
    by (simp only: word_le_nat_alt word_less_nat_alt word_unat_eq_iff[of "trigram p"]
        unat_entry[of p] unat_entry[of q])
qed

lemma entry_eq_iff: "p = q \<longleftrightarrow> trigram p = trigram q \<and> fileid p = fileid q"
  by (metis makePostEntry_parts)

subsection \<open>A pass distributes stably\<close>

definition buckets :: "(postEntry \<Rightarrow> nat) \<Rightarrow> nat \<Rightarrow> postEntry list \<Rightarrow> postEntry list" where
  "buckets r K post = concat (map (\<lambda>k. filter (\<lambda>p. r p = k) post) [0..<K])"

definition count_key :: "(postEntry \<Rightarrow> nat) \<Rightarrow> postEntry list \<Rightarrow> nat \<Rightarrow> nat" where
  "count_key r post k = length (filter (\<lambda>p. r p = k) post)"

lemma count_loop:
  assumes "\<forall>p \<in> set post. r p < length c"
  shows "foldl (\<lambda>sortN p. sortN[r p := sortN ! r p + 1]) c post
    = map (\<lambda>k. c ! k + count_key r post k) [0..<length c]"
  using assms
proof (induction post arbitrary: c)
  case Nil
  then show ?case by (simp add: count_key_def map_nth)
next
  case (Cons p post)
  then show ?case by (auto simp: count_key_def intro!: nth_equalityI)
qed

lemma count_keys_eq:
  "\<forall>p \<in> set post. r p < 2 ^ sortK \<Longrightarrow> count_keys r post = map (count_key r post) [0..<2 ^ sortK]"
  unfolding count_keys_def by (subst count_loop) auto

lemma start_positions_eq:
  "start_positions tot (map f [a..<a + n])
   = map (\<lambda>k. tot + sum f {a..<k}) [a..<a + n]"
proof (induction n arbitrary: a tot)
  case 0
  then show ?case by simp
next
  case (Suc n)
  have up: "[a..<a + Suc n] = a # [Suc a..<Suc a + n]" by (simp add: upt_conv_Cons)
  show ?case unfolding up
    using Suc.IH[of "tot + f a" "Suc a"] by (auto simp: sum.atLeast_Suc_lessThan intro!: sum.cong)
qed

lemma length_buckets: "length (buckets r k post) = sum (count_key r post) {0..<k}"
  by (induction k) (auto simp: buckets_def count_key_def)

lemma buckets_Suc: "buckets r (Suc k) post = buckets r k post @ filter (\<lambda>p. r p = k) post"
  by (simp add: buckets_def)

lemma buckets_nth:
  "k < K \<Longrightarrow> j < count_key r post k \<Longrightarrow>
   buckets r K post ! (sum (count_key r post) {0..<k} + j) = filter (\<lambda>p. r p = k) post ! j"
proof (induction K)
  case 0
  then show ?case by simp
next
  case (Suc K)
  have le: "sum (count_key r post) {0..<k} + count_key r post k \<le> length (buckets r K post)"
    if "k < K"
    using that sum_mono2[of "{0..<K}" "{0..<Suc k}" "count_key r post"]
    by (simp add: length_buckets)
  show ?case
  proof (cases "k < K")
    case True
    with Suc le show ?thesis by (simp add: buckets_Suc nth_append)
  next
    case False
    with Suc.prems have "k = K" by simp
    then show ?thesis by (simp add: buckets_Suc nth_append length_buckets)
  qed
qed

lemma buckets_index:
  "i < length (buckets r K post) \<Longrightarrow>
   \<exists>k j. k < K \<and> j < count_key r post k \<and> i = sum (count_key r post) {0..<k} + j"
proof (induction K)
  case 0
  then show ?case by (simp add: buckets_def)
next
  case (Suc K)
  show ?case
  proof (cases "i < length (buckets r K post)")
    case True
    with Suc.IH show ?thesis by (meson less_SucI)
  next
    case False
    then have "i = sum (count_key r post) {0..<K} + (i - length (buckets r K post))"
      by (simp add: length_buckets)
    moreover have "i - length (buckets r K post) < count_key r post K"
      using Suc.prems False by (simp add: buckets_Suc count_key_def less_diff_conv2)
    ultimately show ?thesis by blast
  qed
qed

lemma positions_disjoint:
  fixes f :: "nat \<Rightarrow> nat"
  assumes "j < f k" "j' < f k'" and "sum f {0..<k} + j = sum f {0..<k'} + j'"
  shows "k = k' \<and> j = j'"
proof -
  have step: "sum f {0..<a} + f a \<le> sum f {0..<b}" if "a < b" for a b
    using that sum_mono2[of "{0..<b}" "{0..<Suc a}" f] by simp
  show ?thesis using assms step[of k k'] step[of k' k] by (cases k k' rule: linorder_cases) auto
qed

lemma scatter_fills:
  fixes r :: "postEntry \<Rightarrow> nat"
  defines "off \<equiv> \<lambda>all k. sum (count_key r all) {0..<k}"
  assumes "all = ps @ qs" and "\<forall>p \<in> set all. r p < K"
    and "sortN = map (\<lambda>k. off all k + count_key r ps k) [0..<K]"
    and "length tmp = length (buckets r K all)"
    and "\<forall>k < K. \<forall>j < count_key r ps k. tmp ! (off all k + j) = filter (\<lambda>p. r p = k) ps ! j"
  shows "scatter r sortN tmp qs = buckets r K all"
  using assms(2-)
proof (induction qs arbitrary: ps sortN tmp)
  case Nil
  show ?case
  proof (rule nth_equalityI)
    fix i assume "i < length (scatter r sortN tmp [])"
    with Nil obtain k j where "k < K" "j < count_key r all k" "i = off all k + j"
      using buckets_index[of i r K all] by (auto simp: off_def)
    with Nil show "scatter r sortN tmp [] ! i = buckets r K all ! i"
      by (simp add: buckets_nth off_def)
  qed (use Nil in simp)
next
  case (Cons p qs)
  let ?o = "off all (r p) + count_key r ps (r p)"
  have rp: "r p < K" using Cons.prems by simp
  have cnt: "count_key r (ps @ [p]) k = count_key r ps k + (if r p = k then 1 else 0)" for k
    by (simp add: count_key_def)
  have le: "count_key r ps k \<le> count_key r all k" "count_key r ps (r p) < count_key r all (r p)" for k
    using Cons.prems(1) by (simp_all add: count_key_def)
  have bound: "?o < length tmp"
    using Cons.prems(4) le(2) sum_mono2[of "{0..<K}" "{0..<Suc (r p)}" "count_key r all"] rp
    by (simp add: length_buckets off_def)
  have eq: "scatter r sortN tmp (p # qs)
      = scatter r (sortN[r p := ?o + 1]) (tmp[?o := p]) qs"
    using Cons.prems(3) rp by (simp add: Let_def)
  show ?case unfolding eq
  proof (rule Cons.IH)
    show "all = (ps @ [p]) @ qs" using Cons.prems(1) by simp
    show "\<forall>p \<in> set all. r p < K" by (rule Cons.prems(2))
    show "sortN[r p := ?o + 1] = map (\<lambda>k. off all k + count_key r (ps @ [p]) k) [0..<K]"
      using Cons.prems(3) by (auto simp: cnt nth_list_update intro!: nth_equalityI)
    show "length (tmp[?o := p]) = length (buckets r K all)" using Cons.prems(4) by simp
    show "\<forall>k < K. \<forall>j < count_key r (ps @ [p]) k.
        tmp[?o := p] ! (off all k + j) = filter (\<lambda>q. r q = k) (ps @ [p]) ! j"
    proof (intro allI impI)
      fix k j assume k: "k < K" and j: "j < count_key r (ps @ [p]) k"
      show "tmp[?o := p] ! (off all k + j) = filter (\<lambda>q. r q = k) (ps @ [p]) ! j"
      proof (cases "k = r p \<and> j = count_key r ps (r p)")
        case True
        with bound show ?thesis by (simp add: nth_append count_key_def)
      next
        case False
        with j have j': "j < count_key r ps k" by (auto simp: cnt split: if_splits)
        then have "off all k + j \<noteq> ?o"
          using positions_disjoint[of j "count_key r all" k "count_key r ps (r p)" "r p"] le False
          by (fastforce simp: off_def intro: less_le_trans)
        with Cons.prems(5) k j' show ?thesis by (simp add: nth_append count_key_def)
      qed
    qed
  qed
qed

lemma mset_buckets: "\<forall>p \<in> set post. r p < K \<Longrightarrow> mset (buckets r K post) = mset post"
proof -
  have "mset (buckets r K post) = filter_mset (\<lambda>p. r p < K) (mset post)"
  proof (induction K)
    case 0
    then show ?case by (simp add: buckets_def)
  next
    case (Suc K)
    have "filter_mset (\<lambda>p. r p < Suc K) M
        = filter_mset (\<lambda>p. r p < K) M + filter_mset (\<lambda>p. r p = K) M" for M
      by (induction M) auto
    with Suc show ?case by (simp add: buckets_Suc)
  qed
  then show "\<forall>p \<in> set post. r p < K \<Longrightarrow> mset (buckets r K post) = mset post"
    by (simp add: filter_mset_eq_conv)
qed

lemma radix_pass_eq:
  assumes "\<forall>p \<in> set post. r p < 2 ^ sortK" and "length tmp = length post"
  shows "radix_pass r post tmp = buckets r (2 ^ sortK) post"
proof -
  have len: "length (buckets r (2 ^ sortK) post) = length post"
    using mset_buckets[OF assms(1)] by (metis size_mset)
  show ?thesis unfolding radix_pass_def count_keys_eq[OF assms(1)]
    using start_positions_eq[of 0 "count_key r post" 0 "2 ^ sortK"] assms len
    by (intro scatter_fills[of _ "[]"]) (auto simp: count_key_def cong: map_cong)
qed

lemma buckets_sorted:
  assumes "sorted_wrt P post"
  shows "sorted_wrt (\<lambda>p q. r p < r q \<or> r p = r q \<and> P p q) (buckets r K post)"
proof (induction K)
  case 0
  then show ?case by (simp add: buckets_def)
next
  case (Suc K)
  have "sorted_wrt P (filter (\<lambda>p. r p = K) post)" using assms by (rule sorted_wrt_filter)
  then have "sorted_wrt (\<lambda>p q. r p < r q \<or> r p = r q \<and> P p q) (filter (\<lambda>p. r p = K) post)"
    by (rule sorted_wrt_mono_rel[rotated]) auto
  moreover have "r p < K" if "p \<in> set (buckets r K post)" for p
    using that by (auto simp: buckets_def)
  ultimately show ?case using Suc.IH by (auto simp: buckets_Suc sorted_wrt_append)
qed

lemma less_by_digits:
  fixes a b c :: nat
  assumes "a div c < b div c \<or> a div c = b div c \<and> (a mod c < b mod c \<or> a mod c = b mod c \<and> Q)"
  shows "a < b \<or> a = b \<and> Q"
proof -
  have "a < b" if "a div c < b div c" using that by (meson div_le_mono not_le)
  moreover have "a < b \<or> a = b \<and> Q" if "a div c = b div c" "a mod c < b mod c \<or> a mod c = b mod c \<and> Q"
    using that div_mult_mod_eq[of a c] div_mult_mod_eq[of b c] by (metis nat_add_left_cancel_less)
  ultimately show ?thesis using assms by blast
qed

lemma sortPost_sorts:
  assumes "sorted (map fileid post)" and "\<forall>p \<in> set post. trigram p < 2 ^ 24"
  shows "sorted (sortPost post)" and "mset (sortPost post) = mset post"
proof -
  have K: "low_key p < 2 ^ sortK" "high_key p < 2 ^ sortK" for p
    by (simp_all add: low_key_eq high_key_eq sortK_def)
  let ?l = "buckets low_key (2 ^ sortK) post"
  have ml: "mset ?l = mset post" by (rule mset_buckets) (simp add: K)
  then have "length ?l = length post" by (metis size_mset)
  then have eq: "sortPost post = buckets high_key (2 ^ sortK) ?l"
    unfolding sortPost_def Let_def by (subst (2) radix_pass_eq) (simp_all add: K radix_pass_eq)
  show "mset (sortPost post) = mset post" unfolding eq ml[symmetric]
    by (rule mset_buckets) (simp add: K)
  have "sorted_wrt (\<lambda>p q. fileid p \<le> fileid q) post" using assms(1) by (simp add: sorted_map)
  from buckets_sorted[OF buckets_sorted[OF this]]
  have s: "sorted_wrt (\<lambda>p q. high_key p < high_key q \<or> high_key p = high_key q \<and>
      (low_key p < low_key q \<or> low_key p = low_key q \<and> fileid p \<le> fileid q)) (sortPost post)"
    unfolding eq .
  show "sorted (sortPost post)"
  proof (rule sorted_wrt_mono_rel[OF _ s])
    fix p q assume "p \<in> set (sortPost post)" "q \<in> set (sortPost post)"
    moreover have "set (sortPost post) = set post" using \<open>mset (sortPost post) = _\<close>
      by (metis mset_eq_setD)
    ultimately have t: "unat (trigram p) < 2 ^ 24" "unat (trigram q) < 2 ^ 24"
      using assms(2) by (auto simp: word_less_nat_alt)
    then have h: "high_key p = unat (trigram p) div 2 ^ 12" "high_key q = unat (trigram q) div 2 ^ 12"
      by (auto simp: high_key_eq)
    assume "high_key p < high_key q \<or> high_key p = high_key q \<and>
      (low_key p < low_key q \<or> low_key p = low_key q \<and> fileid p \<le> fileid q)"
    then show "p \<le> q"
      unfolding h low_key_eq entry_le_iff word_less_nat_alt word_unat_eq_iff[of "trigram p"]
      by (rule less_by_digits)
  qed
qed

text \<open>C15. Two stable radix passes over 12 bits each sort the entries, given that they come in the
  order of file ids and their trigrams have 24 bits; no entry is lost or duplicated.\<close>

theorem sortPost_correct:
  assumes "sorted (map fileid post)" and "\<forall>p \<in> set post. trigram p < 2 ^ 24"
  shows "sorted (sortPost post) \<and> mset (sortPost post) = mset post"
  using sortPost_sorts[OF assms] by blast

lemma sortPost_correct_witness:
  "sorted (sortPost [makePostEntry 0x616263 0, makePostEntry 0x414243 0, makePostEntry 0x414243 1])"
  using sortPost_correct[of "[makePostEntry 0x616263 0, makePostEntry 0x414243 0, makePostEntry 0x414243 1]"]
  by simp

end
