(* ===== verification/Post_Heap.thy ===== *)
theory Post_Heap
  imports Post_Sort
begin

text \<open>
  The priority queue of post chunks of \<^verbatim>\<open>index/write.go\<close>: a binary heap, in an array, of the
  chunks flushed to disk and the chunk in memory, ordered by their next entry. A chunk pointer is in
  one place of the array only, so chunks are values.

  The interface \<open>entry_queue\<close> is what \<^verbatim>\<open>mergePost\<close> relies on: \<^verbatim>\<open>next\<close> takes the least entry
  left. Draining a queue therefore sorts; the heap provides the interface.
\<close>

record postChunk =
  ch_e :: postEntry
  ch_m :: "postEntry list"

type_synonym postHeap = "postChunk list"

definition sentinel :: postEntry where
  "sentinel = makePostEntry (2 ^ 24 - 1) 0"

definition swap :: "'a list \<Rightarrow> nat \<Rightarrow> nat \<Rightarrow> 'a list" where
  "swap xs i j = xs[i := xs ! j, j := xs ! i]"

lemma length_swap [simp]: "length (swap xs i j) = length xs"
  by (simp add: swap_def)

lemma mset_swap [simp]: "i < length xs \<Longrightarrow> j < length xs \<Longrightarrow> mset (swap xs i j) = mset xs"
  by (simp add: swap_def mset_swap)

function siftDown :: "postHeap \<Rightarrow> nat \<Rightarrow> postHeap" where
  "siftDown ch i =
     (let j1 = 2 * i + 1
      in if j1 \<ge> length ch then ch
         else let j2 = j1 + 1;
                  j = (if j2 < length ch \<and> ch_e (ch ! j1) \<ge> ch_e (ch ! j2) then j2 else j1)
              in if ch_e (ch ! i) < ch_e (ch ! j) then ch else siftDown (swap ch i j) j)"
  by auto
termination by (relation "measure (\<lambda>(ch, i). length ch - i)") (auto split: if_splits)

function siftUp :: "postHeap \<Rightarrow> nat \<Rightarrow> postHeap" where
  "siftUp ch j =
     (let i = (j - 1) div 2
      in if i = j \<or> ch_e (ch ! i) < ch_e (ch ! j) then ch else siftUp (swap ch i j) i)"
  by auto
termination by (relation "measure snd") auto

declare siftDown.simps [simp del] siftUp.simps [simp del]

definition push :: "postHeap \<Rightarrow> postChunk \<Rightarrow> postHeap" where
  "push h c =
     (let n = length h; ch = h @ [c]
      in if length ch \<ge> 2 then siftUp ch n else ch)"

text \<open>The caller has checked that the heap is not empty.\<close>

definition pop :: "postHeap \<Rightarrow> postHeap" where
  "pop h =
     (let n = length h - 1; ch = take n (h[0 := h ! n])
      in if n > 1 then siftDown ch 0 else ch)"

definition add_chunk :: "postHeap \<Rightarrow> postEntry list \<Rightarrow> postHeap" where
  "add_chunk h x = (case x of [] \<Rightarrow> h | e # m \<Rightarrow> push h \<lparr>ch_e = e, ch_m = m\<rparr>)"

definition next_entry :: "postHeap \<Rightarrow> postEntry \<times> postHeap" where
  "next_entry h =
     (if length h = 0 then (sentinel, h)
      else let c = h ! 0
           in (ch_e c,
               case ch_m c of
                 [] \<Rightarrow> pop h
               | e # m \<Rightarrow> siftDown (h[0 := \<lparr>ch_e = e, ch_m = m\<rparr>]) 0))"

subsection \<open>The heap order\<close>

definition parent :: "nat \<Rightarrow> nat" where
  "parent k = (k - 1) div 2"

lemma parent_less: "0 < k \<Longrightarrow> parent k < k"
  by (simp add: parent_def)

lemma parent_child: "0 < k \<Longrightarrow> parent k = i \<Longrightarrow> k = 2 * i + 1 \<or> k = 2 * i + 2"
  unfolding parent_def by presburger

lemma parent_of_child: "parent (Suc (2 * i)) = i" "parent (Suc (Suc (2 * i))) = i"
  by (simp_all add: parent_def)

definition heap_ordered :: "postHeap \<Rightarrow> bool" where
  "heap_ordered ch \<longleftrightarrow> (\<forall>k. 0 < k \<and> k < length ch \<longrightarrow> ch_e (ch ! parent k) \<le> ch_e (ch ! k))"

text \<open>The order holds except below \<open>i\<close>, where \<open>siftDown\<close> is at work.\<close>

definition ordered_but_below :: "postHeap \<Rightarrow> nat \<Rightarrow> bool" where
  "ordered_but_below ch i \<longleftrightarrow>
     (\<forall>k. 0 < k \<and> k < length ch \<longrightarrow>
        (parent k \<noteq> i \<longrightarrow> ch_e (ch ! parent k) \<le> ch_e (ch ! k))
        \<and> (parent k = i \<and> 0 < i \<longrightarrow> ch_e (ch ! parent i) \<le> ch_e (ch ! k)))"

text \<open>The order holds except at \<open>j\<close>, where \<open>siftUp\<close> is at work.\<close>

definition ordered_but_at :: "postHeap \<Rightarrow> nat \<Rightarrow> bool" where
  "ordered_but_at ch j \<longleftrightarrow>
     (\<forall>k. 0 < k \<and> k < length ch \<longrightarrow>
        (k \<noteq> j \<longrightarrow> ch_e (ch ! parent k) \<le> ch_e (ch ! k))
        \<and> (parent k = j \<and> 0 < j \<longrightarrow> ch_e (ch ! parent j) \<le> ch_e (ch ! k)))"

lemma mset_siftDown [simp]: "i < length ch \<Longrightarrow> mset (siftDown ch i) = mset ch"
proof (induction ch i rule: siftDown.induct)
  case (1 ch i)
  then show ?case by (subst siftDown.simps) (auto simp: Let_def)
qed

lemma mset_siftUp [simp]: "j < length ch \<Longrightarrow> mset (siftUp ch j) = mset ch"
proof (induction ch j rule: siftUp.induct)
  case (1 ch j)
  then show ?case by (subst siftUp.simps) (auto simp: Let_def)
qed

lemma swap_nth:
  "i < length ch \<Longrightarrow> j < length ch \<Longrightarrow>
     swap ch i j ! k = (if k = j then ch ! i else if k = i then ch ! j else ch ! k)"
  by (auto simp: swap_def nth_list_update)

lemma swap_down:
  assumes ord: "ordered_but_below ch i" and j: "0 < j" "j < length ch" "parent j = i"
    and le: "ch_e (ch ! j) \<le> ch_e (ch ! i)"
    and least: "\<forall>k. 0 < k \<and> k < length ch \<and> parent k = i \<longrightarrow> ch_e (ch ! j) \<le> ch_e (ch ! k)"
  shows "ordered_but_below (swap ch i j) j"
  unfolding ordered_but_below_def
proof (intro allI impI conjI)
  have ij: "i < j" "i < length ch" using parent_less[OF j(1)] j by auto
  fix k assume "0 < k \<and> k < length (swap ch i j)"
  then have k: "0 < k" "k < length ch" by auto
  then have pk: "parent k < k" by (rule_tac parent_less)
  note sw = swap_nth[OF ij(2) j(2)]
  note ordk = ord[unfolded ordered_but_below_def, rule_format, OF conjI, OF k]
    and ordj = ord[unfolded ordered_but_below_def, rule_format, OF conjI, OF j(1,2)]
  {
    assume pj: "parent k \<noteq> j"
    show "ch_e (swap ch i j ! parent k) \<le> ch_e (swap ch i j ! k)"
    proof (cases "k = j")
      case True
      with le ij j show ?thesis by (simp add: sw)
    next
      case False
      with pj ordk least ordj k pk j show ?thesis
        by (cases "k = i"; cases "parent k = i") (auto simp: sw)
    qed
  next
    assume kj: "parent k = j \<and> 0 < j"
    then have "k \<noteq> i" "k \<noteq> j" using pk ij by auto
    with kj ordk j ij show "ch_e (swap ch i j ! parent j) \<le> ch_e (swap ch i j ! k)"
      by (auto simp: sw)
  }
qed

lemma siftDown_ordered: "i < length ch \<Longrightarrow> ordered_but_below ch i \<Longrightarrow> heap_ordered (siftDown ch i)"
proof (induction ch i rule: siftDown.induct)
  case (1 ch i)
  let ?j1 = "2 * i + 1" and ?j2 = "2 * i + 1 + 1"
  define j where "j = (if ?j2 < length ch \<and> ch_e (ch ! ?j1) \<ge> ch_e (ch ! ?j2) then ?j2 else ?j1)"
  note ord = "1.prems"(2)[unfolded ordered_but_below_def, rule_format]
  have least1: "ch_e (ch ! j) \<le> ch_e (ch ! k)" if "0 < k" "k < length ch" "parent k = i" for k
    using parent_child[OF that(1,3)] that(2) by (auto simp: j_def)
  then have least: "\<forall>k. 0 < k \<and> k < length ch \<and> parent k = i \<longrightarrow> ch_e (ch ! j) \<le> ch_e (ch ! k)"
    by blast
  consider (leaf) "length ch \<le> ?j1" | (fits) "\<not> length ch \<le> ?j1" "ch_e (ch ! i) < ch_e (ch ! j)"
    | (down) "\<not> length ch \<le> ?j1" "\<not> ch_e (ch ! i) < ch_e (ch ! j)" by blast
  then show ?case
  proof cases
    case leaf
    then have "siftDown ch i = ch" by (subst siftDown.simps) simp
    moreover have "parent k \<noteq> i" if "0 < k" "k < length ch" for k
      using parent_child[OF that(1), of i] that leaf by auto
    ultimately show ?thesis using ord by (simp add: heap_ordered_def)
  next
    case fits
    have eq: "siftDown ch i = ch" by (subst siftDown.simps) (use fits in \<open>auto simp: Let_def j_def split: if_splits\<close>)
    have "ch_e (ch ! parent k) \<le> ch_e (ch ! k)" if "0 < k" "k < length ch" for k
      using ord[of k] least1[of k] fits(2) that by (cases "parent k = i") auto
    then show ?thesis by (simp add: heap_ordered_def eq)
  next
    case down
    have eq: "siftDown ch i = siftDown (swap ch i j) j"
      by (subst siftDown.simps) (use down in \<open>auto simp: Let_def j_def split: if_splits\<close>)
    have j: "0 < j" "j < length ch" "parent j = i"
      using down(1) by (auto simp: j_def parent_of_child)
    have "ordered_but_below (swap ch i j) j"
      using down(2) by (intro swap_down "1.prems"(2) j least) simp
    then show ?thesis unfolding eq using "1.IH"[OF refl _ refl j_def] down j by simp
  qed
qed

lemma swap_up:
  assumes ord: "ordered_but_at ch j" and j: "0 < j" "j < length ch"
    and le: "ch_e (ch ! j) \<le> ch_e (ch ! parent j)"
  shows "ordered_but_at (swap ch (parent j) j) (parent j)"
  unfolding ordered_but_at_def
proof (intro allI impI conjI)
  define i where "i = parent j"
  have ij: "i < j" "i < length ch" using parent_less[OF j(1)] j by (auto simp: i_def)
  fix k assume "0 < k \<and> k < length (swap ch (parent j) j)"
  then have k: "0 < k" "k < length ch" by auto
  then have pk: "parent k < k" by (rule_tac parent_less)
  note sw = swap_nth[OF ij(2) j(2)]
  note ordk = ord[unfolded ordered_but_at_def, rule_format, OF conjI, OF k]
  have ordi: "0 < i \<Longrightarrow> ch_e (ch ! parent i) \<le> ch_e (ch ! i)"
    using ord ij unfolding ordered_but_at_def by simp
  {
    assume ki: "k \<noteq> parent j"
    show "ch_e (swap ch (parent j) j ! parent k) \<le> ch_e (swap ch (parent j) j ! k)"
    proof (cases "k = j")
      case True
      with le ij show ?thesis by (simp add: sw flip: i_def)
    next
      case False
      have "ch_e (ch ! j) \<le> ch_e (ch ! k)" if "parent k = i"
        using ordk that False le by (auto simp flip: i_def)
      with False ki ordk j ij show ?thesis
        by (cases "parent k = j"; cases "parent k = i") (auto simp: sw simp flip: i_def)
    qed
  next
    assume ki: "parent k = parent j \<and> 0 < parent j"
    then have "parent i < i" using parent_less[of i] by (simp add: i_def)
    then have "parent i \<noteq> i" "parent i \<noteq> j" using ij by auto
    moreover have "k \<noteq> i" using ki pk by (auto simp: i_def)
    ultimately show "ch_e (swap ch (parent j) j ! parent (parent j)) \<le> ch_e (swap ch (parent j) j ! k)"
      using ordk ki ordi j ij by (cases "k = j") (auto simp: sw simp flip: i_def)
  }
qed

lemma siftUp_ordered: "j < length ch \<Longrightarrow> ordered_but_at ch j \<Longrightarrow> heap_ordered (siftUp ch j)"
proof (induction ch j rule: siftUp.induct)
  case (1 ch j)
  show ?case
  proof (cases "parent j = j \<or> ch_e (ch ! parent j) < ch_e (ch ! j)")
    case True
    then have "siftUp ch j = ch" by (subst siftUp.simps) (simp add: Let_def parent_def)
    moreover have "ch_e (ch ! parent k) \<le> ch_e (ch ! k)" if k: "0 < k" "k < length ch" for k
      using "1.prems"(2)[unfolded ordered_but_at_def, rule_format, OF conjI, OF k] True
        parent_less[OF k(1)] by (cases "k = j") auto
    ultimately show ?thesis by (simp add: heap_ordered_def)
  next
    case False
    then have eq: "siftUp ch j = siftUp (swap ch (parent j) j) (parent j)"
      by (subst siftUp.simps) (simp add: Let_def parent_def)
    have j: "0 < j" using False by (cases j) (auto simp: parent_def)
    then have "ordered_but_at (swap ch (parent j) j) (parent j)"
      using False "1.prems" by (intro swap_up) auto
    moreover have "parent j < length ch" using parent_less[OF j] "1.prems"(1) by simp
    ultimately show ?thesis unfolding eq
      using "1.IH"[of "parent j"] False by (simp add: parent_def)
  qed
qed

lemma heap_ordered_least: "heap_ordered ch \<Longrightarrow> k < length ch \<Longrightarrow> ch_e (ch ! 0) \<le> ch_e (ch ! k)"
proof (induction k rule: less_induct)
  case (less k)
  show ?case
  proof (cases "k = 0")
    case False
    then have "parent k < k" by (simp add: parent_less)
    moreover have "ch_e (ch ! parent k) \<le> ch_e (ch ! k)"
      using less.prems False by (simp add: heap_ordered_def)
    ultimately show ?thesis using less by fastforce
  qed simp
qed

subsection \<open>The interface and the heap's entries\<close>

text \<open>
  A queue of entries: \<open>next\<close> takes the least entry. \<open>drain\<close> takes entries as long as there are
  some; what it returns does not depend on how the queue is kept.
\<close>

locale entry_queue =
  fixes emptyq :: "'q \<Rightarrow> bool"
    and nextq :: "'q \<Rightarrow> 'a::linorder \<times> 'q"
    and addq :: "'q \<Rightarrow> 'a list \<Rightarrow> 'q"
    and inv :: "'q \<Rightarrow> bool"
    and entries :: "'q \<Rightarrow> 'a multiset"
  assumes empty_entries: "inv q \<Longrightarrow> emptyq q \<longleftrightarrow> entries q = {#}"
    and next_least: "inv q \<Longrightarrow> \<not> emptyq q \<Longrightarrow> nextq q = (e, q') \<Longrightarrow>
      inv q' \<and> entries q = add_mset e (entries q') \<and> (\<forall>x \<in># entries q. e \<le> x)"
    and add_entries: "inv q \<Longrightarrow> sorted xs \<Longrightarrow>
      inv (addq q xs) \<and> entries (addq q xs) = entries q + mset xs"
begin

fun drain :: "nat \<Rightarrow> 'q \<Rightarrow> 'a list" where
  "drain 0 q = []"
| "drain (Suc n) q = (if emptyq q then [] else let (e, q') = nextq q in e # drain n q')"

lemma drain_sorts: "inv q \<Longrightarrow> size (entries q) \<le> n \<Longrightarrow> drain n q = sorted_list_of_multiset (entries q)"
proof (induction n arbitrary: q)
  case 0
  then show ?case by simp
next
  case (Suc n)
  show ?case
  proof (cases "emptyq q")
    case True
    with Suc.prems(1) show ?thesis by (simp add: empty_entries)
  next
    case False
    obtain e q' where nx: "nextq q = (e, q')" by fastforce
    from next_least[OF Suc.prems(1) False nx] have q': "inv q'" "entries q = add_mset e (entries q')"
      and least: "\<forall>x \<in># entries q. e \<le> x" by auto
    have "drain n q' = sorted_list_of_multiset (entries q')"
      using Suc.IH[OF q'(1)] Suc.prems(2) q'(2) by simp
    moreover have "insort e (sorted_list_of_multiset (entries q'))
        = e # sorted_list_of_multiset (entries q')"
      using least q'(2) by (intro insort_is_Cons) auto
    ultimately show ?thesis using False nx q'(2) by simp
  qed
qed

lemma add_list_entries:
  "inv q \<Longrightarrow> \<forall>xs \<in> set xss. sorted xs \<Longrightarrow>
   inv (foldl addq q xss) \<and> entries (foldl addq q xss) = entries q + mset (concat xss)"
proof (induction xss arbitrary: q)
  case Nil
  then show ?case by simp
next
  case (Cons xs xss)
  then show ?case using add_entries[of q xs] by (simp add: add.assoc)
qed

end

definition chunk_entries :: "postChunk \<Rightarrow> postEntry multiset" where
  "chunk_entries c = add_mset (ch_e c) (mset (ch_m c))"

definition heap_entries :: "postHeap \<Rightarrow> postEntry multiset" where
  "heap_entries h = sum_mset (image_mset chunk_entries (mset h))"

definition heap_inv :: "postHeap \<Rightarrow> bool" where
  "heap_inv h \<longleftrightarrow> heap_ordered h \<and> (\<forall>c \<in># mset h. sorted (ch_e c # ch_m c))"

lemma push_inv: "heap_ordered h \<Longrightarrow> heap_ordered (push h c) \<and> mset (push h c) = add_mset c (mset h)"
proof -
  assume h: "heap_ordered h"
  show ?thesis
  proof (cases "length h = 0")
    case True
    then show ?thesis by (simp add: push_def heap_ordered_def)
  next
    case False
    have "ordered_but_at (h @ [c]) (length h)"
      unfolding ordered_but_at_def
    proof (intro allI impI conjI)
      fix k assume "0 < k \<and> k < length (h @ [c])"
      then have k: "0 < k" "k < length (h @ [c])" by auto
      then have pk: "parent k < length h" using parent_less[OF k(1)] by simp
      show "ch_e ((h @ [c]) ! parent k) \<le> ch_e ((h @ [c]) ! k)" if "k \<noteq> length h"
        using that k h pk by (auto simp: heap_ordered_def nth_append)
      show "ch_e ((h @ [c]) ! parent (length h)) \<le> ch_e ((h @ [c]) ! k)"
        if "parent k = length h \<and> 0 < length h" using that pk by simp
    qed
    then show ?thesis using False siftUp_ordered[of "length h" "h @ [c]"]
      by (cases h) (simp_all add: push_def)
  qed
qed

lemma replace_root:
  assumes "heap_ordered h" and "0 < length h"
  shows "ordered_but_below (h[0 := c]) 0"
  using assms by (auto simp: ordered_but_below_def heap_ordered_def nth_list_update)

lemma ordered_take: "ordered_but_below h i \<Longrightarrow> ordered_but_below (take n h) i"
proof -
  assume "ordered_but_below h i"
  moreover have "parent k < n" "0 < i \<Longrightarrow> parent k = i \<Longrightarrow> parent i < n" if "0 < k" "k < n" for k
    using parent_less[of k] parent_less[of i] that by auto
  ultimately show ?thesis unfolding ordered_but_below_def by (auto simp: parent_def)
qed

lemma pop_mset: "h \<noteq> [] \<Longrightarrow> mset h = add_mset (h ! 0) (mset (pop h))"
proof -
  let ?n = "length h - 1"
  let ?ch = "take ?n (h[0 := h ! ?n])"
  assume "h \<noteq> []"
  then obtain c t where h: "h = c # t" by (cases h) auto
  have "mset h = add_mset (h ! 0) (mset ?ch)"
  proof (cases t rule: rev_cases)
    case (snoc u d)
    then show ?thesis by (simp add: h nth_append)
  qed (simp add: h)
  moreover have "mset (siftDown ?ch 0) = mset ?ch" if "?n > 1" using that by simp
  ultimately show ?thesis by (simp add: pop_def Let_def)
qed

lemma pop_ordered: "heap_ordered h \<Longrightarrow> h \<noteq> [] \<Longrightarrow> heap_ordered (pop h)"
proof -
  let ?n = "length h - 1"
  let ?ch = "take ?n (h[0 := h ! ?n])"
  assume h: "heap_ordered h" "h \<noteq> []"
  have ob: "ordered_but_below ?ch 0" by (intro ordered_take replace_root h) (use h in simp)
  show ?thesis
  proof (cases "?n > 1")
    case True
    then have "heap_ordered (siftDown ?ch 0)" by (intro siftDown_ordered ob) simp
    with True show ?thesis by (simp add: pop_def Let_def)
  next
    case False
    then have "length ?ch \<le> 1" by simp
    then have "heap_ordered ?ch" unfolding heap_ordered_def by auto
    with False show ?thesis by (simp add: pop_def Let_def)
  qed
qed

lemma next_entry_entries:
  assumes "h \<noteq> []" and "next_entry h = (e, h')"
  shows "heap_entries h = add_mset e (heap_entries h')"
proof -
  obtain c t where h: "h = c # t" using assms(1) by (cases h) auto
  show ?thesis
  proof (cases "ch_m c")
    case Nil
    then show ?thesis using assms pop_mset[of h]
      by (auto simp: next_entry_def h heap_entries_def chunk_entries_def)
  next
    case (Cons f m)
    then show ?thesis using assms
      by (auto simp: next_entry_def h heap_entries_def chunk_entries_def)
  qed
qed

lemma next_entry_spec:
  assumes "heap_inv h" and "h \<noteq> []" and "next_entry h = (e, h')"
  shows "heap_inv h' \<and> heap_entries h = add_mset e (heap_entries h') \<and> (\<forall>x \<in># heap_entries h. e \<le> x)"
proof -
  let ?c = "h ! 0"
  have ord: "heap_ordered h" and srt: "\<forall>c \<in># mset h. sorted (ch_e c # ch_m c)"
    using assms(1) by (auto simp: heap_inv_def)
  have c: "?c \<in> set h" using assms(2) by (cases h) auto
  have e: "e = ch_e ?c" using assms(2,3) by (auto simp: next_entry_def Let_def)
  have least: "e \<le> x" if "x \<in># heap_entries h" for x
  proof -
    from that obtain d where d: "d \<in> set h" "x \<in># chunk_entries d" by (auto simp: heap_entries_def)
    then obtain k where k: "k < length h" "h ! k = d" by (auto simp: in_set_conv_nth)
    have "e \<le> ch_e d" using heap_ordered_least[OF ord k(1)] k(2) e by simp
    also have "ch_e d \<le> x" using d srt by (auto simp: chunk_entries_def)
    finally show ?thesis .
  qed
  show ?thesis
  proof (cases "ch_m ?c")
    case Nil
    then have h': "h' = pop h" using assms(2,3) by (simp add: next_entry_def Let_def)
    then have p: "heap_ordered h'" "mset h = add_mset ?c (mset h')"
      using pop_ordered[OF ord] pop_mset[of h] assms(2) by auto
    have "heap_inv h'" using p srt by (auto simp: heap_inv_def)
    then show ?thesis using least next_entry_entries[OF assms(2,3)] by blast
  next
    case (Cons f m)
    let ?d = "\<lparr>ch_e = f, ch_m = m\<rparr>"
    have h': "h' = siftDown (h[0 := ?d]) 0" using assms(2,3) Cons by (simp add: next_entry_def Let_def)
    have o: "heap_ordered h'" unfolding h'
      by (rule siftDown_ordered) (use assms(2) ord in \<open>auto intro: replace_root\<close>)
    obtain t where t: "h = ?c # t" using assms(2) by (cases h) auto
    have "h[0 := ?d] = ?d # t" by (subst t) simp
    then have m1: "mset h' = add_mset ?d (mset t)" using assms(2) unfolding h' by simp
    have m2: "mset h = add_mset ?c (mset t)" by (subst t) simp
    have "sorted (f # m)" using srt Cons c by fastforce
    then have "heap_inv h'" using o srt unfolding heap_inv_def m1 m2 by simp
    then show ?thesis using least next_entry_entries[OF assms(2,3)] by blast
  qed
qed

interpretation pheap: entry_queue "\<lambda>h. h = []" next_entry add_chunk heap_inv heap_entries
proof unfold_locales
  show "(q = []) = (heap_entries q = {#})" if "heap_inv q" for q
    by (cases q) (auto simp: heap_entries_def chunk_entries_def)
  show "heap_inv q' \<and> heap_entries q = add_mset e (heap_entries q') \<and> (\<forall>x \<in># heap_entries q. e \<le> x)"
    if "heap_inv q" "q \<noteq> []" "next_entry q = (e, q')" for q e q'
    using that by (rule next_entry_spec)
  show "heap_inv (add_chunk q xs) \<and> heap_entries (add_chunk q xs) = heap_entries q + mset xs"
    if "heap_inv q" "sorted xs" for q xs
  proof (cases xs)
    case Nil
    with that show ?thesis by (simp add: add_chunk_def)
  next
    case (Cons e m)
    with that push_inv[of q "\<lparr>ch_e = e, ch_m = m\<rparr>"] show ?thesis
      by (auto simp: add_chunk_def heap_inv_def heap_entries_def chunk_entries_def)
  qed
qed

lemma heap_inv_Nil [simp]: "heap_inv []" "heap_entries [] = {#}"
  by (simp_all add: heap_inv_def heap_ordered_def heap_entries_def)

fun take_entries :: "nat \<Rightarrow> postHeap \<Rightarrow> postEntry list" where
  "take_entries 0 h = []"
| "take_entries (Suc n) h = (if h = [] then [] else let (e, h') = next_entry h in e # take_entries n h')"

lemma take_entries_drain: "take_entries n h = pheap.drain n h"
  by (induction n arbitrary: h) (simp_all split: prod.splits)

text \<open>C23. The heap merges sorted runs: taking \<open>next\<close> from the heap of any sorted chunks until it
  is empty gives all their entries in ascending order.\<close>

theorem heap_merges_runs:
  assumes "\<forall>run \<in> set runs. sorted run"
  shows "take_entries (length (concat runs)) (foldl add_chunk [] runs)
    = sorted_list_of_multiset (mset (concat runs))"
  using pheap.add_list_entries[OF heap_inv_Nil(1) assms]
  by (simp add: take_entries_drain pheap.drain_sorts flip: size_mset)

lemma heap_merges_runs_witness:
  "take_entries (length (concat [[4, 8 :: postEntry], [1, 9], [5]])) (foldl add_chunk [] [[4, 8], [1, 9], [5]])
    = sorted_list_of_multiset (mset (concat [[4, 8], [1, 9], [5]]))"
  by (rule heap_merges_runs) simp

end
