(* ===== verification/Sparse_Set.thy ===== *)
theory Sparse_Set
  imports Prelude
begin

text \<open>
  The sparse set of \<^verbatim>\<open>sparse/set.go\<close>: a set of \<^verbatim>\<open>uint32\<close> values below a maximum, as the list
  \<open>dense\<close> of the elements in insertion order and an array \<open>sparse\<close> that says where in
  \<open>dense\<close> an element would be. \<^verbatim>\<open>Reset\<close> empties \<open>dense\<close> only, so the array keeps stale
  entries: membership has to be checked against \<open>dense\<close>. The array is a function with its length;
  an access past the length is the panic, the value \<open>None\<close>.
\<close>

record sparse_set =
  dense :: "u32 list"
  sparse :: "u32 \<Rightarrow> u32"
  sparse_len :: nat

definition NewSet :: "u32 \<Rightarrow> sparse_set" where
  "NewSet m = \<lparr>dense = [], sparse = (\<lambda>_. 0), sparse_len = unat m\<rparr>"

definition Init :: "sparse_set \<Rightarrow> u32 \<Rightarrow> sparse_set" where
  "Init s m = s\<lparr>sparse := (\<lambda>_. 0), sparse_len := unat m\<rparr>"

definition Reset :: "sparse_set \<Rightarrow> sparse_set" where
  "Reset s = s\<lparr>dense := []\<rparr>"

definition set_has :: "sparse_set \<Rightarrow> u32 \<Rightarrow> bool" where
  "set_has s x =
     (let v = sparse s x
      in v < word_of_nat (length (dense s)) \<and> dense s ! unat v = x)"

definition Add :: "sparse_set \<Rightarrow> u32 \<Rightarrow> sparse_set option" where
  "Add s x =
     (if \<not> unat x < sparse_len s then None
      else if set_has s x then Some s
      else let n = length (dense s)
           in Some (s\<lparr>sparse := (sparse s)(x := word_of_nat n), dense := dense s @ [x]\<rparr>))"

definition Has :: "sparse_set \<Rightarrow> u32 \<Rightarrow> bool option" where
  "Has s x = (if \<not> unat x < sparse_len s then None else Some (set_has s x))"

definition Dense :: "sparse_set \<Rightarrow> u32 list" where
  "Dense s = dense s"

definition Len :: "sparse_set \<Rightarrow> nat" where
  "Len s = length (dense s)"

subsection \<open>The interface\<close>

text \<open>
  What the clients of the set rely on: the elements in insertion order, each once. The trigram
  collectors and the queues of the matcher are clients.
\<close>

locale ordered_set =
  fixes reset :: "'s \<Rightarrow> 's"
    and add :: "'s \<Rightarrow> 'x \<Rightarrow> 's option"
    and has :: "'s \<Rightarrow> 'x \<Rightarrow> bool option"
    and elems :: "'s \<Rightarrow> 'x list"
    and inv :: "'s \<Rightarrow> bool"
    and univ :: "'s \<Rightarrow> 'x set"
  assumes reset_inv: "inv s \<Longrightarrow> inv (reset s)"
    and reset_elems: "elems (reset s) = []"
    and reset_univ: "univ (reset s) = univ s"
    and add_defined: "inv s \<Longrightarrow> x \<in> univ s \<Longrightarrow> \<exists>s'. add s x = Some s'"
    and add_inv: "inv s \<Longrightarrow> add s x = Some s' \<Longrightarrow> inv s'"
    and add_elems: "inv s \<Longrightarrow> add s x = Some s' \<Longrightarrow>
      elems s' = (if x \<in> set (elems s) then elems s else elems s @ [x])"
    and add_univ: "add s x = Some s' \<Longrightarrow> univ s' = univ s"
    and has_elems: "inv s \<Longrightarrow> x \<in> univ s \<Longrightarrow> has s x = Some (x \<in> set (elems s))"
    and elems_distinct: "inv s \<Longrightarrow> distinct (elems s)"
begin

fun add_all :: "'s \<Rightarrow> 'x list \<Rightarrow> 's option" where
  "add_all s [] = Some s"
| "add_all s (x # xs) = Option.bind (add s x) (\<lambda>s'. add_all s' xs)"

lemma add_all_append:
  "add_all s (xs @ ys) = Option.bind (add_all s xs) (\<lambda>s'. add_all s' ys)"
  by (induction xs arbitrary: s) (auto split: Option.bind_splits)

lemma add_all_total:
  "inv s \<Longrightarrow> set xs \<subseteq> univ s \<Longrightarrow>
     \<exists>s'. add_all s xs = Some s' \<and> inv s' \<and> univ s' = univ s
        \<and> set (elems s') = set (elems s) \<union> set xs"
proof (induction xs arbitrary: s)
  case Nil
  then show ?case by simp
next
  case (Cons x xs)
  then obtain t where t: "add s x = Some t" using add_defined[of s x] by auto
  with Cons.prems have "inv t" "univ t = univ s" "set (elems t) = insert x (set (elems s))"
    using add_inv[of s x t] add_univ[of s x t] add_elems[of s x t] by auto
  with Cons.IH[of t] Cons.prems t show ?case by auto
qed

lemma add_all_elems:
  "inv s \<Longrightarrow> add_all s xs = Some s' \<Longrightarrow> set (elems s') = set (elems s) \<union> set xs"
proof (induction xs arbitrary: s)
  case Nil
  then show ?case by simp
next
  case (Cons x xs)
  then obtain t where t: "add s x = Some t" "add_all t xs = Some s'"
    by (auto split: Option.bind_splits)
  then have "inv t" "set (elems t) = insert x (set (elems s))"
    using Cons.prems(1) add_inv[of s x t] add_elems[of s x t] by auto
  with Cons.IH[of t] t show ?case by auto
qed

lemma add_all_inv: "inv s \<Longrightarrow> add_all s xs = Some s' \<Longrightarrow> inv s'"
proof (induction xs arbitrary: s)
  case Nil
  then show ?case by simp
next
  case (Cons x xs)
  then obtain t where "add s x = Some t" "add_all t xs = Some s'"
    by (auto split: Option.bind_splits)
  with Cons show ?case using add_inv by blast
qed

end

subsection \<open>The sparse set provides it\<close>

definition sparse_inv :: "sparse_set \<Rightarrow> bool" where
  "sparse_inv s \<longleftrightarrow>
     distinct (dense s) \<and> length (dense s) < 2 ^ 32
     \<and> (\<forall>i < length (dense s). sparse s (dense s ! i) = word_of_nat i)
     \<and> (\<forall>x \<in> set (dense s). unat x < sparse_len s) \<and> sparse_len s < 2 ^ 32"

definition sparse_univ :: "sparse_set \<Rightarrow> u32 set" where
  "sparse_univ s = {x. unat x < sparse_len s}"

lemma NewSet_inv: "sparse_inv (NewSet m)"
  using unsigned_less[of m] by (simp add: sparse_inv_def NewSet_def)

lemma unat_of_nat_u32: "n < 2 ^ 32 \<Longrightarrow> unat (word_of_nat n :: u32) = n"
  by (simp add: unat_of_nat take_bit_eq_mod)

lemma set_has_iff:
  assumes "sparse_inv s"
  shows "set_has s x \<longleftrightarrow> x \<in> set (dense s)"
proof
  assume "set_has s x"
  then have "sparse s x < word_of_nat (length (dense s))" "dense s ! unat (sparse s x) = x"
    by (auto simp: set_has_def Let_def)
  moreover have "unat (word_of_nat (length (dense s)) :: u32) = length (dense s)"
    using assms by (intro unat_of_nat_u32) (simp add: sparse_inv_def)
  ultimately have "unat (sparse s x) < length (dense s)" by (simp add: word_less_nat_alt)
  then show "x \<in> set (dense s)" using \<open>dense s ! _ = x\<close> by (metis nth_mem)
next
  assume "x \<in> set (dense s)"
  then obtain i where i: "i < length (dense s)" "dense s ! i = x" by (auto simp: in_set_conv_nth)
  with assms have "sparse s x = word_of_nat i" and n: "length (dense s) < 2 ^ 32"
    by (auto simp: sparse_inv_def)
  moreover have "unat (word_of_nat i :: u32) = i" using i n by (intro unat_of_nat_u32) simp
  moreover have "unat (word_of_nat (length (dense s)) :: u32) = length (dense s)"
    using n by (rule unat_of_nat_u32)
  ultimately show "set_has s x" using i by (simp add: set_has_def word_less_nat_alt)
qed

lemma length_distinct_bounded:
  assumes "distinct xs" and "\<forall>x \<in> set xs. unat (x :: u32) < n"
  shows "length xs \<le> n"
proof -
  have "inj_on unat (set xs)" by (auto simp: inj_on_def word_unat_eq_iff)
  then have "length xs = card (unat ` set xs)"
    using assms(1) by (simp add: card_image distinct_card)
  also have "\<dots> \<le> card {..<n}" using assms(2) by (intro card_mono) auto
  finally show ?thesis by simp
qed

lemma Add_inv:
  assumes inv: "sparse_inv s" and add: "Add s x = Some s'"
  shows "sparse_inv s'"
proof (cases "x \<in> set (dense s)")
  case True
  with assms show ?thesis by (simp add: Add_def set_has_iff split: if_splits)
next
  case False
  with assms have x: "unat x < sparse_len s"
    and s': "s' = s\<lparr>sparse := (sparse s)(x := word_of_nat (length (dense s))),
                    dense := dense s @ [x]\<rparr>"
    by (auto simp: Add_def set_has_iff Let_def split: if_splits)
  have "distinct (dense s @ [x])" using inv False by (simp add: sparse_inv_def)
  moreover have b: "\<forall>y \<in> set (dense s @ [x]). unat y < sparse_len s"
    using inv x by (auto simp: sparse_inv_def)
  ultimately have "length (dense s @ [x]) \<le> sparse_len s" by (rule length_distinct_bounded)
  then show ?thesis using inv False b
    by (auto simp: s' sparse_inv_def nth_append less_Suc_eq)
qed

lemma Add_dense:
  "sparse_inv s \<Longrightarrow> Add s x = Some s' \<Longrightarrow>
     dense s' = (if x \<in> set (dense s) then dense s else dense s @ [x])"
  by (auto simp: Add_def set_has_iff Let_def split: if_splits)

lemma Add_len: "Add s x = Some s' \<Longrightarrow> sparse_len s' = sparse_len s"
  by (auto simp: Add_def Let_def split: if_splits)

interpretation sset: ordered_set Reset Add Has Dense sparse_inv sparse_univ
proof unfold_locales
  show "sparse_inv (Reset s)" if "sparse_inv s" for s
    using that by (simp add: sparse_inv_def Reset_def)
  show "Dense (Reset s) = []" for s by (simp add: Dense_def Reset_def)
  show "sparse_univ (Reset s) = sparse_univ s" for s by (simp add: sparse_univ_def Reset_def)
  show "\<exists>s'. Add s x = Some s'" if "sparse_inv s" "x \<in> sparse_univ s" for s x
    using that by (auto simp: Add_def sparse_univ_def Let_def)
  show "sparse_inv s'" if "sparse_inv s" "Add s x = Some s'" for s x s'
    using that by (rule Add_inv)
  show "Dense s' = (if x \<in> set (Dense s) then Dense s else Dense s @ [x])"
    if "sparse_inv s" "Add s x = Some s'" for s x s'
    using Add_dense[OF that] by (simp add: Dense_def)
  show "sparse_univ s' = sparse_univ s" if "Add s x = Some s'" for s x s'
    using Add_len[OF that] by (simp add: sparse_univ_def)
  show "Has s x = Some (x \<in> set (Dense s))" if "sparse_inv s" "x \<in> sparse_univ s" for s x
    using that by (simp add: Has_def sparse_univ_def Dense_def set_has_iff)
  show "distinct (Dense s)" if "sparse_inv s" for s
    using that by (simp add: sparse_inv_def Dense_def)
qed

subsection \<open>Runs of Adds\<close>

lemma add_all_dense:
  "sparse_inv s \<Longrightarrow> sset.add_all s xs = Some s' \<Longrightarrow>
     dense s' = dense s @ rev (remdups (rev (filter (\<lambda>x. x \<notin> set (dense s)) xs)))"
proof (induction xs arbitrary: s)
  case Nil
  then show ?case by simp
next
  case (Cons x xs)
  then obtain t where t: "Add s x = Some t" "sset.add_all t xs = Some s'"
    by (auto split: Option.bind_splits)
  have d: "dense t = (if x \<in> set (dense s) then dense s else dense s @ [x])"
    using Cons.prems(1) t(1) by (rule Add_dense)
  have IH: "dense s' = dense t @ rev (remdups (rev (filter (\<lambda>x. x \<notin> set (dense t)) xs)))"
    using Cons.IH[of t] Add_inv[OF Cons.prems(1) t(1)] t(2) by blast
  have aux: "rev (remdups (rev (x # ys))) = x # rev (remdups (rev (filter (\<lambda>y. y \<noteq> x) ys)))"
    for ys :: "u32 list"
  proof (induction ys rule: rev_induct)
    case Nil
    then show ?case by simp
  next
    case (snoc y ys)
    then show ?case by auto
  qed
  show ?case
  proof (cases "x \<in> set (dense s)")
    case True
    with IH d show ?thesis by simp
  next
    case False
    then have "filter (\<lambda>z. z \<notin> set (dense t)) xs
        = filter (\<lambda>y. y \<noteq> x) (filter (\<lambda>z. z \<notin> set (dense s)) xs)"
      using d by (auto intro: filter_cong)
    with IH d False aux[of "filter (\<lambda>z. z \<notin> set (dense s)) xs"] show ?thesis by simp
  qed
qed

definition add_values :: "sparse_set \<Rightarrow> u32 list \<Rightarrow> sparse_set option" where
  "add_values s xs = foldl (\<lambda>acc x. Option.bind acc (\<lambda>s. Add s x)) (Some s) xs"

lemma add_values_add_all: "add_values s xs = sset.add_all s xs"
proof -
  have none: "foldl (\<lambda>acc x. Option.bind acc (\<lambda>s. Add s x)) None xs = None" for xs
    by (induction xs) simp_all
  show ?thesis unfolding add_values_def
  proof (induction xs arbitrary: s)
    case (Cons x xs)
    then show ?case using none by (cases "Add s x") simp_all
  qed simp
qed

text \<open>C27. A sparse set is a set, whatever stale values its array holds: after a \<open>Reset\<close>, adding
  values below the maximum never panics; afterwards the set holds the values added since, each once,
  in the order of their first insertion, and \<open>Has\<close> says so for every value below the maximum.\<close>

theorem sparse_set_correct:
  assumes "sparse_inv s" and "\<forall>x \<in> set xs. unat x < sparse_len s"
  shows "\<exists>s'. add_values (Reset s) xs = Some s' \<and> sparse_inv s'
    \<and> Dense s' = rev (remdups (rev xs)) \<and> Len s' = card (set xs)
    \<and> (\<forall>x. Has s' x = (if unat x < sparse_len s then Some (x \<in> set xs) else None))"
proof -
  have r: "sparse_inv (Reset s)" "dense (Reset s) = []" "sparse_univ (Reset s) = sparse_univ s"
    using assms(1) sset.reset_inv by (auto simp: Reset_def sparse_univ_def)
  obtain s' where s': "sset.add_all (Reset s) xs = Some s'" "sparse_inv s'"
      "sparse_univ s' = sparse_univ s"
    using sset.add_all_total[OF r(1), of xs] r(3) assms(2) by (auto simp: sparse_univ_def)
  have d: "dense s' = rev (remdups (rev xs))" using add_all_dense[OF r(1) s'(1)] r(2) by simp
  then have "length (dense s') = card (set xs)" by (metis length_remdups_card_conv length_rev set_rev)
  moreover have "Has s' x = (if unat x < sparse_len s then Some (x \<in> set xs) else None)" for x
  proof -
    have "x \<in> sparse_univ s' \<longleftrightarrow> unat x < sparse_len s'" "x \<in> sparse_univ s \<longleftrightarrow> unat x < sparse_len s"
      by (simp_all add: sparse_univ_def)
    then show ?thesis using s'(2,3) d by (auto simp: Has_def set_has_iff)
  qed
  ultimately show ?thesis using s' d by (auto simp: add_values_add_all Dense_def Len_def)
qed

lemma sparse_set_correct_witness:
  "\<exists>s'. add_values (Reset (NewSet 10)) [7, 3, 7] = Some s' \<and> sparse_inv s' \<and> Dense s' = [7, 3]
    \<and> Len s' = card (set [7, 3, 7 :: u32])
    \<and> (\<forall>x. Has s' x = (if unat x < sparse_len (NewSet 10) then Some (x \<in> set [7, 3, 7]) else None))"
proof -
  have "\<forall>x \<in> set [7, 3, 7]. unat (x :: u32) < sparse_len (NewSet 10)" by (simp add: NewSet_def)
  moreover have "rev (remdups (rev [7, 3, 7 :: u32])) = [7, 3]" by simp
  ultimately show ?thesis using sparse_set_correct[OF NewSet_inv[of 10], of "[7, 3, 7]"] by (simp only:)
qed

end
