(* ===== verification/Index_Write.thy ===== *)
theory Index_Write
  imports Buf_Writer Post_Heap Sparse_Set
begin

text \<open>
  The index writer of \<^verbatim>\<open>index/write.go\<close>: adding a file (the scan that collects its trigrams and
  decides whether the file is text), assigning ids to names, flushing sorted runs of post entries,
  merging the runs into posting lists, and writing the index file.

  A reader is the sequence of results its \<^verbatim>\<open>Read\<close> calls return: the bytes and the error; after the
  sequence it returns no bytes and \<^verbatim>\<open>io.EOF\<close>. The temporary files of sorted runs are the lists of
  entries written to them. Logging is not modelled.
\<close>

definition magic :: string where "magic = ''csearch index 1'' @ [CHR 0x0A]"
definition trailerMagic :: string where "trailerMagic = CHR 0x0A # ''csearch trailr'' @ [CHR 0x0A]"

definition npost :: nat where "npost = 64 * 2 ^ 20 div 8"
definition maxFileLen :: nat where "maxFileLen = 2 ^ 30"
definition maxLineLen :: nat where "maxLineLen = 2000"
definition maxTextTrigrams :: nat where "maxTextTrigrams = 20000"

record IndexWriter =
  iw_trigram :: sparse_set
  iw_paths :: "string list"
  iw_nameData :: bufWriter
  iw_nameIndex :: bufWriter
  iw_numName :: nat
  iw_totalBytes :: nat
  iw_post :: "postEntry list"
  iw_postFile :: "postEntry list list"
  iw_postIndex :: bufWriter
  iw_main :: bufWriter

definition Create :: IndexWriter where
  "Create = \<lparr>iw_trigram = NewSet (2 ^ 24), iw_paths = [], iw_nameData = bufCreate,
     iw_nameIndex = bufCreate, iw_numName = 0, iw_totalBytes = 0, iw_post = [], iw_postFile = [],
     iw_postIndex = bufCreate, iw_main = bufCreate\<rparr>"

definition AddPaths :: "IndexWriter \<Rightarrow> string list \<Rightarrow> IndexWriter" where
  "AddPaths ix paths = ix\<lparr>iw_paths := iw_paths ix @ paths\<rparr>"

subsection \<open>Scanning a file\<close>

definition validUTF8 :: "u32 \<Rightarrow> u32 \<Rightarrow> bool" where
  "validUTF8 c1 c2 =
     (if c1 < 0x80 then c2 < 0x80 \<or> 0xc0 \<le> c2 \<and> c2 < 0xf8
      else if c1 < 0xc0 then c2 < 0xf8
      else if c1 < 0xf8 then 0x80 \<le> c2 \<and> c2 < 0xc0
      else False)"

datatype read_err = NoErr | EOF | OtherErr

type_synonym reader = "(byte list \<times> read_err) list"

datatype scan_end =
    Scanned nat   \<comment> \<open>end of file, with the number of bytes\<close>
  | ReadFailed | ZeroRead | InvalidUTF8 | TooLong | LongLines

fun add_loop ::
  "reader \<Rightarrow> byte list \<Rightarrow> u32 \<Rightarrow> nat \<Rightarrow> nat \<Rightarrow> sparse_set \<Rightarrow> (sparse_set \<times> scan_end) option" where
  "add_loop r (c # buf) tv n linelen s =
     (let tv = (push_bit 8 tv AND mask 24) OR ucast c; n = n + 1
      in case (if n \<ge> 3 then Add s tv else Some s) of
           None \<Rightarrow> None
         | Some s \<Rightarrow>
             if \<not> validUTF8 (drop_bit 8 tv AND 0xff) (tv AND 0xff) then Some (s, InvalidUTF8)
             else if n > maxFileLen then Some (s, TooLong)
             else let linelen = linelen + 1
                  in if linelen > maxLineLen then Some (s, LongLines)
                     else add_loop r buf tv n (if c = 10 then 0 else linelen) s)"
| "add_loop [] [] tv n linelen s = Some (s, Scanned n)"
| "add_loop ((data, err) # r) [] tv n linelen s =
     (if data = [] then
        Some (s, case err of EOF \<Rightarrow> Scanned n | OtherErr \<Rightarrow> ReadFailed | NoErr \<Rightarrow> ZeroRead)
      else add_loop r data tv n linelen s)"

subsection \<open>Names and post entries\<close>

definition addName :: "IndexWriter \<Rightarrow> string \<Rightarrow> (IndexWriter \<times> u32) result" where
  "addName ix name =
     (if CHR 0x00 \<in> set name then Inl (Fatal ''file has NUL byte in name'')
      else bindR (bw_offset (iw_nameData ix)) (\<lambda>off.
        Inr (ix\<lparr>iw_nameIndex := bw_writeUint32 (iw_nameIndex ix) off,
                iw_nameData := bw_writeByte (bw_writeString (iw_nameData ix) name) 0,
                iw_numName := iw_numName ix + 1\<rparr>,
             word_of_nat (iw_numName ix))))"

definition flushPost :: "IndexWriter \<Rightarrow> IndexWriter result" where
  "flushPost ix =
     (if iw_post ix = [] then Inl (Panic ''index out of range'')
      else Inr (ix\<lparr>iw_postFile := iw_postFile ix @ [sortPost (iw_post ix)], iw_post := []\<rparr>))"

definition add_entry :: "u32 \<Rightarrow> IndexWriter \<Rightarrow> u32 \<Rightarrow> IndexWriter result" where
  "add_entry fid ix t =
     bindR (if length (iw_post ix) \<ge> npost then flushPost ix else Inr ix) (\<lambda>ix.
       Inr (ix\<lparr>iw_post := iw_post ix @ [makePostEntry t fid]\<rparr>))"

definition Add_file :: "IndexWriter \<Rightarrow> string \<Rightarrow> reader \<Rightarrow> IndexWriter result" where
  "Add_file ix name f =
     (case add_loop f [] 0 0 0 (Reset (iw_trigram ix)) of
        None \<Rightarrow> Inl (Panic ''index out of range'')
      | Some (s, e) \<Rightarrow>
          let ix = ix\<lparr>iw_trigram := s\<rparr>
          in case e of
               Scanned n \<Rightarrow>
                 if Len s > maxTextTrigrams then Inr ix
                 else bindR (addName (ix\<lparr>iw_totalBytes := iw_totalBytes ix + n\<rparr>) name)
                        (\<lambda>(ix, fid). foldR (add_entry fid) ix (Dense s))
             | _ \<Rightarrow> Inr ix)"

text \<open>\<^verbatim>\<open>AddFile\<close>; the second argument is the result of \<^verbatim>\<open>os.Open\<close>.\<close>

definition AddFile :: "IndexWriter \<Rightarrow> string \<Rightarrow> reader option \<Rightarrow> IndexWriter result" where
  "AddFile ix name opened = (case opened of None \<Rightarrow> Inr ix | Some f \<Rightarrow> Add_file ix name f)"

subsection \<open>Merging\<close>

text \<open>The posting list of one trigram; \<open>nfile\<close> counts the files.\<close>

lemma next_entry_measure:
  "next_entry h = (e', h') \<Longrightarrow>
     (if trigram e' = 2 ^ 24 - 1 then 0 else Suc (size (heap_entries h'))) < Suc (size (heap_entries h))"
proof (cases "h = []")
  case True
  assume "next_entry h = (e', h')"
  with True have "e' = sentinel" by (simp add: next_entry_def)
  then show ?thesis by (simp add: sentinel_def)
next
  case False
  assume "next_entry h = (e', h')"
  from next_entry_entries[OF False this] show ?thesis by simp
qed

function merge_list ::
  "u32 \<Rightarrow> postEntry \<Rightarrow> postHeap \<Rightarrow> bufWriter \<Rightarrow> u32 \<Rightarrow> u32 \<Rightarrow> postEntry \<times> postHeap \<times> bufWriter \<times> u32"
where
  "merge_list t e h out fid nfile =
     (if trigram e = t \<and> t \<noteq> 2 ^ 24 - 1 then
        let out' = bw_writeUvarint out (fileid e - fid);
            (e', h') = next_entry h
        in merge_list t e' h' out' (fileid e) (nfile + 1)
      else (e, h, out, nfile))"
  by auto
termination
proof (relation "measure (\<lambda>(t, e, h, _). if trigram e = 2 ^ 24 - 1 then 0 else Suc (size (heap_entries h)))")
  fix t e h out fid nfile out' x e' h'
  assume "trigram e = t \<and> t \<noteq> 2 ^ 24 - 1" "x = next_entry h" "(e', h') = x"
  then show "((t, e', h', out', fileid e, nfile + 1), (t, e, h, out, fid, nfile))
    \<in> measure (\<lambda>(t, e, h, _). if trigram e = 2 ^ 24 - 1 then 0 else Suc (size (heap_entries h)))"
    using next_entry_measure[of h e' h'] by auto
qed simp

declare merge_list.simps [simp del]

definition left_over :: "postEntry \<Rightarrow> postHeap \<Rightarrow> nat" where
  "left_over e h = (if trigram e = 2 ^ 24 - 1 then 0 else Suc (size (heap_entries h)))"

lemma merge_list_measure:
  "merge_list t e h out fid nfile = (e', h', out', nfile') \<Longrightarrow> left_over e' h' \<le> left_over e h"
proof (induction t e h out fid nfile rule: merge_list.induct)
  case (1 t e h out fid nfile)
  show ?case
  proof (cases "trigram e = t \<and> t \<noteq> 2 ^ 24 - 1")
    case True
    obtain e1 h1 where n: "next_entry h = (e1, h1)" by fastforce
    with True "1.prems" have "merge_list t e1 h1 (bw_writeUvarint out (fileid e - fid)) (fileid e) (nfile + 1)
        = (e', h', out', nfile')"
      by (subst (asm) merge_list.simps) simp
    then have "left_over e' h' \<le> left_over e1 h1" using "1.IH"[OF True refl n[symmetric]] by simp
    also have "\<dots> \<le> left_over e h" using next_entry_measure[OF n] True by (simp add: left_over_def)
    finally show ?thesis .
  next
    case False
    with "1.prems" show ?thesis by (subst (asm) merge_list.simps) auto
  qed
qed

lemma merge_list_measure_less:
  assumes "merge_list (trigram e) e h out fid nfile = (e', h', out', nfile')" "trigram e \<noteq> 2 ^ 24 - 1"
  shows "left_over e' h' < left_over e h"
proof -
  obtain e1 h1 where n: "next_entry h = (e1, h1)" by fastforce
  with assms have "merge_list (trigram e) e1 h1 (bw_writeUvarint out (fileid e - fid)) (fileid e) (nfile + 1)
      = (e', h', out', nfile')"
    by (subst (asm) merge_list.simps) simp
  then have "left_over e' h' \<le> left_over e1 h1" by (rule merge_list_measure)
  also have "\<dots> < left_over e h"
    using next_entry_measure[OF n] assms(2) by (simp add: left_over_def)
  finally show ?thesis .
qed

function merge_lists ::
  "postEntry \<Rightarrow> postHeap \<Rightarrow> bufWriter \<Rightarrow> bufWriter \<Rightarrow> u32 \<Rightarrow> (bufWriter \<times> bufWriter) result" where
  "merge_lists e h out postIndex offset0 =
     (case bw_offset out of
        Inl err \<Rightarrow> Inl err
      | Inr off \<Rightarrow>
          let offset = off - offset0;
              t = trigram e;
              (e', h', out', nfile) = merge_list t e h (bw_write out (trigram_bytes t)) (- 1) 0;
              out' = bw_writeUvarint out' 0;
              postIndex = bw_writeUint32 (bw_writeUint32 (bw_write postIndex (trigram_bytes t)) nfile) offset
          in if t = 2 ^ 24 - 1 then Inr (out', postIndex)
             else merge_lists e' h' out' postIndex offset0)"
  by auto
termination
  by (relation "measure (\<lambda>(e, h, _). left_over e h)") (auto dest: merge_list_measure_less[OF sym])

declare merge_lists.simps [simp del]

definition mergePost :: "IndexWriter \<Rightarrow> IndexWriter result" where
  "mergePost ix =
     (let h = foldl add_chunk [] (iw_postFile ix);
          post = sortPost (iw_post ix);
          (e, h) = next_entry (add_chunk h post)
      in bindR (bw_offset (iw_main ix)) (\<lambda>offset0.
         bindR (merge_lists e h (iw_main ix) (iw_postIndex ix) offset0) (\<lambda>(out, postIndex).
           Inr (ix\<lparr>iw_post := post, iw_main := out, iw_postIndex := postIndex\<rparr>))))"

subsection \<open>The file\<close>

definition on_main :: "(bufWriter \<Rightarrow> bufWriter) \<Rightarrow> IndexWriter \<Rightarrow> IndexWriter" where
  "on_main f ix = ix\<lparr>iw_main := f (iw_main ix)\<rparr>"

definition main_offset :: "IndexWriter \<Rightarrow> u32 result" where
  "main_offset ix = bw_offset (iw_main ix)"

definition write_paths :: "bufWriter \<Rightarrow> string list \<Rightarrow> bufWriter" where
  "write_paths b ps = foldl (\<lambda>b p. bw_writeString (bw_writeString b p) [CHR 0x00]) b ps"

text \<open>\<^verbatim>\<open>Flush\<close> returns the writer; the index is the file of \<open>iw_main\<close>.\<close>

definition Flush :: "IndexWriter \<Rightarrow> IndexWriter result" where
  "Flush ix =
     bindR (addName ix []) (\<lambda>(ix, _).
     let ix = on_main (\<lambda>b. bw_writeString b magic) ix in
     bindR (main_offset ix) (\<lambda>off0.
     let ix = on_main (\<lambda>b. bw_writeString (write_paths b (iw_paths ix)) [CHR 0x00]) ix in
     bindR (main_offset ix) (\<lambda>off1.
     let ix = on_main (\<lambda>b. copyFile b (iw_nameData ix)) ix in
     bindR (main_offset ix) (\<lambda>off2.
     bindR (mergePost ix) (\<lambda>ix.
     bindR (main_offset ix) (\<lambda>off3.
     let ix = on_main (\<lambda>b. copyFile b (iw_nameIndex ix)) ix in
     bindR (main_offset ix) (\<lambda>off4.
     let ix = on_main (\<lambda>b. copyFile b (iw_postIndex ix)) ix;
         ix = on_main (\<lambda>b. foldl bw_writeUint32 b [off0, off1, off2, off3, off4]) ix;
         ix = on_main (\<lambda>b. bw_writeString b trailerMagic) ix in
     bindR (main_offset ix) (\<lambda>_. Inr (on_main bw_flush ix)))))))))"

end
