(* ===== verification/Index_Read.thy ===== *)
theory Index_Read
  imports Index_Write Query
begin

text \<open>
  The index reader of \<^verbatim>\<open>index/read.go\<close>: opening a file, names and paths, the binary search for a
  posting list, the reader of a posting list with its restriction, and the evaluation of a query.
  \<^verbatim>\<open>corrupt\<close> is a \<^verbatim>\<open>log.Fatalf\<close>. A nil \<^verbatim>\<open>[]uint32\<close> is \<open>None\<close>: the code distinguishes
  it from an empty slice. \<^verbatim>\<open>postingAnd\<close> builds its result in the storage of its argument, at
  positions it has already read.
\<close>

record Index =
  ix_data :: "byte list"
  ix_pathData :: u32
  ix_nameData :: u32
  ix_postData :: u32
  ix_nameIndex :: u32
  ix_postIndex :: u32
  ix_numName :: int
  ix_numPost :: int

definition corrupt :: fault where
  "corrupt = Fatal ''corrupt index''"

definition out_of_range :: fault where
  "out_of_range = Panic ''slice bounds out of range''"

definition postEntrySize :: nat where "postEntrySize = 3 + 4 + 4"

definition slice :: "byte list \<Rightarrow> u32 \<Rightarrow> int \<Rightarrow> byte list result" where
  "slice d off n =
     (let o' = int (unat off)
      in if n \<ge> 0 \<and> o' + n > int (length d) then Inl corrupt
         else if n < 0 then (if o' > int (length d) then Inl out_of_range else Inr (drop (nat o') d))
         else Inr (take (nat n) (drop (nat o') d)))"

definition read_uint32 :: "byte list \<Rightarrow> u32 \<Rightarrow> u32 result" where
  "read_uint32 d off = bindR (slice d off 4) (\<lambda>x. Inr (be32 x))"

definition read_uvarint :: "byte list \<Rightarrow> u32 \<Rightarrow> u32 result" where
  "read_uvarint d off =
     bindR (slice d off (- 1)) (\<lambda>x.
       let (v, n) = Uvarint x in if n \<le> 0 then Inl corrupt else Inr (ucast v))"

definition Open :: "byte list \<Rightarrow> Index result" where
  "Open d =
     (let tl = length trailerMagic
      in if length d < 4 * 4 + tl \<or> drop (length d - tl) d \<noteq> bytes_of trailerMagic then Inl corrupt
         else let n = word_of_int (int (length d) - int tl - 5 * 4) :: u32
              in bindR (read_uint32 d n) (\<lambda>pathData.
                 bindR (read_uint32 d (n + 4)) (\<lambda>nameData.
                 bindR (read_uint32 d (n + 8)) (\<lambda>postData.
                 bindR (read_uint32 d (n + 12)) (\<lambda>nameIndex.
                 bindR (read_uint32 d (n + 16)) (\<lambda>postIndex.
                   Inr \<lparr>ix_data = d, ix_pathData = pathData, ix_nameData = nameData,
                     ix_postData = postData, ix_nameIndex = nameIndex, ix_postIndex = postIndex,
                     ix_numName = int (unat ((postIndex - nameIndex) div 4)) - 1,
                     ix_numPost = int (unat ((n - postIndex) div word_of_nat postEntrySize))\<rparr>))))))"

subsection \<open>Names and paths\<close>

fun index_byte :: "byte list \<Rightarrow> byte \<Rightarrow> nat option" where
  "index_byte [] b = None"
| "index_byte (x # xs) b = (if x = b then Some 0 else map_option Suc (index_byte xs b))"

definition str :: "Index \<Rightarrow> u32 \<Rightarrow> byte list result" where
  "str ix off =
     bindR (slice (ix_data ix) off (- 1)) (\<lambda>s.
       case index_byte s 0 of None \<Rightarrow> Inl corrupt | Some i \<Rightarrow> Inr (take i s))"

definition NameBytes :: "Index \<Rightarrow> u32 \<Rightarrow> byte list result" where
  "NameBytes ix fid =
     bindR (read_uint32 (ix_data ix) (ix_nameIndex ix + 4 * fid)) (\<lambda>off. str ix (ix_nameData ix + off))"

definition Name :: "Index \<Rightarrow> u32 \<Rightarrow> string result" where
  "Name ix fid = bindR (NameBytes ix fid) (\<lambda>b. Inr (string_of_bytes b))"

text \<open>The loop of \<^verbatim>\<open>Paths\<close>; \<open>None\<close> would be a loop that does not end.\<close>

partial_function (option) paths_from :: "Index \<Rightarrow> u32 \<Rightarrow> string list \<Rightarrow> string list result option" where
  "paths_from ix off x =
     (case str ix off of
        Inl e \<Rightarrow> Some (Inl e)
      | Inr s \<Rightarrow> if length s = 0 then Some (Inr x)
                else paths_from ix (off + word_of_nat (length s + 1)) (x @ [string_of_bytes s]))"

definition Paths :: "Index \<Rightarrow> string list result option" where
  "Paths ix = paths_from ix (ix_pathData ix) []"

subsection \<open>The posting list index\<close>

definition listAt :: "Index \<Rightarrow> u32 \<Rightarrow> (u32 \<times> u32 \<times> u32) result" where
  "listAt ix off =
     bindR (slice (ix_data ix) (ix_postIndex ix + off) (int postEntrySize)) (\<lambda>d.
       Inr (be24 d, be32 (drop 3 d), be32 (drop 7 d)))"

text \<open>\<^verbatim>\<open>sort.Search\<close>: the least index in the range where the test holds, by bisection.\<close>

function search :: "nat \<Rightarrow> nat \<Rightarrow> (nat \<Rightarrow> bool) \<Rightarrow> nat" where
  "search i j f =
     (if i < j then
        let h = (i + j) div 2 in if \<not> f h then search (h + 1) j f else search i h f
      else i)"
  by auto
termination by (relation "measure (\<lambda>(i, j, f). j - i)") auto

declare search.simps [simp del]

definition entry_trigram :: "byte list \<Rightarrow> nat \<Rightarrow> u32" where
  "entry_trigram d i = be24 (drop (i * postEntrySize) d)"

definition findList :: "Index \<Rightarrow> u32 \<Rightarrow> (nat \<times> u32) result" where
  "findList ix t =
     bindR (slice (ix_data ix) (ix_postIndex ix) (int postEntrySize * ix_numPost ix)) (\<lambda>d.
       let n = nat (ix_numPost ix);
           i = search 0 n (\<lambda>i. entry_trigram d i \<ge> t)
       in if i \<ge> n then Inr (0, 0)
          else if entry_trigram d i \<noteq> t then Inr (0, 0)
          else let e = drop (i * postEntrySize) d
               in Inr (unat (be32 (drop 3 e)), be32 (drop 7 e)))"

subsection \<open>Reading a posting list\<close>

record postReader =
  pr_count :: nat
  pr_offset :: u32
  pr_fileid :: u32
  pr_d :: "byte list option"
  pr_restrict :: "u32 list option"

definition init_reader :: "Index \<Rightarrow> u32 \<Rightarrow> u32 list option \<Rightarrow> postReader result" where
  "init_reader ix t restrict =
     bindR (findList ix t) (\<lambda>(count, offset).
       if count = 0
       then Inr \<lparr>pr_count = 0, pr_offset = 0, pr_fileid = 0, pr_d = None, pr_restrict = None\<rparr>
       else bindR (slice (ix_data ix) (ix_postData ix + offset + 3) (- 1)) (\<lambda>d.
         Inr \<lparr>pr_count = count, pr_offset = offset, pr_fileid = - 1, pr_d = Some d,
              pr_restrict = restrict\<rparr>))"

definition bytes_left :: "byte list option \<Rightarrow> byte list" where
  "bytes_left d = (case d of None \<Rightarrow> [] | Some x \<Rightarrow> x)"

text \<open>\<open>next\<close> says whether there is another id, with the reader after it.\<close>

function next_id :: "postReader \<Rightarrow> (bool \<times> postReader) result" where
  "next_id r =
     (if pr_count r > 0 then
        let (delta64, n) = Uvarint (bytes_left (pr_d r)); delta = ucast delta64 :: u32
        in if n \<le> 0 \<or> delta = 0 then Inl corrupt
           else let fid = pr_fileid r + delta;
                    r' = r\<lparr>pr_count := pr_count r - 1, pr_d := Some (drop (nat n) (bytes_left (pr_d r))),
                           pr_fileid := fid\<rparr>
                in case pr_restrict r of
                     None \<Rightarrow> Inr (True, r')
                   | Some l \<Rightarrow>
                       let l' = dropWhile (\<lambda>x. x < fid) l; r'' = r'\<lparr>pr_restrict := Some l'\<rparr>
                       in if l' = [] \<or> hd l' \<noteq> fid then next_id r'' else Inr (True, r'')
      else if pr_d r \<noteq> None \<and> (bytes_left (pr_d r) = [] \<or> hd (bytes_left (pr_d r)) \<noteq> 0) then Inl corrupt
      else Inr (False, r\<lparr>pr_fileid := - 1\<rparr>))"
  by auto
termination by (relation "measure pr_count") auto

declare next_id.simps [simp del]

lemma next_id_count: "next_id r = Inr (True, r') \<Longrightarrow> pr_count r' < pr_count r"
proof (induction r rule: next_id.induct)
  case (1 r)
  obtain v n where u: "Uvarint (bytes_left (pr_d r)) = (v, n)" by fastforce
  show ?case
  proof (cases "pr_count r > 0 \<and> \<not> (n \<le> 0 \<or> (ucast v :: u32) = 0)")
    case False
    with "1.prems" u show ?thesis by (subst (asm) next_id.simps) (auto split: if_splits)
  next
    case True
    show ?thesis
    proof (cases "pr_restrict r")
      case None
      with "1.prems" u True show ?thesis by (subst (asm) next_id.simps) auto
    next
      case (Some l)
      let ?fid = "pr_fileid r + ucast v"
      let ?l = "dropWhile (\<lambda>x. x < ?fid) l"
      let ?r = "r\<lparr>pr_count := pr_count r - 1, pr_d := Some (drop (nat n) (bytes_left (pr_d r))),
                           pr_fileid := ?fid, pr_restrict := Some ?l\<rparr>"
      have eq: "next_id r = (if ?l = [] \<or> hd ?l \<noteq> ?fid then next_id ?r else Inr (True, ?r))"
        using Some u True by (subst next_id.simps) (simp add: Let_def)
      show ?thesis
      proof (cases "?l = [] \<or> hd ?l \<noteq> ?fid")
        case t: True
        have "pr_count r' < pr_count ?r"
          using "1.IH"[OF _ u[symmetric] refl refl _ refl refl Some refl refl] True t "1.prems" eq by simp
        then show ?thesis by simp
      next
        case False
        have "next_id r = Inr (True, ?r)" unfolding eq by (rule if_not_P) (rule False)
        then have "r' = ?r" using "1.prems" by (simp only: sum.inject prod.inject simp_thms)
        then show ?thesis using True by simp
      qed
    qed
  qed
qed

function list_loop :: "postReader \<Rightarrow> u32 list \<Rightarrow> u32 list result" where
  "list_loop r x =
     (case next_id r of
        Inl e \<Rightarrow> Inl e
      | Inr (go_on, r') \<Rightarrow> if go_on then list_loop r' (x @ [pr_fileid r']) else Inr x)"
  by auto
termination by (relation "measure (\<lambda>(r, x). pr_count r)") (auto dest: next_id_count)

definition posting_list :: "Index \<Rightarrow> u32 \<Rightarrow> u32 list option \<Rightarrow> u32 list result" where
  "posting_list ix t restrict = bindR (init_reader ix t restrict) (\<lambda>r. list_loop r [])"

text \<open>The loops of \<^verbatim>\<open>postingAnd\<close> and \<^verbatim>\<open>postingOr\<close>; \<open>rest\<close> is \<^verbatim>\<open>list[i:]\<close>.\<close>

function and_loop :: "postReader \<Rightarrow> u32 list \<Rightarrow> u32 list \<Rightarrow> u32 list result" where
  "and_loop r rest x =
     (case next_id r of
        Inl e \<Rightarrow> Inl e
      | Inr (go_on, r') \<Rightarrow>
          if \<not> go_on then Inr x
          else let fid = pr_fileid r'; rest' = dropWhile (\<lambda>y. y < fid) rest
               in if rest' \<noteq> [] \<and> hd rest' = fid then and_loop r' (tl rest') (x @ [fid])
                  else and_loop r' rest' x)"
  by auto
termination by (relation "measure (\<lambda>(r, rest, x). pr_count r)") (auto dest: next_id_count)

definition posting_and :: "Index \<Rightarrow> u32 list \<Rightarrow> u32 \<Rightarrow> u32 list option \<Rightarrow> u32 list result" where
  "posting_and ix l t restrict = bindR (init_reader ix t restrict) (\<lambda>r. and_loop r l [])"

function or_loop :: "postReader \<Rightarrow> u32 list \<Rightarrow> u32 list \<Rightarrow> u32 list result" where
  "or_loop r rest x =
     (case next_id r of
        Inl e \<Rightarrow> Inl e
      | Inr (go_on, r') \<Rightarrow>
          if \<not> go_on then Inr (x @ rest)
          else let fid = pr_fileid r'; rest' = dropWhile (\<lambda>y. y < fid) rest
               in or_loop r' (if rest' \<noteq> [] \<and> hd rest' = fid then tl rest' else rest')
                    (x @ takeWhile (\<lambda>y. y < fid) rest @ [fid]))"
  by auto
termination by (relation "measure (\<lambda>(r, rest, x). pr_count r)") (auto dest: next_id_count)

declare list_loop.simps [simp del] and_loop.simps [simp del] or_loop.simps [simp del]

definition posting_or :: "Index \<Rightarrow> u32 list \<Rightarrow> u32 \<Rightarrow> u32 list option \<Rightarrow> u32 list result" where
  "posting_or ix l t restrict = bindR (init_reader ix t restrict) (\<lambda>r. or_loop r l [])"

fun mergeOr :: "u32 list \<Rightarrow> u32 list \<Rightarrow> u32 list" where
  "mergeOr [] l2 = l2"
| "mergeOr l1 [] = l1"
| "mergeOr (x # l1) (y # l2) =
     (if x < y then x # mergeOr l1 (y # l2)
      else if x > y then y # mergeOr (x # l1) l2
      else x # mergeOr l1 l2)"

subsection \<open>Queries\<close>

text \<open>\<^verbatim>\<open>t[0]\<close>, \<^verbatim>\<open>t[1]\<close>, \<^verbatim>\<open>t[2]\<close> of a trigram string.\<close>

definition tri_value :: "string \<Rightarrow> u32 result" where
  "tri_value t = (if length t < 3 then Inl (Panic ''index out of range'') else Inr (be24 (bytes_of t)))"

definition ids_of :: "u32 list option \<Rightarrow> u32 list" where
  "ids_of l = (case l of None \<Rightarrow> [] | Some x \<Rightarrow> x)"

text \<open>The trigram loop of \<^verbatim>\<open>QAnd\<close>. The flag says that the loop has returned nil.\<close>

fun and_trigrams ::
  "Index \<Rightarrow> string list \<Rightarrow> u32 list option \<Rightarrow> u32 list option \<Rightarrow> (bool \<times> u32 list option) result" where
  "and_trigrams ix [] restrict lst = Inr (False, lst)"
| "and_trigrams ix (t # ts) restrict lst =
     bindR (tri_value t) (\<lambda>tri.
     bindR (case lst of None \<Rightarrow> posting_list ix tri restrict
                     | Some l \<Rightarrow> posting_and ix l tri restrict) (\<lambda>l.
       if length l = 0 then Inr (True, None) else and_trigrams ix ts restrict (Some l)))"

fun or_trigrams ::
  "Index \<Rightarrow> string list \<Rightarrow> u32 list option \<Rightarrow> u32 list option \<Rightarrow> u32 list option result" where
  "or_trigrams ix [] restrict lst = Inr lst"
| "or_trigrams ix (t # ts) restrict lst =
     bindR (tri_value t) (\<lambda>tri.
     bindR (case lst of None \<Rightarrow> posting_list ix tri restrict
                     | Some l \<Rightarrow> posting_or ix l tri restrict) (\<lambda>l.
       or_trigrams ix ts restrict (Some l)))"

fun posting_query :: "Index \<Rightarrow> query \<Rightarrow> u32 list option \<Rightarrow> u32 list option result"
  and and_subs :: "Index \<Rightarrow> query list \<Rightarrow> u32 list option \<Rightarrow> u32 list option \<Rightarrow> u32 list option result"
  and or_subs :: "Index \<Rightarrow> query list \<Rightarrow> u32 list option \<Rightarrow> u32 list option \<Rightarrow> u32 list option result"
where
  "posting_query ix (Query op ts ss) restrict =
     (case op of
        QNone \<Rightarrow> Inr None
      | QAll \<Rightarrow>
          if restrict \<noteq> None then Inr restrict
          else if ix_numName ix < 0 then Inl (Panic ''makeslice: len out of range'')
          else Inr (Some (map word_of_nat [0..<nat (ix_numName ix)]))
      | QAnd \<Rightarrow>
          bindR (and_trigrams ix ts restrict None) (\<lambda>(ret, lst).
            if ret then Inr None else and_subs ix ss restrict lst)
      | QOr \<Rightarrow>
          bindR (or_trigrams ix ts restrict None) (\<lambda>lst. or_subs ix ss restrict lst))"
| "and_subs ix [] restrict lst = Inr lst"
| "and_subs ix (s # ss) restrict lst =
     bindR (posting_query ix s (if lst = None then restrict else lst)) (\<lambda>l.
       if length (ids_of l) = 0 then Inr None else and_subs ix ss restrict l)"
| "or_subs ix [] restrict lst = Inr lst"
| "or_subs ix (s # ss) restrict lst =
     bindR (posting_query ix s restrict) (\<lambda>l1.
       or_subs ix ss restrict (Some (mergeOr (ids_of lst) (ids_of l1))))"

definition PostingQuery :: "Index \<Rightarrow> query \<Rightarrow> u32 list option result" where
  "PostingQuery ix q = posting_query ix q None"

definition PostingList :: "Index \<Rightarrow> u32 \<Rightarrow> u32 list result" where
  "PostingList ix t = posting_list ix t None"

definition PostingAnd :: "Index \<Rightarrow> u32 list \<Rightarrow> u32 \<Rightarrow> u32 list result" where
  "PostingAnd ix l t = posting_and ix l t None"

definition PostingOr :: "Index \<Rightarrow> u32 list \<Rightarrow> u32 \<Rightarrow> u32 list result" where
  "PostingOr ix l t = posting_or ix l t None"

end
