(* ===== verification/Index_Scan.thy ===== *)
theory Index_Scan
  imports Index_Write
begin

text \<open>
  What the scan of \<^verbatim>\<open>IndexWriter.Add\<close> computes: the bytes a reader delivers do not depend on how
  its \<^verbatim>\<open>Read\<close> calls cut them, the rolling trigram value is the last three bytes, and a file is
  accepted exactly when it is a text, with all its trigrams in the set.
\<close>

subsection \<open>Readers\<close>

text \<open>The bytes of a reader that ends with \<^verbatim>\<open>io.EOF\<close>.\<close>

fun delivers :: "reader \<Rightarrow> byte list option" where
  "delivers [] = Some []"
| "delivers ((data, err) # r) =
     (if data = [] then if err = EOF then Some [] else None
      else map_option (\<lambda>w. data @ w) (delivers r))"

lemma add_loop_delivers:
  "delivers r = Some w \<Longrightarrow> add_loop r buf tv n l s = add_loop [] (buf @ w) tv n l s"
proof (induction r buf tv n l s arbitrary: w rule: add_loop.induct)
  case (1 r c buf tv n l s)
  show ?case using "1.IH"[OF refl refl _ _ _ refl] "1.prems"
    by (auto simp: Let_def split: option.splits)
next
  case (2 tv n l s)
  then show ?case by simp
next
  case (3 data err r tv n l s)
  then show ?case by (auto split: if_splits)
qed

subsection \<open>The rolling trigram\<close>

definition roll :: "u32 \<Rightarrow> byte \<Rightarrow> u32" where
  "roll tv c = (push_bit 8 tv AND mask 24) OR ucast c"

definition rolled :: "byte list \<Rightarrow> u32" where
  "rolled p = foldl roll 0 p"

lemma rolled_snoc: "rolled (p @ [c]) = roll (rolled p) c"
  by (simp add: rolled_def)

lemma bit_roll: "bit (roll tv c) n \<longleftrightarrow> n < 24 \<and> (if n < 8 then bit c n else bit tv (n - 8))"
  by (auto simp: roll_def bit_simps dest: bit_imp_le_length)

lemma bit_0xff: "bit (0xff :: u32) n \<longleftrightarrow> n < 8"
proof -
  have "(0xff :: u32) = mask 8" by (simp add: mask_eq_exp_minus_1)
  then show ?thesis by (simp only: bit_mask_iff) auto
qed

lemma roll_low: "roll tv c AND 0xff = ucast c"
  by (rule bit_word_eqI)
    (auto simp: bit_and_iff bit_roll bit_0xff bit_simps simp del: bit_numeral_word_iff dest: bit_imp_le_length)

lemma roll_high: "drop_bit 8 (roll tv c) AND 0xff = tv AND 0xff"
  by (rule bit_word_eqI)
    (auto simp: bit_and_iff bit_drop_bit_eq bit_roll bit_0xff simp del: bit_numeral_word_iff)

lemma rolled_low: "rolled p AND 0xff = (if p = [] then 0 else ucast (last p))"
  by (cases p rule: rev_cases) (auto simp: rolled_snoc roll_low, simp add: rolled_def)

lemma rolled_less: "rolled p < 2 ^ 24"
proof -
  have "take_bit 24 (rolled p) = rolled p"
    by (rule bit_word_eqI, cases p rule: rev_cases)
      (auto simp: rolled_def bit_roll bit_take_bit_iff)
  then show ?thesis using less_2p_iff[of 24 "rolled p"] by simp
qed

lemma rolled_be24:
  assumes "3 \<le> length p" shows "rolled p = be24 (drop (length p - 3) p)"
proof -
  obtain q c where p1: "p = q @ [c]" using assms by (cases p rule: rev_cases) auto
  with assms obtain q' b where p2: "q = q' @ [b]" by (cases q rule: rev_cases) auto
  with assms p1 obtain q'' a where p3: "q' = q'' @ [a]" by (cases q' rule: rev_cases) auto
  have d: "drop (length p - 3) p = [a, b, c]" by (simp add: p1 p2 p3)
  have "rolled p = roll (roll (roll (rolled q'') a) b) c" by (simp add: p1 p2 p3 rolled_def)
  also have "\<dots> = be24 [a, b, c]"
  proof (rule bit_word_eqI)
    fix n assume "n < LENGTH(32)"
    then consider "n < 8" | "8 \<le> n" "n < 16" | "16 \<le> n" "n < 24" | "24 \<le> n" "n < 32" by fastforce
    then show "bit (roll (roll (roll (rolled q'') a) b) c) n = bit (be24 [a, b, c]) n"
      by cases (auto simp: bit_roll be24_def bit_simps dest: bit_imp_le_length)
  qed
  finally show ?thesis using d by simp
qed

subsection \<open>Texts\<close>

definition byte_pair_ok :: "byte \<Rightarrow> byte \<Rightarrow> bool" where
  "byte_pair_ok a b = validUTF8 (ucast a) (ucast b)"

text \<open>The conditions at the byte \<open>j\<close>: the pair it ends, its position, its column.\<close>

definition pairs_ok :: "byte list \<Rightarrow> bool" where
  "pairs_ok w \<longleftrightarrow> (\<forall>j < length w. byte_pair_ok (if j = 0 then 0 else w ! (j - 1)) (w ! j))"

definition column :: "byte list \<Rightarrow> nat" where
  "column p = length (takeWhile (\<lambda>c. c \<noteq> 10) (rev p))"

definition lines_ok :: "byte list \<Rightarrow> bool" where
  "lines_ok w \<longleftrightarrow> (\<forall>j < length w. column (take j w) < maxLineLen)"

definition is_text :: "byte list \<Rightarrow> bool" where
  "is_text w \<longleftrightarrow> pairs_ok w \<and> length w \<le> maxFileLen \<and> lines_ok w"

definition file_trigrams :: "byte list \<Rightarrow> u32 list" where
  "file_trigrams w = map be24 (windows3 w)"

text \<open>The trigrams the scan of \<open>w\<close> adds when it starts after \<open>p\<close>.\<close>

definition scan_trigrams :: "byte list \<Rightarrow> byte list \<Rightarrow> u32 list" where
  "scan_trigrams p w =
     map (\<lambda>k. rolled (take k (p @ w))) (filter (\<lambda>k. 3 \<le> k) [Suc (length p)..<Suc (length p + length w)])"

lemma scan_trigrams_Nil [simp]: "scan_trigrams p [] = []"
  by (simp add: scan_trigrams_def)

lemma scan_trigrams_Cons:
  "scan_trigrams p (c # w) =
     (if 3 \<le> Suc (length p) then [rolled (p @ [c])] else []) @ scan_trigrams (p @ [c]) w"
proof -
  have "[Suc (length p)..<Suc (length p + length (c # w))]
      = Suc (length p) # [Suc (length (p @ [c]))..<Suc (length (p @ [c]) + length w)]"
    by (simp add: upt_conv_Cons del: upt_Suc)
  then show ?thesis by (simp add: scan_trigrams_def del: upt_Suc)
qed

lemma scan_trigrams_all: "scan_trigrams [] w = file_trigrams w"
proof -
  have f: "filter (\<lambda>k. 3 \<le> k) [Suc 0..<Suc n] = [3..<Suc n]" for n
    by (induction n) auto
  have m: "[3..<Suc (length w)] = map (\<lambda>i. i + 3) [0..<length w - 2]"
    unfolding map_add_upt by (cases "length w < 2") (simp_all del: upt_Suc)
  have r: "rolled (take (i + 3) w) = be24 (take 3 (drop i w))" if "i < length w - 2" for i
  proof -
    have "drop i (take (i + 3) w) = take 3 (drop i w)" by (simp add: drop_take)
    then show ?thesis using that rolled_be24[of "take (i + 3) w"] by simp
  qed
  have "scan_trigrams [] w = map (\<lambda>k. rolled (take k w)) [3..<Suc (length w)]"
    unfolding scan_trigrams_def using f[of "length w"] by (simp del: upt_Suc)
  also have "\<dots> = file_trigrams w"
    unfolding m file_trigrams_def windows3_def map_map using r by (intro map_cong) auto
  finally show ?thesis .
qed

definition good_from :: "byte list \<Rightarrow> byte list \<Rightarrow> bool" where
  "good_from p w \<longleftrightarrow>
     (\<forall>j < length w. byte_pair_ok (last (0 # p @ take j w)) (w ! j)
        \<and> Suc (length p + j) \<le> maxFileLen \<and> column (p @ take j w) < maxLineLen)"

lemma good_from_Cons:
  "good_from p (c # w) \<longleftrightarrow>
     byte_pair_ok (last (0 # p)) c \<and> Suc (length p) \<le> maxFileLen \<and> column p < maxLineLen
     \<and> good_from (p @ [c]) w"
proof -
  have "(\<forall>j < length (c # w). P j) \<longleftrightarrow> P 0 \<and> (\<forall>j < length w. P (Suc j))" for P
    by (auto simp: less_Suc_eq_0_disj)
  from this[of "\<lambda>j. byte_pair_ok (last (0 # p @ take j (c # w))) ((c # w) ! j)
        \<and> Suc (length p + j) \<le> maxFileLen \<and> column (p @ take j (c # w)) < maxLineLen"]
  show ?thesis unfolding good_from_def by simp
qed

lemma good_from_text: "good_from [] w \<longleftrightarrow> is_text w"
proof -
  have l: "last (0 # take j w) = (if j = 0 then 0 else w ! (j - 1))" if "j < length w" for j
    using that by (auto simp: last_conv_nth)
  have "(\<forall>j < length w. Suc j \<le> maxFileLen) \<longleftrightarrow> length w \<le> maxFileLen"
    by (cases "length w") auto
  then show ?thesis unfolding good_from_def is_text_def pairs_ok_def lines_ok_def
    using l by auto
qed

lemma column_snoc: "column (p @ [c]) = (if c = 10 then 0 else Suc (column p))"
  by (simp add: column_def)

definition scan_bad :: "scan_end \<Rightarrow> bool" where
  "scan_bad e \<longleftrightarrow> e = InvalidUTF8 \<or> e = TooLong \<or> e = LongLines"

text \<open>The scan from any point: the trigrams go into the set in order; it stops at the first byte that
  is not allowed.\<close>

lemma Add_total:
  "sparse_inv s \<Longrightarrow> sparse_len s = 2 ^ 24 \<Longrightarrow> tv < 2 ^ 24 \<Longrightarrow>
     \<exists>s'. Add s tv = Some s' \<and> sparse_inv s' \<and> sparse_len s' = 2 ^ 24"
  using sset.add_defined[of s tv] Add_inv[of s tv] Add_len[of s tv]
  by (auto simp: sparse_univ_def word_less_nat_alt)

declare add_loop.simps [simp del]

lemma add_loop_scan:
  assumes "sparse_inv s" and "sparse_len s = 2 ^ 24"
  shows "\<exists>s'. sparse_inv s' \<and> sparse_len s' = 2 ^ 24 \<and>
      (if good_from p w
       then add_loop [] w (rolled p) (length p) (column p) s = Some (s', Scanned (length p + length w))
            \<and> sset.add_all s (scan_trigrams p w) = Some s'
       else \<exists>e. scan_bad e \<and> add_loop [] w (rolled p) (length p) (column p) s = Some (s', e))"
  using assms
proof (induction w arbitrary: p s)
  case Nil
  then show ?case by (auto simp: good_from_def add_loop.simps)
next
  case (Cons c w)
  let ?tv = "roll (rolled p) c" and ?n = "Suc (length p)"
  have tv: "?tv = rolled (p @ [c])" by (simp add: rolled_snoc)
  obtain s1 where s1: "(if 3 \<le> ?n then Add s ?tv else Some s) = Some s1"
      "sparse_inv s1" "sparse_len s1 = 2 ^ 24"
    using Add_total[OF Cons.prems, of ?tv] rolled_less[of "p @ [c]"] Cons.prems
    unfolding tv by (cases "3 \<le> ?n") (simp_all, blast+)
  have pair: "validUTF8 (drop_bit 8 ?tv AND 0xff) (?tv AND 0xff) = byte_pair_ok (last (0 # p)) c"
    by (simp add: byte_pair_ok_def roll_high roll_low rolled_low)
  have step: "add_loop [] (c # w) (rolled p) (length p) (column p) s =
      (if \<not> byte_pair_ok (last (0 # p)) c then Some (s1, InvalidUTF8)
       else if ?n > maxFileLen then Some (s1, TooLong)
       else if column p + 1 > maxLineLen then Some (s1, LongLines)
       else add_loop [] w (rolled (p @ [c])) (length (p @ [c])) (column (p @ [c])) s1)"
    using s1(1) pair by (subst add_loop.simps(1)) (simp add: Let_def column_snoc tv[symmetric] flip: roll_def)
  have adds: "sset.add_all s (scan_trigrams p (c # w)) = sset.add_all s1 (scan_trigrams (p @ [c]) w)"
    using s1(1) by (simp add: scan_trigrams_Cons sset.add_all_append tv split: if_splits)
  show ?case
  proof (cases "byte_pair_ok (last (0 # p)) c \<and> ?n \<le> maxFileLen \<and> column p < maxLineLen")
    case True
    then have g: "good_from p (c # w) = good_from (p @ [c]) w" by (simp add: good_from_Cons)
    from True have "add_loop [] (c # w) (rolled p) (length p) (column p) s
        = add_loop [] w (rolled (p @ [c])) (length (p @ [c])) (column (p @ [c])) s1"
      unfolding step by simp
    with Cons.IH[OF s1(2,3), of "p @ [c]"] show ?thesis unfolding g adds
      by (cases "good_from (p @ [c]) w") simp_all
  next
    case False
    then have bad: "\<not> good_from p (c # w)" by (auto simp: good_from_Cons)
    define e where "e = (if \<not> byte_pair_ok (last (0 # p)) c then InvalidUTF8
      else if ?n > maxFileLen then TooLong else LongLines)"
    have "scan_bad e" by (simp add: e_def scan_bad_def)
    moreover have "add_loop [] (c # w) (rolled p) (length p) (column p) s = Some (s1, e)"
      unfolding step e_def using False by auto
    ultimately have "\<exists>e. scan_bad e \<and>
        add_loop [] (c # w) (rolled p) (length p) (column p) s = Some (s1, e)" by blast
    then show ?thesis using s1(2,3) bad by (intro exI[of _ s1]) simp
  qed
qed

lemma scan_file:
  assumes "delivers r = Some w" and "sparse_inv s" and "sparse_len s = 2 ^ 24"
  shows "\<exists>s' e. add_loop r [] 0 0 0 (Reset s) = Some (s', e) \<and> sparse_inv s' \<and> sparse_len s' = 2 ^ 24
    \<and> (if is_text w then e = Scanned (length w) \<and> Dense s' = rev (remdups (rev (file_trigrams w)))
       else scan_bad e)"
proof -
  have "sparse_inv (Reset s)" "sparse_len (Reset s) = 2 ^ 24" "dense (Reset s) = []"
    using assms(2,3) sset.reset_inv[of s] by (simp_all add: Reset_def)
  note reset = this
  have z: "rolled [] = 0" "column [] = 0" by (simp_all add: rolled_def column_def)
  obtain s' where s': "sparse_inv s'" "sparse_len s' = 2 ^ 24"
    and res: "if is_text w
       then add_loop [] w 0 0 0 (Reset s) = Some (s', Scanned (length w))
            \<and> sset.add_all (Reset s) (file_trigrams w) = Some s'
       else \<exists>e. scan_bad e \<and> add_loop [] w 0 0 0 (Reset s) = Some (s', e)"
    using add_loop_scan[OF reset(1,2), of "[]" w, unfolded z good_from_text scan_trigrams_all list.size(3) add_0]
    by auto
  have eq: "add_loop r [] 0 0 0 (Reset s) = add_loop [] w 0 0 0 (Reset s)"
    using add_loop_delivers[OF assms(1), of "[]"] by simp
  show ?thesis
  proof (cases "is_text w")
    case True
    with res have "dense s' = rev (remdups (rev (file_trigrams w)))"
      using add_all_dense[OF reset(1), of "file_trigrams w" s'] reset(3) by simp
    with True res s' eq show ?thesis by (simp add: Dense_def)
  next
    case False
    with res s' eq show ?thesis by auto
  qed
qed

subsection \<open>Properties\<close>

definition abc_file :: "byte list" where "abc_file = [97, 98, 99, 10]"

lemma abc_text: "is_text abc_file"
proof -
  have "pairs_ok abc_file" by code_simp
  moreover have "column (take j abc_file) < maxLineLen" for j
  proof -
    have "column (take j abc_file) \<le> length (rev (take j abc_file))"
      unfolding column_def by (rule length_takeWhile_le)
    then show ?thesis by (simp add: abc_file_def maxLineLen_def min_def split: if_splits)
  qed
  ultimately show ?thesis by (simp add: is_text_def lines_ok_def abc_file_def maxFileLen_def)
qed

lemma abc_trigrams: "file_trigrams abc_file = [0x616263, 0x62630a]"
  by (simp add: file_trigrams_def windows3_def abc_file_def upt_rec be24_def)

text \<open>C10. The scan of a file depends on its bytes only, not on how the reader's \<open>Read\<close> calls cut
  them: it ends at the end of file, with exactly the trigrams of the file in the set, each once, when
  the bytes are a text (pairs of bytes valid, length and lines within their limits); otherwise it
  stops and rejects the file. The trigram set never overflows.\<close>

theorem scan_decides_text:
  assumes "delivers r = Some w" and "sparse_inv s" and "sparse_len s = 2 ^ 24"
  shows "\<exists>s' e. add_loop r [] 0 0 0 (Reset s) = Some (s', e)
    \<and> (if is_text w then e = Scanned (length w) \<and> Dense s' = rev (remdups (rev (map be24 (windows3 w))))
       else e = InvalidUTF8 \<or> e = TooLong \<or> e = LongLines)"
  using scan_file[OF assms] by (force simp: scan_bad_def file_trigrams_def split: if_splits)

lemma scan_decides_text_witness:
  "\<exists>s'. add_loop [([97], NoErr), ([98, 99, 10], EOF)] [] 0 0 0 (Reset (NewSet (2 ^ 24)))
     = Some (s', Scanned 4) \<and> Dense s' = [0x616263, 0x62630a]"
proof -
  have "delivers [([97], NoErr), ([98, 99, 10], EOF)] = Some abc_file" by (simp add: abc_file_def)
  from scan_decides_text[OF this NewSet_inv, of "2 ^ 24"] show ?thesis
    using abc_text abc_trigrams by (auto simp: NewSet_def file_trigrams_def) (simp add: abc_file_def)
qed

end
