(* ===== verification/Index_Format.thy ===== *)
theory Index_Format
  imports Index_Scan
begin

text \<open>
  The index file as the comment at the top of \<^verbatim>\<open>index/read.go\<close> describes it: a function from the
  paths and the documents to bytes, with no buffers, runs or heaps. A document is a name and the
  trigrams of the file; its id is its position. \<open>index_file\<close> is the abstract specification that
  the writer implements and the reader inverts.
\<close>

type_synonym doc = "string \<times> u32 list"

abbreviation last_trigram :: u32 where
  "last_trigram \<equiv> 2 ^ 24 - 1"

definition name_bytes :: "string \<Rightarrow> byte list" where
  "name_bytes n = bytes_of n @ [0]"

definition names_section :: "string list \<Rightarrow> byte list" where
  "names_section ns = concat (map name_bytes ns)"

fun name_index_section :: "nat \<Rightarrow> string list \<Rightarrow> byte list" where
  "name_index_section off [] = []"
| "name_index_section off (n # ns) =
     uint32_bytes (word_of_nat off) @ name_index_section (off + length n + 1) ns"

definition doc_entries_from :: "nat \<Rightarrow> doc list \<Rightarrow> postEntry list" where
  "doc_entries_from n docs =
     concat (map (\<lambda>(i, d). map (\<lambda>t. makePostEntry t (word_of_nat i)) (snd d)) (enumerate n docs))"

abbreviation doc_entries :: "doc list \<Rightarrow> postEntry list" where
  "doc_entries \<equiv> doc_entries_from 0"

text \<open>Posting lists: the runs of entries with one trigram.\<close>

type_synonym posting = "u32 \<times> u32 list"

function group_entries :: "postEntry list \<Rightarrow> posting list" where
  "group_entries [] = []"
| "group_entries (e # es) =
     (trigram e, fileid e # map fileid (takeWhile (\<lambda>x. trigram x = trigram e) es))
     # group_entries (dropWhile (\<lambda>x. trigram x = trigram e) es)"
  by pat_completeness auto
termination
  by (relation "measure length") (simp_all add: length_dropWhile_le le_imp_less_Suc)

fun diffs :: "u32 \<Rightarrow> u32 list \<Rightarrow> u32 list" where
  "diffs prev [] = []"
| "diffs prev (f # fs) = (f - prev) # diffs f fs"

definition diff_bytes :: "u32 \<Rightarrow> u32 list \<Rightarrow> byte list" where
  "diff_bytes prev fs = concat (map uvarint_bytes (diffs prev fs))"

definition list_bytes :: "posting \<Rightarrow> byte list" where
  "list_bytes g = trigram_bytes (fst g) @ diff_bytes (- 1) (snd g) @ uvarint_bytes 0"

definition lists_section :: "posting list \<Rightarrow> byte list" where
  "lists_section gs = concat (map list_bytes gs)"

fun list_index_section :: "nat \<Rightarrow> posting list \<Rightarrow> byte list" where
  "list_index_section off [] = []"
| "list_index_section off (g # gs) =
     (trigram_bytes (fst g) @ uint32_bytes (word_of_nat (length (snd g))) @ uint32_bytes (word_of_nat off))
     @ list_index_section (off + length (list_bytes g)) gs"

definition postings :: "doc list \<Rightarrow> posting list" where
  "postings docs = group_entries (sorted_list_of_multiset (mset (doc_entries docs))) @ [(last_trigram, [])]"

definition trailer :: "nat list \<Rightarrow> byte list" where
  "trailer offs = concat (map (\<lambda>n. uint32_bytes (word_of_nat n)) offs) @ bytes_of trailerMagic"

definition index_sections :: "string list \<Rightarrow> doc list \<Rightarrow> byte list list" where
  "index_sections paths docs =
     [bytes_of magic, names_section (paths @ [[]]), names_section (map fst docs @ [[]]),
      lists_section (postings docs), name_index_section 0 (map fst docs @ [[]]),
      list_index_section 0 (postings docs)]"

definition index_file :: "string list \<Rightarrow> doc list \<Rightarrow> byte list" where
  "index_file paths docs =
     (let ss = index_sections paths docs
      in concat ss @ trailer (map (\<lambda>k. length (concat (take k ss))) [1, 2, 3, 4, 5]))"

text \<open>The documents a writer can hold.\<close>

definition docs_ok :: "doc list \<Rightarrow> bool" where
  "docs_ok docs \<longleftrightarrow>
     (\<forall>d \<in> set docs. CHR 0x00 \<notin> set (fst d) \<and> distinct (snd d) \<and> (\<forall>t \<in> set (snd d). t < last_trigram))"

subsection \<open>Lemmas\<close>

lemma names_section_simps [simp]:
  "names_section [] = []" "names_section (n # ns) = name_bytes n @ names_section ns"
  "names_section (ns @ ms) = names_section ns @ names_section ms"
  by (simp_all add: names_section_def)

lemma length_name_bytes [simp]: "length (name_bytes n) = Suc (length n)"
  by (simp add: name_bytes_def)

lemma length_names_section_ge: "length ns \<le> length (names_section ns)"
  by (induction ns) auto

lemma name_index_section_append:
  "name_index_section off (ns @ ms)
   = name_index_section off ns @ name_index_section (off + length (names_section ns)) ms"
  by (induction ns arbitrary: off) (auto simp: algebra_simps)

lemma doc_entries_simps [simp]:
  "doc_entries_from n [] = []"
  "doc_entries_from n (d # ds)
   = map (\<lambda>t. makePostEntry t (word_of_nat n)) (snd d) @ doc_entries_from (Suc n) ds"
  by (simp_all add: doc_entries_from_def)

lemma doc_entries_append:
  "doc_entries_from n (ds @ es) = doc_entries_from n ds @ doc_entries_from (n + length ds) es"
  by (induction ds arbitrary: n) auto

lemma in_doc_entries:
  "e \<in> set (doc_entries_from n docs) \<longleftrightarrow>
     (\<exists>i < length docs. \<exists>t \<in> set (snd (docs ! i)). e = makePostEntry t (word_of_nat (n + i)))"
proof (induction docs arbitrary: n)
  case Nil
  then show ?case by simp
next
  case (Cons d docs)
  have "(\<exists>i < length (d # docs). P i) \<longleftrightarrow> P 0 \<or> (\<exists>i < length docs. P (Suc i))" for P
    by (auto simp: less_Suc_eq_0_disj)
  from this[of "\<lambda>i. \<exists>t \<in> set (snd ((d # docs) ! i)). e = makePostEntry t (word_of_nat (n + i))"]
  show ?case using Cons.IH[of "Suc n"] by (auto simp del: of_nat_Suc of_nat_add)
qed

lemma lists_section_simps [simp]:
  "lists_section [] = []" "lists_section (g # gs) = list_bytes g @ lists_section gs"
  "lists_section (gs @ hs) = lists_section gs @ lists_section hs"
  by (simp_all add: lists_section_def)

lemma diff_bytes_simps [simp]:
  "diff_bytes prev [] = []"
  "diff_bytes prev (f # fs) = uvarint_bytes (f - prev) @ diff_bytes f fs"
  by (simp_all add: diff_bytes_def)


subsection \<open>The writer holds the documents\<close>

text \<open>The entries of a writer: those in memory and those in the sorted runs.\<close>

definition holds_entries :: "IndexWriter \<Rightarrow> postEntry list \<Rightarrow> bool" where
  "holds_entries ix es \<longleftrightarrow>
     mset (concat (iw_postFile ix)) + mset (iw_post ix) = mset es
     \<and> (\<forall>run \<in> set (iw_postFile ix). sorted run)
     \<and> sorted (map fileid (iw_post ix))
     \<and> (\<forall>e \<in> set es. trigram e < last_trigram)"

definition holds :: "IndexWriter \<Rightarrow> doc list \<Rightarrow> bool" where
  "holds ix docs \<longleftrightarrow>
     sparse_inv (iw_trigram ix) \<and> sparse_len (iw_trigram ix) = 2 ^ 24
     \<and> iw_numName ix = length docs \<and> length docs \<le> 2 ^ 32
     \<and> contents (iw_nameData ix) = names_section (map fst docs)
     \<and> contents (iw_nameIndex ix) = name_index_section 0 (map fst docs)
     \<and> contents (iw_postIndex ix) = [] \<and> contents (iw_main ix) = []
     \<and> docs_ok docs \<and> holds_entries ix (doc_entries docs)"

lemma holds_Create: "holds Create []"
  by (simp add: holds_def Create_def contents_create NewSet_inv docs_ok_def holds_entries_def)
    (simp add: NewSet_def)

lemma holds_AddPaths: "holds ix docs \<Longrightarrow> holds (AddPaths ix ps) docs"
  by (simp add: holds_def AddPaths_def holds_entries_def)

lemma last_trigram_le: "t < last_trigram \<Longrightarrow> t < 2 ^ 24" for t :: u32
  by (simp add: word_less_nat_alt)

lemma holds_sorts:
  assumes "holds_entries ix es"
  shows "sorted (sortPost (iw_post ix))" "mset (sortPost (iw_post ix)) = mset (iw_post ix)"
proof -
  have "set (iw_post ix) \<subseteq> set es"
    using assms unfolding holds_entries_def by (metis Un_upper2 set_mset_mset set_mset_union)
  then have "\<forall>e \<in> set (iw_post ix). trigram e < 2 ^ 24"
    using assms last_trigram_le by (auto simp: holds_entries_def)
  then show "sorted (sortPost (iw_post ix))" "mset (sortPost (iw_post ix)) = mset (iw_post ix)"
    using assms by (auto simp: holds_entries_def intro!: sortPost_sorts)
qed

lemma add_entry_holds:
  assumes "holds_entries ix es" and "t < last_trigram" and "\<forall>e \<in> set (iw_post ix). fileid e \<le> fid"
  shows "\<exists>p pf. add_entry fid ix t = Inr (ix\<lparr>iw_post := p, iw_postFile := pf\<rparr>)
    \<and> holds_entries (ix\<lparr>iw_post := p, iw_postFile := pf\<rparr>) (es @ [makePostEntry t fid])
    \<and> (\<forall>e \<in> set p. fileid e \<le> fid)"
proof (cases "length (iw_post ix) \<ge> npost")
  case True
  then have ne: "iw_post ix \<noteq> []" by (auto simp: npost_def)
  have "add_entry fid ix t = Inr (ix\<lparr>iw_post := [makePostEntry t fid],
      iw_postFile := iw_postFile ix @ [sortPost (iw_post ix)]\<rparr>)"
    using True ne by (simp add: add_entry_def flushPost_def)
  moreover have "holds_entries (ix\<lparr>iw_post := [makePostEntry t fid],
      iw_postFile := iw_postFile ix @ [sortPost (iw_post ix)]\<rparr>) (es @ [makePostEntry t fid])"
    using assms holds_sorts[OF assms(1)] by (auto simp: holds_entries_def)
  ultimately show ?thesis by (intro exI conjI) auto
next
  case False
  have "add_entry fid ix t = Inr (ix\<lparr>iw_post := iw_post ix @ [makePostEntry t fid],
      iw_postFile := iw_postFile ix\<rparr>)"
    using False by (simp add: add_entry_def)
  moreover have "holds_entries (ix\<lparr>iw_post := iw_post ix @ [makePostEntry t fid],
      iw_postFile := iw_postFile ix\<rparr>) (es @ [makePostEntry t fid])"
    using assms by (auto simp: holds_entries_def sorted_append)
  ultimately show ?thesis using assms(3)
    by (intro exI[of _ "iw_post ix @ [makePostEntry t fid]"] exI[of _ "iw_postFile ix"]) auto
qed

lemma add_entries_hold:
  assumes "holds_entries ix es" and "\<forall>t \<in> set ts. t < last_trigram"
    and "\<forall>e \<in> set (iw_post ix). fileid e \<le> fid"
  shows "\<exists>p pf. foldR (add_entry fid) ix ts = Inr (ix\<lparr>iw_post := p, iw_postFile := pf\<rparr>)
    \<and> holds_entries (ix\<lparr>iw_post := p, iw_postFile := pf\<rparr>) (es @ map (\<lambda>t. makePostEntry t fid) ts)"
  using assms
proof (induction ts arbitrary: ix es)
  case Nil
  then show ?case by (intro exI[of _ "iw_post ix"] exI[of _ "iw_postFile ix"]) simp
next
  case (Cons t ts)
  obtain p pf where s: "add_entry fid ix t = Inr (ix\<lparr>iw_post := p, iw_postFile := pf\<rparr>)"
    "holds_entries (ix\<lparr>iw_post := p, iw_postFile := pf\<rparr>) (es @ [makePostEntry t fid])"
    "\<forall>e \<in> set p. fileid e \<le> fid"
  proof -
    have "t < last_trigram" using Cons.prems(2) by simp
    from add_entry_holds[OF Cons.prems(1) this Cons.prems(3)] that show ?thesis by blast
  qed
  from Cons.IH[OF s(2)] s(3) Cons.prems(2) show ?case by (auto simp: s(1))
qed

end
