(* ===== verification/Posting_Lists.thy ===== *)
theory Posting_Lists
  imports Index_Format
begin

text \<open>
  The posting lists of a collection of documents, as the reader sees them: the list of a trigram has
  the ids of the documents that have it, ascending, and the lists come in ascending order of their
  trigrams.
\<close>

definition universe :: "doc list \<Rightarrow> u32 list" where
  "universe docs = map word_of_nat [0..<length docs]"

definition having :: "doc list \<Rightarrow> u32 \<Rightarrow> u32 set" where
  "having docs t = {word_of_nat i | i. i < length docs \<and> t \<in> set (snd (docs ! i))}"

text \<open>The list of the ids in a set.\<close>

definition listing :: "doc list \<Rightarrow> u32 set \<Rightarrow> u32 list" where
  "listing docs S = filter (\<lambda>x. x \<in> S) (universe docs)"

subsection \<open>Ids\<close>

lemma sorted_universe: "length docs \<le> 2 ^ 32 \<Longrightarrow> sorted_wrt (<) (universe docs)"
proof (induction docs rule: rev_induct)
  case Nil
  then show ?case by (simp add: universe_def)
next
  case (snoc d docs)
  have "(word_of_nat i :: u32) < word_of_nat (length docs)" if "i < length docs" for i
    using that snoc.prems by (simp add: word_less_nat_alt unat_of_nat_u32)
  with snoc show ?case by (auto simp: universe_def sorted_wrt_append)
qed

lemma set_universe: "set (universe docs) = {word_of_nat i | i. i < length docs}"
  by (auto simp: universe_def)

lemma having_universe: "having docs t \<subseteq> set (universe docs)"
  by (auto simp: having_def set_universe)

lemma sorted_listing: "length docs \<le> 2 ^ 32 \<Longrightarrow> sorted_wrt (<) (listing docs S)"
  by (simp add: listing_def sorted_wrt_filter sorted_universe)

lemma set_listing: "set (listing docs S) = S \<inter> set (universe docs)"
  by (auto simp: listing_def)

lemma length_listing_le: "length (listing docs S) \<le> length docs"
  unfolding listing_def by (rule order_trans[OF length_filter_le]) (simp add: universe_def)

lemma listing_unique:
  assumes "length docs \<le> 2 ^ 32" and "sorted_wrt (<) xs" and "set xs = S \<inter> set (universe docs)"
  shows "xs = listing docs S"
  using assms sorted_listing[of docs S] set_listing[of docs S]
  by (metis strict_sorted_equal)

lemma word_of_nat_inject_docs:
  "i < length docs \<Longrightarrow> j < length docs \<Longrightarrow> length docs \<le> 2 ^ 32 \<Longrightarrow>
     (word_of_nat i :: u32) = word_of_nat j \<Longrightarrow> i = j"
  by (metis less_le_trans unat_of_nat_u32)

subsection \<open>Groups\<close>

lemma group_entries_props:
  assumes "sorted L"
  shows "sorted_wrt (<) (map fst (group_entries L))"
    and "fst ` set (group_entries L) = trigram ` set L"
    and "(t, fs) \<in> set (group_entries L) \<Longrightarrow> fs = map fileid (filter (\<lambda>e. trigram e = t) L)"
  using assms
proof (induction L arbitrary: t fs rule: group_entries.induct)
  case 1
  { case 1 then show ?case by simp next case 2 then show ?case by simp next case 3 then show ?case by simp }
next
  case (2 e es)
  let ?P = "\<lambda>x. trigram x = trigram e"
  have mono: "trigram x \<le> trigram y" if "x \<le> y" for x y
    using that by (auto simp: entry_le_iff)
  have srt: "sorted es" "\<forall>x \<in> set es. trigram e \<le> trigram x"
    if "sorted (e # es)" using that mono by auto
  have sd: "sorted (dropWhile ?P es)" if "sorted (e # es)"
    using srt[OF that] by (simp add: sorted_dropWhile)
  have after: "trigram e < trigram x" if st: "sorted (e # es)" and x: "x \<in> set (dropWhile ?P es)" for x
  proof -
    obtain y ys where ys: "dropWhile ?P es = y # ys" using x by (cases "dropWhile ?P es") auto
    then have "trigram y \<noteq> trigram e" "y \<in> set es"
      using hd_dropWhile[of ?P es] set_dropWhileD[of y ?P es] by auto
    then have "trigram e < trigram y" using srt(2)[OF st] by auto
    also have "trigram y \<le> trigram x" using sd[OF st] x mono unfolding ys by auto
    finally show ?thesis .
  qed
  have es: "set es = set (takeWhile ?P es) \<union> set (dropWhile ?P es)"
    by (metis set_append takeWhile_dropWhile_id)
  {
    case 1
    then show ?case using "2.IH"(1)[OF sd] "2.IH"(2)[OF sd] after by auto
  next
    case 2
    have "trigram ` set (takeWhile ?P es) \<subseteq> {trigram e}" by (auto dest: set_takeWhileD)
    then have "trigram ` set (e # es) = insert (trigram e) (trigram ` set (dropWhile ?P es))"
      using arg_cong[OF es, of "(`) trigram"] by (auto simp: image_Un)
    then show ?case using "2.IH"(2)[OF sd[OF 2]] by simp
  next
    case 3
    have f: "filter (\<lambda>x. trigram x = trigram e) (dropWhile ?P es) = []"
      using after[OF 3(2)] by (fastforce simp: filter_empty_conv)
    have t: "filter ?P (takeWhile ?P es) = takeWhile ?P es" by (auto simp: filter_id_conv dest: set_takeWhileD)
    have split: "filter Q es = filter Q (takeWhile ?P es) @ filter Q (dropWhile ?P es)" for Q
      by (metis filter_append takeWhile_dropWhile_id)
    show ?case
    proof (cases "t = trigram e")
      case True
      have "trigram e \<notin> fst ` set (group_entries (dropWhile ?P es))"
      proof
        assume "trigram e \<in> fst ` set (group_entries (dropWhile ?P es))"
        then obtain x where x: "trigram e = trigram x" "x \<in> set (dropWhile ?P es)"
          unfolding "2.IH"(2)[OF sd[OF 3(2)]] by (rule imageE)
        from after[OF 3(2) x(2)] show False unfolding x(1) by simp
      qed
      then have "(trigram e, fs) \<notin> set (group_entries (dropWhile ?P es))" by (metis fst_conv image_eqI)
      then have "fs = fileid e # map fileid (takeWhile ?P es)" using 3(1) True by simp
      then show ?thesis using True split[of ?P] f t by simp
    next
      case False
      then have m: "(t, fs) \<in> set (group_entries (dropWhile ?P es))" using 3(1) by auto
      have "filter (\<lambda>x. trigram x = t) (takeWhile ?P es) = []"
        using False by (auto simp: filter_empty_conv dest: set_takeWhileD)
      with "2.IH"(3)[OF m sd[OF 3(2)]] False split[of "\<lambda>x. trigram x = t"] show ?thesis by simp
    qed
  }
qed

subsection \<open>The posting lists of documents\<close>

lemma distinct_entries:
  "docs_ok docs \<Longrightarrow> n + length docs \<le> 2 ^ 32 \<Longrightarrow> distinct (doc_entries_from n docs)"
proof (induction docs arbitrary: n)
  case Nil
  then show ?case by simp
next
  case (Cons d docs)
  have "distinct (map (\<lambda>t. makePostEntry t (word_of_nat n)) (snd d))"
    using Cons.prems(1) by (auto simp: docs_ok_def distinct_map inj_on_def) (metis trigram_makePostEntry)
  moreover have "distinct (doc_entries_from (Suc n) docs)"
    using Cons.prems by (intro Cons.IH) (auto simp: docs_ok_def)
  moreover have "fileid x \<noteq> fileid y"
    if x: "x \<in> set (map (\<lambda>t. makePostEntry t (word_of_nat n)) (snd d))"
      and y: "y \<in> set (doc_entries_from (Suc n) docs)" for x y
  proof -
    from y obtain i where "i < length docs" "fileid y = word_of_nat (Suc n + i)"
      by (auto simp: in_doc_entries)
    moreover have "fileid x = word_of_nat n" using x by auto
    moreover have "(word_of_nat n :: u32) \<noteq> word_of_nat (Suc n + i)" if "i < length docs"
    proof
      assume "(word_of_nat n :: u32) = word_of_nat (Suc n + i)"
      then have "n = Suc n + i"
        using that Cons.prems(2) by (metis add_Suc_shift add_less_le_mono le_add1 le_eq_less_or_eq
            length_Cons less_le_trans nat_add_left_cancel_less unat_of_nat_u32 less_add_Suc1 Suc_less_eq add_Suc)
      then show False by simp
    qed
    ultimately show ?thesis by simp
  qed
  ultimately show ?case by auto
qed

lemma postings_props:
  assumes ok: "docs_ok docs" and len: "length docs \<le> 2 ^ 32"
  shows "sorted_wrt (<) (map fst (postings docs))"
    and "(t, fs) \<in> set (postings docs) \<Longrightarrow> fs = listing docs (having docs t)"
    and "t \<in> fst ` set (postings docs) \<longleftrightarrow> t = last_trigram \<or> having docs t \<noteq> {}"
proof -
  define L where "L = sorted_list_of_multiset (mset (doc_entries docs))"
  have srt: "sorted L" by (simp add: L_def)
  have sL: "set L = set (doc_entries docs)" by (simp add: L_def)
  have dL: "distinct L"
    using distinct_entries[OF ok, of 0] len
      mset_eq_imp_distinct_iff[of L "doc_entries docs"] by (simp add: L_def)
  have below: "trigram e < last_trigram" if "e \<in> set L" for e
    using that ok by (auto simp: sL in_doc_entries docs_ok_def) (metis nth_mem)
  have post: "postings docs = group_entries L @ [(last_trigram, [])]" by (simp add: postings_def L_def)
  note g = group_entries_props[OF srt]
  have fsts: "fst ` set (group_entries L) = {t. having docs t \<noteq> {}}"
  proof -
    have "trigram ` set L = {t. having docs t \<noteq> {}}"
      unfolding sL having_def by (force simp: in_doc_entries image_iff)
    with g(2) show ?thesis by simp
  qed
  show "sorted_wrt (<) (map fst (postings docs))"
    using g(1,2) below by (auto simp: post sorted_wrt_append)
  show "t \<in> fst ` set (postings docs) \<longleftrightarrow> t = last_trigram \<or> having docs t \<noteq> {}"
    using fsts by (auto simp: post)
  have nolast: "having docs last_trigram = {}"
    using ok by (auto simp: having_def docs_ok_def)
  show "fs = listing docs (having docs t)" if "(t, fs) \<in> set (postings docs)"
  proof (cases "(t, fs) \<in> set (group_entries L)")
    case True
    let ?M = "filter (\<lambda>e. trigram e = t) L"
    have "sorted_wrt (<) L" using srt dL by (simp add: strict_sorted_iff)
    then have "sorted_wrt (<) ?M" by (rule sorted_wrt_filter)
    then have "sorted_wrt (\<lambda>x y. fileid x < fileid y) ?M"
      by (rule sorted_wrt_mono_rel[rotated]) (auto simp: less_le entry_le_iff entry_eq_iff)
    then have "sorted_wrt (<) fs" using g(3)[OF True] by (simp add: sorted_wrt_map)
    moreover have "set fs = having docs t"
      unfolding g(3)[OF True] having_def using sL by (force simp: in_doc_entries)
    ultimately show ?thesis
      using having_universe[of docs t] by (intro listing_unique len) auto
  next
    case False
    with that have "t = last_trigram" "fs = []" by (auto simp: post)
    with nolast show ?thesis by (simp add: listing_def)
  qed
qed

text \<open>A posting list of at least one id is looked up by its trigram.\<close>

lemma postings_at:
  assumes "i < length (postings docs)" and "docs_ok docs" and "length docs \<le> 2 ^ 32"
  shows "postings docs ! i = (fst (postings docs ! i), listing docs (having docs (fst (postings docs ! i))))"
  using postings_props(2)[OF assms(2,3), of "fst (postings docs ! i)" "snd (postings docs ! i)"] assms(1)
  by (metis nth_mem prod.collapse)

end
