(* ===== verification/Index_Layout.thy ===== *)
theory Index_Layout
  imports Index_Read Posting_Lists
begin

text \<open>
  Reading back the format: \<^verbatim>\<open>Open\<close> on the bytes of \<open>index_file\<close> finds the sections, the names, the
  paths and, by binary search, the posting lists.
\<close>

subsection \<open>Slices of a concatenation\<close>

lemma unat_of_nat_small: "n < 2 ^ 32 \<Longrightarrow> unat (word_of_nat n :: u32) = n"
  by (rule unat_of_nat_u32)

lemma slice_tail:
  "length pre < 2 ^ 32 \<Longrightarrow> slice (pre @ mid) (word_of_nat (length pre)) (- 1) = Inr mid"
  by (simp add: slice_def Let_def unat_of_nat_small)

lemma slice_mid:
  "length pre < 2 ^ 32 \<Longrightarrow>
     slice (pre @ mid @ post) (word_of_nat (length pre)) (int (length mid)) = Inr mid"
  by (simp add: slice_def Let_def unat_of_nat_small)

lemma read_uint32_at:
  assumes "length pre < 2 ^ 32"
  shows "read_uint32 (pre @ uint32_bytes x @ post) (word_of_nat (length pre)) = Inr x"
  using slice_mid[OF assms, of "uint32_bytes x" post] be32_uint32_bytes[of x "[]"]
  by (simp add: read_uint32_def length_encodings)

subsection \<open>The layout of a file\<close>

definition sec :: "string list \<Rightarrow> doc list \<Rightarrow> nat \<Rightarrow> byte list" where
  "sec paths docs k = index_sections paths docs ! k"

definition off :: "string list \<Rightarrow> doc list \<Rightarrow> nat \<Rightarrow> nat" where
  "off paths docs k = length (concat (take k (index_sections paths docs)))"

definition index_of :: "string list \<Rightarrow> doc list \<Rightarrow> Index" where
  "index_of paths docs =
     \<lparr>ix_data = index_file paths docs, ix_pathData = word_of_nat (off paths docs 1),
      ix_nameData = word_of_nat (off paths docs 2), ix_postData = word_of_nat (off paths docs 3),
      ix_nameIndex = word_of_nat (off paths docs 4), ix_postIndex = word_of_nat (off paths docs 5),
      ix_numName = int (length docs), ix_numPost = int (length (postings docs))\<rparr>"

lemma length_sections [simp]: "length (index_sections paths docs) = 6"
  by (simp add: index_sections_def)

lemma index_file_split:
  assumes "k < 6"
  shows "\<exists>pre post. index_file paths docs = pre @ sec paths docs k @ post \<and> length pre = off paths docs k"
proof -
  let ?ss = "index_sections paths docs"
  have "concat ?ss = concat (take k ?ss) @ ?ss ! k @ concat (drop (Suc k) ?ss)"
    using assms id_take_nth_drop[of k ?ss] by (metis concat.simps(2) concat_append length_sections)
  then show ?thesis unfolding index_file_def Let_def sec_def off_def by auto
qed

lemma off_le: "off paths docs k + (if k < 6 then length (sec paths docs k) else 0) \<le> length (index_file paths docs)"
proof (cases "k < 6")
  case True
  from index_file_split[OF this, of paths docs] show ?thesis using True by fastforce
next
  case False
  then show ?thesis by (simp add: off_def index_file_def Let_def)
qed

lemma length_name_index_section: "length (name_index_section n ns) = 4 * length ns"
  by (induction ns arbitrary: n) (auto simp: length_encodings)

lemma length_list_index_section: "length (list_index_section n gs) = 11 * length gs"
  by (induction gs arbitrary: n) (auto simp: length_encodings)

lemma off_Suc: "k < 6 \<Longrightarrow> off paths docs (Suc k) = off paths docs k + length (sec paths docs k)"
  by (simp add: off_def sec_def take_Suc_conv_app_nth)

lemma sec_lengths:
  "length (sec paths docs 4) = 4 * (length docs + 1)" "length (sec paths docs 5) = 11 * length (postings docs)"
  by (simp_all add: sec_def index_sections_def length_name_index_section length_list_index_section)

lemma length_concat_const: "\<forall>x \<in> set xs. length (f x) = n \<Longrightarrow> length (concat (map f xs)) = n * length xs"
  by (induction xs) auto

lemma index_file_trailer:
  "index_file paths docs = concat (index_sections paths docs)
     @ uint32_bytes (word_of_nat (off paths docs 1)) @ uint32_bytes (word_of_nat (off paths docs 2))
     @ uint32_bytes (word_of_nat (off paths docs 3)) @ uint32_bytes (word_of_nat (off paths docs 4))
     @ uint32_bytes (word_of_nat (off paths docs 5)) @ bytes_of trailerMagic"
  by (simp add: index_file_def Let_def trailer_def off_def)

lemma docs_bound:
  assumes "length (index_file paths docs) < 2 ^ 32"
  shows "length docs < 2 ^ 30"
  using off_le[of paths docs 4] sec_lengths(1)[of paths docs] assms by simp

lemma Open_index_file:
  assumes small: "length (index_file paths docs) < 2 ^ 32"
  shows "Open (index_file paths docs) = Inr (index_of paths docs)"
proof -
  let ?F = "index_file paths docs" and ?C = "concat (index_sections paths docs)"
  let ?o = "\<lambda>k. word_of_nat (off paths docs k) :: u32"
  have tl: "length trailerMagic = 16" by (simp add: trailerMagic_def)
  have len: "length ?F = length ?C + 36"
    by (simp add: index_file_trailer length_encodings tl)
  have magic: "drop (length ?F - 16) ?F = bytes_of trailerMagic"
    by (simp add: len index_file_trailer length_encodings tl)
  have n: "word_of_int (int (length ?F) - int 16 - 5 * 4) = (word_of_nat (length ?C) :: u32)"
    by (simp add: len)
  have r: "read_uint32 ?F (word_of_nat (length ?C)) = Inr (?o 1)"
    "read_uint32 ?F (word_of_nat (length ?C) + 4) = Inr (?o 2)"
    "read_uint32 ?F (word_of_nat (length ?C) + 8) = Inr (?o 3)"
    "read_uint32 ?F (word_of_nat (length ?C) + 12) = Inr (?o 4)"
    "read_uint32 ?F (word_of_nat (length ?C) + 16) = Inr (?o 5)"
    using read_uint32_at[of ?C] read_uint32_at[of "?C @ uint32_bytes (?o 1)"]
      read_uint32_at[of "?C @ uint32_bytes (?o 1) @ uint32_bytes (?o 2)"]
      read_uint32_at[of "?C @ uint32_bytes (?o 1) @ uint32_bytes (?o 2) @ uint32_bytes (?o 3)"]
      read_uint32_at[of "?C @ uint32_bytes (?o 1) @ uint32_bytes (?o 2) @ uint32_bytes (?o 3)
        @ uint32_bytes (?o 4)"] small
    by (simp_all add: index_file_trailer length_encodings len tl algebra_simps)
  have o6: "length ?C = off paths docs 6" by (simp add: off_def)
  have a: "?o 5 - ?o 4 = word_of_nat (4 * (length docs + 1))"
    using off_Suc[of 4 paths docs] sec_lengths(1)[of paths docs] by (simp add: numeral_eq_Suc)
  have b: "word_of_nat (length ?C) - ?o 5 = (word_of_nat (11 * length (postings docs)) :: u32)"
    using off_Suc[of 5 paths docs] sec_lengths(2)[of paths docs] unfolding o6 by (simp add: numeral_eq_Suc)
  have "4 * (length docs + 1) < 2 ^ 32" "11 * length (postings docs) < 2 ^ 32"
    using off_le[of paths docs 4] off_le[of paths docs 5] small
    by (simp_all add: sec_lengths)
  then have num: "unat ((?o 5 - ?o 4) div 4) = length docs + 1"
    "unat ((word_of_nat (length ?C) - ?o 5) div word_of_nat postEntrySize) = length (postings docs)"
    unfolding a b
    by (simp_all add: unat_div unat_of_nat_small postEntrySize_def del: of_nat_mult of_nat_add of_nat_Suc)
  have cond: "\<not> (length ?F < 4 * 4 + 16 \<or> drop (length ?F - 16) ?F \<noteq> bytes_of trailerMagic)"
    using magic len by simp
  show ?thesis
    unfolding Open_def tl Let_def if_not_P[OF cond] n r bindR_simps num index_of_def
    by (simp only: of_nat_add of_nat_1 add_diff_cancel_right')
qed

subsection \<open>Names and paths\<close>

lemma bytes_of_no_nul: "CHR 0x00 \<notin> set s \<longleftrightarrow> 0 \<notin> set (bytes_of s)"
proof -
  have z: "byte_of CHR 0x00 = 0" by (simp add: byte_of_def)
  have "0 \<in> set (bytes_of s) \<longleftrightarrow> byte_of CHR 0x00 \<in> byte_of ` set s"
    by (simp only: bytes_of_def set_map z)
  also have "\<dots> \<longleftrightarrow> CHR 0x00 \<in> set s" by (simp only: image_iff byte_of_inject) blast
  finally show ?thesis by blast
qed

lemma index_byte_at: "0 \<notin> set x \<Longrightarrow> index_byte (x @ 0 # y) 0 = Some (length x)"
  by (induction x) auto

lemma str_at:
  assumes "ix_data ix = pre @ name_bytes n @ post" and "length pre < 2 ^ 32" and "CHR 0x00 \<notin> set n"
  shows "str ix (word_of_nat (length pre)) = Inr (bytes_of n)"
  using slice_tail[OF assms(2)] index_byte_at[of "bytes_of n" post] assms(1,3)
  by (simp add: str_def name_bytes_def bytes_of_no_nul)

lemma Name_index_of:
  assumes small: "length (index_file paths docs) < 2 ^ 32" and ok: "docs_ok docs" and i: "i < length docs"
  shows "Name (index_of paths docs) (word_of_nat i) = Inr (fst (docs ! i))"
proof -
  let ?ns = "map fst docs @ [[]]" and ?F = "index_file paths docs"
  let ?us = "map fst (take i docs)" and ?vs = "map fst (drop (Suc i) docs) @ [[]]" and ?n = "fst (docs ! i)"
  have ns: "?ns = ?us @ ?n # ?vs"
    using i by (metis Cons_eq_appendI append_assoc id_take_nth_drop list.simps(9) map_append)
  obtain p q where F4: "?F = p @ sec paths docs 4 @ q" "length p = off paths docs 4"
    using index_file_split[of 4 paths docs] by auto
  obtain p' q' where F2: "?F = p' @ sec paths docs 2 @ q'" "length p' = off paths docs 2"
    using index_file_split[of 2 paths docs] by auto
  let ?o = "word_of_nat (length (names_section ?us)) :: u32"
  have s4: "sec paths docs 4 = name_index_section 0 ?us @ uint32_bytes ?o
      @ name_index_section (length (names_section ?us) + length ?n + 1) ?vs"
    unfolding sec_def index_sections_def
    using ns by (simp add: name_index_section_append del: map_append)
  have s2: "sec paths docs 2 = names_section ?us @ name_bytes ?n @ names_section ?vs"
    unfolding sec_def index_sections_def using ns by (simp del: map_append)
  have l4: "length (p @ name_index_section 0 ?us) = off paths docs 4 + 4 * i"
    using F4(2) i by (simp add: length_name_index_section)
  have "read_uint32 ?F (word_of_nat (length (p @ name_index_section 0 ?us))) = Inr ?o"
    using read_uint32_at[of "p @ name_index_section 0 ?us" ?o] small F4(1) s4 by (simp add: length_encodings)
  then have off: "read_uint32 ?F (word_of_nat (off paths docs 4) + 4 * word_of_nat i) = Inr ?o"
    unfolding l4 by simp
  have "CHR 0x00 \<notin> set ?n" using ok i by (auto simp: docs_ok_def)
  then have "str (index_of paths docs) (word_of_nat (length (p' @ names_section ?us))) = Inr (bytes_of ?n)"
    using small F2(1) s2 by (intro str_at) (auto simp: index_of_def)
  then have "str (index_of paths docs) (word_of_nat (off paths docs 2) + ?o) = Inr (bytes_of ?n)"
    using F2(2) by simp
  with off show ?thesis by (simp add: Name_def NameBytes_def index_of_def)
qed

lemma paths_from_spec:
  assumes "ix_data ix = pre @ names_section (ps @ [[]]) @ post" and "length (ix_data ix) < 2 ^ 32"
    and "\<forall>p \<in> set ps. p \<noteq> [] \<and> CHR 0x00 \<notin> set p"
  shows "paths_from ix (word_of_nat (length pre)) x = Some (Inr (x @ ps))"
  using assms
proof (induction ps arbitrary: pre x)
  case Nil
  have "str ix (word_of_nat (length pre)) = Inr (bytes_of [])"
    using Nil by (intro str_at) auto
  then show ?case by (subst paths_from.simps) (simp add: bytes_of_def)
next
  case (Cons p ps)
  have "str ix (word_of_nat (length pre)) = Inr (bytes_of p)"
    using Cons.prems by (intro str_at) auto
  moreover have "paths_from ix (word_of_nat (length (pre @ name_bytes p))) (x @ [p]) = Some (Inr ((x @ [p]) @ ps))"
    using Cons.prems by (intro Cons.IH) auto
  ultimately show ?case using Cons.prems(3)
    by (subst paths_from.simps) (simp add: add_ac)
qed

lemma Paths_index_of:
  assumes "length (index_file paths docs) < 2 ^ 32" and "\<forall>p \<in> set paths. p \<noteq> [] \<and> CHR 0x00 \<notin> set p"
  shows "Paths (index_of paths docs) = Some (Inr paths)"
proof -
  obtain p q where F: "index_file paths docs = p @ sec paths docs 1 @ q" "length p = off paths docs 1"
    using index_file_split[of 1 paths docs] by auto
  have "sec paths docs 1 = names_section (paths @ [[]])" by (simp add: sec_def index_sections_def)
  then show ?thesis using paths_from_spec[of "index_of paths docs" p paths q "[]"] F assms
    by (simp add: Paths_def index_of_def)
qed

subsection \<open>Finding a posting list\<close>

lemma search_spec:
  assumes "i \<le> j" and "\<forall>a b. a \<le> b \<and> b < j \<and> f a \<longrightarrow> f b"
  shows "i \<le> search i j f \<and> search i j f \<le> j \<and> (\<forall>a. i \<le> a \<and> a < search i j f \<longrightarrow> \<not> f a)
    \<and> (\<forall>a. search i j f \<le> a \<and> a < j \<longrightarrow> f a)"
  using assms
proof (induction i j f rule: search.induct)
  case (1 i j f)
  show ?case
  proof (cases "i < j")
    case False
    then have "search i j f = i" by (subst search.simps) simp
    with False "1.prems"(1) show ?thesis by auto
  next
    case True
    define h where "h = (i + j) div 2"
    have h: "i \<le> h" "h < j" using True by (auto simp: h_def)
    show ?thesis
    proof (cases "f h")
      case f: True
      then have eq: "search i j f = search i h f" using True by (subst search.simps) (simp add: h_def Let_def)
      have "i \<le> search i h f \<and> search i h f \<le> h \<and> (\<forall>a. i \<le> a \<and> a < search i h f \<longrightarrow> \<not> f a)
        \<and> (\<forall>a. search i h f \<le> a \<and> a < h \<longrightarrow> f a)"
      proof (rule "1.IH"(2)[OF True h_def])
        show "\<forall>a b. a \<le> b \<and> b < h \<and> f a \<longrightarrow> f b" using "1.prems"(2) h(2) by (meson less_trans)
      qed (use f h in simp_all)
      moreover from this have "f a" if "search i h f \<le> a" "a < j" for a
        using "1.prems"(2)[rule_format, of h a] f that by (cases "a < h") auto
      ultimately show ?thesis using h unfolding eq by auto
    next
      case f: False
      then have eq: "search i j f = search (h + 1) j f"
        using True by (subst search.simps) (simp add: h_def Let_def)
      have "h + 1 \<le> search (h + 1) j f \<and> search (h + 1) j f \<le> j
        \<and> (\<forall>a. h + 1 \<le> a \<and> a < search (h + 1) j f \<longrightarrow> \<not> f a)
        \<and> (\<forall>a. search (h + 1) j f \<le> a \<and> a < j \<longrightarrow> f a)"
        by (rule "1.IH"(1)[OF True h_def f _ "1.prems"(2)]) (use h in simp)
      moreover from this have "\<not> f a" if "i \<le> a" "a < search (h + 1) j f" for a
        using "1.prems"(2)[rule_format, of a h] f that h by (cases "a \<le> h") auto
      ultimately show ?thesis using h unfolding eq by auto
    qed
  qed
qed

definition list_entry :: "posting \<Rightarrow> nat \<Rightarrow> byte list" where
  "list_entry g n = trigram_bytes (fst g) @ uint32_bytes (word_of_nat (length (snd g)))
     @ uint32_bytes (word_of_nat n)"

lemma list_index_at:
  assumes "i < length gs"
  shows "\<exists>rest. drop (i * postEntrySize) (list_index_section n gs)
    = list_entry (gs ! i) (n + length (lists_section (take i gs))) @ rest"
  using assms
proof (induction gs arbitrary: n i)
  case Nil
  then show ?case by simp
next
  case (Cons g gs)
  have l: "length (list_entry g n) = postEntrySize"
    by (simp add: list_entry_def postEntrySize_def length_encodings)
  have c: "list_index_section n (g # gs) = list_entry g n @ list_index_section (n + length (list_bytes g)) gs"
    by (simp add: list_entry_def)
  show ?case
  proof (cases i)
    case 0
    then show ?thesis unfolding c by auto
  next
    case (Suc k)
    then obtain rest where "drop (k * postEntrySize) (list_index_section (n + length (list_bytes g)) gs)
      = list_entry (gs ! k) (n + length (list_bytes g) + length (lists_section (take k gs))) @ rest"
      using Cons.IH[of k] Cons.prems by auto
    then show ?thesis unfolding c using l Suc by (simp add: add.assoc)
  qed
qed

lemma entry_fields:
  assumes "fst g < 2 ^ 24"
  shows "be24 (list_entry g n @ rest) = fst g"
    and "be32 (drop 3 (list_entry g n @ rest)) = word_of_nat (length (snd g))"
    and "be32 (drop 7 (list_entry g n @ rest)) = word_of_nat n"
  using be24_trigram_bytes[OF assms]
  by (simp_all add: list_entry_def length_encodings be32_uint32_bytes)

lemma findList_index_of:
  assumes small: "length (index_file paths docs) < 2 ^ 32" and ok: "docs_ok docs"
  shows "having docs t = {} \<Longrightarrow> \<exists>o'. findList (index_of paths docs) t = Inr (0, o')"
    and "having docs t \<noteq> {} \<Longrightarrow> \<exists>i < length (postings docs). fst (postings docs ! i) = t
      \<and> findList (index_of paths docs) t
         = Inr (length (listing docs (having docs t)),
                word_of_nat (length (lists_section (take i (postings docs)))))"
proof -
  let ?gs = "postings docs" and ?ix = "index_of paths docs"
  have n: "length docs \<le> 2 ^ 32" using docs_bound[OF small] by simp
  note pp = postings_props[OF ok n]
  define d where "d = list_index_section 0 ?gs"
  obtain p q where F: "index_file paths docs = p @ sec paths docs 5 @ q" "length p = off paths docs 5"
    using index_file_split[of 5 paths docs] by auto
  have d5: "sec paths docs 5 = d" by (simp add: sec_def index_sections_def d_def)
  have sl: "slice (ix_data ?ix) (ix_postIndex ?ix) (int postEntrySize * ix_numPost ?ix) = Inr d"
    using slice_mid[of p d q] F small
    by (simp add: index_of_def d5 postEntrySize_def) (simp add: d_def length_list_index_section)
  have lt: "fst g < 2 ^ 24" if "g \<in> set ?gs" for g
  proof -
    have c: "fst g = last_trigram \<or> having docs (fst g) \<noteq> {}" using pp(3)[of "fst g"] that by auto
    show ?thesis
    proof (cases "fst g = last_trigram")
      case True
      then show ?thesis by simp
    next
      case False
      then have "fst g < last_trigram" using c ok by (auto simp: having_def docs_ok_def)
      then show ?thesis by (rule last_trigram_le)
    qed
  qed
  have at: "\<exists>rest. drop (i * postEntrySize) d = list_entry (?gs ! i) (length (lists_section (take i ?gs))) @ rest"
    if "i < length ?gs" for i
    using list_index_at[OF that, of 0] by (simp add: d_def)
  have et: "entry_trigram d i = fst (?gs ! i)" if "i < length ?gs" for i
    using at[OF that] entry_fields(1)[OF lt[OF nth_mem[OF that]]] by (auto simp: entry_trigram_def)
  have mono: "fst (?gs ! a) < fst (?gs ! b)" if "a < b" "b < length ?gs" for a b
    using pp(1) that by (simp add: sorted_wrt_iff_nth_less)
  let ?f = "\<lambda>i. entry_trigram d i \<ge> t" and ?n = "length ?gs"
  define k where "k = search 0 ?n ?f"
  have "\<forall>a b. a \<le> b \<and> b < ?n \<and> ?f a \<longrightarrow> ?f b"
  proof (intro allI impI)
    fix a b assume ab: "a \<le> b \<and> b < ?n \<and> t \<le> entry_trigram d a"
    then have "entry_trigram d a \<le> entry_trigram d b"
      using mono[of a b] by (cases "a = b") (auto simp: et)
    then show "t \<le> entry_trigram d b" using ab order_trans by blast
  qed
  note sp = search_spec[OF le0 this, folded k_def]
  have k: "k \<le> ?n" "\<forall>a < k. \<not> ?f a" "\<forall>a. k \<le> a \<and> a < ?n \<longrightarrow> ?f a"
    using sp by blast+
  have nn: "nat (ix_numPost ?ix) = ?n" by (simp add: index_of_def)
  have find: "findList ?ix t =
      (if k \<ge> ?n then Inr (0, 0) else if entry_trigram d k \<noteq> t then Inr (0, 0)
       else Inr (unat (be32 (drop 3 (drop (k * postEntrySize) d))), be32 (drop 7 (drop (k * postEntrySize) d))))"
    unfolding findList_def sl bindR_simps Let_def nn k_def by (rule refl)
  have hit: "k < ?n \<and> entry_trigram d k = t" if i: "i < ?n" "fst (?gs ! i) = t" for i
  proof -
    have "k \<le> i" using k(2) i et[OF i(1)] by (metis le_less_linear order_refl)
    then have "k < ?n" using i(1) by simp
    then have "t \<le> fst (?gs ! k)" using k(3) et by auto
    moreover have "fst (?gs ! k) \<le> t" using mono[of k i] i \<open>k \<le> i\<close> by (cases "k = i") auto
    ultimately show ?thesis using \<open>k < ?n\<close> et by auto
  qed
  have res: "findList ?ix t = Inr (length (snd (?gs ! k)), word_of_nat (length (lists_section (take k ?gs))))"
    if kn: "k < ?n" and kt: "entry_trigram d k = t"
  proof -
    obtain rest where r: "drop (k * postEntrySize) d
        = list_entry (?gs ! k) (length (lists_section (take k ?gs))) @ rest" using at[OF kn] by blast
    have "snd (?gs ! k) = listing docs (having docs (fst (?gs ! k)))"
      using postings_at[OF kn ok n] by (metis snd_conv)
    then have "length (snd (?gs ! k)) \<le> length docs" by (simp add: length_listing_le)
    then have "unat (word_of_nat (length (snd (?gs ! k))) :: u32) = length (snd (?gs ! k))"
      using docs_bound[OF small] by (intro unat_of_nat_small) simp
    then show ?thesis unfolding find r
      using kn kt entry_fields(2,3)[OF lt[OF nth_mem[OF kn]], of "length (lists_section (take k ?gs))" rest]
      by simp
  qed
  show "\<exists>o'. findList ?ix t = Inr (0, o')" if e: "having docs t = {}"
  proof (cases "k < ?n \<and> entry_trigram d k = t")
    case True
    then have "snd (?gs ! k) = listing docs {}" using postings_at[OF _ ok n, of k] et e by (metis snd_conv)
    then show ?thesis using res True by (simp add: listing_def)
  next
    case False
    then show ?thesis unfolding find by auto
  qed
  show "\<exists>i < length (postings docs). fst (postings docs ! i) = t
      \<and> findList ?ix t = Inr (length (listing docs (having docs t)),
                word_of_nat (length (lists_section (take i (postings docs)))))" if ne: "having docs t \<noteq> {}"
  proof -
    have "t \<in> set (map fst ?gs)" using pp(3)[of t] ne by simp
    then obtain i where i: "i < ?n" "fst (?gs ! i) = t"
      unfolding in_set_conv_nth by (metis length_map nth_map)
    note h = hit[OF i]
    have "fst (?gs ! k) = t" using h et[of k] by simp
    moreover from this have "snd (?gs ! k) = listing docs (having docs t)"
      using postings_at[OF _ ok n, of k] h by (metis snd_conv)
    ultimately show ?thesis using h res by (intro exI[of _ k]) simp
  qed
qed

subsection \<open>Properties\<close>

lemma one_doc:
  "docs_ok [(''a'', [0x616263])]" "length (index_file [''src''] [(''a'', [0x616263])]) < 2 ^ 32"
  by (simp add: docs_ok_def)
    (simp add: index_file_def index_sections_def postings_def Let_def trailer_def magic_def
      trailerMagic_def length_encodings list_bytes_def name_bytes_def uvarint_bytes_def)

text \<open>C8. The reader inverts the format: opening the file of some documents gives their paths, and
  for each id the name of its document.\<close>

theorem reader_inverts_format:
  assumes "length (index_file paths docs) < 2 ^ 32" and "docs_ok docs"
    and "\<forall>p \<in> set paths. p \<noteq> [] \<and> CHR 0x00 \<notin> set p"
  shows "\<exists>ix. Open (index_file paths docs) = Inr ix \<and> Paths ix = Some (Inr paths)
    \<and> (\<forall>i < length docs. Name ix (word_of_nat i) = Inr (fst (docs ! i)))"
  using Open_index_file[OF assms(1)] Paths_index_of[OF assms(1,3)] Name_index_of[OF assms(1,2)] by blast

lemma reader_inverts_format_witness:
  "\<exists>ix. Open (index_file [''src''] [(''a'', [0x616263])]) = Inr ix \<and> Paths ix = Some (Inr [''src''])
    \<and> Name ix 0 = Inr ''a''"
  using reader_inverts_format[OF one_doc(2,1)] by auto

text \<open>The binary search over the posting list index finds the list of every trigram that some
  document has, with its length and its offset, and reports none for the others.\<close>

theorem findList_correct:
  assumes "length (index_file paths docs) < 2 ^ 32" and "docs_ok docs"
    and "Open (index_file paths docs) = Inr ix"
  shows "if having docs t = {} then \<exists>o'. findList ix t = Inr (0, o')
    else \<exists>i < length (postings docs). fst (postings docs ! i) = t
      \<and> findList ix t = Inr (length (snd (postings docs ! i)),
                              word_of_nat (length (lists_section (take i (postings docs)))))"
proof -
  have ix: "ix = index_of paths docs" using Open_index_file[OF assms(1)] assms(3) by simp
  show ?thesis
  proof (cases "having docs t = {}")
    case True
    then show ?thesis using findList_index_of(1)[OF assms(1,2)] by (simp add: ix)
  next
    case False
    from findList_index_of(2)[OF assms(1,2) False] obtain i where
      i: "i < length (postings docs)" "fst (postings docs ! i) = t"
        "findList (index_of paths docs) t
         = Inr (length (listing docs (having docs t)), word_of_nat (length (lists_section (take i (postings docs)))))"
      by blast
    have "length docs \<le> 2 ^ 32" using docs_bound[OF assms(1)] by simp
    from postings_at[OF i(1) assms(2) this] have "snd (postings docs ! i) = listing docs (having docs t)"
      using i(2) by (metis snd_conv)
    with i False show ?thesis by (auto simp: ix intro!: exI[of _ i])
  qed
qed

lemma findList_correct_witness:
  "\<exists>o'. findList (index_of [''src''] [(''a'', [0x616263])]) 0x414243 = Inr (0, o')"
  using findList_correct[OF one_doc(2,1) Open_index_file[OF one_doc(2)], where t = "0x414243"]
  by (simp add: having_def)

end
