(* ===== verification/Index_Query.thy ===== *)
theory Index_Query
  imports Index_Layout
begin

text \<open>
  The posting readers and the query evaluation give the right ids: a reader yields the ids of its
  list that its restriction allows, the merging loops compute intersection and union, and
  \<^verbatim>\<open>PostingQuery\<close> the ids of the documents that satisfy the query.
\<close>

subsection \<open>The reader of a posting list\<close>

text \<open>The reader stands before the ids \<open>fs\<close>.\<close>

definition stands_before :: "postReader \<Rightarrow> u32 list \<Rightarrow> bool" where
  "stands_before r fs \<longleftrightarrow>
     pr_count r = length fs \<and> sorted_wrt (<) fs
     \<and> (case pr_d r of
          None \<Rightarrow> fs = []
        | Some d \<Rightarrow> \<exists>rest. d = diff_bytes (pr_fileid r) fs @ 0 # rest)
     \<and> (fs \<noteq> [] \<longrightarrow> hd fs \<noteq> pr_fileid r)"

definition yields :: "postReader \<Rightarrow> u32 list \<Rightarrow> bool" where
  "yields r es \<longleftrightarrow>
     (\<exists>fs. stands_before r fs
       \<and> (case pr_restrict r of
            None \<Rightarrow> es = fs
          | Some l \<Rightarrow> sorted_wrt (<) l \<and> es = filter (\<lambda>x. x \<in> set l) fs))"

lemma uvarint_zero: "uvarint_bytes 0 = [0]"
  by (simp add: uvarint_bytes_def)

lemma dropWhile_less_mem:
  fixes l :: "'a :: linorder list"
  assumes "sorted_wrt (<) l" and "a \<le> x"
  shows "x \<in> set (dropWhile (\<lambda>y. y < a) l) \<longleftrightarrow> x \<in> set l"
proof
  assume "x \<in> set l"
  moreover have "x \<notin> set (takeWhile (\<lambda>y. y < a) l)"
    using assms(2) by (auto dest: set_takeWhileD)
  ultimately show "x \<in> set (dropWhile (\<lambda>y. y < a) l)"
    by (metis Un_iff set_append takeWhile_dropWhile_id)
qed (rule set_dropWhileD)

lemma sorted_wrt_dropWhile': "sorted_wrt P l \<Longrightarrow> sorted_wrt P (dropWhile Q l)"
  by (induction l) auto

lemma sorted_wrt_tl': "sorted_wrt P l \<Longrightarrow> sorted_wrt P (tl l)"
  by (cases l) auto

lemma hd_dropWhile_mem:
  fixes l :: "'a :: linorder list"
  assumes "sorted_wrt (<) l"
  shows "dropWhile (\<lambda>y. y < a) l \<noteq> [] \<and> hd (dropWhile (\<lambda>y. y < a) l) = a \<longleftrightarrow> a \<in> set l"
proof -
  let ?d = "dropWhile (\<lambda>y. y < a) l"
  have mem: "a \<in> set l \<longleftrightarrow> a \<in> set ?d" using dropWhile_less_mem[OF assms, of a a] by simp
  show ?thesis
  proof (cases ?d)
    case Nil
    with mem show ?thesis by simp
  next
    case (Cons b d)
    have "sorted_wrt (<) ?d" using assms by (rule sorted_wrt_dropWhile')
    moreover have "\<not> b < a" using hd_dropWhile[of "\<lambda>y. y < a" l] Cons by simp
    ultimately show ?thesis using mem Cons by auto
  qed
qed

lemma next_id_step:
  assumes "stands_before r (f # fs)"
  shows "\<exists>d. let r' = r\<lparr>pr_count := length fs, pr_d := Some d, pr_fileid := f\<rparr>
    in stands_before r' fs \<and>
       next_id r = (case pr_restrict r of
           None \<Rightarrow> Inr (True, r')
         | Some l \<Rightarrow> let l' = dropWhile (\<lambda>x. x < f) l; r'' = r'\<lparr>pr_restrict := Some l'\<rparr>
                   in if l' = [] \<or> hd l' \<noteq> f then next_id r'' else Inr (True, r''))"
proof -
  from assms obtain rest where d: "pr_d r = Some (uvarint_bytes (f - pr_fileid r) @ diff_bytes f fs @ 0 # rest)"
    by (auto simp: stands_before_def split: option.splits)
  have c: "pr_count r = Suc (length fs)" and ne: "f - pr_fileid r \<noteq> 0"
    using assms by (auto simp: stands_before_def)
  let ?dd = "f - pr_fileid r"
  have u: "Uvarint (bytes_left (pr_d r)) = (ucast ?dd, int (length (uvarint_bytes ?dd)))"
    by (simp add: bytes_left_def d Uvarint_uvarint_bytes)
  have narrow: "(ucast (ucast ?dd :: u64) :: u32) = ?dd"
    by (rule bit_word_eqI) (auto simp: bit_simps)
  have positive: "\<not> (int (length (uvarint_bytes ?dd)) \<le> 0 \<or> ?dd = 0)"
    using conjunct1[OF length_encodings(3)[of ?dd]] ne by linarith
  have dr: "drop (nat (int (length (uvarint_bytes ?dd)))) (bytes_left (pr_d r)) = diff_bytes f fs @ 0 # rest"
    by (simp add: bytes_left_def d)
  let ?r = "r\<lparr>pr_count := length fs, pr_d := Some (diff_bytes f fs @ 0 # rest), pr_fileid := f\<rparr>"
  have "stands_before ?r fs"
    using assms by (cases fs) (auto simp: stands_before_def)
  moreover have "next_id r = (case pr_restrict r of
           None \<Rightarrow> Inr (True, ?r)
         | Some l \<Rightarrow> let l' = dropWhile (\<lambda>x. x < f) l; r'' = ?r\<lparr>pr_restrict := Some l'\<rparr>
                   in if l' = [] \<or> hd l' \<noteq> f then next_id r'' else Inr (True, r''))"
    by (subst next_id.simps) (simp only: u Let_def prod.case narrow if_not_P[OF positive] dr c diff_add_cancel
        add.commute[of "pr_fileid r"] zero_less_Suc if_True diff_Suc_1)
  ultimately show ?thesis unfolding Let_def by blast
qed

lemma next_id_end:
  assumes "stands_before r []"
  shows "next_id r = Inr (False, r\<lparr>pr_fileid := - 1\<rparr>)"
proof -
  have "pr_count r = 0" and "pr_d r = None \<or> (\<exists>rest. bytes_left (pr_d r) = 0 # rest)"
    using assms by (auto simp: stands_before_def bytes_left_def split: option.splits)
  then show ?thesis by (subst next_id.simps) auto
qed

lemma next_id_yields:
  assumes "yields r es"
  shows "es = [] \<Longrightarrow> \<exists>r'. next_id r = Inr (False, r')"
    and "es = e # es' \<Longrightarrow> \<exists>r'. next_id r = Inr (True, r') \<and> pr_fileid r' = e \<and> yields r' es'"
proof -
  from assms obtain fs where fs: "stands_before r fs"
    "case pr_restrict r of None \<Rightarrow> es = fs
     | Some l \<Rightarrow> sorted_wrt (<) l \<and> es = filter (\<lambda>x. x \<in> set l) fs" by (auto simp: yields_def)
  then have "(es = [] \<longrightarrow> (\<exists>r'. next_id r = Inr (False, r')))
    \<and> (\<forall>e es'. es = e # es' \<longrightarrow> (\<exists>r'. next_id r = Inr (True, r') \<and> pr_fileid r' = e \<and> yields r' es'))"
  proof (induction fs arbitrary: r)
    case Nil
    then have "es = []" by (auto split: option.splits)
    with next_id_end[OF Nil(1)] show ?case by simp
  next
    case (Cons f fs)
    from next_id_step[OF Cons.prems(1)] obtain d where
      sb: "stands_before (r\<lparr>pr_count := length fs, pr_d := Some d, pr_fileid := f\<rparr>) fs" and
      nx: "next_id r = (case pr_restrict r of
           None \<Rightarrow> Inr (True, r\<lparr>pr_count := length fs, pr_d := Some d, pr_fileid := f\<rparr>)
         | Some l \<Rightarrow> if dropWhile (\<lambda>x. x < f) l = [] \<or> hd (dropWhile (\<lambda>x. x < f) l) \<noteq> f
             then next_id (r\<lparr>pr_count := length fs, pr_d := Some d, pr_fileid := f,
               pr_restrict := Some (dropWhile (\<lambda>x. x < f) l)\<rparr>)
             else Inr (True, r\<lparr>pr_count := length fs, pr_d := Some d, pr_fileid := f,
               pr_restrict := Some (dropWhile (\<lambda>x. x < f) l)\<rparr>))"
      unfolding Let_def by blast
    show ?case
    proof (cases "pr_restrict r")
      case None
      with Cons.prems(2) have es: "es = f # fs" by simp
      have "yields (r\<lparr>pr_count := length fs, pr_d := Some d, pr_fileid := f\<rparr>) fs"
        unfolding yields_def using sb None by (intro exI[of _ fs]) simp
      with es nx None show ?thesis by simp
    next
      case (Some l)
      let ?l = "dropWhile (\<lambda>x. x < f) l"
      let ?r = "r\<lparr>pr_count := length fs, pr_d := Some d, pr_fileid := f, pr_restrict := Some ?l\<rparr>"
      have l: "sorted_wrt (<) l" and es: "es = filter (\<lambda>x. x \<in> set l) (f # fs)"
        using Cons.prems(2) Some by auto
      have sb': "stands_before ?r fs" using sb by (simp add: stands_before_def)
      have sl: "sorted_wrt (<) ?l" using l by (rule sorted_wrt_dropWhile')
      have "\<forall>x \<in> set fs. f \<le> x" using Cons.prems(1) by (auto simp: stands_before_def)
      then have fl: "filter (\<lambda>x. x \<in> set l) fs = filter (\<lambda>x. x \<in> set ?l) fs"
        using dropWhile_less_mem[OF l, of f] by (intro filter_cong) auto
      show ?thesis
      proof (cases "f \<in> set l")
        case True
        then have "\<not> (?l = [] \<or> hd ?l \<noteq> f)" using hd_dropWhile_mem[OF l, of f] by blast
        then have "next_id r = Inr (True, ?r)" using nx Some by (simp only: option.case if_False)
        moreover have "yields ?r (filter (\<lambda>x. x \<in> set ?l) fs)"
          unfolding yields_def using sb' sl by (intro exI[of _ fs]) simp
        moreover have "es = f # filter (\<lambda>x. x \<in> set ?l) fs" using es True fl by simp
        ultimately show ?thesis by simp
      next
        case False
        then have "?l = [] \<or> hd ?l \<noteq> f" using hd_dropWhile_mem[OF l, of f] by blast
        then have "next_id r = next_id ?r" using nx Some by (simp only: option.case if_True)
        moreover have "es = filter (\<lambda>x. x \<in> set ?l) fs" using es False fl by simp
        ultimately show ?thesis using Cons.IH[of ?r] sb' sl by simp
      qed
    qed
  qed
  then show "es = [] \<Longrightarrow> \<exists>r'. next_id r = Inr (False, r')"
    and "es = e # es' \<Longrightarrow> \<exists>r'. next_id r = Inr (True, r') \<and> pr_fileid r' = e \<and> yields r' es'"
    by blast+
qed

subsection \<open>The loops\<close>

lemma list_loop_yields: "yields r es \<Longrightarrow> list_loop r x = Inr (x @ es)"
proof (induction es arbitrary: r x)
  case Nil
  from next_id_yields(1)[OF Nil] obtain r' where "next_id r = Inr (False, r')" by blast
  then show ?case by (subst list_loop.simps) simp
next
  case (Cons e es)
  from next_id_yields(2)[OF Cons.prems refl] obtain r' where
    r: "next_id r = Inr (True, r')" "pr_fileid r' = e" "yields r' es" by blast
  from Cons.IH[OF r(3), of "x @ [e]"] r show ?case by (subst list_loop.simps) simp
qed

lemma yields_sorted: "yields r es \<Longrightarrow> sorted_wrt (<) es"
  by (auto simp: yields_def stands_before_def sorted_wrt_filter split: option.splits)

lemma and_loop_yields:
  "yields r es \<Longrightarrow> sorted_wrt (<) rest \<Longrightarrow>
     and_loop r rest x = Inr (x @ filter (\<lambda>e. e \<in> set rest) es)"
proof (induction es arbitrary: r rest x)
  case Nil
  from next_id_yields(1)[OF Nil(1)] obtain r' where "next_id r = Inr (False, r')" by blast
  then show ?case by (subst and_loop.simps) simp
next
  case (Cons e es)
  from next_id_yields(2)[OF Cons.prems(1) refl] obtain r' where
    r: "next_id r = Inr (True, r')" "pr_fileid r' = e" "yields r' es" by blast
  let ?d = "dropWhile (\<lambda>y. y < e) rest"
  have sd: "sorted_wrt (<) ?d" using Cons.prems(2) by (rule sorted_wrt_dropWhile')
  have gt: "\<forall>y \<in> set es. e < y" using yields_sorted[OF Cons.prems(1)] by simp
  then have f: "filter (\<lambda>y. y \<in> set rest) es = filter (\<lambda>y. y \<in> set ?d) es"
    using dropWhile_less_mem[OF Cons.prems(2), of e] by (intro filter_cong) (auto simp: less_imp_le)
  have step: "and_loop r rest x = (if ?d \<noteq> [] \<and> hd ?d = e then and_loop r' (tl ?d) (x @ [e])
      else and_loop r' ?d x)"
    using r by (subst and_loop.simps) (simp add: Let_def)
  show ?case
  proof (cases "e \<in> set rest")
    case True
    then have h: "?d \<noteq> [] \<and> hd ?d = e" using hd_dropWhile_mem[OF Cons.prems(2), of e] by blast
    then obtain d where d: "?d = e # d" by (cases ?d) auto
    have "filter (\<lambda>y. y \<in> set ?d) es = filter (\<lambda>y. y \<in> set d) es"
      using gt unfolding d by (intro filter_cong) auto
    with Cons.IH[OF r(3), of d "x @ [e]"] sd True f show ?thesis
      unfolding step if_P[OF h] by (simp add: d)
  next
    case False
    then have h: "\<not> (?d \<noteq> [] \<and> hd ?d = e)" using hd_dropWhile_mem[OF Cons.prems(2), of e] by blast
    from Cons.IH[OF r(3) sd, of x] False f show ?thesis unfolding step if_not_P[OF h] by simp
  qed
qed

lemma set_mergeOr [simp]: "set (mergeOr l1 l2) = set l1 \<union> set l2"
  by (induction l1 l2 rule: mergeOr.induct) auto

lemma sorted_mergeOr:
  "sorted_wrt (<) l1 \<Longrightarrow> sorted_wrt (<) l2 \<Longrightarrow> sorted_wrt (<) (mergeOr l1 l2)"
  by (induction l1 l2 rule: mergeOr.induct) auto

lemma strict_sorted_unique:
  "sorted_wrt (<) xs \<Longrightarrow> sorted_wrt (<) ys \<Longrightarrow> set xs = set ys \<Longrightarrow> xs = (ys :: 'a :: linorder list)"
  by (rule strict_sorted_equal)

lemma past_id:
  fixes rest :: "'a :: linorder list"
  assumes "sorted_wrt (<) rest"
  shows "let d0 = dropWhile (\<lambda>y. y < e) rest; d = (if d0 \<noteq> [] \<and> hd d0 = e then tl d0 else d0)
    in sorted_wrt (<) d \<and> (\<forall>y \<in> set d. e < y)
       \<and> insert e (set (takeWhile (\<lambda>y. y < e) rest) \<union> set d) = insert e (set rest)"
  using assms
proof (induction rest)
  case Nil
  then show ?case by simp
next
  case (Cons y ys)
  show ?case
  proof (cases "y < e")
    case True
    have "sorted_wrt (<) ys" using Cons.prems by simp
    from Cons.IH[OF this] show ?thesis using True
      by (simp only: Let_def dropWhile.simps takeWhile.simps if_True list.set) blast
  next
    case False
    then show ?thesis using Cons.prems by (cases "y = e") (auto simp: Let_def)
  qed
qed

lemma or_loop_yields:
  "yields r es \<Longrightarrow> sorted_wrt (<) rest \<Longrightarrow> or_loop r rest x = Inr (x @ mergeOr rest es)"
proof (induction es arbitrary: r rest x)
  case Nil
  from next_id_yields(1)[OF Nil(1)] obtain r' where "next_id r = Inr (False, r')" by blast
  then show ?case by (subst or_loop.simps) (cases rest; simp)
next
  case (Cons e es)
  from next_id_yields(2)[OF Cons.prems(1) refl] obtain r' where
    r: "next_id r = Inr (True, r')" "pr_fileid r' = e" "yields r' es" by blast
  let ?d = "dropWhile (\<lambda>y. y < e) rest" and ?t = "takeWhile (\<lambda>y. y < e) rest"
  define d where "d = (if ?d \<noteq> [] \<and> hd ?d = e then tl ?d else ?d)"
  have d: "sorted_wrt (<) d" "\<forall>y \<in> set d. e < y" "insert e (set ?t \<union> set d) = insert e (set rest)"
    using past_id[OF Cons.prems(2), of e, unfolded Let_def, folded d_def] by blast+
  note sd' = d(1) and gtd = d(2)
  have ses: "sorted_wrt (<) es" "\<forall>y \<in> set es. e < y" using yields_sorted[OF Cons.prems(1)] by auto
  have step: "or_loop r rest x = or_loop r' d (x @ ?t @ [e])"
    using r by (subst or_loop.simps) (simp add: Let_def d_def)
  have "?t @ [e] @ mergeOr d es = mergeOr rest (e # es)"
  proof (rule strict_sorted_unique)
    have "sorted_wrt (<) ?t"
      using Cons.prems(2) by (metis sorted_wrt_append takeWhile_dropWhile_id)
    then show "sorted_wrt (<) (?t @ [e] @ mergeOr d es)"
      using ses gtd sd' by (auto simp: sorted_wrt_append sorted_mergeOr dest!: set_takeWhileD intro: less_trans)
    show "sorted_wrt (<) (mergeOr rest (e # es))"
      using yields_sorted[OF Cons.prems(1)] Cons.prems(2) by (rule sorted_mergeOr[rotated])
    show "set (?t @ [e] @ mergeOr d es) = set (mergeOr rest (e # es))" using d(3) by auto
  qed
  with Cons.IH[OF r(3) sd', of "x @ ?t @ [e]"] show ?case unfolding step by simp
qed

subsection \<open>Reading the lists of an index\<close>

definition restricted :: "u32 list option \<Rightarrow> u32 list \<Rightarrow> u32 list" where
  "restricted restrict xs = (case restrict of None \<Rightarrow> xs | Some l \<Rightarrow> filter (\<lambda>x. x \<in> set l) xs)"

definition restrict_ok :: "u32 list option \<Rightarrow> bool" where
  "restrict_ok restrict \<longleftrightarrow> (case restrict of None \<Rightarrow> True | Some l \<Rightarrow> sorted_wrt (<) l)"

lemma lists_section_at:
  "i < length gs \<Longrightarrow> lists_section gs
     = lists_section (take i gs) @ list_bytes (gs ! i) @ lists_section (drop (Suc i) gs)"
  by (metis id_take_nth_drop lists_section_simps(2,3))

lemma index_of_fields [simp]:
  "ix_data (index_of paths docs) = index_file paths docs"
  "ix_postData (index_of paths docs) = word_of_nat (off paths docs 3)"
  "ix_numName (index_of paths docs) = int (length docs)"
  by (simp_all add: index_of_def)

lemma init_reader_index_of:
  assumes small: "length (index_file paths docs) < 2 ^ 32" and ok: "docs_ok docs"
    and r: "restrict_ok restrict"
  shows "\<exists>rd. init_reader (index_of paths docs) t restrict = Inr rd
    \<and> yields rd (restricted restrict (listing docs (having docs t)))"
proof (cases "having docs t = {}")
  case True
  then obtain o' where f: "findList (index_of paths docs) t = Inr (0, o')"
    using findList_index_of(1)[OF small ok] by blast
  have e: "restricted restrict (listing docs (having docs t)) = []"
    using True by (simp add: listing_def restricted_def split: option.splits)
  let ?r = "\<lparr>pr_count = 0, pr_offset = 0, pr_fileid = 0, pr_d = None, pr_restrict = None\<rparr>"
  have "init_reader (index_of paths docs) t restrict = Inr ?r"
    by (simp add: init_reader_def f)
  moreover have "yields ?r []"
    unfolding yields_def stands_before_def by (intro exI[of _ "[]"]) simp
  ultimately show ?thesis unfolding e by blast
next
  case False
  let ?gs = "postings docs" and ?fs = "listing docs (having docs t)" and ?F = "index_file paths docs"
  obtain i where i: "i < length ?gs" "fst (?gs ! i) = t"
    and f: "findList (index_of paths docs) t
      = Inr (length ?fs, word_of_nat (length (lists_section (take i ?gs))))"
    using findList_index_of(2)[OF small ok False] by blast
  have n: "length docs \<le> 2 ^ 32" using docs_bound[OF small] by simp
  have g: "?gs ! i = (t, ?fs)" using postings_at[OF i(1) ok n] i(2) by simp
  obtain p q where F: "?F = p @ sec paths docs 3 @ q" "length p = off paths docs 3"
    using index_file_split[of 3 paths docs] by auto
  have s3: "sec paths docs 3 = lists_section ?gs" by (simp add: sec_def index_sections_def)
  define pre where "pre = p @ lists_section (take i ?gs) @ trigram_bytes t"
  define rest where "rest = lists_section (drop (Suc i) ?gs) @ q"
  have split: "?F = pre @ diff_bytes (- 1) ?fs @ 0 # rest"
    unfolding F(1) s3 lists_section_at[OF i(1)] g list_bytes_def pre_def rest_def by (simp add: uvarint_zero)
  have lp: "length pre = off paths docs 3 + length (lists_section (take i ?gs)) + 3"
    by (simp add: pre_def F(2) length_encodings)
  have "length pre < 2 ^ 32" using small unfolding split by simp
  from slice_tail[OF this, of "diff_bytes (- 1) ?fs @ 0 # rest"]
  have sl: "slice ?F (word_of_nat (off paths docs 3) + word_of_nat (length (lists_section (take i ?gs))) + 3) (- 1)
      = Inr (diff_bytes (- 1) ?fs @ 0 # rest)"
    unfolding split[symmetric] lp by simp
  have ne: "?fs \<noteq> []"
  proof -
    have "set ?fs = having docs t" using having_universe[of docs t] by (auto simp: set_listing)
    with False show ?thesis by auto
  qed
  let ?r = "\<lparr>pr_count = length ?fs, pr_offset = word_of_nat (length (lists_section (take i ?gs))),
    pr_fileid = - 1, pr_d = Some (diff_bytes (- 1) ?fs @ 0 # rest), pr_restrict = restrict\<rparr>"
  have "init_reader (index_of paths docs) t restrict = Inr ?r"
    using ne sl by (simp add: init_reader_def f)
  moreover have "stands_before ?r ?fs"
  proof -
    have "hd ?fs \<in> set (universe docs)" using ne by (metis Int_iff hd_in_set set_listing)
    then obtain k where k: "k < length docs" "hd ?fs = word_of_nat k" by (auto simp: set_universe)
    have "hd ?fs \<noteq> - 1"
    proof
      assume "hd ?fs = - 1"
      then have "unat (word_of_nat k :: u32) = unat (- 1 :: u32)" using k(2) by simp
      moreover have "unat (word_of_nat k :: u32) = k"
        using k(1) docs_bound[OF small] by (intro unat_of_nat_small) simp
      ultimately show False using k(1) docs_bound[OF small] by (simp add: unsigned_minus_1_eq_mask mask_eq_exp_minus_1)
    qed
    then show ?thesis by (simp add: stands_before_def sorted_listing[OF n])
  qed
  then have "yields ?r (restricted restrict ?fs)"
    using r unfolding yields_def by (intro exI[of _ ?fs]) (auto simp: restricted_def restrict_ok_def split: option.splits)
  ultimately show ?thesis by blast
qed

lemma posting_ops:
  assumes small: "length (index_file paths docs) < 2 ^ 32" and ok: "docs_ok docs"
    and r: "restrict_ok restrict"
  shows "posting_list (index_of paths docs) t restrict = Inr (restricted restrict (listing docs (having docs t)))"
    and "sorted_wrt (<) l \<Longrightarrow> posting_and (index_of paths docs) l t restrict
      = Inr (filter (\<lambda>e. e \<in> set l) (restricted restrict (listing docs (having docs t))))"
    and "sorted_wrt (<) l \<Longrightarrow> posting_or (index_of paths docs) l t restrict
      = Inr (mergeOr l (restricted restrict (listing docs (having docs t))))"
proof -
  obtain rd where rd: "init_reader (index_of paths docs) t restrict = Inr rd"
    "yields rd (restricted restrict (listing docs (having docs t)))"
    using init_reader_index_of[OF assms] by blast
  show "posting_list (index_of paths docs) t restrict = Inr (restricted restrict (listing docs (having docs t)))"
    by (simp add: posting_list_def rd(1) list_loop_yields[OF rd(2)])
  show "posting_and (index_of paths docs) l t restrict
      = Inr (filter (\<lambda>e. e \<in> set l) (restricted restrict (listing docs (having docs t))))"
    if "sorted_wrt (<) l"
    by (simp add: posting_and_def rd(1) and_loop_yields[OF rd(2) that])
  show "posting_or (index_of paths docs) l t restrict
      = Inr (mergeOr l (restricted restrict (listing docs (having docs t))))"
    if "sorted_wrt (<) l"
    by (simp add: posting_or_def rd(1) or_loop_yields[OF rd(2) that])
qed

subsection \<open>Queries\<close>

text \<open>
  The queries the evaluation is right for: the constants carry nothing, trigrams have three bytes,
  and no conjunction is empty (the code would answer an empty conjunction with nil, no document).
\<close>

fun searchable :: "query \<Rightarrow> bool" where
  "searchable (Query op ts ss) =
     ((op = QAnd \<longrightarrow> ts \<noteq> [] \<or> ss \<noteq> []) \<and> list_all (\<lambda>t. length t = 3) ts \<and> list_all searchable ss)"

definition doc_has :: "doc list \<Rightarrow> nat \<Rightarrow> string \<Rightarrow> bool" where
  "doc_has docs i t \<longleftrightarrow> be24 (bytes_of t) \<in> set (snd (docs ! i))"

definition answers :: "doc list \<Rightarrow> query \<Rightarrow> u32 set" where
  "answers docs q = {word_of_nat i | i. i < length docs \<and> qeval (doc_has docs i) q}"

definition allowed :: "doc list \<Rightarrow> u32 list option \<Rightarrow> u32 set" where
  "allowed docs restrict = (case restrict of None \<Rightarrow> set (universe docs) | Some l \<Rightarrow> set l)"

text \<open>The restrictions that occur: none, or a list of ids of the index.\<close>

definition listed :: "doc list \<Rightarrow> u32 list option \<Rightarrow> bool" where
  "listed docs restrict \<longleftrightarrow> (case restrict of None \<Rightarrow> True | Some l \<Rightarrow> l = listing docs (set l))"

lemma listing_Int: "filter (\<lambda>x. x \<in> set (listing docs S)) (listing docs T) = listing docs (S \<inter> T)"
  unfolding listing_def by (auto intro!: filter_cong)

lemma listing_cong: "S \<inter> set (universe docs) = T \<inter> set (universe docs) \<Longrightarrow> listing docs S = listing docs T"
  unfolding listing_def by (intro filter_cong) auto

lemma listing_mergeOr:
  "length docs \<le> 2 ^ 32 \<Longrightarrow> mergeOr (listing docs S) (listing docs T) = listing docs (S \<union> T)"
  by (intro listing_unique sorted_mergeOr sorted_listing) (auto simp: set_listing)

lemma listed_restrict_ok: "length docs \<le> 2 ^ 32 \<Longrightarrow> listed docs restrict \<Longrightarrow> restrict_ok restrict"
  using sorted_listing[of docs] by (auto simp: listed_def restrict_ok_def split: option.splits) metis

lemma restricted_listing:
  "listed docs restrict \<Longrightarrow> restricted restrict (listing docs S) = listing docs (S \<inter> allowed docs restrict)"
proof (cases restrict)
  case None
  then show ?thesis by (auto simp: restricted_def allowed_def intro: listing_cong)
next
  case (Some l)
  assume "listed docs restrict"
  with Some have l: "l = listing docs (set l)" by (simp add: listed_def)
  have "filter (\<lambda>x. x \<in> set l) (listing docs S) = listing docs (set l \<inter> S)"
    using listing_Int[of docs "set l" S] l by simp
  then show ?thesis using Some by (simp add: restricted_def allowed_def Int_commute)
qed

lemma listing_listed: "listed docs (Some (listing docs S))"
  by (simp add: listed_def set_listing) (rule listing_cong, auto)

definition trigram_ids :: "doc list \<Rightarrow> string \<Rightarrow> u32 set" where
  "trigram_ids docs t = having docs (be24 (bytes_of t))"

text \<open>The ids a list variable of the code stands for, when \<open>dflt\<close> is meant by nil.\<close>

definition ids_or :: "u32 set \<Rightarrow> u32 list option \<Rightarrow> u32 set" where
  "ids_or dflt lst = (case lst of None \<Rightarrow> dflt | Some l \<Rightarrow> set l)"

lemma tri_value_3: "length t = 3 \<Longrightarrow> tri_value t = Inr (be24 (bytes_of t))"
  by (simp add: tri_value_def)

lemma and_trigrams_spec:
  assumes small: "length (index_file paths docs) < 2 ^ 32" and ok: "docs_ok docs"
    and r: "listed docs restrict" and ts: "list_all (\<lambda>t. length t = 3) ts" and l: "listed docs lst"
  shows "\<exists>ret lst'. and_trigrams (index_of paths docs) ts restrict lst = Inr (ret, lst')
    \<and> (let A = listing docs (ids_or (set (universe docs)) lst \<inter> (\<Inter>t \<in> set ts. trigram_ids docs t)
          \<inter> (if ts = [] then UNIV else allowed docs restrict))
       in if ret then A = [] else if ts = [] then lst' = lst else lst' = Some A)"
  using ts l
proof (induction ts arbitrary: lst)
  case Nil
  then show ?case by (intro exI[of _ False] exI[of _ lst]) simp
next
  case (Cons t ts)
  have n: "length docs \<le> 2 ^ 32" using docs_bound[OF small] by simp
  note ops = posting_ops[OF small ok listed_restrict_ok[OF n r], unfolded restricted_listing[OF r]]
  let ?B = "listing docs (ids_or (set (universe docs)) lst \<inter> trigram_ids docs t \<inter> allowed docs restrict)"
  have first: "(case lst of None \<Rightarrow> posting_list (index_of paths docs) (be24 (bytes_of t)) restrict
      | Some l \<Rightarrow> posting_and (index_of paths docs) l (be24 (bytes_of t)) restrict) = Inr ?B"
  proof (cases lst)
    case None
    then show ?thesis using ops(1)[of "be24 (bytes_of t)"]
      by (simp add: ids_or_def trigram_ids_def) (rule listing_cong, auto)
  next
    case (Some l)
    have ll: "l = listing docs (set l)" using Cons.prems(2) Some by (simp add: listed_def)
    then have "sorted_wrt (<) l" using sorted_listing[OF n] by metis
    from ops(2)[OF this, of "be24 (bytes_of t)"]
      listing_Int[of docs "set l" "having docs (be24 (bytes_of t)) \<inter> allowed docs restrict"]
    show ?thesis using Some ll by (simp add: ids_or_def trigram_ids_def) (rule listing_cong, auto)
  qed
  have step: "and_trigrams (index_of paths docs) (t # ts) restrict lst
      = (if ?B = [] then Inr (True, None) else and_trigrams (index_of paths docs) ts restrict (Some ?B))"
    using Cons.prems(1) by (simp add: tri_value_3 first)
  let ?A = "listing docs (ids_or (set (universe docs)) lst \<inter> (\<Inter>t \<in> set (t # ts). trigram_ids docs t)
          \<inter> allowed docs restrict)"
  show ?case
  proof (cases "?B = []")
    case True
    have "set ?A \<subseteq> set ?B" by (auto simp: set_listing)
    then have "?A = []" unfolding True by simp
    then show ?thesis unfolding step if_P[OF True] by (intro exI[of _ True] exI[of _ None]) simp
  next
    case False
    obtain ret lst' where R: "and_trigrams (index_of paths docs) ts restrict (Some ?B) = Inr (ret, lst')"
      "let A = listing docs (ids_or (set (universe docs)) (Some ?B) \<inter> (\<Inter>t \<in> set ts. trigram_ids docs t)
          \<inter> (if ts = [] then UNIV else allowed docs restrict))
       in if ret then A = [] else if ts = [] then lst' = Some ?B else lst' = Some A"
      using Cons.IH[of "Some ?B"] Cons.prems(1) listing_listed by auto
    have eq: "listing docs (ids_or (set (universe docs)) (Some ?B) \<inter> (\<Inter>t \<in> set ts. trigram_ids docs t)
          \<inter> (if ts = [] then UNIV else allowed docs restrict)) = ?A"
      by (intro listing_cong) (auto simp: ids_or_def set_listing)
    have "ts = [] \<Longrightarrow> ?A = ?B" by simp
    then show ?thesis unfolding step if_not_P[OF False] R(1)
      using R(2)[unfolded eq Let_def]
      by (intro exI[of _ ret] exI[of _ lst']) (cases "ts = []"; cases ret; simp add: Let_def)
  qed
qed

lemma or_trigrams_spec:
  assumes small: "length (index_file paths docs) < 2 ^ 32" and ok: "docs_ok docs"
    and r: "listed docs restrict" and ts: "list_all (\<lambda>t. length t = 3) ts" and l: "listed docs lst"
  shows "\<exists>lst'. or_trigrams (index_of paths docs) ts restrict lst = Inr lst' \<and> listed docs lst'
    \<and> ids_of lst' = listing docs (ids_or {} lst \<union> ((\<Union>t \<in> set ts. trigram_ids docs t) \<inter> allowed docs restrict))"
  using ts l
proof (induction ts arbitrary: lst)
  case Nil
  then show ?case
    by (cases lst) (auto simp: ids_of_def ids_or_def listed_def listing_def)
next
  case (Cons t ts)
  have n: "length docs \<le> 2 ^ 32" using docs_bound[OF small] by simp
  note ops = posting_ops[OF small ok listed_restrict_ok[OF n r], unfolded restricted_listing[OF r]]
  let ?B = "listing docs (ids_or {} lst \<union> (trigram_ids docs t \<inter> allowed docs restrict))"
  have first: "(case lst of None \<Rightarrow> posting_list (index_of paths docs) (be24 (bytes_of t)) restrict
      | Some l \<Rightarrow> posting_or (index_of paths docs) l (be24 (bytes_of t)) restrict) = Inr ?B"
  proof (cases lst)
    case None
    then show ?thesis using ops(1)[of "be24 (bytes_of t)"] by (simp add: ids_or_def trigram_ids_def)
  next
    case (Some l)
    have ll: "l = listing docs (set l)" using Cons.prems(2) Some by (simp add: listed_def)
    then have "sorted_wrt (<) l" using sorted_listing[OF n] by metis
    from ops(3)[OF this, of "be24 (bytes_of t)"]
      listing_mergeOr[OF n, of "set l" "having docs (be24 (bytes_of t)) \<inter> allowed docs restrict"]
    show ?thesis using Some ll by (simp add: ids_or_def trigram_ids_def)
  qed
  have step: "or_trigrams (index_of paths docs) (t # ts) restrict lst
      = or_trigrams (index_of paths docs) ts restrict (Some ?B)"
    using Cons.prems(1) by (simp add: tri_value_3 first)
  obtain lst' where R: "or_trigrams (index_of paths docs) ts restrict (Some ?B) = Inr lst'" "listed docs lst'"
    "ids_of lst' = listing docs (ids_or {} (Some ?B) \<union> ((\<Union>t \<in> set ts. trigram_ids docs t) \<inter> allowed docs restrict))"
    using Cons.IH[of "Some ?B"] Cons.prems(1) listing_listed by auto
  have "listing docs (ids_or {} (Some ?B) \<union> ((\<Union>t \<in> set ts. trigram_ids docs t) \<inter> allowed docs restrict))
    = listing docs (ids_or {} lst \<union> ((\<Union>t \<in> set (t # ts). trigram_ids docs t) \<inter> allowed docs restrict))"
    by (intro listing_cong) (auto simp: ids_or_def set_listing)
  with R show ?case unfolding step by simp
qed

lemma answers_simps:
  "answers docs (Query QAll ts ss) = set (universe docs)" "answers docs (Query QNone ts ss) = {}"
  by (auto simp: answers_def set_universe)

lemma answers_universe: "answers docs q \<subseteq> set (universe docs)"
  by (auto simp: answers_def set_universe)

lemma answers_and_or:
  assumes "length docs \<le> 2 ^ 32"
  shows "answers docs (Query QAnd ts ss) = set (universe docs) \<inter> (\<Inter>t \<in> set ts. trigram_ids docs t)
      \<inter> (\<Inter>s \<in> set ss. answers docs s)"
    and "answers docs (Query QOr ts ss) = (\<Union>t \<in> set ts. trigram_ids docs t) \<union> (\<Union>s \<in> set ss. answers docs s)"
proof -
  have id: "(word_of_nat i :: u32) \<in> {word_of_nat j | j. j < length docs \<and> P j} \<longleftrightarrow> P i"
    if i: "i < length docs" for i P
  proof
    assume "(word_of_nat i :: u32) \<in> {word_of_nat j | j. j < length docs \<and> P j}"
    then obtain j where j: "j < length docs" "(word_of_nat i :: u32) = word_of_nat j" "P j" by blast
    have "i = j" by (rule word_of_nat_inject_docs[OF i j(1) assms j(2)])
    with j show "P i" by simp
  qed (use i in blast)
  have mem: "word_of_nat i \<in> answers docs q \<longleftrightarrow> qeval (doc_has docs i) q" if "i < length docs" for i q
    unfolding answers_def by (rule id[OF that])
  have memt: "word_of_nat i \<in> trigram_ids docs t \<longleftrightarrow> doc_has docs i t" if "i < length docs" for i t
    unfolding trigram_ids_def having_def doc_has_def by (rule id[OF that])
  show "answers docs (Query QAnd ts ss) = set (universe docs) \<inter> (\<Inter>t \<in> set ts. trigram_ids docs t)
      \<inter> (\<Inter>s \<in> set ss. answers docs s)"
  proof (rule set_eqI)
    fix x
    show "x \<in> answers docs (Query QAnd ts ss) \<longleftrightarrow> x \<in> set (universe docs) \<inter> (\<Inter>t \<in> set ts. trigram_ids docs t)
      \<inter> (\<Inter>s \<in> set ss. answers docs s)"
    proof (cases "x \<in> set (universe docs)")
      case True
      then obtain i where i: "i < length docs" "x = word_of_nat i" by (auto simp: set_universe)
      then show ?thesis using True by (simp add: mem memt list_all_iff)
    next
      case False
      then show ?thesis using answers_universe by auto
    qed
  qed
  show "answers docs (Query QOr ts ss) = (\<Union>t \<in> set ts. trigram_ids docs t) \<union> (\<Union>s \<in> set ss. answers docs s)"
  proof (rule set_eqI)
    fix x
    show "x \<in> answers docs (Query QOr ts ss) \<longleftrightarrow> x \<in> (\<Union>t \<in> set ts. trigram_ids docs t) \<union> (\<Union>s \<in> set ss. answers docs s)"
    proof (cases "x \<in> set (universe docs)")
      case True
      then obtain i where i: "i < length docs" "x = word_of_nat i" by (auto simp: set_universe)
      then show ?thesis by (simp add: mem memt list_ex_iff)
    next
      case False
      then show ?thesis using answers_universe having_universe unfolding trigram_ids_def by blast
    qed
  qed
qed

lemma listed_ids_of:
  "listed docs lst \<Longrightarrow> lst \<noteq> None \<Longrightarrow> set (ids_of lst) = ids_or D lst \<and> lst = Some (ids_of lst)"
  by (auto simp: ids_of_def ids_or_def)

lemma posting_query_spec:
  assumes small: "length (index_file paths docs) < 2 ^ 32" and ok: "docs_ok docs"
  shows "ix = index_of paths docs \<Longrightarrow> searchable q \<Longrightarrow> listed docs restrict \<Longrightarrow>
      \<exists>res. posting_query ix q restrict = Inr res \<and> listed docs res
        \<and> ids_of res = listing docs (answers docs q \<inter> allowed docs restrict)"
    and "ix = index_of paths docs \<Longrightarrow> list_all searchable ss \<Longrightarrow> listed docs restrict \<Longrightarrow> listed docs lst \<Longrightarrow>
      (lst = None \<Longrightarrow> ss \<noteq> []) \<Longrightarrow>
      \<exists>res. and_subs ix ss restrict lst = Inr res \<and> listed docs res
        \<and> ids_of res = listing docs (ids_or (allowed docs restrict) lst \<inter> (\<Inter>s \<in> set ss. answers docs s))"
    and "ix = index_of paths docs \<Longrightarrow> list_all searchable ss \<Longrightarrow> listed docs restrict \<Longrightarrow> listed docs lst \<Longrightarrow>
      \<exists>res. or_subs ix ss restrict lst = Inr res \<and> listed docs res
        \<and> ids_of res = listing docs (ids_or {} lst \<union> ((\<Union>s \<in> set ss. answers docs s) \<inter> allowed docs restrict))"
proof (induction ix q restrict and ix ss restrict lst and ix ss restrict lst
    rule: posting_query_and_subs_or_subs.induct)
  case (1 ix op ts ss restrict)
  have n: "length docs \<le> 2 ^ 32" using docs_bound[OF small] by simp
  have ts: "list_all (\<lambda>t. length t = 3) ts" and ss: "list_all searchable ss"
    using "1.prems"(2) by simp_all
  show ?case
  proof (cases op)
    case QNone
    then show ?thesis by (simp add: answers_simps listed_def ids_of_def listing_def)
  next
    case QAll
    show ?thesis
    proof (cases restrict)
      case None
      have u: "universe docs = listing docs (set (universe docs))" by (simp add: listing_def)
      then show ?thesis using QAll None "1.prems"(1)
        by (simp add: answers_simps allowed_def ids_of_def listed_def flip: universe_def)
    next
      case (Some l)
      then have "l = listing docs (set l)" using "1.prems"(3) by (simp add: listed_def)
      moreover have "listing docs (set (universe docs) \<inter> set l) = listing docs (set l)"
        by (rule listing_cong) blast
      ultimately have "l = listing docs (set (universe docs) \<inter> set l)" by simp
      then show ?thesis using QAll Some "1.prems"(3) by (simp add: answers_simps allowed_def ids_of_def)
    qed
  next
    case QAnd
    have "listed docs None" by (simp add: listed_def)
    from and_trigrams_spec[OF small ok "1.prems"(3) ts this] obtain ret lst where
      t: "and_trigrams ix ts restrict None = Inr (ret, lst)"
      "let A = listing docs (set (universe docs) \<inter> (\<Inter>t \<in> set ts. trigram_ids docs t)
          \<inter> (if ts = [] then UNIV else allowed docs restrict))
       in if ret then A = [] else if ts = [] then lst = None else lst = Some A"
      using "1.prems"(1) by (auto simp: ids_or_def)
    let ?A = "listing docs (set (universe docs) \<inter> (\<Inter>t \<in> set ts. trigram_ids docs t)
          \<inter> (if ts = [] then UNIV else allowed docs restrict))"
    let ?R = "listing docs (answers docs (Query op ts ss) \<inter> allowed docs restrict)"
    show ?thesis
    proof (cases ret)
      case True
      have "set ?R \<subseteq> set ?A" unfolding QAnd answers_and_or(1)[OF n] set_listing by auto
      then have "?R = []" using t(2) True by (simp add: Let_def)
      then show ?thesis using QAnd True t(1) by (simp add: listed_def ids_of_def)
    next
      case False
      have ll: "listed docs lst"
        using t(2) False listing_listed[of docs] by (cases "ts = []") (auto simp: listed_def[of docs None])
      have ne: "lst = None \<Longrightarrow> ss \<noteq> []" using t(2) False "1.prems"(2) QAnd by (auto simp: Let_def split: if_splits)
      from "1.IH"(1)[OF QAnd False "1.prems"(1) ss "1.prems"(3) ll ne] obtain res where
        res: "and_subs ix ss restrict lst = Inr res" "listed docs res"
        "ids_of res = listing docs (ids_or (allowed docs restrict) lst \<inter> (\<Inter>s \<in> set ss. answers docs s))"
        by blast
      have "listing docs (ids_or (allowed docs restrict) lst \<inter> (\<Inter>s \<in> set ss. answers docs s)) = ?R"
        unfolding QAnd answers_and_or(1)[OF n] using t(2) False
        by (intro listing_cong) (auto simp: ids_or_def set_listing Let_def split: if_splits)
      with res QAnd t(1) False show ?thesis by simp
    qed
  next
    case QOr
    have "listed docs None" by (simp add: listed_def)
    from or_trigrams_spec[OF small ok "1.prems"(3) ts this] obtain lst where
      t: "or_trigrams ix ts restrict None = Inr lst" "listed docs lst"
      "ids_of lst = listing docs ((\<Union>t \<in> set ts. trigram_ids docs t) \<inter> allowed docs restrict)"
      using "1.prems"(1) by (auto simp: ids_or_def)
    from "1.IH"(2)[OF QOr "1.prems"(1) ss "1.prems"(3) t(2)] obtain res where
      res: "or_subs ix ss restrict lst = Inr res" "listed docs res"
      "ids_of res = listing docs (ids_or {} lst \<union> ((\<Union>s \<in> set ss. answers docs s) \<inter> allowed docs restrict))"
      by blast
    have io: "ids_or {} lst = set (ids_of lst)" by (simp add: ids_or_def ids_of_def split: option.splits)
    have "listing docs (ids_or {} lst \<union> ((\<Union>s \<in> set ss. answers docs s) \<inter> allowed docs restrict))
      = listing docs (answers docs (Query op ts ss) \<inter> allowed docs restrict)"
      unfolding QOr answers_and_or(2)[OF n] io t(3) by (intro listing_cong) (auto simp: set_listing)
    with res QOr t(1) show ?thesis by simp
  qed
next
  case (2 ix restrict lst)
  then obtain l where l: "lst = Some l" "l = listing docs (set l)" by (auto simp: listed_def split: option.splits)
  with 2 show ?case by (simp add: ids_of_def ids_or_def)
next
  case (3 ix s ss restrict lst)
  let ?r = "if lst = None then restrict else lst"
  have lr: "listed docs ?r" using "3.prems" by simp
  have ar: "allowed docs ?r = ids_or (allowed docs restrict) lst"
    by (auto simp: allowed_def ids_or_def split: option.splits)
  from "3.IH"(1)[OF "3.prems"(1) _ lr] "3.prems"(2) obtain l where
    l: "posting_query ix s ?r = Inr l" "listed docs l" "ids_of l = listing docs (answers docs s \<inter> allowed docs ?r)"
    by auto
  show ?case
  proof (cases "length (ids_of l) = 0")
    case True
    have "set (listing docs (ids_or (allowed docs restrict) lst \<inter> (\<Inter>s \<in> set (s # ss). answers docs s)))
      \<subseteq> set (ids_of l)" unfolding l(3) ar set_listing by auto
    with True have "listing docs (ids_or (allowed docs restrict) lst \<inter> (\<Inter>s \<in> set (s # ss). answers docs s)) = []"
      by simp
    moreover have "and_subs ix (s # ss) restrict lst = Inr None" using l(1) True by simp
    ultimately show ?thesis by (simp add: listed_def ids_of_def)
  next
    case False
    then have ln: "l \<noteq> None" by (cases l) (simp_all add: ids_of_def)
    from "3.IH"(2)[OF False "3.prems"(1) _ "3.prems"(3) l(2)] "3.prems"(2) ln obtain res where
      res: "and_subs ix ss restrict l = Inr res" "listed docs res"
      "ids_of res = listing docs (ids_or (allowed docs restrict) l \<inter> (\<Inter>s \<in> set ss. answers docs s))"
      by auto
    have "ids_or (allowed docs restrict) l = set (ids_of l)" using ln by (auto simp: ids_or_def ids_of_def)
    then have "listing docs (ids_or (allowed docs restrict) l \<inter> (\<Inter>s \<in> set ss. answers docs s))
      = listing docs (ids_or (allowed docs restrict) lst \<inter> (\<Inter>s \<in> set (s # ss). answers docs s))"
      unfolding l(3) ar by (intro listing_cong) (auto simp: set_listing)
    moreover have "and_subs ix (s # ss) restrict lst = Inr res" using l(1) False res(1) by simp
    ultimately show ?thesis using res by simp
  qed
next
  case (4 ix restrict lst)
  then show ?case
    by (cases lst) (auto simp: ids_of_def ids_or_def listed_def listing_def)
next
  case (5 ix s ss restrict lst)
  have n: "length docs \<le> 2 ^ 32" using docs_bound[OF small] by simp
  from "5.IH"(1)[OF "5.prems"(1) _ "5.prems"(3)] "5.prems"(2) obtain l where
    l: "posting_query ix s restrict = Inr l" "listed docs l"
    "ids_of l = listing docs (answers docs s \<inter> allowed docs restrict)" by auto
  have il: "ids_of lst = listing docs (ids_or {} lst)"
    using "5.prems"(4) by (cases lst) (auto simp: ids_of_def ids_or_def listed_def listing_def)
  let ?m = "mergeOr (ids_of lst) (ids_of l)"
  have m: "?m = listing docs (ids_or {} lst \<union> (answers docs s \<inter> allowed docs restrict))"
    unfolding il l(3) by (rule listing_mergeOr[OF n])
  have lm: "listed docs (Some ?m)" unfolding m by (rule listing_listed)
  from "5.IH"(2)[OF "5.prems"(1) _ "5.prems"(3) lm] "5.prems"(2) obtain res where
    res: "or_subs ix ss restrict (Some ?m) = Inr res" "listed docs res"
    "ids_of res = listing docs (ids_or {} (Some ?m) \<union> ((\<Union>s \<in> set ss. answers docs s) \<inter> allowed docs restrict))"
    by auto
  have "listing docs (ids_or {} (Some ?m) \<union> ((\<Union>s \<in> set ss. answers docs s) \<inter> allowed docs restrict))
    = listing docs (ids_or {} lst \<union> ((\<Union>s \<in> set (s # ss). answers docs s) \<inter> allowed docs restrict))"
    unfolding m by (intro listing_cong) (auto simp: ids_or_def set_listing)
  moreover have "or_subs ix (s # ss) restrict lst = Inr res" using l(1) res(1) by simp
  ultimately show ?case using res by simp
qed

lemma PostingQuery_spec:
  assumes "length (index_file paths docs) < 2 ^ 32" and "docs_ok docs" and "searchable q"
  shows "\<exists>res. PostingQuery (index_of paths docs) q = Inr res \<and> ids_of res = listing docs (answers docs q)"
proof -
  have "listed docs None" by (simp add: listed_def)
  moreover have "listing docs (answers docs q \<inter> allowed docs None) = listing docs (answers docs q)"
    by (intro listing_cong) (auto simp: allowed_def)
  ultimately show ?thesis
    using posting_query_spec(1)[OF assms(1,2) refl assms(3), of None] by (auto simp: PostingQuery_def)
qed

subsection \<open>Properties\<close>

text \<open>C14. The posting-list loops compute the set operations: on the index of some documents,
  \<open>PostingList\<close> gives the ids of the documents with the trigram, ascending; \<open>PostingAnd\<close> and
  \<open>PostingOr\<close> the intersection and the union of an ascending list with it.\<close>

theorem posting_operations:
  assumes "length (index_file paths docs) < 2 ^ 32" and "docs_ok docs"
    and "Open (index_file paths docs) = Inr ix" and "sorted_wrt (<) l"
  shows "\<exists>ids both any. PostingList ix t = Inr ids \<and> PostingAnd ix l t = Inr both \<and> PostingOr ix l t = Inr any
    \<and> sorted_wrt (<) ids \<and> sorted_wrt (<) both \<and> sorted_wrt (<) any
    \<and> set ids = {word_of_nat i | i. i < length docs \<and> t \<in> set (snd (docs ! i))}
    \<and> set both = set l \<inter> set ids \<and> set any = set l \<union> set ids"
proof -
  have ix: "ix = index_of paths docs" using Open_index_file[OF assms(1)] assms(3) by simp
  have r: "restrict_ok None" by (simp add: restrict_ok_def)
  have len: "length docs \<le> 2 ^ 32" using docs_bound[OF assms(1)] by simp
  let ?ids = "listing docs (having docs t)"
  have s: "sorted_wrt (<) ?ids" by (rule sorted_listing[OF len])
  have set: "set ?ids = {word_of_nat i | i. i < length docs \<and> t \<in> set (snd (docs ! i))}"
    using having_universe[of docs t] by (auto simp: set_listing having_def)
  note ops = posting_ops[OF assms(1,2) r, where t = t]
  have "PostingList ix t = Inr ?ids" "PostingAnd ix l t = Inr (filter (\<lambda>e. e \<in> set l) ?ids)"
    "PostingOr ix l t = Inr (mergeOr l ?ids)"
    using ops(1) ops(2,3)[OF assms(4)]
    by (simp_all add: ix PostingList_def PostingAnd_def PostingOr_def restricted_def)
  moreover have "sorted_wrt (<) (filter (\<lambda>e. e \<in> set l) ?ids)" "sorted_wrt (<) (mergeOr l ?ids)"
    using s assms(4) by (simp_all add: sorted_wrt_filter sorted_mergeOr)
  ultimately show ?thesis using s set
    by (intro exI[of _ ?ids] exI[of _ "filter (\<lambda>e. e \<in> set l) ?ids"] exI[of _ "mergeOr l ?ids"]) auto
qed

lemma posting_operations_witness:
  "\<exists>ids. PostingList (index_of [''src''] [(''a'', [0x616263])]) 0x616263 = Inr ids \<and> set ids = {0}"
proof -
  have "sorted_wrt (<) ([] :: u32 list)" by simp
  from posting_operations[OF one_doc(2,1) Open_index_file[OF one_doc(2)] this, where t = "0x616263"]
  show ?thesis by auto
qed

text \<open>C5. A query finds what it describes: on the index of some documents, \<open>PostingQuery\<close> returns,
  ascending, exactly the ids of the documents whose trigrams satisfy the query, for every nesting of
  and and or with the restriction passed down. (An and node with nothing in it, which the code
  answers with nil, is excluded.)\<close>

theorem PostingQuery_exact:
  assumes "length (index_file paths docs) < 2 ^ 32" and "docs_ok docs" and "searchable q"
    and "Open (index_file paths docs) = Inr ix"
  shows "\<exists>res. PostingQuery ix q = Inr res \<and> sorted_wrt (<) (ids_of res)
    \<and> set (ids_of res)
      = {word_of_nat i | i. i < length docs \<and> qeval (\<lambda>t. be24 (bytes_of t) \<in> set (snd (docs ! i))) q}"
proof -
  have ix: "ix = index_of paths docs" using Open_index_file[OF assms(1)] assms(4) by simp
  have len: "length docs \<le> 2 ^ 32" using docs_bound[OF assms(1)] by simp
  obtain res where res: "PostingQuery ix q = Inr res" "ids_of res = listing docs (answers docs q)"
    using PostingQuery_spec[OF assms(1-3)] ix by auto
  have dh: "doc_has docs i = (\<lambda>t. be24 (bytes_of t) \<in> set (snd (docs ! i)))" for i
    by (simp add: doc_has_def fun_eq_iff)
  have "set (ids_of res) = answers docs q"
    using answers_universe[of docs q] by (auto simp: res(2) set_listing)
  then show ?thesis using res sorted_listing[OF len, of "answers docs q"]
    by (auto simp: answers_def dh)
qed

lemma PostingQuery_exact_witness:
  "\<exists>res. PostingQuery (index_of [''src''] [(''a'', [0x616263])]) (Query QOr [''abc'', ''xyz''] []) = Inr res
    \<and> set (ids_of res) = {0}"
proof -
  have "searchable (Query QOr [''abc'', ''xyz''] [])" by simp
  from PostingQuery_exact[OF one_doc(2,1) this Open_index_file[OF one_doc(2)]] obtain res where
    res: "PostingQuery (index_of [''src''] [(''a'', [0x616263])]) (Query QOr [''abc'', ''xyz''] []) = Inr res"
    "set (ids_of res) = {word_of_nat i | i. i < length [(''a'', [0x616263 :: u32])]
       \<and> qeval (\<lambda>t. be24 (bytes_of t) \<in> set (snd ([(''a'', [0x616263])] ! i))) (Query QOr [''abc'', ''xyz''] [])}"
    by blast
  have "be24 (bytes_of ''abc'') = 0x616263" by code_simp
  with res show ?thesis by auto
qed

end
