(* ===== verification/Index_Write_Correct.thy ===== *)
theory Index_Write_Correct
  imports Index_Format
begin

text \<open>
  The index writer implements the file format: adding a file adds its document, and \<^verbatim>\<open>Flush\<close>
  writes the bytes of \<open>index_file\<close>, or fails because they are 4GB or more.
\<close>

subsection \<open>Adding a file\<close>

lemma trigram_bytes_be24: "trigram_bytes (be24 [a, b, c]) = [a, b, c]"
proof -
  have "ucast (drop_bit 16 (be24 [a, b, c])) = a"
    by (rule bit_word_eqI) (auto simp: be24_def bit_simps dest: bit_imp_le_length)
  moreover have "ucast (drop_bit 8 (be24 [a, b, c])) = b"
    by (rule bit_word_eqI) (auto simp: be24_def bit_simps dest: bit_imp_le_length)
  moreover have "ucast (be24 [a, b, c]) = c"
    by (rule bit_word_eqI) (auto simp: be24_def bit_simps dest: bit_imp_le_length)
  ultimately show ?thesis by (simp add: trigram_bytes_def)
qed

lemma be24_less: "be24 [a, b, c] < 2 ^ 24"
proof -
  have "take_bit 24 (be24 [a, b, c]) = be24 [a, b, c]"
    by (rule bit_word_eqI) (auto simp: be24_def bit_simps dest: bit_imp_le_length)
  then show ?thesis using less_2p_iff[of 24 "be24 [a, b, c]"] by simp
qed

lemma unat_ucast_byte: "unat (ucast (b :: byte) :: u32) = unat b"
proof -
  have "unat b < 2 ^ 8" using unsigned_less[of b] by simp
  then have "unat b < 2 ^ 32" by simp
  then show ?thesis by (simp add: unsigned_ucast_eq take_bit_nat_eq_self)
qed

lemma validUTF8_second: "validUTF8 c1 c2 \<Longrightarrow> c2 < 0xf8"
  by (auto simp: validUTF8_def word_less_nat_alt split: if_splits)

lemma text_bytes: "is_text w \<Longrightarrow> b \<in> set w \<Longrightarrow> b < 0xf8"
proof -
  assume "is_text w" "b \<in> set w"
  then obtain j where "j < length w" "w ! j = b" by (auto simp: in_set_conv_nth)
  with \<open>is_text w\<close> obtain a :: byte where "validUTF8 (ucast a) (ucast b)"
    by (auto simp: is_text_def pairs_ok_def byte_pair_ok_def)
  then have "(ucast b :: u32) < 0xf8" by (rule validUTF8_second)
  then show "b < 0xf8" by (simp add: word_less_nat_alt unat_ucast_byte)
qed

lemma text_trigrams:
  assumes "is_text w" and "t \<in> set (file_trigrams w)"
  shows "t < last_trigram"
proof -
  obtain x where x: "x \<in> set (windows3 w)" "t = be24 x" using assms(2) by (auto simp: file_trigrams_def)
  then have "length x = 3" "sublist x w" by (simp_all add: in_windows3_iff)
  then obtain a b c where abc: "x = [a, b, c]" "a \<in> set w"
    by (auto simp: numeral_3_eq_3 length_Suc_conv sublist_def)
  have "t \<noteq> last_trigram"
  proof
    assume "t = last_trigram"
    then have "trigram_bytes last_trigram = [a, b, c]" using x abc trigram_bytes_be24[of a b c] by simp
    moreover have "trigram_bytes last_trigram ! 0 = 0xff"
      by (simp add: trigram_bytes_def)
    ultimately have "a = 0xff" by simp
    with text_bytes[OF assms(1) abc(2)] show False by (simp add: word_less_nat_alt)
  qed
  moreover have "t < 2 ^ 24" using x(2) abc(1) be24_less by simp
  ultimately show ?thesis by (simp add: word_less_nat_alt word_unat_eq_iff)
qed

definition doc_of :: "string \<Rightarrow> byte list \<Rightarrow> doc" where
  "doc_of name w = (name, rev (remdups (rev (file_trigrams w))))"

definition indexed :: "byte list \<Rightarrow> bool" where
  "indexed w \<longleftrightarrow> is_text w \<and> length (remdups (file_trigrams w)) \<le> maxTextTrigrams"

lemma addName_eq:
  "addName ix name =
     (if CHR 0x00 \<in> set name then Inl (Fatal ''file has NUL byte in name'')
      else if length (contents (iw_nameData ix)) < 2 ^ 32
      then Inr (ix\<lparr>iw_nameIndex := bw_writeUint32 (iw_nameIndex ix)
                     (word_of_nat (length (contents (iw_nameData ix)))),
                   iw_nameData := bw_writeByte (bw_writeString (iw_nameData ix) name) 0,
                   iw_numName := iw_numName ix + 1\<rparr>, word_of_nat (iw_numName ix))
      else Inl (Fatal ''index is larger than 4GB''))"
  by (simp add: addName_def offset_contents)

lemma length_remdups_rev: "length (remdups (rev xs)) = length (remdups xs)"
  by (metis length_remdups_card_conv set_rev)

lemma mono_word_of_nat:
  "i \<le> n \<Longrightarrow> n < 2 ^ 32 \<Longrightarrow> (word_of_nat i :: u32) \<le> word_of_nat n"
  by (simp add: word_le_nat_alt unat_of_nat_u32)

lemma Add_file_holds:
  assumes "holds ix docs" and "delivers r = Some w"
  shows "\<not> indexed w \<Longrightarrow>
      \<exists>ix'. Add_file ix name r = Inr ix' \<and> holds ix' docs \<and> iw_paths ix' = iw_paths ix"
    and "indexed w \<Longrightarrow> CHR 0x00 \<notin> set name \<Longrightarrow> length (names_section (map fst docs)) < 2 ^ 32 \<Longrightarrow>
      \<exists>ix'. Add_file ix name r = Inr ix' \<and> holds ix' (docs @ [doc_of name w]) \<and> iw_paths ix' = iw_paths ix"
    and "indexed w \<Longrightarrow> CHR 0x00 \<in> set name \<or> 2 ^ 32 \<le> length (names_section (map fst docs)) \<Longrightarrow>
      \<exists>m. Add_file ix name r = Inl (Fatal m)"
proof -
  have "sparse_inv (iw_trigram ix)" "sparse_len (iw_trigram ix) = 2 ^ 24"
    using assms(1) by (simp_all add: holds_def)
  from scan_file[OF assms(2) this] obtain s e where
    scan: "add_loop r [] 0 0 0 (Reset (iw_trigram ix)) = Some (s, e)" "sparse_inv s" "sparse_len s = 2 ^ 24"
    and fin: "if is_text w then e = Scanned (length w) \<and> Dense s = rev (remdups (rev (file_trigrams w)))
       else scan_bad e"
    by blast
  have len: "is_text w \<Longrightarrow> Len s = length (remdups (file_trigrams w))"
    using fin by (simp add: Len_def Dense_def length_remdups_rev split: if_splits)
  {
    assume "\<not> indexed w"
    then have "Add_file ix name r = Inr (ix\<lparr>iw_trigram := s\<rparr>)"
      using scan(1) fin len
      by (cases "is_text w") (auto simp: Add_file_def indexed_def scan_bad_def Let_def)
    moreover have "holds (ix\<lparr>iw_trigram := s\<rparr>) docs"
      using assms(1) scan(2,3) by (simp add: holds_def holds_entries_def)
    ultimately show "\<exists>ix'. Add_file ix name r = Inr ix' \<and> holds ix' docs \<and> iw_paths ix' = iw_paths ix"
      by simp
  }
  assume ind: "indexed w"
  then have istext: "is_text w" by (simp add: indexed_def)
  let ?ix = "ix\<lparr>iw_trigram := s, iw_totalBytes := iw_totalBytes ix + length w\<rparr>"
  have add: "Add_file ix name r = bindR (addName ?ix name) (\<lambda>(ix, fid). foldR (add_entry fid) ix (Dense s))"
    using scan(1) fin len istext ind by (simp add: Add_file_def indexed_def Let_def)
  have nd: "contents (iw_nameData ix) = names_section (map fst docs)" using assms(1) by (simp add: holds_def)
  show "\<exists>m. Add_file ix name r = Inl (Fatal m)"
    if "CHR 0x00 \<in> set name \<or> 2 ^ 32 \<le> length (names_section (map fst docs))"
    using that by (auto simp: add addName_eq nd)
  assume name: "CHR 0x00 \<notin> set name" and small: "length (names_section (map fst docs)) < 2 ^ 32"
  let ?fid = "word_of_nat (length docs) :: u32"
  define ix1 where "ix1 = ?ix\<lparr>iw_nameIndex := bw_writeUint32 (iw_nameIndex ix)
        (word_of_nat (length (names_section (map fst docs)))),
      iw_nameData := bw_writeByte (bw_writeString (iw_nameData ix) name) 0,
      iw_numName := length docs + 1\<rparr>"
  have nm: "addName ?ix name = Inr (ix1, ?fid)"
    using name small assms(1) by (simp add: addName_eq nd ix1_def holds_def)
  have dl: "length docs < 2 ^ 32"
    using length_names_section_ge[of "map fst docs"] small by simp
  have es: "holds_entries ix (doc_entries docs)" using assms(1) by (simp add: holds_def)
  then have es1: "holds_entries ix1 (doc_entries docs)" by (simp add: ix1_def holds_entries_def)
  have "set (iw_post ix) \<subseteq> set (doc_entries docs)"
    using es unfolding holds_entries_def by (metis Un_upper2 set_mset_mset set_mset_union)
  then have "\<forall>e \<in> set (iw_post ix1). fileid e \<le> ?fid"
    using dl mono_word_of_nat[of _ "length docs"] by (auto simp: ix1_def in_doc_entries subset_iff)
  moreover have "\<forall>t \<in> set (Dense s). t < last_trigram"
    using fin istext text_trigrams by simp
  ultimately obtain p pf where
    r: "foldR (add_entry ?fid) ix1 (Dense s) = Inr (ix1\<lparr>iw_post := p, iw_postFile := pf\<rparr>)"
    and h: "holds_entries (ix1\<lparr>iw_post := p, iw_postFile := pf\<rparr>)
      (doc_entries docs @ map (\<lambda>t. makePostEntry t ?fid) (Dense s))"
    using add_entries_hold[OF es1] by metis
  have d: "Dense s = snd (doc_of name w)" using fin istext by (simp add: doc_of_def)
  let ?ix' = "ix1\<lparr>iw_post := p, iw_postFile := pf\<rparr>"
  have "docs_ok (docs @ [doc_of name w])"
    using assms(1) name text_trigrams[OF istext] by (auto simp: holds_def docs_ok_def doc_of_def)
  moreover have "holds_entries ?ix' (doc_entries (docs @ [doc_of name w]))"
    using h by (simp add: doc_entries_append d)
  ultimately have "holds ?ix' (docs @ [doc_of name w])"
    using assms(1) scan(2,3) dl
    by (simp add: holds_def ix1_def codec_simps name_index_section_append name_bytes_def doc_of_def)
  then show "\<exists>ix'. Add_file ix name r = Inr ix' \<and> holds ix' (docs @ [doc_of name w])
      \<and> iw_paths ix' = iw_paths ix"
    unfolding add nm using r by (simp add: ix1_def)
qed

subsection \<open>Merging the runs\<close>

text \<open>The merge has the entries \<open>L\<close> to come: \<open>e\<close> is the first of them, the heap has the rest.\<close>

definition pending :: "postEntry \<Rightarrow> postHeap \<Rightarrow> postEntry list \<Rightarrow> bool" where
  "pending e h L \<longleftrightarrow>
     heap_inv h \<and> (\<forall>x \<in> set L. trigram x < last_trigram)
     \<and> (if L = [] then e = sentinel \<and> h = []
        else L = e # sorted_list_of_multiset (heap_entries h))"

lemma pending_next:
  assumes "heap_inv h" and "next_entry h = (e, h')"
    and "\<forall>x \<in># heap_entries h. trigram x < last_trigram"
  shows "pending e h' (sorted_list_of_multiset (heap_entries h))"
proof (cases "h = []")
  case True
  with assms show ?thesis by (auto simp: pending_def next_entry_def)
next
  case False
  from pheap.next_least[OF assms(1) False assms(2)]
  have n: "heap_inv h'" "heap_entries h = add_mset e (heap_entries h')" "\<forall>x \<in># heap_entries h. e \<le> x"
    by auto
  then have "sorted_list_of_multiset (heap_entries h) = e # sorted_list_of_multiset (heap_entries h')"
    using insort_is_Cons[of "sorted_list_of_multiset (heap_entries h')" "\<lambda>x. x" e] by auto
  moreover have "\<forall>x \<in> set (sorted_list_of_multiset (heap_entries h)). trigram x < last_trigram"
    using assms(3) by simp
  ultimately show ?thesis using n(1) by (simp add: pending_def)
qed

lemma pending_step:
  assumes "pending e h (x # L)" and "next_entry h = (e', h')"
  shows "e = x" and "pending e' h' L"
  using assms pending_next[OF _ assms(2)] by (auto simp: pending_def)

lemma pending_end: "pending e h L \<Longrightarrow> trigram e = last_trigram \<longleftrightarrow> L = []"
  by (auto simp: pending_def sentinel_def split: if_splits)

lemma pending_head: "pending e h L \<Longrightarrow> L \<noteq> [] \<Longrightarrow> L = e # tl L"
  by (auto simp: pending_def)

lemma merge_list_spec:
  assumes "pending e h L" and "t < last_trigram"
  shows "\<exists>e' h' out'. merge_list t e h out fid n
        = (e', h', out', n + word_of_nat (length (takeWhile (\<lambda>x. trigram x = t) L)))
      \<and> pending e' h' (dropWhile (\<lambda>x. trigram x = t) L)
      \<and> contents out' = contents out @ diff_bytes fid (map fileid (takeWhile (\<lambda>x. trigram x = t) L))"
  using assms
proof (induction L arbitrary: e h out fid n)
  case Nil
  then have "trigram e \<noteq> t" using pending_end[of e h "[]"] by auto
  with Nil show ?case by (subst merge_list.simps) simp
next
  case (Cons x L)
  obtain e1 h1 where nx: "next_entry h = (e1, h1)" by fastforce
  note st = pending_step[OF Cons.prems(1) nx]
  show ?case
  proof (cases "trigram x = t")
    case True
    let ?out = "bw_writeUvarint out (fileid e - fid)"
    from Cons.IH[OF st(2) Cons.prems(2), of ?out "fileid e" "n + 1"]
    obtain e' h' out' where
      r: "merge_list t e1 h1 ?out (fileid e) (n + 1)
          = (e', h', out', n + 1 + word_of_nat (length (takeWhile (\<lambda>x. trigram x = t) L)))"
        "pending e' h' (dropWhile (\<lambda>x. trigram x = t) L)"
        "contents out' = contents ?out @ diff_bytes (fileid e) (map fileid (takeWhile (\<lambda>x. trigram x = t) L))"
      by blast
    have "merge_list t e h out fid n = merge_list t e1 h1 ?out (fileid e) (n + 1)"
      using True st(1) Cons.prems(2) nx by (subst merge_list.simps) auto
    with r True st(1) show ?thesis by (simp add: codec_simps add.assoc)
  next
    case False
    with Cons.prems st(1) show ?thesis by (subst merge_list.simps) simp
  qed
qed

text \<open>The groups still to be written, the last list included.\<close>

definition groups :: "postEntry list \<Rightarrow> posting list" where
  "groups L = group_entries L @ [(last_trigram, [])]"

lemma groups_Nil: "groups [] = [(last_trigram, [])]"
  by (simp add: groups_def)

lemma groups_Cons:
  "groups (e # L) =
     (trigram e, map fileid (takeWhile (\<lambda>x. trigram x = trigram e) (e # L)))
     # groups (dropWhile (\<lambda>x. trigram x = trigram e) (e # L))"
  by (simp add: groups_def)

lemma merge_lists_spec:
  assumes "pending e h L" and "n0 \<le> length (contents out)"
  shows "length (contents out @ lists_section (groups L)) < 2 ^ 32 \<Longrightarrow>
      \<exists>out' pidx'. merge_lists e h out pidx (word_of_nat n0) = Inr (out', pidx')
        \<and> contents out' = contents out @ lists_section (groups L)
        \<and> contents pidx' = contents pidx @ list_index_section (length (contents out) - n0) (groups L)"
    and "merge_lists e h out pidx (word_of_nat n0) = Inr (out', pidx') \<Longrightarrow>
        contents out' = contents out @ lists_section (groups L)
        \<and> contents pidx' = contents pidx @ list_index_section (length (contents out) - n0) (groups L)"
    and "merge_lists e h out pidx (word_of_nat n0) = Inl err \<Longrightarrow> err = Fatal ''index is larger than 4GB''"
proof -
  let ?m = "\<lambda>e h out pidx. merge_lists e h out pidx (word_of_nat n0)"
  have "(\<exists>out' pidx'. ?m e h out pidx = Inr (out', pidx')
        \<and> contents out' = contents out @ lists_section (groups L)
        \<and> contents pidx' = contents pidx @ list_index_section (length (contents out) - n0) (groups L))
      \<or> ?m e h out pidx = Inl (Fatal ''index is larger than 4GB'')
        \<and> 2 ^ 32 \<le> length (contents out @ lists_section (groups L))"
    using assms
  proof (induction "length L" arbitrary: e h L out pidx rule: less_induct)
    case less
    let ?t = "trigram e" and ?P = "\<lambda>x. trigram x = trigram e"
    let ?out1 = "bw_write out (trigram_bytes ?t)"
    show ?case
    proof (cases "length (contents out) < 2 ^ 32")
      case False
      then show ?thesis by (subst (1 2) merge_lists.simps) (simp add: offset_contents)
    next
      case True
      have off: "(word_of_nat (length (contents out)) :: u32) - word_of_nat n0
          = word_of_nat (length (contents out) - n0)"
        using less.prems(2) by (simp add: of_nat_diff)
      show ?thesis
      proof (cases "L = []")
        case Nil: True
        then have t: "?t = last_trigram" using pending_end[OF less.prems(1)] Nil by simp
        then have "merge_list ?t e h ?out1 (- 1) 0 = (e, h, ?out1, 0)"
          by (subst merge_list.simps) simp
        then have "?m e h out pidx = Inr (bw_writeUvarint ?out1 0,
            bw_writeUint32 (bw_writeUint32 (bw_write pidx (trigram_bytes ?t)) 0)
              (word_of_nat (length (contents out) - n0)))"
          using True t by (subst merge_lists.simps) (simp add: offset_contents off)
        then show ?thesis
          by (simp add: Nil groups_Nil codec_simps list_bytes_def t)
      next
        case False
        then obtain L' where L: "L = e # L'" using pending_head[OF less.prems(1)] by blast
        have t: "?t < last_trigram" using less.prems(1) L by (simp add: pending_def)
        let ?fs = "map fileid (takeWhile ?P L)"
        from merge_list_spec[OF less.prems(1) t, of ?out1 "- 1" 0]
        obtain e' h' out2 where m: "merge_list ?t e h ?out1 (- 1) 0
              = (e', h', out2, word_of_nat (length (takeWhile ?P L)))"
            "pending e' h' (dropWhile ?P L)"
            "contents out2 = contents ?out1 @ diff_bytes (- 1) ?fs"
          by auto
        let ?out3 = "bw_writeUvarint out2 0"
        let ?pidx = "bw_writeUint32 (bw_writeUint32 (bw_write pidx (trigram_bytes ?t))
              (word_of_nat (length (takeWhile ?P L)))) (word_of_nat (length (contents out) - n0))"
        have step: "?m e h out pidx = ?m e' h' ?out3 ?pidx"
          using True m(1) less_imp_neq[OF t]
          by (subst merge_lists.simps) (simp add: offset_contents off Let_def)
        have c3: "contents ?out3 = contents out @ list_bytes (?t, ?fs)"
          by (simp add: codec_simps m(3) list_bytes_def)
        have lt: "length (dropWhile ?P L) < length L"
          by (simp add: L length_dropWhile_le le_imp_less_Suc)
        have g: "groups L = (?t, ?fs) # groups (dropWhile ?P L)" unfolding L by (rule groups_Cons)
        have n0: "n0 \<le> length (contents ?out3)" using less.prems(2) c3 by simp
        from less.hyps[OF lt m(2) n0, of ?pidx] less.prems(2)
        show ?thesis unfolding step g c3 by (auto simp: codec_simps)
      qed
    qed
  qed
  then show "length (contents out @ lists_section (groups L)) < 2 ^ 32 \<Longrightarrow>
      \<exists>out' pidx'. ?m e h out pidx = Inr (out', pidx')
        \<and> contents out' = contents out @ lists_section (groups L)
        \<and> contents pidx' = contents pidx @ list_index_section (length (contents out) - n0) (groups L)"
    and "?m e h out pidx = Inr (out', pidx') \<Longrightarrow>
        contents out' = contents out @ lists_section (groups L)
        \<and> contents pidx' = contents pidx @ list_index_section (length (contents out) - n0) (groups L)"
    and "?m e h out pidx = Inl err \<Longrightarrow> err = Fatal ''index is larger than 4GB''"
    by auto
qed

subsection \<open>Flushing\<close>

lemma pending_start:
  assumes "holds ix docs" and "next_entry (add_chunk (foldl add_chunk [] (iw_postFile ix)) (sortPost (iw_post ix))) = (e, h)"
  shows "pending e h (sorted_list_of_multiset (mset (doc_entries docs)))"
proof -
  let ?h0 = "foldl add_chunk [] (iw_postFile ix)" and ?post = "sortPost (iw_post ix)"
  have he: "holds_entries ix (doc_entries docs)" using assms(1) by (simp add: holds_def)
  have "heap_inv ?h0 \<and> heap_entries ?h0 = mset (concat (iw_postFile ix))"
    using pheap.add_list_entries[of "[]" "iw_postFile ix"] he by (simp add: holds_entries_def)
  with pheap.add_entries[of ?h0 ?post] holds_sorts[OF he] he
  have h: "heap_inv (add_chunk ?h0 ?post)"
      "heap_entries (add_chunk ?h0 ?post) = mset (doc_entries docs)"
    by (simp_all add: holds_entries_def)
  show ?thesis using pending_next[OF h(1) assms(2)] he unfolding h(2) holds_entries_def by simp
qed

lemma postings_groups: "postings docs = groups (sorted_list_of_multiset (mset (doc_entries docs)))"
  by (simp add: postings_def groups_def)

lemma contents_write_paths: "contents (write_paths b ps) = contents b @ names_section ps"
proof -
  have "contents (foldl (\<lambda>b p. bw_writeString (bw_writeString b p) [CHR 0x00]) b ps)
      = contents b @ names_section ps" for b
    by (induction ps arbitrary: b)
      (auto simp: codec_simps name_bytes_def bytes_of_def byte_of_def)
  then show ?thesis by (simp add: write_paths_def)
qed

lemma contents_writeUint32s:
  "contents (foldl bw_writeUint32 b xs) = contents b @ concat (map uint32_bytes xs)"
  by (induction xs arbitrary: b) (auto simp: codec_simps)

lemma byte_of_nul: "byte_of CHR 0x00 = 0"
  by (simp add: byte_of_def)

lemma bytes_of_nul: "bytes_of [CHR 0x00] = [0]"
  by (simp add: bytes_of_def byte_of_def)

definition tooLarge :: fault where
  "tooLarge = Fatal ''index is larger than 4GB''"

lemma main_offset_eq:
  "main_offset ix = (if length (contents (iw_main ix)) < 2 ^ 32
     then Inr (word_of_nat (length (contents (iw_main ix)))) else Inl tooLarge)"
  by (simp add: main_offset_def offset_contents tooLarge_def)

lemma on_main_simps [simp]:
  "iw_main (on_main f ix) = f (iw_main ix)" "iw_paths (on_main f ix) = iw_paths ix"
  "iw_nameData (on_main f ix) = iw_nameData ix" "iw_nameIndex (on_main f ix) = iw_nameIndex ix"
  "iw_postFile (on_main f ix) = iw_postFile ix" "iw_post (on_main f ix) = iw_post ix"
  "iw_postIndex (on_main f ix) = iw_postIndex ix"
  by (simp_all add: on_main_def)

text \<open>The merge, seen from \<^verbatim>\<open>Flush\<close>: it appends the posting lists and leaves their index.\<close>

lemma mergePost_spec:
  assumes "holds ix0 docs" and "iw_post ix = iw_post ix0" and "iw_postFile ix = iw_postFile ix0"
    and "contents (iw_postIndex ix) = []"
  shows "length (contents (iw_main ix) @ lists_section (postings docs)) < 2 ^ 32 \<Longrightarrow> \<exists>ix'. mergePost ix = Inr ix'"
    and "mergePost ix = Inr ix' \<Longrightarrow>
      contents (iw_main ix') = contents (iw_main ix) @ lists_section (postings docs)
      \<and> contents (iw_postIndex ix') = list_index_section 0 (postings docs)
      \<and> iw_nameIndex ix' = iw_nameIndex ix \<and> iw_paths ix' = iw_paths ix"
    and "mergePost ix = Inl err \<Longrightarrow> err = tooLarge"
proof -
  obtain e h where n: "next_entry (add_chunk (foldl add_chunk [] (iw_postFile ix)) (sortPost (iw_post ix))) = (e, h)"
    by fastforce
  have p: "pending e h (sorted_list_of_multiset (mset (doc_entries docs)))"
    using pending_start[OF assms(1)] n assms(2,3) by simp
  let ?n0 = "length (contents (iw_main ix))"
  note spec = merge_lists_spec[OF p order_refl, of "iw_main ix" "iw_postIndex ix", folded postings_groups]
  have eq: "mergePost ix = (if ?n0 < 2 ^ 32
      then bindR (merge_lists e h (iw_main ix) (iw_postIndex ix) (word_of_nat ?n0)) (\<lambda>(out, postIndex).
        Inr (ix\<lparr>iw_post := sortPost (iw_post ix), iw_main := out, iw_postIndex := postIndex\<rparr>))
      else Inl tooLarge)"
    by (simp add: mergePost_def Let_def n offset_contents tooLarge_def)
  show "\<exists>ix'. mergePost ix = Inr ix'"
    if "length (contents (iw_main ix) @ lists_section (postings docs)) < 2 ^ 32"
    using spec(1)[OF that] that by (auto simp: eq)
  show "contents (iw_main ix') = contents (iw_main ix) @ lists_section (postings docs)
      \<and> contents (iw_postIndex ix') = list_index_section 0 (postings docs)
      \<and> iw_nameIndex ix' = iw_nameIndex ix \<and> iw_paths ix' = iw_paths ix"
    if m: "mergePost ix = Inr ix'"
  proof -
    from m obtain out pidx
      where r: "merge_lists e h (iw_main ix) (iw_postIndex ix) (word_of_nat ?n0) = Inr (out, pidx)"
        and ix': "ix' = ix\<lparr>iw_post := sortPost (iw_post ix), iw_main := out, iw_postIndex := pidx\<rparr>"
      by (cases "?n0 < 2 ^ 32") (auto simp: eq bindR_Inr)
    from spec(2)[OF r] show ?thesis by (simp add: ix' assms(4))
  qed
  show "err = tooLarge" if "mergePost ix = Inl err"
    using that unfolding eq
    by (cases "merge_lists e h (iw_main ix) (iw_postIndex ix) (word_of_nat ?n0)")
      (auto simp: tooLarge_def dest: spec(3) split: if_splits)
qed

text \<open>The state of the writer when the merge starts, and what \<^verbatim>\<open>Flush\<close> does after it.\<close>

definition before_merge :: "IndexWriter \<Rightarrow> IndexWriter" where
  "before_merge ix = on_main (\<lambda>b. copyFile b (iw_nameData ix))
     (on_main (\<lambda>b. bw_writeString (write_paths b (iw_paths ix)) [CHR 0x00])
       (on_main (\<lambda>b. bw_writeString b magic) ix))"

definition after_merge :: "u32 list \<Rightarrow> IndexWriter \<Rightarrow> IndexWriter" where
  "after_merge offs ix = on_main (\<lambda>b. bw_writeString b trailerMagic)
     (on_main (\<lambda>b. foldl bw_writeUint32 b offs)
       (on_main (\<lambda>b. copyFile b (iw_postIndex ix))
         (on_main (\<lambda>b. copyFile b (iw_nameIndex ix)) ix)))"

definition offset_at :: "byte list list \<Rightarrow> nat \<Rightarrow> u32" where
  "offset_at ss k = word_of_nat (length (concat (take k ss)))"

definition small_at :: "byte list list \<Rightarrow> nat \<Rightarrow> bool" where
  "small_at ss k \<longleftrightarrow> length (concat (take k ss)) < 2 ^ 32"

lemma Flush_eq:
  assumes "addName ix [] = Inr (ix1, fid)" and "contents (iw_main ix1) = []"
    and "ss = [bytes_of magic, names_section (iw_paths ix1 @ [[]]), contents (iw_nameData ix1),
      ls, contents (iw_nameIndex ix1)]"
    and "\<And>ixm. mergePost (before_merge ix1) = Inr ixm \<Longrightarrow>
        contents (iw_main ixm) = contents (iw_main (before_merge ix1)) @ ls
        \<and> iw_nameIndex ixm = iw_nameIndex ix1"
  shows "Flush ix =
    (if small_at ss 1 \<and> small_at ss 2 \<and> small_at ss 3
     then bindR (mergePost (before_merge ix1)) (\<lambda>ixm.
       let ix2 = after_merge (map (offset_at ss) [1, 2, 3, 4, 5]) ixm
       in if small_at ss 4 \<and> small_at ss 5 \<and> length (contents (iw_main ix2)) < 2 ^ 32
          then Inr (on_main bw_flush ix2) else Inl tooLarge)
     else Inl tooLarge)"
proof -
  let ?m1 = "on_main (\<lambda>b. bw_writeString b magic) ix1"
  let ?m2 = "on_main (\<lambda>b. bw_writeString (write_paths b (iw_paths ?m1)) [CHR 0x00]) ?m1"
  let ?m3 = "on_main (\<lambda>b. copyFile b (iw_nameData ?m2)) ?m2"
  have pre: "?m3 = before_merge ix1" by (simp add: before_merge_def)
  have c: "contents (iw_main ?m1) = concat (take 1 ss)" "contents (iw_main ?m2) = concat (take 2 ss)"
      "contents (iw_main ?m3) = concat (take 3 ss)"
    by (simp_all add: assms(2,3) codec_simps contents_write_paths bytes_of_nul name_bytes_def
        byte_of_nul bytes_of_def numeral_2_eq_2 numeral_3_eq_3)
  have o: "main_offset ?m1 = (if small_at ss 1 then Inr (offset_at ss 1) else Inl tooLarge)"
      "main_offset ?m2 = (if small_at ss 2 then Inr (offset_at ss 2) else Inl tooLarge)"
      "main_offset (before_merge ix1) = (if small_at ss 3 then Inr (offset_at ss 3) else Inl tooLarge)"
    unfolding pre[symmetric] main_offset_eq c small_at_def offset_at_def by (rule refl)+
  have post: "bindR (main_offset ixm) (\<lambda>off3.
       let ix = on_main (\<lambda>b. copyFile b (iw_nameIndex ixm)) ixm in
       bindR (main_offset ix) (\<lambda>off4.
       let ix = on_main (\<lambda>b. copyFile b (iw_postIndex ix)) ix;
         ix = on_main (\<lambda>b. foldl bw_writeUint32 b
           [offset_at ss 1, offset_at ss 2, offset_at ss 3, off3, off4]) ix;
         ix = on_main (\<lambda>b. bw_writeString b trailerMagic) ix in
       bindR (main_offset ix) (\<lambda>_. Inr (on_main bw_flush ix))))
     = (let ix2 = after_merge (map (offset_at ss) [1, 2, 3, 4, 5]) ixm
       in if small_at ss 4 \<and> small_at ss 5 \<and> length (contents (iw_main ix2)) < 2 ^ 32
          then Inr (on_main bw_flush ix2) else Inl tooLarge)"
    if m: "mergePost (before_merge ix1) = Inr ixm" for ixm
  proof -
    let ?m4 = "on_main (\<lambda>b. copyFile b (iw_nameIndex ixm)) ixm"
    have "contents (iw_main ixm) = concat (take 4 ss)" "contents (iw_main ?m4) = concat (take 5 ss)"
      using assms(4)[OF m] c(3) unfolding pre
      by (simp_all add: assms(3) codec_simps numeral_eq_Suc)
    then have "main_offset ixm = (if small_at ss 4 then Inr (offset_at ss 4) else Inl tooLarge)"
      "main_offset ?m4 = (if small_at ss 5 then Inr (offset_at ss 5) else Inl tooLarge)"
      by (simp_all add: main_offset_eq small_at_def offset_at_def)
    then show ?thesis
      by (simp add: Let_def after_merge_def main_offset_eq[of "on_main (\<lambda>b. bw_writeString b trailerMagic) _"])
  qed
  let ?tail = "\<lambda>ixm. bindR (main_offset ixm) (\<lambda>off3.
       let ix = on_main (\<lambda>b. copyFile b (iw_nameIndex ixm)) ixm in
       bindR (main_offset ix) (\<lambda>off4.
       let ix = on_main (\<lambda>b. copyFile b (iw_postIndex ix)) ix;
         ix = on_main (\<lambda>b. foldl bw_writeUint32 b
           [offset_at ss 1, offset_at ss 2, offset_at ss 3, off3, off4]) ix;
         ix = on_main (\<lambda>b. bw_writeString b trailerMagic) ix in
       bindR (main_offset ix) (\<lambda>_. Inr (on_main bw_flush ix))))"
  have F: "Flush ix = (if small_at ss 1 \<and> small_at ss 2 \<and> small_at ss 3
      then bindR (mergePost (before_merge ix1)) ?tail else Inl tooLarge)"
    unfolding Flush_def assms(1) bindR_simps prod.case Let_def o(1,2)[unfolded Let_def] pre o(3)
    by (cases "small_at ss 1"; cases "small_at ss 2"; cases "small_at ss 3")
      (simp_all only: if_True if_False bindR_simps simp_thms o(3))
  show ?thesis
  proof (cases "mergePost (before_merge ix1)")
    case (Inl err)
    show ?thesis unfolding F Inl by (simp only: bindR_simps)
  next
    case (Inr ixm)
    show ?thesis unfolding F Inr bindR_simps post[OF Inr] by (rule refl)
  qed
qed

lemma length_concat_take_le: "length (concat (take k xss)) \<le> length (concat xss)"
  by (metis append_take_drop_id concat_append length_append le_add1)

lemma index_file_eq:
  fixes paths docs
  defines "ss \<equiv> [bytes_of magic, names_section (paths @ [[]]), names_section (map fst docs @ [[]]),
      lists_section (postings docs), name_index_section 0 (map fst docs @ [[]])]"
  shows "index_file paths docs = concat ss @ list_index_section 0 (postings docs)
    @ concat (map uint32_bytes (map (offset_at ss) [1, 2, 3, 4, 5])) @ bytes_of trailerMagic"
  by (simp add: index_file_def index_sections_def trailer_def Let_def offset_at_def ss_def numeral_eq_Suc)

lemma length_index_file_ge:
  "length (names_section (map fst docs)) \<le> length (index_file paths docs)"
  by (simp add: index_file_def index_sections_def Let_def)

lemma Flush_spec:
  assumes "holds ix docs"
  shows "Flush ix = Inr ix' \<Longrightarrow> bw_file (iw_main ix') = index_file (iw_paths ix) docs
      \<and> length (index_file (iw_paths ix) docs) < 2 ^ 32"
    and "length (index_file (iw_paths ix) docs) < 2 ^ 32 \<Longrightarrow> \<exists>ix'. Flush ix = Inr ix'"
    and "Flush ix = Inl err \<Longrightarrow> err = tooLarge"
proof -
  let ?F = "index_file (iw_paths ix) docs"
  have "length ?F < 2 ^ 32 \<and> (\<exists>ix2. Flush ix = Inr ix2 \<and> bw_file (iw_main ix2) = ?F)
    \<or> \<not> length ?F < 2 ^ 32 \<and> Flush ix = Inl tooLarge"
  proof (cases "length (names_section (map fst docs)) < 2 ^ 32")
    case False
    then have "Flush ix = Inl tooLarge"
      using assms by (simp add: Flush_def addName_eq holds_def tooLarge_def)
    moreover have "\<not> length ?F < 2 ^ 32" using False length_index_file_ge[of docs "iw_paths ix"] by simp
    ultimately show ?thesis by simp
  next
    case True
    let ?PI = "list_index_section 0 (postings docs)" and ?ls = "lists_section (postings docs)"
    define ix1 where "ix1 = fst (projr (addName ix []))"
    have add: "addName ix [] = Inr (ix1, word_of_nat (length docs))"
      and f: "contents (iw_nameData ix1) = names_section (map fst docs @ [[]])"
        "contents (iw_nameIndex ix1) = name_index_section 0 (map fst docs @ [[]])"
        "contents (iw_main ix1) = []" "contents (iw_postIndex ix1) = []"
        "iw_post ix1 = iw_post ix" "iw_postFile ix1 = iw_postFile ix" "iw_paths ix1 = iw_paths ix"
      using True assms
      by (simp_all add: ix1_def addName_eq holds_def codec_simps name_index_section_append
          name_bytes_def bytes_of_def)
    let ?ss = "[bytes_of magic, names_section (iw_paths ix @ [[]]), names_section (map fst docs @ [[]]),
      ?ls, name_index_section 0 (map fst docs @ [[]])]"
    have b: "iw_post (before_merge ix1) = iw_post ix" "iw_postFile (before_merge ix1) = iw_postFile ix"
        "contents (iw_postIndex (before_merge ix1)) = []"
        "iw_nameIndex (before_merge ix1) = iw_nameIndex ix1"
        "contents (iw_main (before_merge ix1)) = concat (take 3 ?ss)"
      using f by (simp_all add: before_merge_def codec_simps contents_write_paths bytes_of_nul name_bytes_def
          bytes_of_def byte_of_nul numeral_eq_Suc)
    note mp = mergePost_spec[OF assms b(1-3)]
    have ss: "?ss = [bytes_of magic, names_section (iw_paths ix1 @ [[]]), contents (iw_nameData ix1),
      ?ls, contents (iw_nameIndex ix1)]" by (simp add: f)
    have mm: "contents (iw_main ixm) = contents (iw_main (before_merge ix1)) @ ?ls
        \<and> iw_nameIndex ixm = iw_nameIndex ix1"
      if "mergePost (before_merge ix1) = Inr ixm" for ixm
      using mp(2)[OF that] b(4) by simp
    let ?ix2 = "\<lambda>ixm. after_merge (map (offset_at ?ss) [1, 2, 3, 4, 5]) ixm"
    have tot: "contents (iw_main (?ix2 ixm)) = ?F" if "mergePost (before_merge ix1) = Inr ixm" for ixm
      using mp(2)[OF that] b(4,5) f(2)
      by (simp add: after_merge_def codec_simps contents_writeUint32s index_file_eq numeral_eq_Suc
          del: foldl.simps list.map)
    have small: "small_at ?ss k" if "length ?F < 2 ^ 32" for k
      using that length_concat_take_le[of k ?ss] unfolding small_at_def index_file_eq by simp
    have take4: "concat (take 4 ?ss) = concat (take 3 ?ss) @ ?ls" by (simp add: numeral_eq_Suc)
    have F: "Flush ix =
      (if small_at ?ss 1 \<and> small_at ?ss 2 \<and> small_at ?ss 3
       then bindR (mergePost (before_merge ix1)) (\<lambda>ixm.
         let ix2 = ?ix2 ixm
         in if small_at ?ss 4 \<and> small_at ?ss 5 \<and> length (contents (iw_main ix2)) < 2 ^ 32
            then Inr (on_main bw_flush ix2) else Inl tooLarge)
       else Inl tooLarge)"
      by (rule Flush_eq[OF add f(3) ss]) (rule mm)
    show ?thesis
    proof (cases "length ?F < 2 ^ 32")
      case True
      have "length (contents (iw_main (before_merge ix1)) @ ?ls) < 2 ^ 32"
        using small[OF True, of 4] unfolding small_at_def b(5) take4 .
      then obtain ixm where m: "mergePost (before_merge ix1) = Inr ixm" using mp(1) by blast
      have "Flush ix = Inr (on_main bw_flush (?ix2 ixm))"
        unfolding F m bindR_simps Let_def tot[OF m]
        by (simp only: small[OF True] True simp_thms if_True)
      moreover have "bw_file (iw_main (on_main bw_flush (?ix2 ixm))) = ?F"
        using tot[OF m] by (simp add: flush_file)
      ultimately show ?thesis using True by simp
    next
      case False
      have "Flush ix = Inl tooLarge"
      proof (cases "mergePost (before_merge ix1)")
        case (Inl e)
        with mp(3)[OF Inl] show ?thesis unfolding F by simp
      next
        case (Inr ixm)
        show ?thesis unfolding F Inr bindR_simps Let_def tot[OF Inr] using False by simp
      qed
      with False show ?thesis by simp
    qed
  qed
  note res = this
  show "bw_file (iw_main ix') = ?F \<and> length ?F < 2 ^ 32" if "Flush ix = Inr ix'"
    using res unfolding that by blast
  show "\<exists>ix'. Flush ix = Inr ix'" if "length ?F < 2 ^ 32"
    using res that by blast
  show "err = tooLarge" if "Flush ix = Inl err"
    using res unfolding that by blast
qed

subsection \<open>Properties\<close>

text \<open>C7. Adding a file to a writer that holds some documents adds one document, with the file's name
  and trigrams and the next id, when the file is a text with few enough trigrams; leaves the
  documents alone when it is not; and ends the process when the name has a NUL byte or the names
  have grown past 4GB. Flushing full runs in between makes no difference.\<close>

theorem Add_file_correct:
  assumes "holds ix docs" and "delivers r = Some w"
  shows "if \<not> indexed w then \<exists>ix'. Add_file ix name r = Inr ix' \<and> holds ix' docs
    else if CHR 0x00 \<in> set name \<or> 2 ^ 32 \<le> length (names_section (map fst docs))
    then \<exists>m. Add_file ix name r = Inl (Fatal m)
    else \<exists>ix'. Add_file ix name r = Inr ix' \<and> holds ix' (docs @ [doc_of name w])"
proof (cases "indexed w")
  case False
  then show ?thesis using Add_file_holds(1)[OF assms, of name] by auto
next
  case True
  note a = Add_file_holds(2,3)[OF assms True, of name]
  show ?thesis
  proof (cases "CHR 0x00 \<in> set name \<or> 2 ^ 32 \<le> length (names_section (map fst docs))")
    case True
    with a(2) \<open>indexed w\<close> show ?thesis by auto
  next
    case False
    with a(1) \<open>indexed w\<close> show ?thesis by auto
  qed
qed

lemma indexed_abc: "indexed abc_file"
  using abc_text by (simp add: indexed_def abc_trigrams maxTextTrigrams_def)

lemma Add_file_correct_witness:
  "\<exists>ix'. Add_file Create ''a'' [(abc_file, NoErr)] = Inr ix' \<and> holds ix' [(''a'', [0x616263, 0x62630a])]"
proof -
  have "delivers [(abc_file, NoErr)] = Some abc_file" by (simp add: abc_file_def)
  from Add_file_correct[OF holds_Create this, of "''a''"] show ?thesis
    by (simp add: indexed_abc doc_of_def abc_trigrams)
qed

text \<open>C6. \<open>Flush\<close> implements the format: merging the runs through the heap, copying the
  temporary files and recording the offsets writes exactly the file the format describes for the
  documents held, and it succeeds whenever that file is smaller than 4GB.\<close>

theorem Flush_writes_format:
  assumes "holds ix docs"
  shows "(\<exists>ix'. Flush ix = Inr ix' \<and> bw_file (iw_main ix') = index_file (iw_paths ix) docs)
      \<and> length (index_file (iw_paths ix) docs) < 2 ^ 32
    \<or> Flush ix = Inl (Fatal ''index is larger than 4GB'')
      \<and> 2 ^ 32 \<le> length (index_file (iw_paths ix) docs)"
proof (cases "Flush ix")
  case (Inl err)
  then show ?thesis using Flush_spec(2,3)[OF assms] by (fastforce simp: tooLarge_def not_less)
next
  case (Inr ix')
  then show ?thesis using Flush_spec(1)[OF assms Inr] by blast
qed

lemma index_file_small: "length (index_file [] []) < 2 ^ 32"
  by (simp add: index_file_def index_sections_def postings_def Let_def trailer_def magic_def
      trailerMagic_def length_encodings list_bytes_def name_bytes_def uvarint_bytes_def)

lemma Flush_writes_format_witness:
  "\<exists>ix'. Flush Create = Inr ix' \<and> bw_file (iw_main ix') = index_file [] []"
  using Flush_writes_format[OF holds_Create] index_file_small by (auto simp: Create_def)

end
