(* ===== verification/Regexp_Sound.thy ===== *)
theory Regexp_Sound
  imports Regexp_Info
begin

text \<open>
  The analysis is conservative: whatever text an expression matches satisfies the query computed
  for it. \<open>info_ok info P\<close> says what the fields of a \<open>regexpInfo\<close> promise about every string
  of a set \<open>P\<close>; each combinator keeps the promise, and never fails.
\<close>

definition covers :: "bool \<Rightarrow> string_set \<Rightarrow> string_set \<Rightarrow> bool" where
  "covers isSuffix t' t = (\<forall>x\<in>set t. \<exists>y\<in>set t'. reaches isSuffix y x)"

definition info_ok :: "regexpInfo \<Rightarrow> string set \<Rightarrow> bool" where
  "info_ok info P \<longleftrightarrow>
     wf_query (ri_match info) \<and> (\<forall>w\<in>P. qeval (\<lambda>t. sublist t w) (ri_match info))
     \<and> (case ri_exact info of
          Some e \<Rightarrow> P \<subseteq> set e
        | None \<Rightarrow> \<forall>w\<in>P. (\<exists>p\<in>set (ri_prefix info). prefix p w) \<and> (\<exists>s\<in>set (ri_suffix info). suffix s w))"

lemma info_ok_mono: "info_ok info P \<Longrightarrow> P' \<subseteq> P \<Longrightarrow> info_ok info P'"
  by (auto simp: info_ok_def split: option.splits)

lemma info_ok_exactD: "info_ok x P \<Longrightarrow> ri_exact x = Some e \<Longrightarrow> u \<in> P \<Longrightarrow> u \<in> set e"
  by (auto simp: info_ok_def)

lemma info_ok_edgesD:
  "info_ok x P \<Longrightarrow> ri_exact x = None \<Longrightarrow> u \<in> P \<Longrightarrow>
     (\<exists>p\<in>set (ri_prefix x). prefix p u) \<and> (\<exists>s\<in>set (ri_suffix x). suffix s u)"
  by (auto simp: info_ok_def)

definition edges_ok :: "string set \<Rightarrow> string_set \<Rightarrow> string_set \<Rightarrow> bool" where
  "edges_ok P pre suf = (\<forall>w\<in>P. (\<exists>p\<in>set pre. prefix p w) \<and> (\<exists>s\<in>set suf. suffix s w))"

lemma info_ok_None:
  "ri_exact i = None \<Longrightarrow> info_ok i P \<longleftrightarrow> wf_query (ri_match i)
     \<and> (\<forall>w\<in>P. qeval (\<lambda>t. sublist t w) (ri_match i)) \<and> edges_ok P (ri_prefix i) (ri_suffix i)"
  by (simp add: info_ok_def edges_ok_def)

lemma edges_ok_exact: "info_ok i P \<Longrightarrow> ri_exact i = Some e \<Longrightarrow> edges_ok P e e"
  unfolding edges_ok_def using info_ok_exactD prefix_order.refl suffix_order.refl by metis

lemma edges_ok_union:
  "edges_ok P a b \<Longrightarrow> edges_ok Q c d \<Longrightarrow>
     edges_ok (P \<union> Q) (ss_union a c False) (ss_union b d True)"
  unfolding edges_ok_def by (simp, blast)

lemma reaches_refl [simp]: "reaches b x x"
  by (simp add: reaches_def)

lemma reaches_trans: "reaches b x y \<Longrightarrow> reaches b y z \<Longrightarrow> reaches b x z"
  unfolding reaches_def
  by (metis prefix_order.order_trans suffix_order.order_trans)

lemma reaches_sublist: "reaches b x y \<Longrightarrow> sublist x y"
  by (auto simp: reaches_def split: if_splits)

lemma covers_trans: "covers b t2 t1 \<Longrightarrow> covers b t1 t \<Longrightarrow> covers b t2 t"
  unfolding covers_def by (meson reaches_trans)

lemma covers_superset: "set t \<subseteq> set t' \<Longrightarrow> covers b t' t"
  unfolding covers_def by (meson reaches_refl subsetD)

subsection \<open>simplifySet\<close>

lemma shorten_reaches: "0 < n \<Longrightarrow> reaches b (shorten b n x) x"
  by (auto simp: reaches_def shorten_def take_is_prefix suffix_drop)

lemma covers_shorten: "0 < n \<Longrightarrow> covers b (clean b (keep_loop (=) [] (map (shorten b n) t))) t"
  unfolding covers_def by (auto simp: set_keep_loop_eq intro: shorten_reaches)

lemma shrink_loop_covers: "shrink_loop b n t = Some t' \<Longrightarrow> covers b t' t"
proof (induction b n t rule: shrink_loop.induct)
  case (1 b t)
  then show ?case by (auto simp: covers_superset split: if_splits)
next
  case (2 b n t)
  show ?case
  proof (cases "Suc n = 3 \<or> length t > maxSet")
    case True
    then have "covers b t' (clean b (keep_loop (=) [] (map (shorten b (Suc n)) t)))"
      using 2 by simp
    then show ?thesis using covers_shorten[of "Suc n" b t] by (auto intro: covers_trans)
  next
    case False
    with 2 show ?thesis by (auto simp: covers_superset)
  qed
qed

lemma clean_distinct: "distinct (clean b s)"
proof (cases b)
  case True
  have "bySuffix_Less = (\<lambda>x y. rev x < rev y)" by (simp add: fun_eq_iff bySuffix_Less_rev)
  then have "sorted_wrt (<) (map rev (clean True s))"
    using clean_suffix_sorted[of s] by (simp add: sorted_wrt_map)
  then have "distinct (map rev (clean True s))" by (simp add: strict_sorted_iff)
  with True show ?thesis by (simp add: distinct_map)
next
  case False
  then show ?thesis using clean_strict_sorted[of s] by (simp add: strict_sorted_iff)
qed

lemma shrink_loop_total: "\<exists>t'. shrink_loop b (Suc n) t = Some t'"
proof (induction n arbitrary: t)
  case 0
  let ?t = "clean b (keep_loop (=) [] (map (shorten b (Suc 0)) t))"
  have "set ?t \<subseteq> {[]}" by (auto simp: set_keep_loop_eq shorten_def Suc_le_eq)
  then have "card (set ?t) \<le> card {[] :: string}" by (intro card_mono) auto
  then have "length ?t \<le> 1" using distinct_card[OF clean_distinct, of b "keep_loop (=) [] (map (shorten b (Suc 0)) t)"]
    by (simp del: set_clean)
  then show ?case by (simp add: maxSet_def)
next
  case (Suc n)
  then show ?case by simp
qed

lemma simplifySet_ok:
  assumes "wf_query m"
  shows "\<exists>s' m'. simplifySet b s m = Some (s', m') \<and> wf_query m' \<and> covers b s' s
    \<and> (\<forall>w. qeval (\<lambda>t. sublist t w) m \<longrightarrow> (\<exists>x\<in>set s. reaches b x w) \<longrightarrow> qeval (\<lambda>t. sublist t w) m')"
proof -
  obtain t' where t': "shrink_loop b 3 (clean b s) = Some t'"
    using shrink_loop_total[of b 2 "clean b s"] by (auto simp: numeral_3_eq_3 numeral_2_eq_2)
  let ?r = "keep_loop (reaches b) [] t'"
  let ?m = "andTrigrams m (clean b s)"
  have "covers b ?r t'"
    unfolding covers_def
  proof
    fix x assume "x \<in> set t'"
    then show "\<exists>y\<in>set ?r. reaches b y x"
      using keep_loop_covers[of x t' "reaches b" "[]"] by (metis reaches_refl)
  qed
  moreover have "covers b t' (clean b s)" using t' by (rule shrink_loop_covers)
  moreover have "covers b (clean b s) s" by (rule covers_superset) simp
  ultimately have "covers b ?r s" by (meson covers_trans)
  moreover have "qeval (\<lambda>t. sublist t w) ?m"
    if "qeval (\<lambda>t. sublist t w) m" "x \<in> set s" "reaches b x w" for w x
    using assms that reaches_sublist[OF that(3)]
    by (intro andTrigrams_sublist[where tt = x]) (auto intro: sublist_order.order_trans)
  moreover have "simplifySet b s m = Some (?r, ?m)"
    using t' by (simp add: simplifySet_def Let_def)
  ultimately show ?thesis using andTrigrams_wf[OF assms] by blast
qed

subsection \<open>simplify\<close>

lemma addExact_ok: "info_ok info P \<Longrightarrow> info_ok (addExact info) P"
proof (cases "ri_exact info")
  case None
  assume "info_ok info P"
  with None show ?thesis by (simp add: addExact_def)
next
  case (Some e)
  assume ok: "info_ok info P"
  then have "\<forall>w\<in>P. qeval (\<lambda>t. sublist t w) (andTrigrams (ri_match info) e)"
    using Some by (auto simp: info_ok_def intro: andTrigrams_sublist)
  with ok Some show ?thesis by (auto simp: info_ok_def addExact_def andTrigrams_wf)
qed

lemma addExact_fields [simp]:
  "ri_exact (addExact info) = ri_exact info" "ri_prefix (addExact info) = ri_prefix info"
  "ri_suffix (addExact info) = ri_suffix info" "ri_canEmpty (addExact info) = ri_canEmpty info"
  by (simp_all add: addExact_def split: option.splits)

lemma split_exact_fold:
  "ri_match (foldl split_exact info e) = ri_match info
   \<and> set (ri_prefix info) \<subseteq> set (ri_prefix (foldl split_exact info e))
   \<and> set (ri_suffix info) \<subseteq> set (ri_suffix (foldl split_exact info e))
   \<and> (\<forall>x\<in>set e. (\<exists>p\<in>set (ri_prefix (foldl split_exact info e)). prefix p x)
              \<and> (\<exists>s\<in>set (ri_suffix (foldl split_exact info e)). suffix s x))"
proof (induction e arbitrary: info)
  case Nil
  then show ?case by simp
next
  case (Cons x e)
  let ?i = "split_exact info x"
  have "ri_match ?i = ri_match info" "set (ri_prefix info) \<subseteq> set (ri_prefix ?i)"
    "set (ri_suffix info) \<subseteq> set (ri_suffix ?i)" "\<exists>p\<in>set (ri_prefix ?i). prefix p x"
    "\<exists>s\<in>set (ri_suffix ?i). suffix s x"
    by (auto simp: split_exact_def Let_def take_is_prefix suffix_drop)
  with Cons[of ?i] show ?case by (simp; blast)
qed

lemma spill_exact_ok:
  assumes ok: "info_ok info P"
  shows "info_ok (spill_exact force info) P"
proof -
  define e where "e = elems_of (ri_exact info)"
  show ?thesis
  proof (cases "length e > maxExact \<or> minLen e \<ge> 3 \<and> force \<or> minLen e \<ge> 4")
    case True
    then have ne: "ri_exact info = Some e"
      by (auto simp: e_def elems_of_def minLen_def split: option.splits)
    have "info_ok (addExact info) P" using ok by (rule addExact_ok)
    moreover have "spill_exact force info = (foldl split_exact (addExact info) e)\<lparr>ri_exact := None\<rparr>"
      using True by (simp add: spill_exact_def Let_def flip: e_def)
    ultimately show ?thesis using ne split_exact_fold[of "addExact info" e]
      by (auto simp: info_ok_def)
  next
    case False
    then have "spill_exact force info = info" by (auto simp: spill_exact_def Let_def simp flip: e_def)
    with ok show ?thesis by simp
  qed
qed

lemma simplify_ok:
  assumes ok: "info_ok info0 P"
  shows "\<exists>info'. simplify force info0 = Some info' \<and> info_ok info' P"
proof -
  define i2 where "i2 = spill_exact force (info0\<lparr>ri_exact := map_option (clean False) (ri_exact info0)\<rparr>)"
  have "info_ok (info0\<lparr>ri_exact := map_option (clean False) (ri_exact info0)\<rparr>) P"
    using ok by (auto simp: info_ok_def split: option.splits)
  then have ok2: "info_ok i2 P" unfolding i2_def by (rule spill_exact_ok)
  show ?thesis
  proof (cases "ri_exact i2")
    case (Some e')
    then have "simplify force info0 = Some i2"
      by (simp add: simplify_def Let_def have_set_def flip: i2_def)
    with ok2 show ?thesis by blast
  next
    case None
    have wf: "wf_query (ri_match i2)" using ok2 by (simp add: info_ok_def)
    obtain p m where p: "simplifySet False (ri_prefix i2) (ri_match i2) = Some (p, m)" "wf_query m"
      "covers False p (ri_prefix i2)"
      "\<And>w x. qeval (\<lambda>t. sublist t w) (ri_match i2) \<Longrightarrow> x \<in> set (ri_prefix i2) \<Longrightarrow> prefix x w
         \<Longrightarrow> qeval (\<lambda>t. sublist t w) m"
      using simplifySet_ok[OF wf, of False "ri_prefix i2"] by (auto simp: reaches_def)
    obtain s m' where s: "simplifySet True (ri_suffix i2) m = Some (s, m')" "wf_query m'"
      "covers True s (ri_suffix i2)"
      "\<And>w x. qeval (\<lambda>t. sublist t w) m \<Longrightarrow> x \<in> set (ri_suffix i2) \<Longrightarrow> suffix x w
         \<Longrightarrow> qeval (\<lambda>t. sublist t w) m'"
      using simplifySet_ok[OF p(2), of True "ri_suffix i2"] by (auto simp: reaches_def)
    let ?i = "i2\<lparr>ri_prefix := p, ri_suffix := s, ri_match := m'\<rparr>"
    have "simplify force info0 = Some ?i"
      using None p(1) s(1)
      by (simp add: simplify_def Let_def have_set_def flip: i2_def)
    moreover have "info_ok ?i P"
    proof -
      have "\<exists>y\<in>set p. prefix y w" "\<exists>y\<in>set s. suffix y w" "qeval (\<lambda>t. sublist t w) m'"
        if w: "w \<in> P" for w
      proof -
        obtain x z where x: "x \<in> set (ri_prefix i2)" "prefix x w"
          and z: "z \<in> set (ri_suffix i2)" "suffix z w"
          using info_ok_edgesD[OF ok2 None w] by auto
        show "\<exists>y\<in>set p. prefix y w" using p(3) x
          by (auto simp: covers_def reaches_def intro: prefix_order.order_trans)
        show "\<exists>y\<in>set s. suffix y w" using s(3) z
          by (auto simp: covers_def reaches_def intro: suffix_order.order_trans)
        show "qeval (\<lambda>t. sublist t w) m'"
          using ok2 w x z p(4)[of w x] s(4)[of w z] by (simp add: info_ok_def)
      qed
      then show ?thesis using s(2) None by (simp add: info_ok_def)
    qed
    ultimately show ?thesis by blast
  qed
qed

lemma simplify_result:
  "i = simplify force r \<Longrightarrow> info_ok r P \<Longrightarrow> \<exists>z. i = Some z \<and> info_ok z P"
  using simplify_ok[of r P force] by simp

subsection \<open>concat and alternate\<close>

lemma qeval_sublist_mono:
  "qeval (\<lambda>t. sublist t w) q \<Longrightarrow> sublist w w' \<Longrightarrow> qeval (\<lambda>t. sublist t w') q"
  by (erule qeval_mono) (rule sublist_order.order_trans)

lemma suffix_prefix_sublist: "suffix s u \<Longrightarrow> prefix p v \<Longrightarrow> sublist (s @ p) (u @ v)"
proof -
  assume "suffix s u" "prefix p v"
  then obtain a b where "u = a @ s" "v = p @ b" by (auto simp: suffix_def prefix_def)
  then have "u @ v = a @ (s @ p) @ b" by simp
  then show ?thesis unfolding sublist_def by blast
qed

lemma concat_info_ok:
  assumes x: "info_ok x P" and y: "info_ok y Q"
  shows "\<exists>z. concat_info x y = Some z \<and> info_ok z {u @ v | u v. u \<in> P \<and> v \<in> Q}"
proof -
  define m where "m = and_query (ri_match x) (ri_match y)"
  have wfm: "wf_query m" using x y by (auto simp: m_def info_ok_def)
  have em: "qeval (\<lambda>t. sublist t (u @ v)) m" if "u \<in> P" "v \<in> Q" for u v
    using x y that qeval_sublist_mono[of u "ri_match x" "u @ v"] qeval_sublist_mono[of v "ri_match y" "u @ v"]
    by (auto simp: m_def info_ok_def qeval_and_or sublist_appendI)
  consider (ee) ex ey where "ri_exact x = Some ex" "ri_exact y = Some ey"
    | (en) ex where "ri_exact x = Some ex" "ri_exact y = None"
    | (ne) ey where "ri_exact x = None" "ri_exact y = Some ey"
    | (nn) "ri_exact x = None" "ri_exact y = None"
    by (cases "ri_exact x"; cases "ri_exact y") auto
  then show ?thesis
  proof cases
    case ee
    let ?r = "\<lparr>ri_canEmpty = False, ri_exact = Some (cross ex ey False),
                ri_prefix = [], ri_suffix = [], ri_match = m\<rparr>"
    have "concat_info x y = simplify False ?r"
      using ee by (simp add: concat_info_def Let_def have_set_def elems_of_def m_def)
    moreover have "info_ok ?r {u @ v | u v. u \<in> P \<and> v \<in> Q}"
      using ee x y wfm em by (auto simp: info_ok_def intro!: in_cross)
    ultimately show ?thesis by (rule simplify_result)
  next
    case en
    let ?r = "\<lparr>ri_canEmpty = False, ri_exact = None, ri_prefix = cross ex (ri_prefix y) False,
      ri_suffix = (if ri_canEmpty y then ss_union (ri_suffix y) (ri_suffix x) True else ri_suffix y),
      ri_match = m\<rparr>"
    have "concat_info x y = simplify False ?r"
      using en by (simp add: concat_info_def Let_def have_set_def elems_of_def m_def)
    moreover have "info_ok ?r {u @ v | u v. u \<in> P \<and> v \<in> Q}"
    proof -
      have "\<exists>p\<in>set (cross ex (ri_prefix y) False). prefix p (u @ v)"
        "\<exists>s\<in>set (ri_suffix y). suffix s (u @ v)" if uv: "u \<in> P" "v \<in> Q" for u v
      proof -
        obtain p s where "u \<in> set ex" "p \<in> set (ri_prefix y)" "prefix p v"
          "s \<in> set (ri_suffix y)" "suffix s v"
          using info_ok_exactD[OF x en(1) uv(1)] info_ok_edgesD[OF y en(2) uv(2)] by auto
        then show "\<exists>p\<in>set (cross ex (ri_prefix y) False). prefix p (u @ v)"
          "\<exists>s\<in>set (ri_suffix y). suffix s (u @ v)"
          by (auto intro: suffix_appendI bexI[of _ "u @ p"] in_cross)
      qed
      then show ?thesis using wfm em by (fastforce simp: info_ok_def)
    qed
    ultimately show ?thesis by (rule simplify_result)
  next
    case ne
    let ?r = "\<lparr>ri_canEmpty = False, ri_exact = None,
      ri_prefix = (if ri_canEmpty x then ss_union (ri_prefix x) (ri_prefix y) False else ri_prefix x),
      ri_suffix = cross (ri_suffix x) ey True, ri_match = m\<rparr>"
    have "concat_info x y = simplify False ?r"
      using ne by (simp add: concat_info_def Let_def have_set_def elems_of_def m_def)
    moreover have "info_ok ?r {u @ v | u v. u \<in> P \<and> v \<in> Q}"
    proof -
      have "\<exists>s\<in>set (cross (ri_suffix x) ey True). suffix s (u @ v)"
        "\<exists>p\<in>set (ri_prefix x). prefix p (u @ v)" if uv: "u \<in> P" "v \<in> Q" for u v
      proof -
        obtain p s where "v \<in> set ey" "p \<in> set (ri_prefix x)" "prefix p u"
          "s \<in> set (ri_suffix x)" "suffix s u"
          using info_ok_exactD[OF y ne(2) uv(2)] info_ok_edgesD[OF x ne(1) uv(1)] by auto
        then show "\<exists>s\<in>set (cross (ri_suffix x) ey True). suffix s (u @ v)"
          "\<exists>p\<in>set (ri_prefix x). prefix p (u @ v)"
          by (auto intro: bexI[of _ "s @ v"] in_cross) (metis prefix_prefix)
      qed
      then show ?thesis using wfm em by (fastforce simp: info_ok_def)
    qed
    ultimately show ?thesis by (rule simplify_result)
  next
    case nn
    let ?c = "length (ri_suffix x) \<le> maxSet \<and> length (ri_prefix y) \<le> maxSet
                   \<and> minLen (ri_suffix x) + minLen (ri_prefix y) \<ge> 3"
    let ?m = "if ?c then andTrigrams m (cross (ri_suffix x) (ri_prefix y) False) else m"
    let ?r = "\<lparr>ri_canEmpty = False, ri_exact = None,
      ri_prefix = (if ri_canEmpty x then ss_union (ri_prefix x) (ri_prefix y) False else ri_prefix x),
      ri_suffix = (if ri_canEmpty y then ss_union (ri_suffix y) (ri_suffix x) True else ri_suffix y),
      ri_match = ?m\<rparr>"
    have "concat_info x y = simplify False ?r"
      using nn by (simp add: concat_info_def Let_def have_set_def elems_of_def m_def)
    moreover have "info_ok ?r {u @ v | u v. u \<in> P \<and> v \<in> Q}"
    proof -
      have "\<exists>s\<in>set (ri_suffix y). suffix s (u @ v)" "\<exists>p\<in>set (ri_prefix x). prefix p (u @ v)"
        "qeval (\<lambda>t. sublist t (u @ v)) ?m" if uv: "u \<in> P" "v \<in> Q" for u v
      proof -
        obtain p s where p: "p \<in> set (ri_prefix x)" "prefix p u"
          and s: "s \<in> set (ri_suffix y)" "suffix s v"
          using info_ok_edgesD[OF x nn(1) uv(1)] info_ok_edgesD[OF y nn(2) uv(2)] by auto
        then show "\<exists>s\<in>set (ri_suffix y). suffix s (u @ v)" "\<exists>p\<in>set (ri_prefix x). prefix p (u @ v)"
          by (auto intro: suffix_appendI) (metis prefix_prefix)
        obtain p' s' where p': "p' \<in> set (ri_prefix y)" "prefix p' v"
          and s': "s' \<in> set (ri_suffix x)" "suffix s' u"
          using info_ok_edgesD[OF x nn(1) uv(1)] info_ok_edgesD[OF y nn(2) uv(2)] by auto
        have "sublist (s' @ p') (u @ v)" using s'(2) p'(2) by (rule suffix_prefix_sublist)
        then have "qeval (\<lambda>t. sublist t (u @ v)) (andTrigrams m (cross (ri_suffix x) (ri_prefix y) False))"
          using wfm em[OF uv] in_cross[OF s'(1) p'(1)]
          by (intro andTrigrams_sublist[where tt = "s' @ p'"]) (auto intro: sublist_order.order_trans)
        then show "qeval (\<lambda>t. sublist t (u @ v)) ?m" using em[OF uv] by simp
      qed
      then show ?thesis using wfm andTrigrams_wf[OF wfm] by (fastforce simp: info_ok_def)
    qed
    ultimately show ?thesis by (rule simplify_result)
  qed
qed

text \<open>What an analysis gives for \<open>P\<close>; with the flag it has to give something.\<close>

definition gives :: "bool \<Rightarrow> regexpInfo option \<Rightarrow> string set \<Rightarrow> bool" where
  "gives b r P \<longleftrightarrow> (case r of None \<Rightarrow> \<not> b | Some z \<Rightarrow> info_ok z P)"

lemma gives_simps [simp]: "gives b None P \<longleftrightarrow> \<not> b" "gives b (Some z) P \<longleftrightarrow> info_ok z P"
  by (simp_all add: gives_def)

lemma gives_ex: "\<exists>z. r = Some z \<and> info_ok z P \<Longrightarrow> gives b r P"
  by auto

lemma gives_mono: "gives b r P \<Longrightarrow> P' \<subseteq> P \<Longrightarrow> gives b r P'"
  by (cases r) (auto intro: info_ok_mono)

lemma gives_bind:
  "gives b r P \<Longrightarrow> (\<And>z. info_ok z P \<Longrightarrow> gives b (f z) Q) \<Longrightarrow> gives b (Option.bind r f) Q"
  by (cases r) auto

lemma alternate_ok:
  assumes x: "info_ok x P" and y: "info_ok y Q"
    and b: "b \<Longrightarrow> (\<forall>e n. \<not> room e n) \<and> Q \<noteq> {}"
  shows "gives b (alternate room x y) (P \<union> Q)"
proof -
  have m: "wf_query (or_query (ri_match x') (ri_match y'))"
    "\<forall>w\<in>P \<union> Q. qeval (\<lambda>t. sublist t w) (or_query (ri_match x') (ri_match y'))"
    if "x' = x \<or> x' = addExact x" "y' = y \<or> y' = addExact y" for x' y'
  proof -
    have "info_ok x' P" "info_ok y' Q" using that x y addExact_ok by auto
    then show "wf_query (or_query (ri_match x') (ri_match y'))"
      "\<forall>w\<in>P \<union> Q. qeval (\<lambda>t. sublist t w) (or_query (ri_match x') (ri_match y'))"
      by (auto simp: info_ok_def qeval_and_or)
  qed
  have "alternate room x y = None \<and> \<not> b
    \<or> (\<exists>r. alternate room x y = simplify False r \<and> info_ok r (P \<union> Q))"
  proof (cases "ri_exact x"; cases "ri_exact y")
    assume n: "ri_exact x = None" "ri_exact y = None"
    then have "edges_ok P (ri_prefix x) (ri_suffix x)" "edges_ok Q (ri_prefix y) (ri_suffix y)"
      using x y by (simp_all add: info_ok_None)
    note e = edges_ok_union[OF this]
    show ?thesis
      by (simp add: alternate_def Let_def have_set_def elems_of_def n, rule disjI2, rule exI, rule conjI, rule refl)
        (use m[of x y] e in \<open>simp add: info_ok_None\<close>)
  next
    fix ey assume n: "ri_exact x = None" "ri_exact y = Some ey"
    then have "edges_ok P (ri_prefix x) (ri_suffix x)" using x by (simp add: info_ok_None)
    note e = edges_ok_union[OF this edges_ok_exact[OF y n(2)]]
    show ?thesis
      by (simp add: alternate_def Let_def have_set_def elems_of_def n, rule disjI2, rule exI, rule conjI, rule refl)
        (use m[of x "addExact y"] e in \<open>simp add: info_ok_None\<close>)
  next
    fix ex assume n: "ri_exact x = Some ex" "ri_exact y = None"
    then have eq: "edges_ok Q (ri_prefix y) (ri_suffix y)" using y by (simp add: info_ok_None)
    note e = edges_ok_union[OF edges_ok_exact[OF x n(1)] this]
    show ?thesis
    proof (cases "stays_in_place room ex (ri_prefix y) \<or> stays_in_place room ex (ri_suffix y)")
      case True
      then have "\<not> b" using b eq by (auto simp: stays_in_place_def edges_ok_def)
      with True n show ?thesis by (simp add: alternate_def Let_def have_set_def elems_of_def)
    next
      case False
      show ?thesis
        by (simp add: alternate_def Let_def have_set_def elems_of_def n False, rule disjI2, rule exI, rule conjI, rule refl)
          (use m[of "addExact x" y] e in \<open>simp add: info_ok_None\<close>)
    qed
  next
    fix ex ey assume n: "ri_exact x = Some ex" "ri_exact y = Some ey"
    then have e: "P \<subseteq> set ex" "Q \<subseteq> set ey" using x y by (simp_all add: info_ok_def)
    show ?thesis
      by (simp add: alternate_def Let_def have_set_def elems_of_def n, rule disjI2, rule exI, rule conjI, rule refl)
        (use m[of x y] e in \<open>auto simp: info_ok_def\<close>)
  qed
  then show ?thesis using simplify_result by (metis gives_simps)
qed

subsection \<open>analyze\<close>

text \<open>What the parser guarantees: a class is a list of pairs (or one rune), the least number of
  repetitions is not negative.\<close>

fun wf_regexp :: "regexp \<Rightarrow> bool" where
  "wf_regexp (OpCharClass rs) = (even (length rs) \<or> length rs = 1)"
| "wf_regexp (OpCapture re) = wf_regexp re"
| "wf_regexp (OpStar re) = wf_regexp re"
| "wf_regexp (OpPlus re) = wf_regexp re"
| "wf_regexp (OpQuest re) = wf_regexp re"
| "wf_regexp (OpRepeat mn mx re) = (0 \<le> mn \<and> wf_regexp re)"
| "wf_regexp (OpConcat res) = list_all wf_regexp res"
| "wf_regexp (OpAlternate res) = list_all wf_regexp res"
| "wf_regexp _ = True"

lemma const_infos_ok:
  "info_ok anyMatch P" "info_ok anyChar P" "info_ok noMatch {}" "info_ok emptyString {[]}"
  by (simp_all add: info_ok_def anyMatch_def anyChar_def noMatch_def emptyString_def allQuery_def
      noneQuery_def)

lemma exact_info_ok: "P \<subseteq> set e \<Longrightarrow> info_ok (exact_info e) P"
  by (simp add: info_ok_def exact_info_def allQuery_def)

lemma class_pairs_runes:
  "even (length rs) \<Longrightarrow> \<exists>ps. class_pairs rs = Some ps \<and> class_runes rs = (\<Union>(lo, hi)\<in>set ps. {lo..hi})"
  by (induction rs rule: class_pairs.induct) auto

lemma class_strings_set: "set (class_strings ps) = encode_rune ` (\<Union>(lo, hi)\<in>set ps. {lo..hi})"
  by (auto simp: class_strings_def)

lemma analyze_class_ok:
  assumes "even (length rs) \<or> length rs = 1"
  shows "\<exists>z. analyze_class rs = Some z \<and> info_ok z (encode_rune ` class_runes rs)"
proof -
  consider "rs = []" | x where "rs = [x]" | "rs \<noteq> []" "length rs \<noteq> 1" "even (length rs)"
    using assms by (cases rs) (auto simp: length_Suc_conv)
  then show ?thesis
  proof cases
    case 1
    then show ?thesis by (simp add: analyze_class_def const_infos_ok)
  next
    case 2
    have "info_ok (exact_info [encode_rune x]) {encode_rune x}" by (rule exact_info_ok) simp
    then show ?thesis using 2 simplify_ok by (simp add: analyze_class_def)
  next
    case 3
    then obtain ps where ps: "class_pairs rs = Some ps"
      "class_runes rs = (\<Union>(lo, hi)\<in>set ps. {lo..hi})"
      using class_pairs_runes by blast
    have "info_ok (exact_info (class_strings ps)) (encode_rune ` class_runes rs)"
      by (rule exact_info_ok) (simp add: class_strings_set ps)
    then show ?thesis using 3 ps simplify_ok const_infos_ok by (simp add: analyze_class_def)
  qed
qed

subsubsection \<open>Case folding\<close>

lemma fold_loop_from:
  assumes n: "(sf ^^ n) r0 = r0" and min: "\<And>j. 0 < j \<Longrightarrow> j < n \<Longrightarrow> (sf ^^ j) r0 \<noteq> r0"
  shows "0 < k \<Longrightarrow> k \<le> n \<Longrightarrow> fold_loop sf r0 ((sf ^^ k) r0) acc
     = Some (acc @ concat (map (\<lambda>j. [(sf ^^ j) r0, (sf ^^ j) r0]) [k..<n]))"
proof (induction "n - k" arbitrary: k acc)
  case 0
  then show ?case using n by (subst fold_loop.simps) simp
next
  case (Suc d)
  then have ne: "(sf ^^ k) r0 \<noteq> r0" using min[of k] by simp
  have "fold_loop sf r0 ((sf ^^ k) r0) acc
      = fold_loop sf r0 ((sf ^^ Suc k) r0) (acc @ [(sf ^^ k) r0, (sf ^^ k) r0])"
    using ne by (subst fold_loop.simps) simp
  also have "\<dots> = Some ((acc @ [(sf ^^ k) r0, (sf ^^ k) r0])
      @ concat (map (\<lambda>j. [(sf ^^ j) r0, (sf ^^ j) r0]) [Suc k..<n]))"
    using Suc by (intro Suc.hyps(1)) auto
  finally show ?case using Suc by (simp add: upt_conv_Cons)
qed

lemma class_runes_pairs: "class_runes (concat (map (\<lambda>x. [f x, f x]) xs)) = f ` set xs"
  by (induction xs) auto

lemma even_pairs: "even (length (concat (map (\<lambda>x. [f x, f x]) xs)))"
  by (induction xs) auto

lemma fold_loop_orbit:
  assumes "fold_cyclic sf"
  shows "\<exists>rs. fold_loop sf r0 (sf r0) [r0, r0] = Some rs \<and> even (length rs)
    \<and> fold_orbit sf r0 \<subseteq> class_runes rs"
proof -
  define n where "n = (LEAST n. 0 < n \<and> (sf ^^ n) r0 = r0)"
  have ex: "\<exists>n. 0 < n \<and> (sf ^^ n) r0 = r0" using assms by (auto simp: fold_cyclic_def)
  have n: "0 < n" "(sf ^^ n) r0 = r0" using LeastI_ex[OF ex] by (auto simp: n_def)
  have min: "(sf ^^ j) r0 \<noteq> r0" if "0 < j" "j < n" for j
    using not_less_Least[of j "\<lambda>n. 0 < n \<and> (sf ^^ n) r0 = r0"] that by (auto simp: n_def)
  let ?rs = "concat (map (\<lambda>j. [(sf ^^ j) r0, (sf ^^ j) r0]) [0..<n])"
  have "[0..<n] = 0 # [1..<n]" using n(1) by (simp add: upt_conv_Cons)
  then have "fold_loop sf r0 (sf r0) [r0, r0] = Some ?rs"
    using fold_loop_from[OF n(2) min, of 1 "[r0, r0]"] n(1) by simp
  moreover have "fold_orbit sf r0 \<subseteq> class_runes ?rs"
  proof
    fix y assume "y \<in> fold_orbit sf r0"
    then obtain m where "y = (sf ^^ m) r0" by (auto simp: fold_orbit_def)
    then have "y = (sf ^^ (m mod n)) r0" using funpow_mod_eq[OF n(2)] by simp
    moreover have "m mod n < n" using n(1) by simp
    ultimately show "y \<in> class_runes ?rs" unfolding class_runes_pairs by auto
  qed
  moreover have "even (length ?rs)" by (rule even_pairs)
  ultimately show ?thesis by blast
qed

lemma analyze_fold1_ok:
  assumes "fold_cyclic sf"
  shows "\<exists>z. analyze_fold1 sf r = Some z \<and> info_ok z (encode_rune ` fold_orbit sf r)"
proof -
  obtain rs where rs: "fold_loop sf r (sf r) [r, r] = Some rs" "even (length rs)"
    "fold_orbit sf r \<subseteq> class_runes rs"
    using fold_loop_orbit[OF assms] by blast
  obtain z where "analyze_class rs = Some z" "info_ok z (encode_rune ` class_runes rs)"
    using analyze_class_ok rs(2) by blast
  with rs show ?thesis
    by (auto simp: analyze_fold1_def intro: info_ok_mono)
qed

lemma fold_letters_ok:
  assumes "fold_cyclic sf" and "info_ok i P"
  shows "\<exists>z. foldl (\<lambda>acc r. do { info \<leftarrow> acc; y \<leftarrow> analyze_fold1 sf r; concat_info info y }) (Some i) rs
      = Some z
    \<and> info_ok z {u @ encode_runes rs' | u rs'. u \<in> P \<and> list_all2 (\<lambda>x y. y \<in> fold_orbit sf x) rs rs'}"
  using assms(2)
proof (induction rs arbitrary: i P)
  case Nil
  then show ?case by (simp add: encode_runes_def)
next
  case (Cons r rs)
  obtain y where y: "analyze_fold1 sf r = Some y" "info_ok y (encode_rune ` fold_orbit sf r)"
    using analyze_fold1_ok[OF assms(1)] by blast
  let ?P = "{u @ v |u v. u \<in> P \<and> v \<in> encode_rune ` fold_orbit sf r}"
  obtain j where j: "concat_info i y = Some j" "info_ok j ?P"
    using concat_info_ok[OF Cons.prems y(2)] by blast
  have "{u @ encode_runes rs' | u rs'. u \<in> P \<and> list_all2 (\<lambda>x y. y \<in> fold_orbit sf x) (r # rs) rs'}
    \<subseteq> {u @ encode_runes rs' | u rs'. u \<in> ?P \<and> list_all2 (\<lambda>x y. y \<in> fold_orbit sf x) rs rs'}"
    by (auto simp: list_all2_Cons1 encode_runes_def) (metis append.assoc imageI)
  then show ?case using Cons.IH[OF j(2)] y(1) j(1) by (auto intro: info_ok_mono)
qed

lemma analyze_literal_ok:
  assumes "fold_cyclic sf"
  shows "\<exists>z. analyze_literal sf fc rs = Some z
    \<and> info_ok z {encode_runes rs' | rs'. list_all2 (\<lambda>x y. y \<in> literal_runes sf fc x) rs rs'}"
proof (cases fc)
  case False
  have "(\<lambda>x y. y \<in> literal_runes sf fc x) = (=)"
    using False by (auto simp: literal_runes_def fun_eq_iff)
  then have "{encode_runes rs' | rs'. list_all2 (\<lambda>x y. y \<in> literal_runes sf fc x) rs rs'} = {encode_runes rs}"
    by (simp add: list.rel_eq)
  moreover have "info_ok (exact_info [encode_runes rs]) {encode_runes rs}" by (rule exact_info_ok) simp
  ultimately show ?thesis using False simplify_ok by (simp add: analyze_literal_def)
next
  case True
  have lr: "literal_runes sf fc = fold_orbit sf" using True by (simp add: literal_runes_def fun_eq_iff)
  consider "rs = []" | r where "rs = [r]" | r r' rs' where "rs = r # r' # rs'"
    by (cases rs; cases "tl rs") auto
  then show ?thesis
  proof cases
    case 1
    then show ?thesis using True by (simp add: analyze_literal_def const_infos_ok encode_runes_def)
  next
    case 2
    then have "{encode_runes rs' | rs'. list_all2 (\<lambda>x y. y \<in> literal_runes sf fc x) rs rs'}
       \<subseteq> encode_rune ` fold_orbit sf r"
      by (auto simp: lr list_all2_Cons1 encode_runes_def)
    then show ?thesis using 2 True analyze_fold1_ok[OF assms, of r]
      by (auto simp: analyze_literal_def intro: info_ok_mono)
  next
    case 3
    have "{encode_runes rs' | rs'. list_all2 (\<lambda>x y. y \<in> literal_runes sf fc x) rs rs'}
       = {u @ encode_runes rs' | u rs'. u \<in> {[]} \<and> list_all2 (\<lambda>x y. y \<in> fold_orbit sf x) rs rs'}"
      by (simp add: lr)
    then show ?thesis using 3 True fold_letters_ok[OF assms const_infos_ok(4), of rs]
      by (simp add: analyze_literal_def)
  qed
qed

subsubsection \<open>Repetition, concatenation, alternation\<close>

lemma plus_info_ok:
  assumes "info_ok i P"
  shows "\<exists>z. plus_info i = Some z \<and> info_ok z {concat us | us. us \<noteq> [] \<and> set us \<subseteq> P}"
proof -
  define j where "j = (case ri_exact i of None \<Rightarrow> i
        | Some e \<Rightarrow> i\<lparr>ri_prefix := e, ri_suffix := e, ri_exact := None\<rparr>)"
  have j: "info_ok j P" "ri_exact j = None"
    using assms edges_ok_exact[OF assms] by (auto simp: j_def info_ok_def edges_ok_def split: option.splits)
  have "info_ok j {concat us | us. us \<noteq> [] \<and> set us \<subseteq> P}"
    unfolding info_ok_None[OF j(2)] edges_ok_def
  proof (intro conjI ballI)
    show "wf_query (ri_match j)" using j by (simp add: info_ok_def)
  next
    fix w assume "w \<in> {concat us | us. us \<noteq> [] \<and> set us \<subseteq> P}"
    then obtain us where us: "us \<noteq> []" "set us \<subseteq> P" "w = concat us" by auto
    have h: "hd us \<in> P" "last us \<in> P" using us by auto
    have pre: "prefix (hd us) w" using us by (cases us) auto
    have suf: "suffix (last us) w" using us by (cases us rule: rev_cases) (auto simp: suffix_def)
    show "qeval (\<lambda>t. sublist t w) (ri_match j)"
      using j(1) h(1) pre by (auto simp: info_ok_def intro: qeval_sublist_mono)
    show "\<exists>p\<in>set (ri_prefix j). prefix p w"
      using info_ok_edgesD[OF j h(1)] pre by (meson prefix_order.order_trans)
    show "\<exists>s\<in>set (ri_suffix j). suffix s w"
      using info_ok_edgesD[OF j h(2)] suf by (meson suffix_order.order_trans)
  qed
  then show ?thesis using simplify_ok by (simp add: plus_info_def flip: j_def)
qed

lemma concat_fold_ok:
  assumes "list_all2 (gives b) os Ps" and "info_ok i P"
  shows "gives b (foldl (\<lambda>acc y. do { info \<leftarrow> acc; y' \<leftarrow> y; concat_info info y' }) (Some i) os)
    {u @ concat us | u us. u \<in> P \<and> list_all2 (\<in>) us Ps}"
  using assms
proof (induction os Ps arbitrary: i P rule: list_all2_induct)
  case Nil
  then show ?case by simp
next
  case (Cons y os Q Ps)
  show ?case
  proof (cases y)
    case None
    have "foldl (\<lambda>acc y. do { info \<leftarrow> acc; y' \<leftarrow> y; concat_info info y' }) None os = None" for os
      by (induction os) simp_all
    with None Cons.hyps(1) show ?thesis by simp
  next
    case (Some y')
    then obtain j where j: "concat_info i y' = Some j" "info_ok j {u @ v | u v. u \<in> P \<and> v \<in> Q}"
      using concat_info_ok[OF Cons.prems, of y' Q] Cons.hyps(1) by auto
    have "{u @ concat us | u us. u \<in> P \<and> list_all2 (\<in>) us (Q # Ps)}
      \<subseteq> {u @ concat us | u us. u \<in> {u @ v | u v. u \<in> P \<and> v \<in> Q} \<and> list_all2 (\<in>) us Ps}"
      by (auto simp: list_all2_Cons2) (metis append.assoc)
    then show ?thesis using Cons.IH[OF j(2)] Some j(1) by (auto intro: gives_mono)
  qed
qed

lemma alternate_fold_ok:
  assumes "list_all2 (gives b) os Ps" and "info_ok i P"
    and "b \<Longrightarrow> (\<forall>e n. \<not> room e n) \<and> {} \<notin> set Ps"
  shows "gives b (foldl (\<lambda>acc y. do { info \<leftarrow> acc; y' \<leftarrow> y; alternate room info y' }) (Some i) os)
    (P \<union> \<Union>(set Ps))"
  using assms
proof (induction os Ps arbitrary: i P rule: list_all2_induct)
  case Nil
  then show ?case by simp
next
  case (Cons y os Q Ps)
  let ?f = "\<lambda>acc y. do { info \<leftarrow> acc; y' \<leftarrow> y; alternate room info y' }"
  have none: "foldl ?f None os = None" for os by (induction os) simp_all
  show ?case
  proof (cases "Option.bind y (alternate room i)")
    case None
    have "gives b (Option.bind y (alternate room i)) (P \<union> Q)"
      using Cons.hyps(1) by (rule gives_bind) (rule alternate_ok, use Cons.prems in auto)
    with None none show ?thesis by simp
  next
    case (Some j)
    then obtain y' where y': "y = Some y'" "alternate room i y' = Some j" by (auto simp: bind_eq_Some_conv)
    have "info_ok j (P \<union> Q)"
      using alternate_ok[OF Cons.prems(1), of y' Q b room] Cons.hyps(1) Cons.prems(2) y'
      by (cases "Q = {}") auto
    from Cons.IH[OF this] Cons.prems(2) y' show ?thesis by (simp add: Un_assoc)
  qed
qed

lemma fold_info_concat_ok:
  assumes "list_all2 (gives b) os Ps"
  shows "gives b (fold_info concat_info os emptyString) {concat us | us. list_all2 (\<in>) us Ps}"
proof (cases os)
  case Nil
  with assms show ?thesis by (simp add: const_infos_ok)
next
  case (Cons y os')
  then obtain Q Ps' where *: "gives b y Q" "Ps = Q # Ps'" "list_all2 (gives b) os' Ps'"
    using assms by (auto simp: list_all2_Cons1)
  have P: "{concat us | us. list_all2 (\<in>) us Ps} = {u @ concat us | u us. u \<in> Q \<and> list_all2 (\<in>) us Ps'}"
    unfolding *(2) list_all2_Cons2 by (auto intro: exI[of _ "_ # _"]) (metis concat.simps(2))
  show ?thesis
  proof (cases y)
    case None
    have "foldl (\<lambda>acc y. do { info \<leftarrow> acc; y' \<leftarrow> y; concat_info info y' }) None os' = None"
      by (induction os') simp_all
    with None Cons *(1) show ?thesis by simp
  next
    case (Some z)
    then show ?thesis using concat_fold_ok[OF *(3)] *(1) Cons P by simp
  qed
qed

lemma fold_info_alternate_ok:
  assumes "list_all2 (gives b) os Ps" and "b \<Longrightarrow> (\<forall>e n. \<not> room e n) \<and> {} \<notin> set Ps"
  shows "gives b (fold_info (alternate room) os noMatch) (\<Union>(set Ps))"
proof (cases os)
  case Nil
  with assms show ?thesis by (simp add: const_infos_ok)
next
  case (Cons y os')
  then obtain Q Ps' where *: "gives b y Q" "Ps = Q # Ps'" "list_all2 (gives b) os' Ps'"
    using assms by (auto simp: list_all2_Cons1)
  show ?thesis
  proof (cases y)
    case None
    have "foldl (\<lambda>acc y. do { info \<leftarrow> acc; y' \<leftarrow> y; alternate room info y' }) None os' = None"
      by (induction os') simp_all
    with None Cons *(1) show ?thesis by simp
  next
    case (Some z)
    then show ?thesis using alternate_fold_ok[OF *(3), of z Q room] *(1,2) assms(2) Cons by simp
  qed
qed

subsubsection \<open>The strings of an expression\<close>

text \<open>The analysis does not look at contexts: it knows the strings an expression can match when
  assertions are ignored and stars match anything.\<close>

fun words :: "(rune \<Rightarrow> rune) \<Rightarrow> regexp \<Rightarrow> string set" where
  "words sf OpNoMatch = {}"
| "words sf (OpLiteral fc rs) = {encode_runes rs' | rs'. list_all2 (\<lambda>x y. y \<in> literal_runes sf fc x) rs rs'}"
| "words sf (OpCharClass rs) = encode_rune ` class_runes rs"
| "words sf OpAnyCharNotNL = UNIV"
| "words sf OpAnyChar = UNIV"
| "words sf (OpCapture re) = words sf re"
| "words sf (OpStar re) = UNIV"
| "words sf (OpPlus re) = {concat us | us. us \<noteq> [] \<and> set us \<subseteq> words sf re}"
| "words sf (OpQuest re) = words sf re \<union> {[]}"
| "words sf (OpRepeat mn mx re) =
     (if mn = 0 then UNIV else {concat us | us. us \<noteq> [] \<and> set us \<subseteq> words sf re})"
| "words sf (OpConcat res) = {concat us | us. list_all2 (\<in>) us (map (words sf) res)}"
| "words sf (OpAlternate res) = \<Union>(set (map (words sf) res))"
| "words sf _ = {[]}"

lemma rmatches_words:
  "rmatches sf res l w r \<Longrightarrow> \<exists>us. list_all2 (\<in>) us (map (lang sf) res) \<and> w = concat us"
proof (induction res arbitrary: l w)
  case Nil
  then show ?case by simp
next
  case (Cons re res)
  then obtain u v where "w = u @ v" "rmatch sf re l u (v @ r)" "rmatches sf res (l @ u) v r"
    by (auto simp: rmatches_cons_iff)
  moreover from this obtain us where "list_all2 (\<in>) us (map (lang sf) res)" "v = concat us"
    using Cons.IH by blast
  moreover have "u \<in> lang sf re" using \<open>rmatch sf re l u (v @ r)\<close> by (auto simp: lang_def)
  ultimately show ?case by (intro exI[of _ "u # us"]) auto
qed

lemma rmatches_replicate_words:
  "rmatches sf (replicate n re) l w r \<Longrightarrow> \<exists>us. length us = n \<and> set us \<subseteq> lang sf re \<and> w = concat us"
  using rmatches_words[of sf "replicate n re" l w r]
  by (auto simp: list_all2_conv_all_nth in_set_conv_nth) (metis in_set_conv_nth subsetI)

lemma plus_words:
  "rmatches sf (replicate n re) l w r \<Longrightarrow> 0 < n \<Longrightarrow>
     w \<in> {concat us | us. us \<noteq> [] \<and> set us \<subseteq> lang sf re}"
  using rmatches_replicate_words[of sf n re l w r] by auto

lemma rmatch_words:
  "wf_regexp re \<Longrightarrow> lang sf re \<subseteq> words sf re"
proof (induction re)
  case (OpPlus re)
  show ?case
  proof
    fix w assume "w \<in> lang sf (OpPlus re)"
    then obtain l r n where "rmatches sf (replicate (Suc n) re) l w r"
      by (auto simp: lang_def elim!: rmatch_loops)
    then have "w \<in> {concat us | us. us \<noteq> [] \<and> set us \<subseteq> lang sf re}" by (rule plus_words) simp
    with OpPlus show "w \<in> words sf (OpPlus re)" by (force intro: order_trans)
  qed
next
  case (OpQuest re)
  show ?case
  proof
    fix w assume "w \<in> lang sf (OpQuest re)"
    then obtain n us where "n \<le> 1" "length us = n" "set us \<subseteq> lang sf re" "w = concat us"
      by (auto simp: lang_def elim!: rmatch_loops dest!: rmatches_replicate_words)
    with OpQuest show "w \<in> words sf (OpQuest re)" by (cases us) auto
  qed
next
  case (OpRepeat mn mx re)
  show ?case
  proof
    fix w assume "w \<in> lang sf (OpRepeat mn mx re)"
    then obtain l r n where n: "mn \<le> int n" "rmatches sf (replicate n re) l w r"
      by (auto simp: lang_def elim!: rmatch_loops)
    show "w \<in> words sf (OpRepeat mn mx re)"
    proof (cases "mn = 0")
      case False
      then have "0 < n" using OpRepeat.prems n(1) by simp
      with n(2) have "w \<in> {concat us | us. us \<noteq> [] \<and> set us \<subseteq> lang sf re}" by (intro plus_words)
      with False OpRepeat show ?thesis by (force intro: order_trans)
    qed simp
  qed
next
  case (OpConcat res)
  have sub: "lang sf re \<subseteq> words sf re" if "re \<in> set res" for re
    using OpConcat that by (simp add: list_all_iff)
  have "list_all2 (\<in>) us (map (words sf) res)" if "list_all2 (\<in>) us (map (lang sf) res)" for us
    using that unfolding list.rel_map
    by (rule list.rel_mono_strong) (use sub in blast)
  then show ?case by (auto simp: lang_def rmatch_concat_iff dest!: rmatches_words)
next
  case (OpAlternate res)
  then have sub: "lang sf re \<subseteq> words sf re" if "re \<in> set res" for re
    using that by (simp add: list_all_iff)
  then show ?case unfolding lang_def words.simps rmatch_alternate_iff by fastforce
qed (auto simp: lang_def)

text \<open>Expressions with no void part.\<close>

fun nonvoid :: "regexp \<Rightarrow> bool" where
  "nonvoid OpNoMatch = False"
| "nonvoid (OpCharClass rs) = (\<exists>x \<in> set rs. x \<in> class_runes rs)"
| "nonvoid (OpCapture re) = nonvoid re"
| "nonvoid (OpStar re) = nonvoid re"
| "nonvoid (OpPlus re) = nonvoid re"
| "nonvoid (OpQuest re) = nonvoid re"
| "nonvoid (OpRepeat mn mx re) = nonvoid re"
| "nonvoid (OpConcat res) = list_all nonvoid res"
| "nonvoid (OpAlternate res) = (res \<noteq> [] \<and> list_all nonvoid res)"
| "nonvoid _ = True"

lemma fold_orbit_self: "x \<in> fold_orbit sf x"
  unfolding fold_orbit_def by (metis (mono_tags, lifting) funpow_0 mem_Collect_eq)

lemma plus_nonempty: "u \<in> W \<Longrightarrow> {concat us | us. us \<noteq> [] \<and> set us \<subseteq> W} \<noteq> {}"
  by (auto intro!: exI[of _ "[u]"])

lemma nonvoid_words: "nonvoid re \<Longrightarrow> words sf re \<noteq> {}"
proof (induction re)
  case (OpLiteral fc rs)
  have "list_all2 (\<lambda>x y. y \<in> literal_runes sf fc x) rs rs"
    by (simp add: list_all2_same literal_runes_def fold_orbit_self)
  then show ?case by auto
next
  case (OpConcat res)
  then have "\<exists>us. list_all2 (\<in>) us (map (words sf) res)"
  proof (induction res)
    case (Cons re res)
    then obtain us where "list_all2 (\<in>) us (map (words sf) res)" by auto
    moreover obtain u where "u \<in> words sf re" using Cons by fastforce
    ultimately show ?case by (intro exI[of _ "u # us"]) simp
  qed simp
  then show ?case by simp
next
  case (OpAlternate res)
  then show ?case by (cases res) auto
next
  case (OpPlus re)
  then obtain u where "u \<in> words sf re" by auto
  from plus_nonempty[OF this] show ?case by simp
next
  case (OpRepeat mn mx re)
  then obtain u where "u \<in> words sf re" by auto
  from plus_nonempty[OF this] show ?case by simp
qed auto

lemma analyze_ok:
  assumes sf: "fold_cyclic sf"
  shows "wf_regexp re \<Longrightarrow> (b \<Longrightarrow> (\<forall>e n. \<not> room e n) \<and> nonvoid re) \<Longrightarrow>
    gives b (analyze room sf re) (words sf re)"
proof (induction re)
  case (OpLiteral fc rs)
  show ?case using analyze_literal_ok[OF sf, of fc rs] by (simp add: gives_ex)
next
  case (OpCharClass rs)
  then show ?case using analyze_class_ok[of rs] by (simp add: gives_ex)
next
  case (OpPlus re)
  then have "gives b (analyze room sf re) (words sf re)" by simp
  then have "gives b (Option.bind (analyze room sf re) plus_info) (words sf (OpPlus re))"
    by (rule gives_bind) (use plus_info_ok in \<open>simp add: gives_ex\<close>)
  then show ?case by simp
next
  case (OpQuest re)
  then have "gives b (analyze room sf re) (words sf re)" by simp
  then have "gives b (Option.bind (analyze room sf re) (\<lambda>x. alternate room x emptyString)) (words sf (OpQuest re))"
  proof (rule gives_bind)
    fix z assume "info_ok z (words sf re)"
    from alternate_ok[OF this const_infos_ok(4), of b room] OpQuest.prems(2)
    show "gives b (alternate room z emptyString) (words sf (OpQuest re))" by simp
  qed
  then show ?case by simp
next
  case (OpRepeat mn mx re)
  show ?case
  proof (cases "mn = 0")
    case True
    then show ?thesis by (simp add: const_infos_ok)
  next
    case False
    from OpRepeat have "gives b (analyze room sf re) (words sf re)" by simp
    then have "gives b (Option.bind (analyze room sf re) plus_info) (words sf (OpPlus re))"
      by (rule gives_bind) (use plus_info_ok in \<open>simp add: gives_ex\<close>)
    with False show ?thesis by simp
  qed
next
  case (OpConcat res)
  have "list_all2 (gives b) (map (analyze room sf) res) (map (words sf) res)"
    using OpConcat by (auto simp: list_all2_conv_all_nth list_all_iff)
  from fold_info_concat_ok[OF this] show ?case by simp
next
  case (OpAlternate res)
  have "list_all2 (gives b) (map (analyze room sf) res) (map (words sf) res)"
    using OpAlternate by (auto simp: list_all2_conv_all_nth list_all_iff)
  moreover have "b \<Longrightarrow> (\<forall>e n. \<not> room e n) \<and> {} \<notin> set (map (words sf) res)"
    using OpAlternate.prems(2) nonvoid_words[of _ sf] by (fastforce simp: list_all_iff)
  ultimately show ?case using fold_info_alternate_ok[of b _ "map (words sf) res" room] by simp
qed (auto simp: const_infos_ok)

lemma RegexpQuery_lang:
  assumes sf: "fold_cyclic sf" and wf: "wf_regexp re"
  shows "RegexpQuery room sf re = Some q \<Longrightarrow>
      wf_query q \<and> (\<forall>w\<in>lang sf re. qeval (\<lambda>t. sublist t w) q)"
    and "\<forall>e n. \<not> room e n \<Longrightarrow> nonvoid re \<Longrightarrow> \<exists>q. RegexpQuery room sf re = Some q"
proof -
  have g: "gives b (Option.bind (analyze room sf re) (simplify True)) (lang sf re)"
    if "b \<Longrightarrow> (\<forall>e n. \<not> room e n) \<and> nonvoid re" for b
  proof (rule gives_bind)
    show "gives b (analyze room sf re) (words sf re)" by (rule analyze_ok[OF sf wf that])
    show "gives b (simplify True z) (lang sf re)" if z: "info_ok z (words sf re)" for z
      using simplify_ok[OF info_ok_mono[OF z rmatch_words[OF wf]]] by (simp add: gives_ex)
  qed
  have eq: "RegexpQuery room sf re = map_option (\<lambda>z. ri_match (addExact z))
      (Option.bind (analyze room sf re) (simplify True))"
    unfolding RegexpQuery_def by (cases "analyze room sf re") (simp_all add: map_conv_bind_option comp_def)
  show "wf_query q \<and> (\<forall>w\<in>lang sf re. qeval (\<lambda>t. sublist t w) q)" if "RegexpQuery room sf re = Some q"
  proof -
    obtain z where z: "Option.bind (analyze room sf re) (simplify True) = Some z" "q = ri_match (addExact z)"
      using \<open>RegexpQuery room sf re = Some q\<close> unfolding eq by blast
    then have "info_ok z (lang sf re)" using g[of False] by simp
    then have "info_ok (addExact z) (lang sf re)" by (rule addExact_ok)
    with z(2) show ?thesis by (simp add: info_ok_def)
  qed
  show "\<exists>q. RegexpQuery room sf re = Some q" if "\<forall>e n. \<not> room e n" "nonvoid re"
    using g[of True] that unfolding eq by (cases "Option.bind (analyze room sf re) (simplify True)") auto
qed



lemma fold_cyclic_id: "fold_cyclic id"
  by (auto simp: fold_cyclic_def)

text \<open>\<^verbatim>\<open>abc.*def\<close> in the text \<^verbatim>\<open>xabcdef\<close>.\<close>

definition abc_def :: regexp where
  "abc_def = OpConcat [OpLiteral False [97, 98, 99], OpStar OpAnyChar, OpLiteral False [100, 101, 102]]"

lemma abc_def_query:
  "RegexpQuery (\<lambda>e n. False) id abc_def = Some (Query QAnd [''abc'', ''def''] [])"
  by code_simp

lemma rmatch_literal: "rmatch sf (OpLiteral False rs) l (encode_runes rs) r"
  by (rule m_literal) (simp add: literal_runes_def list.rel_refl)

lemma abc_def_match: "rmatch id abc_def ''x'' ''abcdef'' []"
proof -
  have a: "encode_runes [97, 98, 99] = ''abc''" "encode_runes [100, 101, 102] = ''def''" by code_simp+
  have "rmatches id (replicate 0 OpAnyChar) (''x'' @ ''abc'') [] (''def'' @ [])"
    by (simp add: ms_nil)
  then have s: "rmatch id (OpStar OpAnyChar) (''x'' @ ''abc'') [] (''def'' @ [])" by (rule m_star)
  have "rmatches id [OpLiteral False [100, 101, 102]] ((''x'' @ ''abc'') @ []) (''def'' @ []) []"
    using rmatch_literal[of id "[100, 101, 102]"] by (intro ms_cons ms_nil) (simp add: a)
  with s have "rmatches id [OpStar OpAnyChar, OpLiteral False [100, 101, 102]] (''x'' @ ''abc'') ([] @ ''def'' @ []) []"
    by (intro ms_cons[of id "OpStar OpAnyChar"]) simp_all
  then have "rmatches id [OpLiteral False [97, 98, 99], OpStar OpAnyChar, OpLiteral False [100, 101, 102]]
      ''x'' (''abc'' @ ([] @ ''def'' @ [])) []"
    using rmatch_literal[of id "[97, 98, 99]"]
    by (intro ms_cons[of id "OpLiteral False [97, 98, 99]"]) (simp_all add: a)
  then show ?thesis unfolding abc_def_def by (intro m_concat) simp
qed



end
