(* ===== verification/End_To_End.thy ===== *)
theory End_To_End
  imports Index_Query Index_Write_Correct Regexp_Sound
begin

text \<open>
  The pipeline of \<^verbatim>\<open>cmd/cindex\<close> and \<^verbatim>\<open>cmd/csearch\<close>: files are added to a writer and flushed, the
  index is opened, the query of a regular expression is evaluated. No file with a match is missed.
\<close>

text \<open>The core of \<^verbatim>\<open>cindex\<close>: \<open>Create\<close>, \<open>AddPaths\<close>, \<open>Add\<close> for every file of the walk, \<open>Flush\<close>.\<close>

definition build_index :: "string list \<Rightarrow> (string \<times> reader) list \<Rightarrow> byte list result" where
  "build_index paths files =
     bindR (foldR (\<lambda>ix (name, r). Add_file ix name r) (AddPaths Create paths) files) (\<lambda>ix.
     bindR (Flush ix) (\<lambda>ix. Inr (bw_file (iw_main ix))))"

text \<open>The documents of the files: those that are indexed.\<close>

definition file_docs :: "(string \<times> reader) list \<Rightarrow> doc list" where
  "file_docs files = concat (map (\<lambda>(name, r). case delivers r of None \<Rightarrow> []
     | Some w \<Rightarrow> if indexed w then [doc_of name w] else []) files)"

lemma add_files_hold:
  "holds ix docs \<Longrightarrow> \<forall>(name, r) \<in> set files. delivers r \<noteq> None \<Longrightarrow>
   foldR (\<lambda>ix (name, r). Add_file ix name r) ix files = Inr ix' \<Longrightarrow>
     holds ix' (docs @ file_docs files) \<and> iw_paths ix' = iw_paths ix"
proof (induction files arbitrary: ix docs)
  case Nil
  then show ?case by (simp add: file_docs_def)
next
  case (Cons f files)
  obtain name r where f: "f = (name, r)" by fastforce
  obtain w where w: "delivers r = Some w" using Cons.prems(2) f by auto
  obtain ix1 where s: "Add_file ix name r = Inr ix1"
    "foldR (\<lambda>ix (name, r). Add_file ix name r) ix1 files = Inr ix'"
    using Cons.prems(3) f by (auto simp: bindR_Inr)
  have h: "holds ix1 (docs @ file_docs [f]) \<and> iw_paths ix1 = iw_paths ix"
  proof (cases "indexed w")
    case False
    then show ?thesis using Add_file_holds(1)[OF Cons.prems(1) w, of name] s(1) f w
      by (auto simp: file_docs_def)
  next
    case True
    then have "CHR 0x00 \<notin> set name" "length (names_section (map fst docs)) < 2 ^ 32"
      using Add_file_holds(3)[OF Cons.prems(1) w True, of name] s(1) by (force simp: not_le)+
    from Add_file_holds(2)[OF Cons.prems(1) w True this] show ?thesis
      using s(1) f w True by (auto simp: file_docs_def)
  qed
  have "docs @ file_docs (f # files) = (docs @ file_docs [f]) @ file_docs files"
    by (simp add: file_docs_def)
  then show ?case using Cons.IH[of ix1 "docs @ file_docs [f]"] h Cons.prems(2) s(2) by simp
qed

lemma build_index_format:
  assumes "build_index paths files = Inr d" and "\<forall>(name, r) \<in> set files. delivers r \<noteq> None"
  shows "d = index_file paths (file_docs files)" and "length d < 2 ^ 32" and "docs_ok (file_docs files)"
proof -
  obtain ix ix' where ix: "foldR (\<lambda>ix (name, r). Add_file ix name r) (AddPaths Create paths) files = Inr ix"
    "Flush ix = Inr ix'" "d = bw_file (iw_main ix')"
    using assms(1) by (auto simp: build_index_def bindR_Inr)
  have h: "holds ix (file_docs files)" "iw_paths ix = paths"
    using add_files_hold[OF holds_AddPaths[OF holds_Create] assms(2) ix(1)]
    by (simp_all add: AddPaths_def Create_def)
  then show "d = index_file paths (file_docs files)" "length d < 2 ^ 32"
    using Flush_spec(1)[OF h(1) ix(2)] ix(3) by simp_all
  show "docs_ok (file_docs files)" using h(1) by (simp add: holds_def)
qed

lemma qeval_on_trigrams:
  "searchable q \<Longrightarrow> qeval has q \<Longrightarrow> \<forall>t. length t = 3 \<longrightarrow> has t \<longrightarrow> has' t \<Longrightarrow> qeval has' q"
proof (induction has q rule: qeval.induct)
  case (3 has ts ss)
  then show ?case by (auto simp: list_all_iff)
next
  case (4 has ts ss)
  from "4.prems"(2) consider t where "t \<in> set ts" "has t" | s where "s \<in> set ss" "qeval has s"
    by (auto simp: list_ex_iff)
  then show ?case
  proof cases
    case 1
    with 4 show ?thesis by (auto simp: list_ex_iff list_all_iff)
  next
    case 2
    then have "qeval has' s" using "4.IH" "4.prems" by (auto simp: list_all_iff)
    with 2 show ?thesis by (auto simp: list_ex_iff)
  qed
qed auto

lemma sublist_map: "sublist xs ys \<Longrightarrow> sublist (map f xs) (map f ys)"
  unfolding sublist_def by (metis map_append)

lemma text_has_trigram:
  assumes "sublist t (string_of_bytes w)" and "length t = 3"
  shows "be24 (bytes_of t) \<in> set (file_trigrams w)"
proof -
  have "bytes_of (string_of_bytes w) = w"
    by (simp add: bytes_of_def string_of_bytes_def comp_def)
  then have "sublist (bytes_of t) w" using sublist_map[OF assms(1), of byte_of] by (simp add: bytes_of_def)
  then have "bytes_of t \<in> set (windows3 w)" using assms(2) by (simp add: in_windows3_iff)
  then show ?thesis by (simp add: file_trigrams_def)
qed


definition xabcdef :: "byte list" where "xabcdef = [120, 97, 98, 99, 100, 101, 102]"

lemma xabcdef_trigrams:
  "file_trigrams xabcdef = [0x786162, 0x616263, 0x626364, 0x636465, 0x646566]"
  by (simp add: file_trigrams_def windows3_def xabcdef_def upt_rec be24_def)

lemma xabcdef_indexed: "indexed xabcdef"
proof -
  have "pairs_ok xabcdef" by code_simp
  moreover have len: "length xabcdef = 7" by (simp add: xabcdef_def)
  moreover have "column (take j xabcdef) < maxLineLen" for j
  proof -
    have "column (take j xabcdef) \<le> length (rev (take j xabcdef))"
      unfolding column_def by (rule length_takeWhile_le)
    then show ?thesis using len by (simp add: maxLineLen_def min_def split: if_splits)
  qed
  moreover have "length (remdups (file_trigrams xabcdef)) \<le> length (file_trigrams xabcdef)"
    by (rule length_remdups_leq)
  ultimately show ?thesis
    by (simp add: indexed_def is_text_def lines_ok_def maxFileLen_def maxTextTrigrams_def
        file_trigrams_def windows3_def)
qed

lemma xabcdef_built: "\<exists>d. build_index [] [(''f'', [(xabcdef, NoErr)])] = Inr d"
proof -
  have h: "holds (AddPaths Create []) []" by (rule holds_AddPaths[OF holds_Create])
  have w: "delivers [(xabcdef, NoErr)] = Some xabcdef" by (simp add: xabcdef_def)
  obtain ix where ix: "Add_file (AddPaths Create []) ''f'' [(xabcdef, NoErr)] = Inr ix"
    "holds ix [doc_of ''f'' xabcdef]" "iw_paths ix = []"
    using Add_file_holds(2)[OF h w xabcdef_indexed, of "''f''"] by (auto simp: AddPaths_def Create_def)
  have "doc_of ''f'' xabcdef = (''f'', [0x786162, 0x616263, 0x626364, 0x636465, 0x646566])"
    by (simp add: doc_of_def xabcdef_trigrams)
  then have "length (index_file [] [doc_of ''f'' xabcdef]) < 2 ^ 32"
    by (simp add: entry_le_iff index_file_def index_sections_def postings_def Let_def trailer_def magic_def
        trailerMagic_def length_encodings list_bytes_def name_bytes_def uvarint_bytes_def)
  then obtain ix' where "Flush ix = Inr ix'" using Flush_spec(2)[OF ix(2)] ix(3) by auto
  with ix(1) show ?thesis by (simp add: build_index_def)
qed


end
