(* ===== verification/Index_Merge.thy ===== *)
theory Index_Merge
  imports Index_Read Regexp_Syntax
begin

text \<open>
  \<^verbatim>\<open>index/merge.go\<close>: merging two indexes into one. \<open>Merge\<close> first decides which documents stay:
  for every path of the newer index, the documents of the older one below that path are dropped. The
  decisions are lists of \<open>idrange\<close>s, which map intervals of old ids to new ids. Then paths, names
  and posting lists are merged and written.

  The loops over ids are functions on \<^verbatim>\<open>uint32\<close> values. The outer loop over the posting lists ends
  because the readers step through their posting list index; as a recursive definition it may not
  end, which is the value \<open>None\<close>.
\<close>

record idrange =
  ir_lo :: u32
  ir_hi :: u32
  ir_new :: u32

definition inconsistent :: fault where
  "inconsistent = Panic ''merge: inconsistent index''"

subsection \<open>The maps of ids\<close>

text \<open>\<^verbatim>\<open>for i < uint32(ix.numName) && ix.Name(i) < bound { i++ }\<close>\<close>

function skip_names :: "Index \<Rightarrow> u32 \<Rightarrow> string \<Rightarrow> u32 result" where
  "skip_names ix i bound =
     (if i < word_of_int (ix_numName ix) then
        (case Name ix i of
           Inl e \<Rightarrow> Inl e
         | Inr name \<Rightarrow> if name < bound then skip_names ix (i + 1) bound else Inr i)
      else Inr i)"
  by auto
termination
  by (relation "measure (\<lambda>(ix, i, bound). unat (word_of_int (ix_numName ix) - i :: u32))")
    (simp_all add: word_count_up)

declare skip_names.simps [simp del]

text \<open>\<^verbatim>\<open>path[:len(path)-1] + string(path[len(path)-1]+1)\<close>; the conversion of the byte to a string
  encodes it as a rune.\<close>

definition path_limit :: "string \<Rightarrow> string result" where
  "path_limit path =
     (if path = [] then Inl out_of_range
      else Inr (butlast path @ encode_rune (int (unat (byte_of (last path) + 1)))))"

record merge_maps =
  mm_i1 :: u32
  mm_i2 :: u32
  mm_new :: u32
  mm_map1 :: "idrange list"
  mm_map2 :: "idrange list"

definition add_range :: "idrange list \<Rightarrow> u32 \<Rightarrow> u32 \<Rightarrow> u32 \<Rightarrow> idrange list \<times> u32" where
  "add_range m lo hi new =
     (if lo < hi then (m @ [\<lparr>ir_lo = lo, ir_hi = hi, ir_new = new\<rparr>], new + (hi - lo)) else (m, new))"

definition shadow_path :: "Index \<Rightarrow> Index \<Rightarrow> merge_maps \<Rightarrow> string \<Rightarrow> merge_maps result" where
  "shadow_path ix1 ix2 s path =
     bindR (skip_names ix1 (mm_i1 s) path) (\<lambda>lo.
     bindR (path_limit path) (\<lambda>limit.
     bindR (skip_names ix1 lo limit) (\<lambda>hi.
       let (map1, new) = add_range (mm_map1 s) (mm_i1 s) lo (mm_new s); i2 = mm_i2 s in
     bindR (if i2 < word_of_int (ix_numName ix2)
            then bindR (Name ix2 i2) (\<lambda>n. Inr (n < path)) else Inr False) (\<lambda>bad.
     if bad then Inl inconsistent
     else bindR (skip_names ix2 i2 limit) (\<lambda>hi2.
       let (map2, new) = add_range (mm_map2 s) i2 hi2 new
       in Inr \<lparr>mm_i1 = hi, mm_i2 = hi2, mm_new = new, mm_map1 = map1, mm_map2 = map2\<rparr>)))))"

definition build_maps :: "Index \<Rightarrow> Index \<Rightarrow> string list \<Rightarrow> (idrange list \<times> idrange list \<times> u32) result" where
  "build_maps ix1 ix2 paths2 =
     bindR (foldR (shadow_path ix1 ix2)
              \<lparr>mm_i1 = 0, mm_i2 = 0, mm_new = 0, mm_map1 = [], mm_map2 = []\<rparr> paths2) (\<lambda>s.
       let (map1, new) = add_range (mm_map1 s) (mm_i1 s) (word_of_int (ix_numName ix1)) (mm_new s)
       in if mm_i2 s < word_of_int (ix_numName ix2) then Inl inconsistent
          else Inr (map1, mm_map2 s, new))"

subsection \<open>Paths and names\<close>

text \<open>The paths the loop writes; \<open>last\<close> is the path written last.\<close>

fun merged_paths :: "string list \<Rightarrow> string list \<Rightarrow> string \<Rightarrow> string list" where
  "merged_paths [] [] lst = []"
| "merged_paths [] (q # qs) lst =
     (if prefix lst q then merged_paths [] qs lst else q # merged_paths [] qs q)"
| "merged_paths (p # ps) [] lst =
     (if prefix lst p then merged_paths ps [] lst else p # merged_paths ps [] p)"
| "merged_paths (p # ps) (q # qs) lst =
     (if p \<le> q then (if prefix lst p then merged_paths ps (q # qs) lst else p # merged_paths ps (q # qs) p)
      else (if prefix lst q then merged_paths (p # ps) qs lst else q # merged_paths (p # ps) qs q))"

text \<open>\<^verbatim>\<open>for i := lo; i < hi; i++\<close>: one name after the other to the output, its offset to the name
  index.\<close>

function copy_names :: "Index \<Rightarrow> u32 \<Rightarrow> u32 \<Rightarrow> u32 \<Rightarrow> bufWriter \<Rightarrow> bufWriter \<Rightarrow> (bufWriter \<times> bufWriter) result"
where
  "copy_names ix i hi nameData out nameIndex =
     (if i < hi then
        bindR (Name ix i) (\<lambda>name.
        bindR (bw_offset out) (\<lambda>off.
          copy_names ix (i + 1) hi nameData
            (bw_writeString (bw_writeString out name) [CHR 0x00])
            (bw_writeUint32 nameIndex (off - nameData))))
      else Inr (out, nameIndex))"
  by auto
termination
  by (relation "measure (\<lambda>(ix, i, hi, _). unat (hi - i))") (simp_all add: word_count_up)

declare copy_names.simps [simp del]

text \<open>\<^verbatim>\<open>for new < numName\<close>; the lists are \<^verbatim>\<open>map1[mi1:]\<close> and \<^verbatim>\<open>map2[mi2:]\<close>.\<close>

function merge_names ::
  "Index \<Rightarrow> Index \<Rightarrow> idrange list \<Rightarrow> idrange list \<Rightarrow> u32 \<Rightarrow> u32 \<Rightarrow> u32 \<Rightarrow> bufWriter \<Rightarrow> bufWriter
    \<Rightarrow> (u32 \<times> bufWriter \<times> bufWriter) result"
where
  "merge_names ix1 ix2 m1 m2 new numName nameData out nameIndex =
     (if new < numName then
        if m1 \<noteq> [] \<and> ir_new (hd m1) = new then
          (case copy_names ix1 (ir_lo (hd m1)) (ir_hi (hd m1)) nameData out nameIndex of
             Inl e \<Rightarrow> Inl e
           | Inr (out, nameIndex) \<Rightarrow>
               merge_names ix1 ix2 (tl m1) m2
                 (new + (if ir_lo (hd m1) < ir_hi (hd m1) then ir_hi (hd m1) - ir_lo (hd m1) else 0))
                 numName nameData out nameIndex)
        else if m2 \<noteq> [] \<and> ir_new (hd m2) = new then
          (case copy_names ix2 (ir_lo (hd m2)) (ir_hi (hd m2)) nameData out nameIndex of
             Inl e \<Rightarrow> Inl e
           | Inr (out, nameIndex) \<Rightarrow>
               merge_names ix1 ix2 m1 (tl m2)
                 (new + (if ir_lo (hd m2) < ir_hi (hd m2) then ir_hi (hd m2) - ir_lo (hd m2) else 0))
                 numName nameData out nameIndex)
        else Inl inconsistent
      else Inr (new, out, nameIndex))"
  by auto
termination
  by (relation "measure (\<lambda>(ix1, ix2, m1, m2, _). length m1 + length m2)") (auto simp: length_tl)

declare merge_names.simps [simp del]

subsection \<open>Reading posting lists through a map\<close>

record postMapReader =
  pm_ix :: Index
  pm_idmap :: "idrange list"
  pm_triNum :: u32
  pm_trigram :: u32
  pm_count :: u32
  pm_offset :: u32
  pm_d :: "byte list"
  pm_oldid :: u32
  pm_fileid :: u32
  pm_i :: nat

definition pm_load :: "postMapReader \<Rightarrow> postMapReader result" where
  "pm_load r =
     (if pm_triNum r \<ge> word_of_int (ix_numPost (pm_ix r))
      then Inr (r\<lparr>pm_trigram := - 1, pm_count := 0, pm_fileid := - 1\<rparr>)
      else bindR (listAt (pm_ix r) (pm_triNum r * word_of_nat postEntrySize)) (\<lambda>(t, count, offset).
        let r = r\<lparr>pm_trigram := t, pm_count := count, pm_offset := offset\<rparr>
        in if count = 0 then Inr (r\<lparr>pm_fileid := - 1\<rparr>)
           else bindR (slice (ix_data (pm_ix r)) (ix_postData (pm_ix r) + offset + 3) (- 1)) (\<lambda>d.
             Inr (r\<lparr>pm_d := d, pm_oldid := - 1, pm_i := 0\<rparr>))))"

definition pm_init :: "Index \<Rightarrow> idrange list \<Rightarrow> postMapReader result" where
  "pm_init ix idmap =
     pm_load \<lparr>pm_ix = ix, pm_idmap = idmap, pm_triNum = 0, pm_trigram = - 1, pm_count = 0,
       pm_offset = 0, pm_d = [], pm_oldid = 0, pm_fileid = 0, pm_i = 0\<rparr>"

definition pm_nextTrigram :: "postMapReader \<Rightarrow> postMapReader result" where
  "pm_nextTrigram r = pm_load (r\<lparr>pm_triNum := pm_triNum r + 1\<rparr>)"

text \<open>\<^verbatim>\<open>for r.i < len(r.idmap) && r.idmap[r.i].hi <= r.oldid { r.i++ }\<close>\<close>

definition advance_map :: "idrange list \<Rightarrow> nat \<Rightarrow> u32 \<Rightarrow> nat" where
  "advance_map idmap i oldid = i + length (takeWhile (\<lambda>g. ir_hi g \<le> oldid) (drop i idmap))"

function pm_nextId :: "postMapReader \<Rightarrow> (bool \<times> postMapReader) result" where
  "pm_nextId r =
     (if pm_count r > 0 then
        let (delta64, n) = Uvarint (pm_d r); delta = ucast delta64 :: u32
        in if n \<le> 0 \<or> delta = 0 then Inl corrupt
           else let oldid = pm_oldid r + delta;
                    i = advance_map (pm_idmap r) (pm_i r) oldid;
                    r' = r\<lparr>pm_count := pm_count r - 1, pm_d := drop (nat n) (pm_d r),
                           pm_oldid := oldid, pm_i := i\<rparr>
                in if i \<ge> length (pm_idmap r)
                   then Inr (False, r'\<lparr>pm_count := 0, pm_fileid := - 1\<rparr>)
                   else let g = pm_idmap r ! i
                        in if oldid < ir_lo g then pm_nextId r'
                           else Inr (True, r'\<lparr>pm_fileid := ir_new g + oldid - ir_lo g\<rparr>)
      else Inr (False, r\<lparr>pm_fileid := - 1\<rparr>))"
  by auto
termination
  by (relation "measure (\<lambda>r. unat (pm_count r))") (auto simp: word_count_down)

declare pm_nextId.simps [simp del]

lemma pm_nextId_count:
  "pm_nextId r = Inr (True, r') \<Longrightarrow> pm_count r' < pm_count r"
  "pm_nextId r = Inr (False, r') \<Longrightarrow> pm_count r' = 0 \<and> pm_fileid r' = - 1"
proof (induction r rule: pm_nextId.induct)
  case (1 r)
  obtain v n where u: "Uvarint (pm_d r) = (v, n)" by fastforce
  let ?oldid = "pm_oldid r + ucast v"
  let ?i = "advance_map (pm_idmap r) (pm_i r) ?oldid"
  let ?r = "r\<lparr>pm_count := pm_count r - 1, pm_d := drop (nat n) (pm_d r), pm_oldid := ?oldid, pm_i := ?i\<rparr>"
  have dec: "pm_count r - 1 < pm_count r" if "pm_count r > 0"
    using word_count_down[OF that] by (simp add: word_less_nat_alt)
  consider (zero) "\<not> pm_count r > 0" | (bad) "pm_count r > 0" "n \<le> 0 \<or> (ucast v :: u32) = 0"
    | (past) "pm_count r > 0" "\<not> (n \<le> 0 \<or> (ucast v :: u32) = 0)" "?i \<ge> length (pm_idmap r)"
    | (skip) "pm_count r > 0" "\<not> (n \<le> 0 \<or> (ucast v :: u32) = 0)" "\<not> ?i \<ge> length (pm_idmap r)"
        "?oldid < ir_lo (pm_idmap r ! ?i)"
    | (hit) "pm_count r > 0" "\<not> (n \<le> 0 \<or> (ucast v :: u32) = 0)" "\<not> ?i \<ge> length (pm_idmap r)"
        "\<not> ?oldid < ir_lo (pm_idmap r ! ?i)" by blast
  note cases = this
  note step = pm_nextId.simps[of r, unfolded u Let_def prod.case]
  { case 1
    show ?case using cases
    proof cases
      case skip
      then have "pm_nextId r = pm_nextId ?r" by (simp add: step)
      then have "pm_count r' < pm_count ?r"
        using "1.IH"(1)[OF skip(1) u[symmetric] refl refl skip(2) refl refl refl skip(3) refl skip(4)] 1 by simp
      then show ?thesis using dec[OF skip(1)] by (simp add: less_trans)
    qed (use 1 dec in \<open>auto simp: step\<close>)
  next
    case 2
    show ?case using cases
    proof cases
      case skip
      then have "pm_nextId r = pm_nextId ?r" by (simp add: step)
      then show ?thesis
        using "1.IH"(2)[OF skip(1) u[symmetric] refl refl skip(2) refl refl refl skip(3) refl skip(4)] 2 by simp
    qed (use 2 in \<open>auto simp: step word_gt_0\<close>)
  }
qed

subsection \<open>Writing posting lists\<close>

record postDataWriter =
  pw_out :: bufWriter
  pw_postIndexFile :: bufWriter
  pw_base :: u32
  pw_count :: u32
  pw_offset :: u32
  pw_last :: u32
  pw_t :: u32

definition pw_init :: "bufWriter \<Rightarrow> postDataWriter result" where
  "pw_init out =
     bindR (bw_offset out) (\<lambda>base.
       Inr \<lparr>pw_out = out, pw_postIndexFile = bufCreate, pw_base = base, pw_count = 0, pw_offset = 0,
         pw_last = 0, pw_t = 0\<rparr>)"

definition pw_trigram :: "postDataWriter \<Rightarrow> u32 \<Rightarrow> postDataWriter result" where
  "pw_trigram w t =
     bindR (bw_offset (pw_out w)) (\<lambda>off.
       Inr (w\<lparr>pw_offset := off, pw_count := 0, pw_t := t, pw_last := - 1\<rparr>))"

definition pw_fileid :: "postDataWriter \<Rightarrow> u32 \<Rightarrow> postDataWriter" where
  "pw_fileid w fid =
     (let out = (if pw_count w = 0 then bw_writeTrigram (pw_out w) (pw_t w) else pw_out w)
      in w\<lparr>pw_out := bw_writeUvarint out (fid - pw_last w), pw_last := fid, pw_count := pw_count w + 1\<rparr>)"

definition pw_endTrigram :: "postDataWriter \<Rightarrow> postDataWriter" where
  "pw_endTrigram w =
     (if pw_count w = 0 then w
      else w\<lparr>pw_out := bw_writeUvarint (pw_out w) 0,
             pw_postIndexFile := bw_writeUint32 (bw_writeUint32 (bw_writeTrigram (pw_postIndexFile w) (pw_t w))
               (pw_count w)) (pw_offset w - pw_base w)\<rparr>)"

subsection \<open>Merging posting lists\<close>

text \<open>\<^verbatim>\<open>for r.nextId() { w.fileid(r.fileid) }\<close>\<close>

function copy_ids :: "postMapReader \<Rightarrow> postDataWriter \<Rightarrow> (postMapReader \<times> postDataWriter) result" where
  "copy_ids r w =
     (case pm_nextId r of
        Inl e \<Rightarrow> Inl e
      | Inr (go_on, r') \<Rightarrow> if go_on then copy_ids r' (pw_fileid w (pm_fileid r')) else Inr (r', w))"
  by auto
termination
  by (relation "measure (\<lambda>(r, w). unat (pm_count r))")
    (auto dest: pm_nextId_count(1) simp: word_less_nat_alt)

definition pm_weight :: "postMapReader \<Rightarrow> nat" where
  "pm_weight r = unat (pm_count r) + (if pm_fileid r = - 1 then 0 else 1)"

lemma pm_nextId_weight:
  "pm_nextId r = Inr (go_on, r') \<Longrightarrow> pm_fileid r < - 1 \<Longrightarrow> pm_weight r' < pm_weight r"
  using pm_nextId_count[of r r']
  by (cases go_on) (auto simp: pm_weight_def word_less_nat_alt)

text \<open>The loop over two readers at the same trigram. An id of \<^verbatim>\<open>^uint32(0)\<close> means that a reader is
  done.\<close>

function merge_ids ::
  "postMapReader \<Rightarrow> postMapReader \<Rightarrow> postDataWriter \<Rightarrow> (postMapReader \<times> postMapReader \<times> postDataWriter) result"
where
  "merge_ids r1 r2 w =
     (if pm_fileid r1 < - 1 \<or> pm_fileid r2 < - 1 then
        if pm_fileid r1 < pm_fileid r2 then
          (case pm_nextId r1 of
             Inl e \<Rightarrow> Inl e
           | Inr (_, r1') \<Rightarrow> merge_ids r1' r2 (pw_fileid w (pm_fileid r1)))
        else if pm_fileid r2 < pm_fileid r1 then
          (case pm_nextId r2 of
             Inl e \<Rightarrow> Inl e
           | Inr (_, r2') \<Rightarrow> merge_ids r1 r2' (pw_fileid w (pm_fileid r2)))
        else Inl inconsistent
      else Inr (r1, r2, w))"
  by auto
termination
proof (relation "measure (\<lambda>(r1, r2, w). pm_weight r1 + pm_weight r2)", goal_cases)
  case (2 r1 r2 w x go_on r1')
  then have "pm_fileid r1 < - 1" by (metis less_le_trans word_order.extremum)
  then show ?case using pm_nextId_weight[of r1 go_on r1'] 2 by simp
next
  case (3 r1 r2 w x go_on r2')
  then have "pm_fileid r2 < - 1" by (metis less_le_trans word_order.extremum)
  then show ?case using pm_nextId_weight[of r2 go_on r2'] 3 by simp
qed simp

declare copy_ids.simps [simp del] merge_ids.simps [simp del]

partial_function (option) merge_postings ::
  "postMapReader \<Rightarrow> postMapReader \<Rightarrow> postDataWriter \<Rightarrow> postDataWriter result option" where
  "merge_postings r1 r2 w =
     (if pm_trigram r1 < pm_trigram r2 then
        (case bindR (pw_trigram w (pm_trigram r1)) (\<lambda>w. bindR (copy_ids r1 w) (\<lambda>(r1, w).
                bindR (pm_nextTrigram r1) (\<lambda>r1. Inr (r1, pw_endTrigram w)))) of
           Inl e \<Rightarrow> Some (Inl e)
         | Inr (r1, w) \<Rightarrow> merge_postings r1 r2 w)
      else if pm_trigram r2 < pm_trigram r1 then
        (case bindR (pw_trigram w (pm_trigram r2)) (\<lambda>w. bindR (copy_ids r2 w) (\<lambda>(r2, w).
                bindR (pm_nextTrigram r2) (\<lambda>r2. Inr (r2, pw_endTrigram w)))) of
           Inl e \<Rightarrow> Some (Inl e)
         | Inr (r2, w) \<Rightarrow> merge_postings r1 r2 w)
      else if pm_trigram r1 = - 1 then Some (Inr w)
      else
        (case bindR (pw_trigram w (pm_trigram r1)) (\<lambda>w. bindR (pm_nextId r1) (\<lambda>(_, r1).
                bindR (pm_nextId r2) (\<lambda>(_, r2). bindR (merge_ids r1 r2 w) (\<lambda>(r1, r2, w).
                bindR (pm_nextTrigram r1) (\<lambda>r1. bindR (pm_nextTrigram r2) (\<lambda>r2.
                  Inr (r1, r2, pw_endTrigram w))))))) of
           Inl e \<Rightarrow> Some (Inl e)
         | Inr (r1, r2, w) \<Rightarrow> merge_postings r1 r2 w))"

subsection \<open>Merge\<close>

text \<open>The arguments are the two files, the result is the new one.\<close>

definition write_merged ::
  "Index \<Rightarrow> Index \<Rightarrow> string list \<Rightarrow> string list \<Rightarrow> byte list result option" where
  "write_merged ix1 ix2 paths1 paths2 =
     (case bindR (build_maps ix1 ix2 paths2) (\<lambda>(map1, map2, numName).
        let ix3 = bw_writeString bufCreate magic in
        bindR (bw_offset ix3) (\<lambda>pathData.
        let ix3 = bw_writeString (write_paths ix3 (merged_paths paths1 paths2 [CHR 0x00])) [CHR 0x00] in
        bindR (bw_offset ix3) (\<lambda>nameData.
        bindR (merge_names ix1 ix2 map1 map2 0 numName nameData ix3 bufCreate) (\<lambda>(new, ix3, nameIndexFile).
        bindR (bw_offset nameIndexFile) (\<lambda>nlen.
        if new * 4 \<noteq> nlen then Inl inconsistent
        else bindR (bw_offset ix3) (\<lambda>off.
        let nameIndexFile = bw_writeUint32 nameIndexFile off in
        bindR (pm_init ix1 map1) (\<lambda>r1.
        bindR (pm_init ix2 map2) (\<lambda>r2.
        bindR (pw_init ix3) (\<lambda>w. Inr (pathData, nameData, off, nameIndexFile, r1, r2, w)))))))))) of
       Inl e \<Rightarrow> Some (Inl e)
     | Inr (pathData, nameData, postData, nameIndexFile, r1, r2, w) \<Rightarrow>
         map_option (\<lambda>res. bindR res (\<lambda>w.
           bindR (bw_offset (pw_out w)) (\<lambda>nameIndex.
           let ix3 = copyFile (pw_out w) nameIndexFile in
           bindR (bw_offset ix3) (\<lambda>postIndex.
           let ix3 = copyFile ix3 (pw_postIndexFile w);
               ix3 = foldl bw_writeUint32 ix3 [pathData, nameData, postData, nameIndex, postIndex]
           in Inr (bw_file (bw_flush (bw_writeString ix3 trailerMagic)))))))
           (merge_postings r1 r2 w))"

definition Merge :: "byte list \<Rightarrow> byte list \<Rightarrow> byte list result option" where
  "Merge src1 src2 =
     (case bindR (Open src1) (\<lambda>ix1. bindR (Open src2) (\<lambda>ix2. Inr (ix1, ix2))) of
        Inl e \<Rightarrow> Some (Inl e)
      | Inr (ix1, ix2) \<Rightarrow>
          Option.bind (Paths ix1) (\<lambda>p1. Option.bind (Paths ix2) (\<lambda>p2.
            case bindR p1 (\<lambda>paths1. bindR p2 (\<lambda>paths2. Inr (paths1, paths2))) of
              Inl e \<Rightarrow> Some (Inl e)
            | Inr (paths1, paths2) \<Rightarrow> write_merged ix1 ix2 paths1 paths2)))"

end
