(* ===== verification/Merge_Maps.thy ===== *)
theory Merge_Maps
  imports Index_Merge Index_Layout
begin

text \<open>
  What the merge decides, stated on lists of names. The id ranges of the two maps are the documents
  kept: all of the newer index, and those of the older one that no path of the newer one shadows.
  Their images are the new ids, each once. The list of paths loses the paths below other paths.
\<close>

subsection \<open>Paths\<close>

lemma prefix_between:
  "prefix (p :: string) r \<Longrightarrow> p \<le> q \<Longrightarrow> q \<le> r \<Longrightarrow> prefix p q"
proof (induction p arbitrary: q r)
  case Nil
  then show ?case by simp
next
  case (Cons c p)
  obtain r' where r: "r = c # r'" "prefix p r'" using Cons.prems(1) by (cases r) auto
  obtain d q' where q: "q = d # q'" using Cons.prems(2) by (cases q) auto
  have "d = c" using Cons.prems(2,3) r(1) q by auto
  with Cons.prems q r Cons.IH[of r' q'] show ?case by simp
qed

lemma prefix_le: "prefix (p :: string) q \<Longrightarrow> p \<le> q"
proof (induction p arbitrary: q)
  case (Cons c p)
  then show ?case by (cases q) auto
qed simp

definition apart :: "string \<Rightarrow> string \<Rightarrow> bool" where
  "apart p q \<longleftrightarrow> p < q \<and> \<not> prefix p q"

lemma apart_trans: "apart p q \<Longrightarrow> q \<le> r \<Longrightarrow> apart p r"
  unfolding apart_def using prefix_between[of p r q] by (meson less_le_trans less_imp_le)

fun merge_sorted :: "string list \<Rightarrow> string list \<Rightarrow> string list" where
  "merge_sorted [] qs = qs"
| "merge_sorted ps [] = ps"
| "merge_sorted (p # ps) (q # qs) =
     (if p \<le> q then p # merge_sorted ps (q # qs) else q # merge_sorted (p # ps) qs)"

fun drop_below :: "string \<Rightarrow> string list \<Rightarrow> string list" where
  "drop_below lst [] = []"
| "drop_below lst (x # xs) = (if prefix lst x then drop_below lst xs else x # drop_below x xs)"

lemma merge_sorted_Nil2 [simp]: "merge_sorted ps [] = ps"
  by (cases ps) auto

lemma merged_paths_eq: "merged_paths ps qs lst = drop_below lst (merge_sorted ps qs)"
  by (induction ps qs lst rule: merged_paths.induct) auto

lemma merge_sorted_set: "set (merge_sorted ps qs) = set ps \<union> set qs"
  by (induction ps qs rule: merge_sorted.induct) auto

lemma merge_sorted_sorted: "sorted ps \<Longrightarrow> sorted qs \<Longrightarrow> sorted (merge_sorted ps qs)"
  by (induction ps qs rule: merge_sorted.induct) (auto simp: merge_sorted_set)

lemma drop_below_spec:
  "sorted xs \<Longrightarrow> \<forall>x \<in> set xs. lst \<le> x \<Longrightarrow>
     set (drop_below lst xs) \<subseteq> set xs \<and> sorted_wrt apart (lst # drop_below lst xs)
     \<and> (\<forall>x \<in> set xs. \<exists>p \<in> set (lst # drop_below lst xs). prefix p x)"
proof (induction lst xs rule: drop_below.induct)
  case (1 lst)
  then show ?case by simp
next
  case (2 lst x xs)
  have le: "lst \<le> x" "\<forall>y \<in> set xs. x \<le> y" "\<forall>y \<in> set xs. lst \<le> y" "sorted xs" using 2 by auto
  show ?case
  proof (cases "prefix lst x")
    case True
    with 2(1)[OF True le(4,3)] show ?thesis by auto
  next
    case False
    then have ap: "apart lst x" using le(1) by (auto simp: apart_def order.strict_iff_order)
    from 2(2)[OF False le(4,2)] have IH: "set (drop_below x xs) \<subseteq> set xs"
      "sorted_wrt apart (x # drop_below x xs)"
      "\<forall>y \<in> set xs. \<exists>p \<in> set (x # drop_below x xs). prefix p y" by auto
    have "\<forall>y \<in> set (drop_below x xs). apart lst y"
      using apart_trans[OF ap] IH(1) le(2) by blast
    with IH ap False show ?thesis by auto
  qed
qed

subsection \<open>Ids\<close>

text \<open>An index with the given names.\<close>

definition named :: "Index \<Rightarrow> string list \<Rightarrow> bool" where
  "named ix names \<longleftrightarrow> ix_numName ix = int (length names) \<and> length names < 2 ^ 31
     \<and> (\<forall>i < length names. Name ix (word_of_nat i) = Inr (names ! i))"

lemma named_index_of:
  assumes "length (index_file paths docs) < 2 ^ 32" and "docs_ok docs"
  shows "named (index_of paths docs) (map fst docs)"
  using docs_bound[OF assms(1)] Name_index_of[OF assms] by (simp add: named_def index_of_def)

lemma named_num: "named ix names \<Longrightarrow> unat (word_of_int (ix_numName ix) :: u32) = length names"
  by (simp add: named_def unat_of_nat_u32)

lemma skip_names_spec:
  "named ix names \<Longrightarrow> unat i \<le> length names \<Longrightarrow>
     \<exists>j. skip_names ix i b = Inr j \<and> unat i \<le> unat j \<and> unat j \<le> length names
       \<and> (\<forall>k. unat i \<le> k \<and> k < unat j \<longrightarrow> names ! k < b)
       \<and> (unat j < length names \<longrightarrow> \<not> names ! unat j < b)"
proof (induction ix i b rule: skip_names.induct)
  case (1 ix i b)
  have lt: "i < word_of_int (ix_numName ix) \<longleftrightarrow> unat i < length names"
    using named_num[OF "1.prems"(1)] by (simp add: word_less_nat_alt)
  show ?case
  proof (cases "unat i < length names \<and> names ! unat i < b")
    case False
    then have "skip_names ix i b = Inr i"
      using "1.prems" lt by (subst skip_names.simps) (auto simp: named_def)
    with False "1.prems"(2) show ?thesis by auto
  next
    case True
    have nm: "Name ix i = Inr (names ! unat i)" using "1.prems"(1) True by (auto simp: named_def)
    have eq: "skip_names ix i b = skip_names ix (i + 1) b"
      using True lt nm by (subst skip_names.simps) simp
    have "unat i + 1 < 2 ^ 32" using True "1.prems"(1) by (simp add: named_def)
    then have ui: "unat (i + 1) = unat i + 1" by (simp add: unat_word_ariths)
    obtain j where j: "skip_names ix (i + 1) b = Inr j" "unat i + 1 \<le> unat j" "unat j \<le> length names"
      "\<forall>k. unat i + 1 \<le> k \<and> k < unat j \<longrightarrow> names ! k < b" "unat j < length names \<longrightarrow> \<not> names ! unat j < b"
      using "1.IH"[OF _ nm _ "1.prems"(1)] lt True ui by auto
    have "names ! k < b" if "unat i \<le> k \<and> k < unat j" for k
      using j(4) True that by (cases "k = unat i") auto
    with j eq show ?thesis by auto
  qed
qed

definition range_ids :: "idrange list \<Rightarrow> nat list" where
  "range_ids m = concat (map (\<lambda>g. [unat (ir_lo g)..<unat (ir_hi g)]) m)"

definition new_ids :: "idrange list \<Rightarrow> nat list" where
  "new_ids m = concat (map (\<lambda>g. [unat (ir_new g)..<unat (ir_new g) + (unat (ir_hi g) - unat (ir_lo g))]) m)"

lemma add_range_spec:
  assumes "add_range m lo hi new = (m', new')" and "lo \<le> hi"
    and "unat new + (unat hi - unat lo) < 2 ^ 32"
  shows "range_ids m' = range_ids m @ [unat lo..<unat hi]"
    and "new_ids m' = new_ids m @ [unat new..<unat new']"
    and "unat new' = unat new + (unat hi - unat lo)"
proof -
  have d: "unat (hi - lo) = unat hi - unat lo" using assms(2) by (simp add: unat_sub_if' word_le_nat_alt)
  then have n: "unat (new + (hi - lo)) = unat new + (unat hi - unat lo)"
    using assms(3) by (simp add: unat_word_ariths)
  show "unat new' = unat new + (unat hi - unat lo)"
    using assms(1,2) n by (auto simp: add_range_def word_less_nat_alt split: if_splits)
  then show "range_ids m' = range_ids m @ [unat lo..<unat hi]" "new_ids m' = new_ids m @ [unat new..<unat new']"
    using assms(1,2) by (auto simp: add_range_def range_ids_def new_ids_def word_less_nat_alt word_le_nat_alt
        split: if_splits)
qed

definition limit_of :: "string \<Rightarrow> string" where
  "limit_of p = butlast p @ encode_rune (int (unat (byte_of (last p) + 1)))"

lemma path_limit_eq: "p \<noteq> [] \<Longrightarrow> path_limit p = Inr (limit_of p)"
  by (simp add: path_limit_def limit_of_def)

definition shadowed :: "string list \<Rightarrow> string \<Rightarrow> bool" where
  "shadowed paths name \<longleftrightarrow> (\<exists>p \<in> set paths. p \<le> name \<and> name < limit_of p)"

definition maps_inv :: "string list \<Rightarrow> string list \<Rightarrow> string list \<Rightarrow> merge_maps \<Rightarrow> bool" where
  "maps_inv names1 names2 ps s \<longleftrightarrow>
     unat (mm_i1 s) \<le> length names1 \<and> unat (mm_i2 s) \<le> length names2
     \<and> range_ids (mm_map1 s) = filter (\<lambda>i. \<not> shadowed ps (names1 ! i)) [0..<unat (mm_i1 s)]
     \<and> range_ids (mm_map2 s) = [0..<unat (mm_i2 s)]
     \<and> unat (mm_new s) \<le> unat (mm_i1 s) + unat (mm_i2 s)
     \<and> mset (new_ids (mm_map1 s) @ new_ids (mm_map2 s)) = mset [0..<unat (mm_new s)]
     \<and> (\<forall>i. unat (mm_i1 s) \<le> i \<and> i < length names1 \<longrightarrow> (\<forall>p \<in> set ps. \<not> names1 ! i < limit_of p))
     \<and> (\<forall>i < unat (mm_i1 s). \<not> shadowed ps (names1 ! i) \<longrightarrow> (\<exists>p \<in> set ps. names1 ! i < p))"

lemma shadow_path_inv:
  assumes n1: "named ix1 names1" and n2: "named ix2 names2" and srt: "sorted names1"
    and p: "p \<noteq> []" "\<forall>q \<in> set ps. q \<le> p"
    and inv: "maps_inv names1 names2 ps s" and step: "shadow_path ix1 ix2 s p = Inr s'"
  shows "maps_inv names1 names2 (ps @ [p]) s'"
proof -
  note i = inv[unfolded maps_inv_def]
  obtain lo where lo: "skip_names ix1 (mm_i1 s) p = Inr lo" "unat (mm_i1 s) \<le> unat lo" "unat lo \<le> length names1"
    "\<forall>k. unat (mm_i1 s) \<le> k \<and> k < unat lo \<longrightarrow> names1 ! k < p" "unat lo < length names1 \<longrightarrow> \<not> names1 ! unat lo < p"
    using skip_names_spec[OF n1, of "mm_i1 s" p] i by auto
  obtain hi where hi: "skip_names ix1 lo (limit_of p) = Inr hi" "unat lo \<le> unat hi" "unat hi \<le> length names1"
    "\<forall>k. unat lo \<le> k \<and> k < unat hi \<longrightarrow> names1 ! k < limit_of p"
    "unat hi < length names1 \<longrightarrow> \<not> names1 ! unat hi < limit_of p"
    using skip_names_spec[OF n1 lo(3), of "limit_of p"] by auto
  obtain hi2 where hi2: "skip_names ix2 (mm_i2 s) (limit_of p) = Inr hi2" "unat (mm_i2 s) \<le> unat hi2"
    "unat hi2 \<le> length names2"
    using skip_names_spec[OF n2, of "mm_i2 s" "limit_of p"] i by auto
  obtain m1 new1 where a1: "add_range (mm_map1 s) (mm_i1 s) lo (mm_new s) = (m1, new1)" by fastforce
  obtain m2 new2 where a2: "add_range (mm_map2 s) (mm_i2 s) hi2 new1 = (m2, new2)" by fastforce
  have len: "length names1 < 2 ^ 31" "length names2 < 2 ^ 31" using n1 n2 by (simp_all add: named_def)
  have s': "s' = \<lparr>mm_i1 = hi, mm_i2 = hi2, mm_new = new2, mm_map1 = m1, mm_map2 = m2\<rparr>"
    using step lo(1) hi(1) hi2(1) a1 a2
    by (auto simp: shadow_path_def path_limit_eq[OF p(1)] bindR_Inr Let_def split: if_splits)
  have small: "unat (mm_new s) \<le> unat (mm_i1 s) + unat (mm_i2 s)" "unat (mm_i2 s) \<le> length names2"
    using i by blast+
  have le1: "mm_i1 s \<le> lo" using lo(2) by (simp add: word_le_nat_alt)
  have b1: "unat (mm_new s) + (unat lo - unat (mm_i1 s)) < 2 ^ 32" using lo(2,3) small len by simp
  have r1: "range_ids m1 = range_ids (mm_map1 s) @ [unat (mm_i1 s)..<unat lo]"
    "new_ids m1 = new_ids (mm_map1 s) @ [unat (mm_new s)..<unat new1]"
    "unat new1 = unat (mm_new s) + (unat lo - unat (mm_i1 s))"
    using add_range_spec[OF a1 le1 b1] by simp_all
  have le2: "mm_i2 s \<le> hi2" using hi2(2) by (simp add: word_le_nat_alt)
  have b2: "unat new1 + (unat hi2 - unat (mm_i2 s)) < 2 ^ 32"
    using r1(3) lo(2,3) hi2(2,3) small len by simp
  have r2: "range_ids m2 = range_ids (mm_map2 s) @ [unat (mm_i2 s)..<unat hi2]"
    "new_ids m2 = new_ids (mm_map2 s) @ [unat new1..<unat new2]"
    "unat new2 = unat new1 + (unat hi2 - unat (mm_i2 s))"
    using add_range_spec[OF a2 le2 b2] by simp_all
  have below: "shadowed (ps @ [p]) (names1 ! k) = shadowed ps (names1 ! k)" if k: "k < unat (mm_i1 s)" for k
  proof (cases "shadowed ps (names1 ! k)")
    case False
    then obtain q where "q \<in> set ps" "names1 ! k < q" using i k by blast
    then have "names1 ! k < p" using p(2) by (meson less_le_trans)
    then show ?thesis by (auto simp: shadowed_def)
  qed (auto simp: shadowed_def)
  have kept: "\<not> shadowed (ps @ [p]) (names1 ! k)" if "unat (mm_i1 s) \<le> k" "k < unat lo" for k
    using that lo(3,4) i by (auto simp: shadowed_def)
  have gone: "shadowed (ps @ [p]) (names1 ! k)" if k: "unat lo \<le> k" "k < unat hi" for k
  proof -
    have "names1 ! unat lo \<le> names1 ! k" using srt k hi(3) by (intro sorted_nth_mono) auto
    moreover have "p \<le> names1 ! unat lo" using lo(5) k hi(3) by auto
    ultimately show ?thesis using hi(4) k by (auto simp: shadowed_def)
  qed
  have split: "[0..<unat hi] = [0..<unat (mm_i1 s)] @ [unat (mm_i1 s)..<unat lo] @ [unat lo..<unat hi]"
    using lo(2) hi(2) by (metis append_assoc le_add_diff_inverse upt_add_eq_append zero_le)
  have ids1: "range_ids m1 = filter (\<lambda>k. \<not> shadowed (ps @ [p]) (names1 ! k)) [0..<unat hi]"
  proof -
    have "filter (\<lambda>k. \<not> shadowed (ps @ [p]) (names1 ! k)) [0..<unat (mm_i1 s)]
        = filter (\<lambda>k. \<not> shadowed ps (names1 ! k)) [0..<unat (mm_i1 s)]"
      using below by (intro filter_cong) auto
    moreover have "filter (\<lambda>k. \<not> shadowed (ps @ [p]) (names1 ! k)) [unat (mm_i1 s)..<unat lo]
        = [unat (mm_i1 s)..<unat lo]" using kept by (auto simp: filter_id_conv)
    moreover have "filter (\<lambda>k. \<not> shadowed (ps @ [p]) (names1 ! k)) [unat lo..<unat hi] = []"
      using gone by (auto simp: filter_empty_conv)
    ultimately show ?thesis unfolding split r1(1) filter_append using i by simp
  qed
  have above: "\<not> names1 ! k < limit_of q" if k: "unat hi \<le> k" "k < length names1" and q: "q \<in> set (ps @ [p])" for k q
  proof (cases "q \<in> set ps")
    case True
    then show ?thesis using i k lo(2) hi(2) by auto
  next
    case False
    then have "q = p" using q by simp
    moreover have "names1 ! unat hi \<le> names1 ! k" using srt k by (intro sorted_nth_mono) auto
    moreover have "limit_of p \<le> names1 ! unat hi" using hi(5) k by auto
    ultimately show ?thesis by auto
  qed
  have last: "\<exists>q \<in> set (ps @ [p]). names1 ! k < q" if "k < unat hi" "\<not> shadowed (ps @ [p]) (names1 ! k)" for k
  proof -
    consider "k < unat (mm_i1 s)" | "unat (mm_i1 s) \<le> k" "k < unat lo" | "unat lo \<le> k" by linarith
    then show ?thesis
    proof cases
      case 1
      then show ?thesis using below[OF 1] that(2) i by auto
    next
      case 2
      then show ?thesis using lo(4) by auto
    next
      case 3
      then show ?thesis using gone[OF 3 that(1)] that(2) by simp
    qed
  qed
  have "[0..<unat new2] = [0..<unat (mm_new s)] @ [unat (mm_new s)..<unat new1] @ [unat new1..<unat new2]"
    using r1(3) r2(3) by (metis append_assoc le_add1 upt_add_eq_append zero_le)
  then have news: "mset (new_ids m1 @ new_ids m2) = mset [0..<unat new2]"
    using i by (simp add: r1(2) r2(2) del: mset_upt)
  have "range_ids m2 = [0..<unat hi2]"
    using i r2(1) hi2(2) by (metis le_add_diff_inverse upt_add_eq_append zero_le)
  moreover have "unat new2 \<le> unat hi + unat hi2"
    using small(1) r1(3) r2(3) lo(2) hi(2) hi2(2) by linarith
  ultimately show ?thesis unfolding maps_inv_def s'
    using hi(3) hi2(3) ids1 news above last by simp
qed

lemma build_maps_spec:
  assumes n1: "named ix1 names1" and n2: "named ix2 names2" and "sorted names1" and "sorted paths2"
    and "[] \<notin> set paths2" and res: "build_maps ix1 ix2 paths2 = Inr (m1, m2, n)"
  shows "range_ids m1 = filter (\<lambda>i. \<not> shadowed paths2 (names1 ! i)) [0..<length names1]"
    and "range_ids m2 = [0..<length names2]"
    and "mset (new_ids m1 @ new_ids m2) = mset [0..<unat n]"
proof -
  let ?s0 = "\<lparr>mm_i1 = 0, mm_i2 = 0, mm_new = 0, mm_map1 = [], mm_map2 = []\<rparr>"
  obtain s where s: "foldR (shadow_path ix1 ix2) ?s0 paths2 = Inr s"
    "(let (map1, new) = add_range (mm_map1 s) (mm_i1 s) (word_of_int (ix_numName ix1)) (mm_new s)
       in if mm_i2 s < word_of_int (ix_numName ix2) then Inl inconsistent else Inr (map1, mm_map2 s, new))
     = Inr (m1, m2, n)"
    using res by (auto simp: build_maps_def bindR_Inr)
  have "foldR (shadow_path ix1 ix2) ?s0 ps = Inr t \<Longrightarrow> sorted ps \<Longrightarrow> [] \<notin> set ps \<Longrightarrow>
      maps_inv names1 names2 ps t" for ps t
  proof (induction ps arbitrary: t rule: rev_induct)
    case Nil
    then show ?case by (auto simp: maps_inv_def range_ids_def new_ids_def)
  next
    case (snoc p ps)
    then obtain u where u: "foldR (shadow_path ix1 ix2) ?s0 ps = Inr u" "shadow_path ix1 ix2 u p = Inr t"
      by (auto simp: foldR_append bindR_Inr)
    have "maps_inv names1 names2 ps u" using snoc.IH[OF u(1)] snoc.prems by (simp add: sorted_append)
    from shadow_path_inv[OF n1 n2 assms(3) _ _ this u(2)] snoc.prems show ?case
      by (auto simp: sorted_append)
  qed
  from this[OF s(1) assms(4,5)] have inv: "maps_inv names1 names2 paths2 s" .
  note i = inv[unfolded maps_inv_def]
  obtain map1 new where a: "add_range (mm_map1 s) (mm_i1 s) (word_of_int (ix_numName ix1)) (mm_new s) = (map1, new)"
    by fastforce
  have r: "m1 = map1" "m2 = mm_map2 s" "n = new" "\<not> mm_i2 s < word_of_int (ix_numName ix2)"
    using s(2) a by (auto split: if_splits)
  have num: "unat (word_of_int (ix_numName ix1) :: u32) = length names1"
    "unat (word_of_int (ix_numName ix2) :: u32) = length names2" using named_num n1 n2 by auto
  have i2: "unat (mm_i2 s) = length names2" using r(4) i num(2) by (auto simp: word_less_nat_alt)
  have le: "mm_i1 s \<le> word_of_int (ix_numName ix1)" using i num(1) by (simp add: word_le_nat_alt)
  have len: "length names1 < 2 ^ 31" "length names2 < 2 ^ 31" using n1 n2 by (simp_all add: named_def)
  have small: "unat (mm_i1 s) \<le> length names1" "unat (mm_new s) \<le> unat (mm_i1 s) + unat (mm_i2 s)"
    using i by blast+
  have b: "unat (mm_new s) + (unat (word_of_int (ix_numName ix1) :: u32) - unat (mm_i1 s)) < 2 ^ 32"
    using small len i2 num(1) by simp
  note add = add_range_spec[OF a le b, unfolded num(1)]
  have "filter (\<lambda>k. \<not> shadowed paths2 (names1 ! k)) [unat (mm_i1 s)..<length names1] = [unat (mm_i1 s)..<length names1]"
    using i by (auto simp: filter_id_conv shadowed_def)
  moreover have "[0..<length names1] = [0..<unat (mm_i1 s)] @ [unat (mm_i1 s)..<length names1]"
    using small(1) by (metis le_add_diff_inverse upt_add_eq_append zero_le)
  ultimately show "range_ids m1 = filter (\<lambda>i. \<not> shadowed paths2 (names1 ! i)) [0..<length names1]"
    using add(1) i r(1) by simp
  show "range_ids m2 = [0..<length names2]" using i i2 r(2) by simp
  have "[0..<unat new] = [0..<unat (mm_new s)] @ [unat (mm_new s)..<unat new]"
    using add(3) by (metis le_add1 le_add_diff_inverse upt_add_eq_append zero_le)
  then show "mset (new_ids m1 @ new_ids m2) = mset [0..<unat n]"
    using add(2) i by (simp add: r del: mset_upt)
qed

end
