(* ===== verification/Merge_Postings.thy ===== *)
theory Merge_Postings
  imports Merge_Maps Index_Query Index_Write_Correct
begin

text \<open>
  Merging the posting lists. A reader with a map yields the new ids of the documents of its list that
  the map keeps; the loop writes, trigram by trigram, the sorted union of what the two readers
  yield, and ends when both have stepped through their posting list index.
\<close>

subsection \<open>Ids through a map\<close>

definition map_id :: "idrange list \<Rightarrow> u32 \<Rightarrow> u32 option" where
  "map_id m x = (case find (\<lambda>g. x < ir_hi g) m of
       None \<Rightarrow> None
     | Some g \<Rightarrow> if x < ir_lo g then None else Some (ir_new g + x - ir_lo g))"

definition map_ids :: "idrange list \<Rightarrow> u32 list \<Rightarrow> u32 list" where
  "map_ids m fs = List.map_filter (map_id m) fs"

lemma map_ids_simps [simp]:
  "map_ids m [] = []"
  "map_ids m (f # fs) = (case map_id m f of None \<Rightarrow> map_ids m fs | Some x \<Rightarrow> x # map_ids m fs)"
  by (simp_all add: map_ids_def map_filter_simps split: option.split)

lemma advance_map_le: "i \<le> length m \<Longrightarrow> advance_map m i x \<le> length m"
  using length_takeWhile_le[of "\<lambda>g. ir_hi g \<le> x" "drop i m"] by (simp add: advance_map_def)

lemma advance_map_before:
  assumes "\<forall>j < i. ir_hi (m ! j) \<le> x" and "i \<le> length m" and "j < advance_map m i x"
  shows "ir_hi (m ! j) \<le> x"
proof (cases "j < i")
  case False
  then have k: "j - i < length (takeWhile (\<lambda>g. ir_hi g \<le> x) (drop i m))"
    using assms(3) by (simp add: advance_map_def)
  then have "takeWhile (\<lambda>g. ir_hi g \<le> x) (drop i m) ! (j - i) = drop i m ! (j - i)"
    by (rule takeWhile_nth)
  moreover have "ir_hi (takeWhile (\<lambda>g. ir_hi g \<le> x) (drop i m) ! (j - i)) \<le> x"
    using nth_mem[OF k] by (auto dest: set_takeWhileD)
  ultimately show ?thesis using False assms(2) by simp
qed (use assms(1) in simp)

lemma find_at: "k < length m \<Longrightarrow> (\<forall>j < k. \<not> P (m ! j)) \<Longrightarrow> P (m ! k) \<Longrightarrow> find P m = Some (m ! k)"
  by (auto simp: find_Some_iff)

lemma map_id_advance:
  assumes "\<forall>j < i. ir_hi (m ! j) \<le> x" and "i \<le> length m"
  defines "k \<equiv> advance_map m i x"
  shows "map_id m x = (if k \<ge> length m then None else if x < ir_lo (m ! k) then None
    else Some (ir_new (m ! k) + x - ir_lo (m ! k)))"
proof (cases "k \<ge> length m")
  case True
  then have "\<forall>g \<in> set m. ir_hi g \<le> x"
    using advance_map_before[OF assms(1,2)] by (metis assms(3) in_set_conv_nth less_le_trans)
  then have "find (\<lambda>g. x < ir_hi g) m = None" by (auto simp: find_None_iff not_less)
  with True show ?thesis by (simp add: map_id_def)
next
  case False
  then have l: "length (takeWhile (\<lambda>g. ir_hi g \<le> x) (drop i m)) < length (drop i m)"
    by (simp add: k_def advance_map_def)
  have "\<not> ir_hi (drop i m ! length (takeWhile (\<lambda>g. ir_hi g \<le> x) (drop i m))) \<le> x"
    using l by (rule nth_length_takeWhile)
  then have "x < ir_hi (m ! k)" using assms(2) by (simp add: k_def advance_map_def not_le)
  then have "find (\<lambda>g. x < ir_hi g) m = Some (m ! k)"
    using advance_map_before[OF assms(1,2)] False by (intro find_at) (auto simp: k_def not_less)
  with False show ?thesis by (simp add: map_id_def)
qed

subsection \<open>The reader\<close>

definition pm_same :: "postMapReader \<Rightarrow> postMapReader \<Rightarrow> bool" where
  "pm_same r r' \<longleftrightarrow> pm_ix r' = pm_ix r \<and> pm_idmap r' = pm_idmap r \<and> pm_triNum r' = pm_triNum r
     \<and> pm_trigram r' = pm_trigram r"

definition pm_at :: "postMapReader \<Rightarrow> u32 list \<Rightarrow> bool" where
  "pm_at r fs \<longleftrightarrow>
     unat (pm_count r) = length fs \<and> sorted_wrt (<) fs \<and> (\<exists>rest. pm_d r = diff_bytes (pm_oldid r) fs @ rest)
     \<and> (fs \<noteq> [] \<longrightarrow> hd fs \<noteq> pm_oldid r) \<and> pm_i r \<le> length (pm_idmap r)
     \<and> (\<forall>j < pm_i r. \<forall>x \<in> set fs. ir_hi (pm_idmap r ! j) \<le> x)"

definition pm_yields :: "postMapReader \<Rightarrow> u32 list \<Rightarrow> bool" where
  "pm_yields r es \<longleftrightarrow> pm_count r = 0 \<and> es = [] \<or> (\<exists>fs. pm_at r fs \<and> es = map_ids (pm_idmap r) fs)"

lemma pm_nextId_at:
  assumes "pm_at r (f # fs)"
  shows "\<exists>r'. pm_same r r' \<and>
    (if advance_map (pm_idmap r) (pm_i r) f \<ge> length (pm_idmap r)
     then pm_nextId r = Inr (False, r') \<and> pm_count r' = 0 \<and> pm_fileid r' = - 1
     else pm_at r' fs \<and> (case map_id (pm_idmap r) f of
        None \<Rightarrow> pm_nextId r = pm_nextId r'
      | Some x \<Rightarrow> pm_nextId r = Inr (True, r') \<and> pm_fileid r' = x))"
proof -
  obtain rest where d: "pm_d r = uvarint_bytes (f - pm_oldid r) @ diff_bytes f fs @ rest"
    using assms by (auto simp: pm_at_def)
  have uc: "unat (pm_count r) = Suc (length fs)" and ne: "f - pm_oldid r \<noteq> 0" and srt: "sorted_wrt (<) (f # fs)"
    using assms by (auto simp: pm_at_def)
  have c: "pm_count r > 0" using uc by (simp add: word_less_nat_alt)
  let ?dd = "f - pm_oldid r"
  have u: "Uvarint (pm_d r) = (ucast ?dd, int (length (uvarint_bytes ?dd)))"
    by (simp add: d Uvarint_uvarint_bytes)
  have narrow: "(ucast (ucast ?dd :: u64) :: u32) = ?dd"
    by (rule bit_word_eqI) (auto simp: bit_simps)
  have positive: "\<not> (int (length (uvarint_bytes ?dd)) \<le> 0 \<or> ?dd = 0)"
    using conjunct1[OF length_encodings(3)[of ?dd]] ne by linarith
  define k where "k = advance_map (pm_idmap r) (pm_i r) f"
  let ?r = "r\<lparr>pm_count := pm_count r - 1, pm_d := diff_bytes f fs @ rest, pm_oldid := f, pm_i := k\<rparr>"
  have dr: "drop (nat (int (length (uvarint_bytes ?dd)))) (pm_d r) = diff_bytes f fs @ rest"
    by (simp add: d)
  have step: "pm_nextId r =
      (if k \<ge> length (pm_idmap r) then Inr (False, ?r\<lparr>pm_count := 0, pm_fileid := - 1\<rparr>)
       else if f < ir_lo (pm_idmap r ! k) then pm_nextId ?r
       else Inr (True, ?r\<lparr>pm_fileid := ir_new (pm_idmap r ! k) + f - ir_lo (pm_idmap r ! k)\<rparr>))"
    by (subst pm_nextId.simps)
      (simp only: u Let_def prod.case narrow if_not_P[OF positive] dr if_P[OF c] diff_add_cancel
        add.commute[of "pm_oldid r"] k_def)
  have i: "pm_i r \<le> length (pm_idmap r)" "\<forall>j < pm_i r. ir_hi (pm_idmap r ! j) \<le> f"
    using assms by (auto simp: pm_at_def)
  note mid = map_id_advance[OF i(2,1), folded k_def]
  have at: "pm_at ?r fs"
  proof -
    have "unat (pm_count r - 1) = unat (pm_count r) - 1" by (rule unat_minus_one) (use c in auto)
    then have "unat (pm_count r - 1) = length fs" using uc by simp
    moreover have "ir_hi (pm_idmap r ! j) \<le> x" if j: "j < k" and x: "x \<in> set fs" for j x
    proof -
      have "ir_hi (pm_idmap r ! j) \<le> f" using advance_map_before[OF i(2,1)] j by (simp add: k_def)
      also have "f \<le> x" using srt x by auto
      finally show ?thesis .
    qed
    ultimately show ?thesis using srt advance_map_le[OF i(1), of f]
      by (cases fs) (auto simp: pm_at_def k_def)
  qed
  show ?thesis
  proof (cases "k \<ge> length (pm_idmap r)")
    case True
    then show ?thesis unfolding step k_def[symmetric]
      by (intro exI[of _ "?r\<lparr>pm_count := 0, pm_fileid := - 1\<rparr>"]) (simp add: pm_same_def)
  next
    case False
    show ?thesis
    proof (cases "f < ir_lo (pm_idmap r ! k)")
      case True
      with False at show ?thesis unfolding step k_def[symmetric] mid
        by (intro exI[of _ ?r]) (simp add: pm_same_def)
    next
      case lo: False
      let ?x = "ir_new (pm_idmap r ! k) + f - ir_lo (pm_idmap r ! k)"
      have "pm_at (?r\<lparr>pm_fileid := ?x\<rparr>) fs" using at by (simp add: pm_at_def)
      with False lo show ?thesis unfolding step k_def[symmetric] mid
        by (intro exI[of _ "?r\<lparr>pm_fileid := ?x\<rparr>"]) (simp add: pm_same_def)
    qed
  qed
qed

lemma pm_nextId_zero: "pm_count r = 0 \<Longrightarrow> pm_nextId r = Inr (False, r\<lparr>pm_fileid := - 1\<rparr>)"
  by (subst pm_nextId.simps) simp

lemma pm_same_trans: "pm_same r r' \<Longrightarrow> pm_same r' r'' \<Longrightarrow> pm_same r r''"
  by (simp add: pm_same_def)

text \<open>Past the last range nothing is mapped any more.\<close>

lemma map_ids_past:
  assumes "sorted_wrt (<) (f # fs)" and "\<forall>j < i. \<forall>x \<in> set (f # fs). ir_hi (m ! j) \<le> x" and "i \<le> length m"
    and "advance_map m i f \<ge> length m"
  shows "map_ids m (f # fs) = []"
proof -
  have "map_id m x = None" if x: "x \<in> set (f # fs)" for x
  proof -
    have "ir_hi g \<le> x" if g: "g \<in> set m" for g
    proof -
      obtain j where j: "j < length m" "g = m ! j" using g by (auto simp: in_set_conv_nth)
      have "ir_hi (m ! j) \<le> f"
        by (rule advance_map_before[OF _ assms(3)]) (use assms(2,4) j in auto)
      also have "f \<le> x" using assms(1) x by auto
      finally show ?thesis using j by simp
    qed
    then have "find (\<lambda>g. x < ir_hi g) m = None" by (auto simp: find_None_iff not_less)
    then show ?thesis by (simp add: map_id_def)
  qed
  then show ?thesis unfolding map_ids_def List.map_filter_def by (simp add: filter_empty_conv)
qed

lemma pm_nextId_yields:
  assumes "pm_yields r es"
  shows "case es of
      [] \<Rightarrow> \<exists>r'. pm_nextId r = Inr (False, r') \<and> pm_same r r' \<and> pm_count r' = 0 \<and> pm_fileid r' = - 1
    | e # es' \<Rightarrow> \<exists>r'. pm_nextId r = Inr (True, r') \<and> pm_same r r' \<and> pm_fileid r' = e \<and> pm_yields r' es'"
proof -
  have main: "pm_at r fs \<Longrightarrow> case map_ids (pm_idmap r) fs of
      [] \<Rightarrow> \<exists>r'. pm_nextId r = Inr (False, r') \<and> pm_same r r' \<and> pm_count r' = 0 \<and> pm_fileid r' = - 1
    | e # es' \<Rightarrow> \<exists>r'. pm_nextId r = Inr (True, r') \<and> pm_same r r' \<and> pm_fileid r' = e \<and> pm_yields r' es'"
    for fs
  proof (induction fs arbitrary: r)
    case Nil
    then have "pm_count r = 0" by (simp add: pm_at_def unat_eq_0)
    from pm_nextId_zero[OF this] this show ?case by (simp add: pm_same_def)
  next
    case (Cons f fs)
    from pm_nextId_at[OF Cons.prems] obtain r' where r': "pm_same r r'"
      "if advance_map (pm_idmap r) (pm_i r) f \<ge> length (pm_idmap r)
       then pm_nextId r = Inr (False, r') \<and> pm_count r' = 0 \<and> pm_fileid r' = - 1
       else pm_at r' fs \<and> (case map_id (pm_idmap r) f of
          None \<Rightarrow> pm_nextId r = pm_nextId r'
        | Some x \<Rightarrow> pm_nextId r = Inr (True, r') \<and> pm_fileid r' = x)" by blast
    have idm: "pm_idmap r' = pm_idmap r" using r'(1) by (simp add: pm_same_def)
    show ?case
    proof (cases "advance_map (pm_idmap r) (pm_i r) f \<ge> length (pm_idmap r)")
      case True
      have "map_ids (pm_idmap r) (f # fs) = []"
        using Cons.prems True by (intro map_ids_past[of f fs "pm_i r"]) (auto simp: pm_at_def)
      with r' True show ?thesis by (auto simp del: map_ids_simps)
    next
      case False
      then have at: "pm_at r' fs" using r'(2) by simp
      show ?thesis
      proof (cases "map_id (pm_idmap r) f")
        case None
        then have eq: "pm_nextId r = pm_nextId r'" using r'(2) False by simp
        show ?thesis using Cons.IH[OF at] r'(1) None unfolding eq idm
          by (auto split: list.splits intro: pm_same_trans)
      next
        case (Some x)
        then show ?thesis using r' False at idm by (auto simp: pm_yields_def)
      qed
    qed
  qed
  consider (no_more) "pm_count r = 0" "es = []" | (at) fs where "pm_at r fs" "es = map_ids (pm_idmap r) fs"
    using assms by (auto simp: pm_yields_def)
  then show ?thesis
  proof cases
    assume c: "pm_count r = 0" and e: "es = []"
    from pm_nextId_zero[OF c] c show ?thesis by (simp add: e pm_same_def)
  next
    case at
    from main[OF at(1)] show ?thesis unfolding at(2) .
  qed
qed

subsection \<open>The writer\<close>

definition pw_ids :: "postDataWriter \<Rightarrow> u32 list \<Rightarrow> postDataWriter" where
  "pw_ids w es = foldl pw_fileid w es"

lemma pw_ids_simps [simp]: "pw_ids w [] = w" "pw_ids w (e # es) = pw_ids (pw_fileid w e) es"
  by (simp_all add: pw_ids_def)

lemma copy_ids_yields:
  "pm_yields r es \<Longrightarrow> \<exists>r'. copy_ids r w = Inr (r', pw_ids w es) \<and> pm_same r r'"
proof (induction es arbitrary: r w)
  case Nil
  from pm_nextId_yields[OF Nil] obtain r' where "pm_nextId r = Inr (False, r')" "pm_same r r'" by auto
  then show ?case by (subst copy_ids.simps) simp
next
  case (Cons e es)
  from pm_nextId_yields[OF Cons.prems] obtain r' where r': "pm_nextId r = Inr (True, r')" "pm_same r r'"
    "pm_fileid r' = e" "pm_yields r' es" by auto
  from Cons.IH[OF r'(4), of "pw_fileid w e"] obtain r'' where
    "copy_ids r' (pw_fileid w e) = Inr (r'', pw_ids (pw_fileid w e) es)" "pm_same r' r''" by blast
  with r' show ?case by (subst copy_ids.simps) (auto intro: pm_same_trans)
qed

text \<open>A reader whose current id is the first of the rest.\<close>

definition pm_shows :: "postMapReader \<Rightarrow> u32 list \<Rightarrow> bool" where
  "pm_shows r es \<longleftrightarrow> (case es of [] \<Rightarrow> pm_fileid r = - 1 | e # es' \<Rightarrow> pm_fileid r = e \<and> pm_yields r es')"

lemma pm_next_shows:
  assumes "pm_yields r es"
  shows "\<exists>b r'. pm_nextId r = Inr (b, r') \<and> pm_same r r' \<and> pm_shows r' es"
  using pm_nextId_yields[OF assms] by (cases es) (auto simp: pm_shows_def)

lemma merge_ids_shows:
  "pm_shows r1 xs \<Longrightarrow> pm_shows r2 ys \<Longrightarrow> \<forall>x \<in> set xs \<union> set ys. x < - 1 \<Longrightarrow> set xs \<inter> set ys = {} \<Longrightarrow>
     \<exists>r1' r2'. merge_ids r1 r2 w = Inr (r1', r2', pw_ids w (mergeOr xs ys)) \<and> pm_same r1 r1' \<and> pm_same r2 r2'"
proof (induction xs ys arbitrary: r1 r2 w rule: mergeOr.induct)
  case (1 ys)
  then show ?case
  proof (induction ys arbitrary: r2 w)
    case Nil
    then have "merge_ids r1 r2 w = Inr (r1, r2, w)"
      by (subst merge_ids.simps) (simp add: pm_shows_def)
    then show ?case by (simp add: pm_same_def)
  next
    case (Cons y ys)
    then have s: "pm_fileid r1 = - 1" "pm_fileid r2 = y" "pm_yields r2 ys" "y < - 1"
      by (simp_all add: pm_shows_def)
    obtain b r2' where n: "pm_nextId r2 = Inr (b, r2')" "pm_same r2 r2'" "pm_shows r2' ys"
      using pm_next_shows[OF s(3)] by blast
    have "merge_ids r1 r2 w = merge_ids r1 r2' (pw_fileid w y)"
      using s n(1) by (subst merge_ids.simps) (simp add: less_not_sym)
    with Cons.IH[OF Cons.prems(1) n(3), of "pw_fileid w y"] Cons.prems n(2) show ?case
      by (auto intro: pm_same_trans)
  qed
next
  case (2 x xs)
  define zs where "zs = x # xs"
  have "\<exists>r1' r2'. merge_ids r1 r2 w = Inr (r1', r2', pw_ids w zs) \<and> pm_same r1 r1' \<and> pm_same r2 r2'"
    if "pm_shows r1 zs" "pm_fileid r2 = - 1" "\<forall>x \<in> set zs. x < - 1" for r1 w
    using that
  proof (induction zs arbitrary: r1 w)
    case Nil
    then have "merge_ids r1 r2 w = Inr (r1, r2, w)"
      by (subst merge_ids.simps) (simp add: pm_shows_def)
    then show ?case by (simp add: pm_same_def)
  next
    case (Cons y ys)
    then have s: "pm_fileid r1 = y" "pm_yields r1 ys" "y < - 1" by (simp_all add: pm_shows_def)
    obtain b r1' where n: "pm_nextId r1 = Inr (b, r1')" "pm_same r1 r1'" "pm_shows r1' ys"
      using pm_next_shows[OF s(2)] by blast
    have "merge_ids r1 r2 w = merge_ids r1' r2 (pw_fileid w y)"
      using s n(1) Cons.prems(2) by (subst merge_ids.simps) simp
    with Cons.IH[OF n(3) Cons.prems(2), of "pw_fileid w y"] Cons.prems n(2) show ?case
      by (auto intro: pm_same_trans)
  qed
  from this[of r1 w] 2 show ?case by (simp add: zs_def pm_shows_def)
next
  case (3 x xs y ys)
  then have s: "pm_fileid r1 = x" "pm_yields r1 xs" "x < - 1" "pm_fileid r2 = y" "pm_yields r2 ys" "y < - 1" "x \<noteq> y"
    by (auto simp: pm_shows_def)
  obtain b1 r1' where n1: "pm_nextId r1 = Inr (b1, r1')" "pm_same r1 r1'" "pm_shows r1' xs"
    using pm_next_shows[OF s(2)] by blast
  obtain b2 r2' where n2: "pm_nextId r2 = Inr (b2, r2')" "pm_same r2 r2'" "pm_shows r2' ys"
    using pm_next_shows[OF s(5)] by blast
  consider "x < y" | "y < x" "\<not> x < y" using s(7) by (meson less_linear not_less_iff_gr_or_eq)
  then show ?case
  proof cases
    case 1
    have "merge_ids r1 r2 w = merge_ids r1' r2 (pw_fileid w x)"
      using s n1(1) 1 by (subst merge_ids.simps) simp
    with "3.IH"(1)[OF 1 n1(3) "3.prems"(2), of "pw_fileid w x"] "3.prems" 1 n1(2) show ?thesis
      by (auto intro: pm_same_trans)
  next
    case 2
    have "merge_ids r1 r2 w = merge_ids r1 r2' (pw_fileid w y)"
      using s n2(1) 2 by (subst merge_ids.simps) simp
    with "3.IH"(2)[OF 2(2) 2(1) "3.prems"(1) n2(3), of "pw_fileid w y"] "3.prems" 2 n2(2) show ?thesis
      by (auto intro: pm_same_trans)
  qed
qed

lemma pw_ids_fields [simp]:
  "pw_t (pw_ids w es) = pw_t w" "pw_offset (pw_ids w es) = pw_offset w" "pw_base (pw_ids w es) = pw_base w"
  "pw_postIndexFile (pw_ids w es) = pw_postIndexFile w"
  by (induction es arbitrary: w) (simp_all add: pw_fileid_def Let_def)

lemma pw_ids_contents:
  "unat (pw_count w) + length es < 2 ^ 32 \<Longrightarrow>
     unat (pw_count (pw_ids w es)) = unat (pw_count w) + length es
     \<and> contents (pw_out (pw_ids w es)) = contents (pw_out w)
       @ (if es = [] then [] else (if pw_count w = 0 then trigram_bytes (pw_t w) else []) @ diff_bytes (pw_last w) es)"
proof (induction es arbitrary: w)
  case Nil
  then show ?case by simp
next
  case (Cons e es)
  let ?w = "pw_fileid w e"
  have c: "unat (pw_count ?w) = unat (pw_count w) + 1"
    using Cons.prems by (simp add: pw_fileid_def Let_def unat_word_ariths)
  then have ne: "pw_count ?w \<noteq> 0" by (metis add_is_0 one_neq_zero unsigned_0)
  have o: "contents (pw_out ?w) = contents (pw_out w)
      @ (if pw_count w = 0 then trigram_bytes (pw_t w) else []) @ uvarint_bytes (e - pw_last w)"
    "pw_last ?w = e"
    by (simp_all add: pw_fileid_def Let_def codec_simps)
  show ?case using Cons.IH[of ?w] Cons.prems c ne o by simp
qed

definition nonempty :: "posting list \<Rightarrow> posting list" where
  "nonempty gs = filter (\<lambda>g. snd g \<noteq> []) gs"

definition pw_wrote :: "postDataWriter \<Rightarrow> posting list \<Rightarrow> postDataWriter \<Rightarrow> bool" where
  "pw_wrote w gs w' \<longleftrightarrow> pw_base w' = pw_base w
     \<and> contents (pw_out w') = contents (pw_out w) @ lists_section (nonempty gs)
     \<and> contents (pw_postIndexFile w') = contents (pw_postIndexFile w)
        @ list_index_section (length (contents (pw_out w)) - unat (pw_base w)) (nonempty gs)"

definition pw_good :: "postDataWriter \<Rightarrow> bool" where
  "pw_good w \<longleftrightarrow> unat (pw_base w) \<le> length (contents (pw_out w))"

lemma pw_list:
  assumes "pw_trigram w t = Inr w0" and "pw_good w" and "length es < 2 ^ 32"
  shows "pw_wrote w [(t, es)] (pw_endTrigram (pw_ids w0 es))"
proof -
  have len: "length (contents (pw_out w)) < 2 ^ 32"
    and w0: "w0 = w\<lparr>pw_offset := word_of_nat (length (contents (pw_out w))), pw_count := 0, pw_t := t, pw_last := - 1\<rparr>"
    using assms(1) by (auto simp: pw_trigram_def offset_contents bindR_Inr split: if_splits)
  have c: "unat (pw_count (pw_ids w0 es)) = length es"
    "contents (pw_out (pw_ids w0 es)) = contents (pw_out w)
       @ (if es = [] then [] else trigram_bytes t @ diff_bytes (- 1) es)"
    using pw_ids_contents[of w0 es] assms(3) by (simp_all add: w0)
  have off: "(word_of_nat (length (contents (pw_out w))) :: u32) - pw_base w
      = word_of_nat (length (contents (pw_out w)) - unat (pw_base w))"
    using assms(2) by (simp add: pw_good_def of_nat_diff)
  show ?thesis
  proof (cases "es = []")
    case True
    then show ?thesis by (simp add: pw_wrote_def pw_endTrigram_def nonempty_def) (simp add: w0)
  next
    case False
    then have n0: "pw_count (pw_ids w0 es) \<noteq> 0" using c(1) by (metis length_0_conv unsigned_0)
    have cw: "pw_count (pw_ids w0 es) = word_of_nat (length es)" 
      by (simp only: word_unat_eq_iff c(1) unat_of_nat_u32[OF assms(3)])
    show ?thesis using False n0 cw c(2) off
      by (simp add: pw_wrote_def pw_endTrigram_def nonempty_def codec_simps list_bytes_def)
        (simp add: w0)
  qed
qed

lemma list_index_append:
  "list_index_section n (gs @ hs) = list_index_section n gs @ list_index_section (n + length (lists_section gs)) hs"
  by (induction gs arbitrary: n) (simp_all add: add.assoc)

lemma pw_wrote_trans:
  assumes "pw_wrote w gs w'" and "pw_wrote w' hs w''" and "pw_good w"
  shows "pw_wrote w (gs @ hs) w''"
proof -
  have "length (contents (pw_out w')) - unat (pw_base w)
      = length (contents (pw_out w)) - unat (pw_base w) + length (lists_section (nonempty gs))"
    using assms(1,3) by (simp add: pw_wrote_def pw_good_def)
  with assms(1,2) show ?thesis by (simp add: pw_wrote_def nonempty_def list_index_append)
qed

lemma pw_wrote_good: "pw_wrote w gs w' \<Longrightarrow> pw_good w \<Longrightarrow> pw_good w'"
  by (simp add: pw_wrote_def pw_good_def)

subsection \<open>Stepping through the lists\<close>

definition pm_on :: "string list \<Rightarrow> doc list \<Rightarrow> idrange list \<Rightarrow> nat \<Rightarrow> postMapReader \<Rightarrow> bool" where
  "pm_on paths docs m k r \<longleftrightarrow>
     pm_ix r = index_of paths docs \<and> pm_idmap r = m \<and> pm_triNum r = word_of_nat k
     \<and> k \<le> length (postings docs)
     \<and> (if k < length (postings docs)
        then pm_trigram r = fst (postings docs ! k) \<and> pm_yields r (map_ids m (snd (postings docs ! k)))
        else pm_trigram r = - 1)"

lemma postings_bound:
  assumes "length (index_file paths docs) < 2 ^ 32"
  shows "length (postings docs) < 2 ^ 29"
proof -
  have "11 * length (postings docs) < 2 ^ 32"
    using off_le[of paths docs 5] sec_lengths(2)[of paths docs] assms by simp
  then show ?thesis by simp
qed

lemma postings_trigram_less:
  assumes "docs_ok docs" and "length docs \<le> 2 ^ 32" and "k < length (postings docs)"
  shows "fst (postings docs ! k) < 2 ^ 24"
proof -
  have "fst (postings docs ! k) \<in> fst ` set (postings docs)" using assms(3) by simp
  then have "fst (postings docs ! k) = last_trigram \<or> having docs (fst (postings docs ! k)) \<noteq> {}"
    using postings_props(3)[OF assms(1,2)] by blast
  then have "fst (postings docs ! k) = last_trigram \<or> fst (postings docs ! k) < last_trigram"
    using assms(1) by (auto simp: having_def docs_ok_def)
  then show ?thesis using last_trigram_le by auto
qed

lemma list_slice_at:
  assumes small: "length (index_file paths docs) < 2 ^ 32" and k: "k < length (postings docs)"
  shows "\<exists>rest. slice (index_file paths docs)
      (word_of_nat (off paths docs 3) + word_of_nat (length (lists_section (take k (postings docs)))) + 3) (- 1)
    = Inr (diff_bytes (- 1) (snd (postings docs ! k)) @ rest)"
proof -
  let ?gs = "postings docs" and ?F = "index_file paths docs"
  obtain p q where F: "?F = p @ sec paths docs 3 @ q" "length p = off paths docs 3"
    using index_file_split[of 3 paths docs] by auto
  have s3: "sec paths docs 3 = lists_section ?gs" by (simp add: sec_def index_sections_def)
  define pre where "pre = p @ lists_section (take k ?gs) @ trigram_bytes (fst (?gs ! k))"
  define rest where "rest = uvarint_bytes 0 @ lists_section (drop (Suc k) ?gs) @ q"
  have split: "?F = pre @ diff_bytes (- 1) (snd (?gs ! k)) @ rest"
    unfolding F(1) s3 lists_section_at[OF k] list_bytes_def pre_def rest_def by simp
  have lp: "length pre = off paths docs 3 + length (lists_section (take k ?gs)) + 3"
    by (simp add: pre_def F(2) length_encodings)
  have "length pre < 2 ^ 32" using small unfolding split by simp
  from slice_tail[OF this, of "diff_bytes (- 1) (snd (?gs ! k)) @ rest"] show ?thesis
    unfolding split[symmetric] lp by auto
qed

lemma listAt_index_of:
  assumes small: "length (index_file paths docs) < 2 ^ 32" and ok: "docs_ok docs"
    and k: "k < length (postings docs)"
  shows "listAt (index_of paths docs) (word_of_nat k * word_of_nat postEntrySize)
    = Inr (fst (postings docs ! k), word_of_nat (length (snd (postings docs ! k))),
           word_of_nat (length (lists_section (take k (postings docs)))))"
proof -
  let ?gs = "postings docs" and ?F = "index_file paths docs"
  have n: "length docs \<le> 2 ^ 32" using docs_bound[OF small] by simp
  obtain p q where F: "?F = p @ sec paths docs 5 @ q" "length p = off paths docs 5"
    using index_file_split[of 5 paths docs] by auto
  let ?d = "list_index_section 0 ?gs"
  have d5: "sec paths docs 5 = ?d" by (simp add: sec_def index_sections_def)
  obtain rest where r: "drop (k * postEntrySize) ?d = list_entry (?gs ! k) (length (lists_section (take k ?gs))) @ rest"
    using list_index_at[OF k, of 0] by auto
  let ?e = "list_entry (?gs ! k) (length (lists_section (take k ?gs)))"
  let ?pre = "p @ take (k * postEntrySize) ?d"
  have split: "?F = ?pre @ ?e @ (rest @ q)"
    by (simp only: F(1) d5 append_assoc) (metis append.assoc append_take_drop_id r)
  have "k * postEntrySize \<le> length ?d" using k by (simp add: length_list_index_section postEntrySize_def)
  then have lp: "length ?pre = off paths docs 5 + k * postEntrySize" using F(2) by simp
  have le: "length ?e = postEntrySize" by (simp add: list_entry_def postEntrySize_def length_encodings)
  have "length ?pre < 2 ^ 32" using small unfolding split by simp
  from slice_mid[OF this, of ?e "rest @ q"]
  have sl: "slice ?F (word_of_nat (off paths docs 5) + word_of_nat k * word_of_nat postEntrySize) (int postEntrySize) = Inr ?e"
    unfolding split[symmetric] lp le by simp
  have "ix_postIndex (index_of paths docs) = word_of_nat (off paths docs 5)" by (simp add: index_of_def)
  then show ?thesis
    using sl entry_fields[OF postings_trigram_less[OF ok n k], of "length (lists_section (take k ?gs))" "[]"]
    by (simp add: listAt_def)
qed

lemma pm_load_on:
  assumes small: "length (index_file paths docs) < 2 ^ 32" and ok: "docs_ok docs"
    and k: "k \<le> length (postings docs)"
    and r: "pm_ix r = index_of paths docs" "pm_idmap r = m" "pm_triNum r = word_of_nat k"
  shows "\<exists>r'. pm_load r = Inr r' \<and> pm_on paths docs m k r'"
proof -
  have n: "length docs \<le> 2 ^ 32" using docs_bound[OF small] by simp
  have pb: "length (postings docs) < 2 ^ 29" by (rule postings_bound[OF small])
  have num: "pm_triNum r \<ge> word_of_int (ix_numPost (pm_ix r)) \<longleftrightarrow> length (postings docs) \<le> k"
    using pb k r by (simp add: index_of_def word_le_nat_alt unat_of_nat_u32)
  show ?thesis
  proof (cases "k < length (postings docs)")
    case False
    then show ?thesis using num r k by (simp add: pm_load_def pm_on_def)
  next
    case True
    let ?g = "postings docs ! k"
    note la = listAt_index_of[OF small ok True]
    have fs: "snd ?g = listing docs (having docs (fst ?g))" using postings_at[OF True ok n] by (metis snd_conv)
    have lg: "length (snd ?g) < 2 ^ 30" using length_listing_le[of docs] docs_bound[OF small] fs
      by (metis le_less_trans)
    show ?thesis
    proof (cases "snd ?g = []")
      case e: True
      then show ?thesis using True num r k la by (simp add: pm_load_def pm_on_def pm_yields_def)
    next
      case False
      obtain rest where sl: "slice (index_file paths docs) (word_of_nat (off paths docs 3)
          + word_of_nat (length (lists_section (take k (postings docs)))) + 3) (- 1)
        = Inr (diff_bytes (- 1) (snd ?g) @ rest)"
        using list_slice_at[OF small True] by blast
      have c: "unat (word_of_nat (length (snd ?g)) :: u32) = length (snd ?g)"
        using lg by (intro unat_of_nat_u32) simp
      then have c0: "(word_of_nat (length (snd ?g)) :: u32) \<noteq> 0" using False by (metis length_0_conv unsigned_0)
      let ?r = "r\<lparr>pm_trigram := fst ?g, pm_count := word_of_nat (length (snd ?g)),
        pm_offset := word_of_nat (length (lists_section (take k (postings docs)))),
        pm_d := diff_bytes (- 1) (snd ?g) @ rest, pm_oldid := - 1, pm_i := 0\<rparr>"
      have "pm_load r = Inr ?r"
        using True num r la sl c0 by (simp add: pm_load_def)
      moreover have "pm_at ?r (snd ?g)"
      proof -
        have "x \<noteq> - 1" if x: "x \<in> set (snd ?g)" for x
        proof
          assume "x = - 1"
          moreover obtain j where j: "j < length docs" "x = word_of_nat j"
            using x fs by (auto simp: listing_def set_universe)
          ultimately have "unat (word_of_nat j :: u32) = unat (- 1 :: u32)" by simp
          moreover have "unat (word_of_nat j :: u32) = j"
            using j(1) docs_bound[OF small] by (intro unat_of_nat_u32) simp
          ultimately show False using j(1) docs_bound[OF small]
            by (simp add: unsigned_minus_1_eq_mask mask_eq_exp_minus_1)
        qed
        then have "hd (snd ?g) \<noteq> - 1" using False by simp
        then show ?thesis using c sorted_listing[OF n] fs by (simp add: pm_at_def)
      qed
      then have "pm_yields ?r (map_ids m (snd ?g))" using r unfolding pm_yields_def
        by (intro disjI2 exI[of _ "snd ?g"]) simp
      ultimately show ?thesis using True r k by (intro exI[of _ ?r]) (simp add: pm_on_def)
    qed
  qed
qed

lemma pm_nextTrigram_on:
  assumes "length (index_file paths docs) < 2 ^ 32" and "docs_ok docs"
    and "pm_on paths docs m k r" and "k < length (postings docs)" and "pm_same r r'"
  shows "\<exists>r''. pm_nextTrigram r' = Inr r'' \<and> pm_on paths docs m (Suc k) r''"
proof -
  have "pm_ix (r'\<lparr>pm_triNum := pm_triNum r' + 1\<rparr>) = index_of paths docs"
    "pm_idmap (r'\<lparr>pm_triNum := pm_triNum r' + 1\<rparr>) = m"
    "pm_triNum (r'\<lparr>pm_triNum := pm_triNum r' + 1\<rparr>) = word_of_nat (Suc k)"
    using assms(3,5) by (simp_all add: pm_on_def pm_same_def)
  from pm_load_on[OF assms(1,2) _ this] assms(4) show ?thesis by (simp add: pm_nextTrigram_def)
qed

subsection \<open>The loop\<close>

fun merge_groups :: "posting list \<Rightarrow> posting list \<Rightarrow> posting list" where
  "merge_groups [] hs = hs"
| "merge_groups gs [] = gs"
| "merge_groups ((t, a) # gs) ((u, b) # hs) =
     (if t < u then (t, a) # merge_groups gs ((u, b) # hs)
      else if u < t then (u, b) # merge_groups ((t, a) # gs) hs
      else (t, mergeOr a b) # merge_groups gs hs)"

text \<open>The lists of an index from the \<open>k\<close>-th on, through a map.\<close>

definition mapped :: "idrange list \<Rightarrow> doc list \<Rightarrow> nat \<Rightarrow> posting list" where
  "mapped m docs k = map (\<lambda>g. (fst g, map_ids m (snd g))) (drop k (postings docs))"

lemma mapped_step:
  "k < length (postings docs) \<Longrightarrow>
     mapped m docs k = (fst (postings docs ! k), map_ids m (snd (postings docs ! k))) # mapped m docs (Suc k)"
  by (simp add: mapped_def flip: Cons_nth_drop_Suc)

lemma mapped_end: "mapped m docs (length (postings docs)) = []"
  by (simp add: mapped_def)

text \<open>The two maps give every new id once, and none is \<^verbatim>\<open>^uint32(0)\<close>.\<close>

definition maps_apart :: "idrange list \<Rightarrow> idrange list \<Rightarrow> bool" where
  "maps_apart m1 m2 \<longleftrightarrow>
     (\<forall>x a. map_id m1 x = Some a \<longrightarrow> a < - 1) \<and> (\<forall>x a. map_id m2 x = Some a \<longrightarrow> a < - 1)
     \<and> (\<forall>x y a. map_id m1 x = Some a \<longrightarrow> map_id m2 y \<noteq> Some a)"

lemma in_map_ids: "a \<in> set (map_ids m fs) \<Longrightarrow> \<exists>x. map_id m x = Some a"
  by (auto simp: map_ids_def List.map_filter_def)

lemma map_ids_apart:
  assumes "maps_apart m1 m2"
  shows "\<forall>a \<in> set (map_ids m1 fs) \<union> set (map_ids m2 gs). a < - 1"
    and "set (map_ids m1 fs) \<inter> set (map_ids m2 gs) = {}"
  using assms in_map_ids[of _ m1 fs] in_map_ids[of _ m2 gs] unfolding maps_apart_def by blast+

lemma length_map_ids_le: "length (map_ids m fs) \<le> length fs"
  by (simp add: map_ids_def List.map_filter_def)

lemma length_mergeOr_le: "length (mergeOr l1 l2) \<le> length l1 + length l2"
  by (induction l1 l2 rule: mergeOr.induct) auto

lemma pw_trigram_cases: "pw_trigram w t = Inl tooLarge \<or> (\<exists>w'. pw_trigram w t = Inr w')"
  by (simp add: pw_trigram_def offset_contents tooLarge_def)

lemma merge_groups_Nil2 [simp]: "merge_groups gs [] = gs"
  by (cases gs) auto

lemma pm_on_trigram:
  assumes "length (index_file paths docs) < 2 ^ 32" and "docs_ok docs" and "pm_on paths docs m k r"
  shows "k < length (postings docs) \<longleftrightarrow> pm_trigram r \<noteq> - 1" and "k \<le> length (postings docs)"
proof -
  have "length docs \<le> 2 ^ 32" using docs_bound[OF assms(1)] by simp
  then have "fst (postings docs ! k) \<noteq> - 1" if "k < length (postings docs)"
    using postings_trigram_less[OF assms(2) _ that]
    by (auto simp: word_less_nat_alt unsigned_minus_1_eq_mask mask_eq_exp_minus_1)
  then show "k < length (postings docs) \<longleftrightarrow> pm_trigram r \<noteq> - 1" "k \<le> length (postings docs)"
    using assms(3) by (auto simp: pm_on_def split: if_splits)
qed

lemma pw_list_length:
  assumes "length (index_file paths docs) < 2 ^ 32" and "docs_ok docs" and "k < length (postings docs)"
  shows "length (map_ids m (snd (postings docs ! k))) < 2 ^ 30"
proof -
  have "length docs \<le> 2 ^ 32" using docs_bound[OF assms(1)] by simp
  then have "snd (postings docs ! k) = listing docs (having docs (fst (postings docs ! k)))"
    using postings_at[OF assms(3,2)] by (metis snd_conv)
  then have "length (snd (postings docs ! k)) \<le> length docs" by (simp add: length_listing_le)
  then show ?thesis using length_map_ids_le[of m "snd (postings docs ! k)"] docs_bound[OF assms(1)] by linarith
qed

text \<open>The step of the loop for one reader.\<close>

lemma one_list_step:
  assumes small: "length (index_file paths docs) < 2 ^ 32" and ok: "docs_ok docs"
    and on: "pm_on paths docs m k r" "k < length (postings docs)" and w: "pw_good w"
  defines "g \<equiv> (fst (postings docs ! k), map_ids m (snd (postings docs ! k)))"
  defines "step \<equiv> bindR (pw_trigram w (pm_trigram r)) (\<lambda>w. bindR (copy_ids r w) (\<lambda>(r, w).
                bindR (pm_nextTrigram r) (\<lambda>r. Inr (r, pw_endTrigram w))))"
  shows "step = Inl tooLarge \<or> (\<exists>r' w'. step = Inr (r', w') \<and> pm_on paths docs m (Suc k) r' \<and> pw_wrote w [g] w')"
proof -
  have t: "pm_trigram r = fst g" and y: "pm_yields r (snd g)" using on by (simp_all add: pm_on_def g_def)
  consider "pw_trigram w (pm_trigram r) = Inl tooLarge" | w0 where "pw_trigram w (pm_trigram r) = Inr w0"
    using pw_trigram_cases by blast
  then show ?thesis
  proof cases
    case 1
    then show ?thesis by (simp add: step_def)
  next
    case (2 w0)
    obtain r' where c: "copy_ids r w0 = Inr (r', pw_ids w0 (snd g))" "pm_same r r'"
      using copy_ids_yields[OF y] by blast
    obtain r'' where n: "pm_nextTrigram r' = Inr r''" "pm_on paths docs m (Suc k) r''"
      using pm_nextTrigram_on[OF small ok on c(2)] by blast
    have "pw_wrote w [(fst g, snd g)] (pw_endTrigram (pw_ids w0 (snd g)))"
      using 2 w pw_list_length[OF small ok on(2), of m] by (intro pw_list) (simp_all add: t g_def)
    with 2 c n show ?thesis by (simp add: step_def)
  qed
qed

lemma merge_postings_spec:
  assumes s1: "length (index_file p1 d1) < 2 ^ 32" "docs_ok d1"
    and s2: "length (index_file p2 d2) < 2 ^ 32" "docs_ok d2" and apart: "maps_apart m1 m2"
  shows "pm_on p1 d1 m1 k1 r1 \<Longrightarrow> pm_on p2 d2 m2 k2 r2 \<Longrightarrow> pw_good w \<Longrightarrow>
    merge_postings r1 r2 w = Some (Inl tooLarge)
    \<or> (\<exists>w'. merge_postings r1 r2 w = Some (Inr w')
          \<and> pw_wrote w (merge_groups (mapped m1 d1 k1) (mapped m2 d2 k2)) w')"
proof (induction "(length (postings d1) - k1) + (length (postings d2) - k2)" arbitrary: k1 k2 r1 r2 w
    rule: less_induct)
  case less
  note on1 = less.prems(1) and on2 = less.prems(2) and good = less.prems(3)
  note t1 = pm_on_trigram[OF s1 on1] and t2 = pm_on_trigram[OF s2 on2]
  let ?G = "merge_groups (mapped m1 d1 k1) (mapped m2 d2 k2)"
  have finish: "?case" if w': "pw_wrote w [g] w'" and G: "?G = g # H"
    and eq: "merge_postings r1 r2 w = merge_postings r1' r2' w'"
    and ih: "merge_postings r1' r2' w' = Some (Inl tooLarge) \<or>
      (\<exists>w''. merge_postings r1' r2' w' = Some (Inr w'') \<and> pw_wrote w' H w'')" for g w' H r1' r2'
    using ih pw_wrote_trans[OF w' _ good, of H] unfolding eq G by auto
  consider (one) "pm_trigram r1 < pm_trigram r2" | (two) "pm_trigram r2 < pm_trigram r1"
    | (both) "pm_trigram r1 = pm_trigram r2" "pm_trigram r1 \<noteq> - 1"
    | (stop) "pm_trigram r1 = pm_trigram r2" "pm_trigram r1 = - 1"
    by (meson less_linear)
  then show ?case
  proof cases
    case one
    then have "pm_trigram r1 \<noteq> - 1" by (metis not_less word_order.extremum)
    then have k: "k1 < length (postings d1)" using t1 by blast
    let ?g = "(fst (postings d1 ! k1), map_ids m1 (snd (postings d1 ! k1)))"
    have tr: "pm_trigram r1 = fst ?g" using on1 k by (simp add: pm_on_def)
    from one_list_step[OF s1 on1 k good]
    show ?thesis
    proof (elim disjE exE conjE)
      fix r' w' assume st: "bindR (pw_trigram w (pm_trigram r1)) (\<lambda>w. bindR (copy_ids r1 w) (\<lambda>(r, w).
                bindR (pm_nextTrigram r) (\<lambda>r. Inr (r, pw_endTrigram w)))) = Inr (r', w')"
        and r': "pm_on p1 d1 m1 (Suc k1) r'" and w': "pw_wrote w [?g] w'"
      have G: "?G = ?g # merge_groups (mapped m1 d1 (Suc k1)) (mapped m2 d2 k2)"
      proof (cases "k2 < length (postings d2)")
        case True
        then have "fst (postings d2 ! k2) = pm_trigram r2" using on2 by (simp add: pm_on_def)
        with one tr show ?thesis by (simp add: mapped_step[OF k] mapped_step[OF True])
      next
        case False
        then have "k2 = length (postings d2)" using t2(2) by simp
        then show ?thesis by (simp add: mapped_step[OF k] mapped_end)
      qed
      have "merge_postings r1 r2 w = merge_postings r' r2 w'"
        using one st by (subst merge_postings.simps) simp
      then show ?thesis
        by (rule finish[OF w' G]) (rule less.hyps, use k r' on2 pw_wrote_good[OF w' good] in auto)
    qed (use one in \<open>subst merge_postings.simps, simp\<close>)
  next
    case two
    then have "pm_trigram r2 \<noteq> - 1" by (metis not_less word_order.extremum)
    then have k: "k2 < length (postings d2)" using t2 by blast
    let ?g = "(fst (postings d2 ! k2), map_ids m2 (snd (postings d2 ! k2)))"
    have tr: "pm_trigram r2 = fst ?g" using on2 k by (simp add: pm_on_def)
    have n: "\<not> pm_trigram r1 < pm_trigram r2" using two by (rule less_not_sym)
    from one_list_step[OF s2 on2 k good]
    show ?thesis
    proof (elim disjE exE conjE)
      fix r' w' assume st: "bindR (pw_trigram w (pm_trigram r2)) (\<lambda>w. bindR (copy_ids r2 w) (\<lambda>(r, w).
                bindR (pm_nextTrigram r) (\<lambda>r. Inr (r, pw_endTrigram w)))) = Inr (r', w')"
        and r': "pm_on p2 d2 m2 (Suc k2) r'" and w': "pw_wrote w [?g] w'"
      have G: "?G = ?g # merge_groups (mapped m1 d1 k1) (mapped m2 d2 (Suc k2))"
      proof (cases "k1 < length (postings d1)")
        case True
        then have "fst (postings d1 ! k1) = pm_trigram r1" using on1 by (simp add: pm_on_def)
        with two n tr show ?thesis by (simp add: mapped_step[OF k] mapped_step[OF True])
      next
        case False
        then have "k1 = length (postings d1)" using t1(2) by simp
        then show ?thesis by (simp add: mapped_step[OF k] mapped_end)
      qed
      have "merge_postings r1 r2 w = merge_postings r1 r' w'"
        using two n st by (subst merge_postings.simps) simp
      then show ?thesis
        by (rule finish[OF w' G]) (rule less.hyps, use k r' on1 pw_wrote_good[OF w' good] in auto)
    qed (use two n in \<open>subst merge_postings.simps, simp\<close>)
  next
    case both
    then have k1: "k1 < length (postings d1)" and k2: "k2 < length (postings d2)" using t1 t2 by auto
    let ?a = "map_ids m1 (snd (postings d1 ! k1))" and ?b = "map_ids m2 (snd (postings d2 ! k2))"
    let ?t = "fst (postings d1 ! k1)"
    have tr: "pm_trigram r1 = ?t" "fst (postings d2 ! k2) = ?t" "pm_yields r1 ?a" "pm_yields r2 ?b"
      using on1 on2 k1 k2 both(1) by (simp_all add: pm_on_def)
    consider "pw_trigram w ?t = Inl tooLarge" | w0 where "pw_trigram w ?t = Inr w0"
      using pw_trigram_cases by blast
    then show ?thesis
    proof cases
      case 1
      with both tr(1) show ?thesis by (subst merge_postings.simps) simp
    next
      case (2 w0)
      obtain b1 q1 where n1: "pm_nextId r1 = Inr (b1, q1)" "pm_same r1 q1" "pm_shows q1 ?a"
        using pm_next_shows[OF tr(3)] by blast
      obtain b2 q2 where n2: "pm_nextId r2 = Inr (b2, q2)" "pm_same r2 q2" "pm_shows q2 ?b"
        using pm_next_shows[OF tr(4)] by blast
      obtain u1 u2 where mi: "merge_ids q1 q2 w0 = Inr (u1, u2, pw_ids w0 (mergeOr ?a ?b))"
        "pm_same q1 u1" "pm_same q2 u2"
        using merge_ids_shows[OF n1(3) n2(3) map_ids_apart[OF apart]] by blast
      obtain v1 where v1: "pm_nextTrigram u1 = Inr v1" "pm_on p1 d1 m1 (Suc k1) v1"
        using pm_nextTrigram_on[OF s1 on1 k1 pm_same_trans[OF n1(2) mi(2)]] by blast
      obtain v2 where v2: "pm_nextTrigram u2 = Inr v2" "pm_on p2 d2 m2 (Suc k2) v2"
        using pm_nextTrigram_on[OF s2 on2 k2 pm_same_trans[OF n2(2) mi(3)]] by blast
      let ?w = "pw_endTrigram (pw_ids w0 (mergeOr ?a ?b))"
      have "length (mergeOr ?a ?b) < 2 ^ 32"
        using length_mergeOr_le[of ?a ?b] pw_list_length[OF s1 k1, of m1] pw_list_length[OF s2 k2, of m2] by simp
      then have w': "pw_wrote w [(?t, mergeOr ?a ?b)] ?w" using 2 good by (intro pw_list)
      have G: "?G = (?t, mergeOr ?a ?b) # merge_groups (mapped m1 d1 (Suc k1)) (mapped m2 d2 (Suc k2))"
        using tr(2) by (simp add: mapped_step[OF k1] mapped_step[OF k2])
      have "merge_postings r1 r2 w = merge_postings v1 v2 ?w"
        using both 2 n1(1) n2(1) mi(1) v1(1) v2(1) tr(1) by (subst merge_postings.simps) simp
      then show ?thesis
        by (rule finish[OF w' G]) (rule less.hyps, use k1 k2 v1 v2 pw_wrote_good[OF w' good] in auto)
    qed
  next
    case stop
    then have "k1 = length (postings d1)" "k2 = length (postings d2)" using t1 t2 by auto
    then have "pw_wrote w ?G w" by (simp add: mapped_end pw_wrote_def nonempty_def)
    moreover have "merge_postings r1 r2 w = Some (Inr w)"
      using stop by (subst merge_postings.simps) simp
    ultimately show ?thesis by blast
  qed
qed

end
