(* ===== verification/Merge_Correct.thy ===== *)
theory Merge_Correct
  imports Merge_Postings
begin

text \<open>
  The merge as a whole: the maps give every document that stays a new id of its own, so the merged
  posting lists list for every trigram the new ids of the documents with it.
\<close>

subsection \<open>The maps as functions\<close>

definition solid :: "idrange list \<Rightarrow> bool" where
  "solid m \<longleftrightarrow> sorted_wrt (<) (range_ids m) \<and> (\<forall>g \<in> set m. ir_lo g < ir_hi g)"

lemma range_ids_simps [simp]:
  "range_ids [] = []" "range_ids (g # m) = [unat (ir_lo g)..<unat (ir_hi g)] @ range_ids m"
  by (simp_all add: range_ids_def)

lemma new_ids_simps [simp]:
  "new_ids [] = []"
  "new_ids (g # m) = [unat (ir_new g)..<unat (ir_new g) + (unat (ir_hi g) - unat (ir_lo g))] @ new_ids m"
  by (simp_all add: new_ids_def)

lemma map_id_simps [simp]:
  "map_id [] x = None"
  "map_id (g # m) x =
     (if x < ir_hi g then if x < ir_lo g then None else Some (ir_new g + x - ir_lo g) else map_id m x)"
  by (simp_all add: map_id_def)

lemma solid_Cons:
  "solid (g # m) \<longleftrightarrow> solid m \<and> ir_lo g < ir_hi g \<and> (\<forall>i \<in> set (range_ids m). unat (ir_hi g) \<le> i)"
proof -
  have last: "unat (ir_hi g) - 1 \<in> {unat (ir_lo g)..<unat (ir_hi g)}" if "unat (ir_lo g) < unat (ir_hi g)"
    using that by auto
  show ?thesis
    by (auto simp: solid_def sorted_wrt_append word_less_nat_alt dest!: bspec[OF _ last] dest: last
        intro: Suc_leI)
qed

lemma range_ids_less: "i \<in> set (range_ids m) \<Longrightarrow> i < 2 ^ 32"
proof (induction m)
  case (Cons g m)
  have "unat (ir_hi g) < 2 ^ 32" using unsigned_less[of "ir_hi g", where 'a=nat] by simp
  with Cons show ?case by auto
qed simp

lemma map_id_dom: "solid m \<Longrightarrow> map_id m x \<noteq> None \<longleftrightarrow> unat x \<in> set (range_ids m)"
proof (induction m)
  case (Cons g m)
  then show ?case by (auto simp: solid_Cons word_less_nat_alt not_less)
qed simp

lemma map_id_new: "solid m \<Longrightarrow>
  map (\<lambda>i. map_id m (word_of_nat i)) (range_ids m) = map (\<lambda>a. Some (word_of_nat a)) (new_ids m)"
proof (induction m)
  case (Cons g m)
  let ?lo = "unat (ir_lo g)" and ?hi = "unat (ir_hi g)" and ?new = "unat (ir_new g)"
  have s: "solid m" "ir_lo g < ir_hi g" "\<forall>i \<in> set (range_ids m). ?hi \<le> i"
    using Cons.prems by (auto simp: solid_Cons)
  have u: "unat (word_of_nat i :: u32) = i" if "i < ?hi \<or> i \<in> set (range_ids m)" for i
    using that range_ids_less[of i m] less_trans[OF _ unsigned_less, of i "ir_hi g"]
    by (auto simp: unat_of_nat_u32)
  have "map (\<lambda>i. map_id (g # m) (word_of_nat i)) [?lo..<?hi]
      = map (\<lambda>a. Some (word_of_nat a)) [?new..<?new + (?hi - ?lo)]"
  proof (rule nth_equalityI)
    fix j assume "j < length (map (\<lambda>i. map_id (g # m) (word_of_nat i)) [?lo..<?hi])"
    then have j: "?lo + j < ?hi" by simp
    then show "map (\<lambda>i. map_id (g # m) (word_of_nat i)) [?lo..<?hi] ! j
        = map (\<lambda>a. Some (word_of_nat a)) [?new..<?new + (?hi - ?lo)] ! j"
      using u[of "?lo + j"] by (simp add: word_less_nat_alt del: of_nat_add) simp
  qed simp
  moreover have "map (\<lambda>i. map_id (g # m) (word_of_nat i)) (range_ids m)
      = map (\<lambda>i. map_id m (word_of_nat i)) (range_ids m)"
    using s(3) u by (intro map_cong) (auto simp: word_less_nat_alt not_less)
  ultimately show ?case using Cons.IH[OF s(1)] by simp
qed simp

lemma map_id_image:
  assumes "solid m" shows "{a. \<exists>x. map_id m x = Some a} = word_of_nat ` set (new_ids m)"
proof -
  have "{a. \<exists>x. map_id m x = Some a} = {a. Some a \<in> (\<lambda>i. map_id m (word_of_nat i)) ` set (range_ids m)}"
    using map_id_dom[OF assms] by (force simp: image_iff)
  also have "\<dots> = word_of_nat ` set (new_ids m)"
    using arg_cong[OF map_id_new[OF assms], of set] by auto
  finally show ?thesis .
qed

lemma solid_maps_apart:
  assumes "solid m1" and "solid m2" and ids: "mset (new_ids m1 @ new_ids m2) = mset [0..<unat (n :: u32)]"
  shows "maps_apart m1 m2"
proof -
  have d: "distinct (new_ids m1 @ new_ids m2)" and s: "set (new_ids m1) \<union> set (new_ids m2) = {0..<unat n}"
    using ids by (metis distinct_upt mset_eq_imp_distinct_iff, metis atLeastLessThan_upt mset_eq_setD set_append)
  have lt: "a < unat n" if "a \<in> set (new_ids m1) \<union> set (new_ids m2)" for a using that s by simp
  have small: "(word_of_nat a :: u32) < - 1" "unat (word_of_nat a :: u32) = a" if "a < unat n" for a
  proof -
    have "a < 2 ^ 32 - 1" using that unsigned_less[of n, where 'a=nat] by simp
    then show "(word_of_nat a :: u32) < - 1" "unat (word_of_nat a :: u32) = a"
      by (simp_all add: word_less_nat_alt unat_of_nat_u32 unsigned_minus_1_eq_mask mask_eq_exp_minus_1)
  qed
  have i1: "\<exists>a \<in> set (new_ids m1). e = word_of_nat a" if "map_id m1 x = Some e" for x e
    using map_id_image[OF assms(1)] that by blast
  have i2: "\<exists>a \<in> set (new_ids m2). e = word_of_nat a" if "map_id m2 x = Some e" for x e
    using map_id_image[OF assms(2)] that by blast
  show ?thesis unfolding maps_apart_def
  proof (intro conjI allI impI notI)
    fix x e assume "map_id m1 x = Some e" then show "e < - 1" using i1 small(1) lt by blast
  next
    fix x e assume "map_id m2 x = Some e" then show "e < - 1" using i2 small(1) lt by blast
  next
    fix x y e assume "map_id m1 x = Some e" "map_id m2 y = Some e"
    then obtain a b where "a \<in> set (new_ids m1)" "b \<in> set (new_ids m2)" "e = word_of_nat a" "e = word_of_nat b"
      using i1 i2 by blast
    then have "a = b" using small(2) lt by (metis Un_iff)
    with \<open>a \<in> set (new_ids m1)\<close> \<open>b \<in> set (new_ids m2)\<close> d show False by auto
  qed
qed

lemma build_maps_nonempty:
  assumes "build_maps ix1 ix2 paths2 = Inr (m1, m2, n)"
  shows "\<forall>g \<in> set m1 \<union> set m2. ir_lo g < ir_hi g"
proof -
  let ?P = "\<lambda>s. \<forall>g \<in> set (mm_map1 s) \<union> set (mm_map2 s). ir_lo g < ir_hi g"
  have step: "?P s'" if "?P s" "shadow_path ix1 ix2 s p = Inr s'" for s s' p
    using that by (auto simp: shadow_path_def bindR_Inr Let_def split_beta add_range_def split: if_splits)
  have run: "?P s \<Longrightarrow> foldR (shadow_path ix1 ix2) s ps = Inr t \<Longrightarrow> ?P t" for s t ps
  proof (induction ps arbitrary: s)
    case (Cons p ps)
    then obtain u where "shadow_path ix1 ix2 s p = Inr u" "foldR (shadow_path ix1 ix2) u ps = Inr t"
      by (auto simp: bindR_Inr)
    with Cons.IH[of u] step[OF Cons.prems(1)] show ?case by blast
  qed simp
  obtain s where s: "foldR (shadow_path ix1 ix2)
      \<lparr>mm_i1 = 0, mm_i2 = 0, mm_new = 0, mm_map1 = [], mm_map2 = []\<rparr> paths2 = Inr s"
    "(let (map1, new) = add_range (mm_map1 s) (mm_i1 s) (word_of_int (ix_numName ix1)) (mm_new s)
       in if mm_i2 s < word_of_int (ix_numName ix2) then Inl inconsistent else Inr (map1, mm_map2 s, new))
     = Inr (m1, m2, n)"
    using assms by (auto simp: build_maps_def bindR_Inr)
  have "?P s" by (rule run[OF _ s(1)]) simp
  with s(2) show ?thesis
    by (auto simp: Let_def split_beta add_range_def split: if_splits)
qed

subsection \<open>The merged lists\<close>

definition merged_lists :: "idrange list \<Rightarrow> doc list \<Rightarrow> idrange list \<Rightarrow> doc list \<Rightarrow> posting list" where
  "merged_lists m1 d1 m2 d2 = nonempty (merge_groups (mapped m1 d1 0) (mapped m2 d2 0))"

lemma merge_groups_members:
  "(\<exists>ids. (t, ids) \<in> set (merge_groups gs hs) \<and> a \<in> set ids)
     \<longleftrightarrow> (\<exists>ids. (t, ids) \<in> set gs \<and> a \<in> set ids) \<or> (\<exists>ids. (t, ids) \<in> set hs \<and> a \<in> set ids)"
proof (induction gs hs rule: merge_groups.induct)
  case (3 t' x gs u y hs)
  then show ?case by (cases t' u rule: linorder_cases) auto
qed simp_all

lemma set_map_ids: "set (map_ids m fs) = {a. \<exists>x \<in> set fs. map_id m x = Some a}"
  by (force simp: map_ids_def List.map_filter_def)

lemma postings_members:
  assumes "docs_ok docs" and "length docs \<le> 2 ^ 32"
  shows "(\<exists>ids. (t, ids) \<in> set (postings docs) \<and> x \<in> set ids) \<longleftrightarrow> x \<in> having docs t"
proof
  assume "\<exists>ids. (t, ids) \<in> set (postings docs) \<and> x \<in> set ids"
  then show "x \<in> having docs t" by (auto simp: set_listing dest!: postings_props(2)[OF assms])
next
  assume x: "x \<in> having docs t"
  then obtain ids where "(t, ids) \<in> set (postings docs)" using postings_props(3)[OF assms, of t] by fastforce
  moreover have "x \<in> set ids"
    using x having_universe[of docs t] postings_props(2)[OF assms calculation] by (auto simp: set_listing)
  ultimately show "\<exists>ids. (t, ids) \<in> set (postings docs) \<and> x \<in> set ids" by blast
qed

lemma mapped_members:
  assumes "docs_ok docs" and "length docs \<le> 2 ^ 32"
  shows "(\<exists>ids. (t, ids) \<in> set (mapped m docs 0) \<and> a \<in> set ids)
     \<longleftrightarrow> (\<exists>x \<in> having docs t. map_id m x = Some a)"
proof -
  have "(\<exists>ids. (t, ids) \<in> set (mapped m docs 0) \<and> a \<in> set ids)
      \<longleftrightarrow> (\<exists>fs. (t, fs) \<in> set (postings docs) \<and> (\<exists>x \<in> set fs. map_id m x = Some a))"
    by (force simp: mapped_def set_map_ids)
  also have "\<dots> \<longleftrightarrow> (\<exists>x \<in> having docs t. map_id m x = Some a)"
    using postings_members[OF assms, of t] by blast
  finally show ?thesis .
qed

lemma merged_lists_members:
  assumes "docs_ok d1" and "length d1 \<le> 2 ^ 32" and "docs_ok d2" and "length d2 \<le> 2 ^ 32"
  shows "(\<exists>ids. (t, ids) \<in> set (merged_lists m1 d1 m2 d2) \<and> a \<in> set ids)
     \<longleftrightarrow> (\<exists>x \<in> having d1 t. map_id m1 x = Some a) \<or> (\<exists>x \<in> having d2 t. map_id m2 x = Some a)"
proof -
  have "(\<exists>ids. (t, ids) \<in> set (nonempty G) \<and> a \<in> set ids) \<longleftrightarrow> (\<exists>ids. (t, ids) \<in> set G \<and> a \<in> set ids)" for G
    by (auto simp: nonempty_def)
  then show ?thesis
    using mapped_members[OF assms(1,2)] mapped_members[OF assms(3,4)]
    by (simp add: merged_lists_def merge_groups_members)
qed

lemma pm_init_on:
  assumes "length (index_file paths docs) < 2 ^ 32" and "docs_ok docs"
  shows "\<exists>r. pm_init (index_of paths docs) m = Inr r \<and> pm_on paths docs m 0 r"
  unfolding pm_init_def by (rule pm_load_on[OF assms]) simp_all

subsection \<open>The properties\<close>

text \<open>What is needed of the two inputs: files below 4GB written by the indexer, names and paths in order.\<close>

definition mergeable :: "string list \<Rightarrow> doc list \<Rightarrow> bool" where
  "mergeable paths docs \<longleftrightarrow> length (index_file paths docs) < 2 ^ 32 \<and> docs_ok docs
     \<and> sorted (map fst docs) \<and> sorted paths \<and> [] \<notin> set paths"

lemma built:
  assumes "mergeable p1 d1" and "mergeable p2 d2"
    and "build_maps (index_of p1 d1) (index_of p2 d2) p2 = Inr (m1, m2, n)"
  shows "range_ids m1 = filter (\<lambda>i. \<not> shadowed p2 (fst (d1 ! i))) [0..<length d1]"
    and "range_ids m2 = [0..<length d2]" and "mset (new_ids m1 @ new_ids m2) = mset [0..<unat n]"
    and "solid m1" and "solid m2"
proof -
  have n: "named (index_of p1 d1) (map fst d1)" "named (index_of p2 d2) (map fst d2)"
    using assms(1,2) by (simp_all add: mergeable_def named_index_of)
  note spec = build_maps_spec[OF n _ _ _ assms(3)]
  show r: "range_ids m1 = filter (\<lambda>i. \<not> shadowed p2 (fst (d1 ! i))) [0..<length d1]"
    "range_ids m2 = [0..<length d2]" "mset (new_ids m1 @ new_ids m2) = mset [0..<unat n]"
    using spec assms(1,2) by (auto simp: mergeable_def intro: filter_cong)
  show "solid m1" "solid m2"
    using build_maps_nonempty[OF assms(3)] r by (auto simp: solid_def sorted_wrt_filter)
qed

text \<open>C17. The maps of two indexes keep every document of the newer one and the documents of the
  older one that no path of the newer one shadows, and give each of them a new id of its own: the ids
  below the new number of names, each used once.\<close>

theorem build_maps_correct:
  assumes "mergeable p1 d1" and "mergeable p2 d2"
    and "build_maps (index_of p1 d1) (index_of p2 d2) p2 = Inr (m1, m2, n)"
  shows "(map_id m1 x \<noteq> None \<longleftrightarrow> unat x < length d1 \<and> \<not> shadowed p2 (fst (d1 ! unat x)))
    \<and> (map_id m2 x \<noteq> None \<longleftrightarrow> unat x < length d2)
    \<and> mset (map (\<lambda>i. unat (the (map_id m1 (word_of_nat i)))) (range_ids m1)
            @ map (\<lambda>i. unat (the (map_id m2 (word_of_nat i)))) (range_ids m2)) = mset [0..<unat n]"
proof (intro conjI)
  note r = built(1-3)[OF assms] and s = built(4,5)[OF assms]
  show "map_id m1 x \<noteq> None \<longleftrightarrow> unat x < length d1 \<and> \<not> shadowed p2 (fst (d1 ! unat x))"
    and "map_id m2 x \<noteq> None \<longleftrightarrow> unat x < length d2"
    by (simp_all add: map_id_dom[OF s(1)] map_id_dom[OF s(2)] r del: not_None_eq)
  have a: "a < unat n" if "a \<in> set (new_ids m1) \<union> set (new_ids m2)" for a
    using that mset_eq_setD[OF r(3)] by (metis atLeastLessThan_iff set_append set_upt)
  have "map (\<lambda>i. unat (the (map_id m (word_of_nat i)))) (range_ids m) = new_ids m"
    if "solid m" and b: "\<forall>a \<in> set (new_ids m). a < unat n" for m
  proof -
    have "map (\<lambda>i. unat (the (map_id m (word_of_nat i)))) (range_ids m)
        = map (\<lambda>a. unat (word_of_nat a :: u32)) (new_ids m)"
      using arg_cong[OF map_id_new[OF that(1)], of "map (\<lambda>e. unat (the e))"] by (simp add: o_def)
    moreover have "unat (word_of_nat a :: u32) = a" if "a \<in> set (new_ids m)" for a
      using b that unsigned_less[of n, where 'a=nat] by (force simp: unat_of_nat_u32)
    ultimately show ?thesis by (simp add: map_idI)
  qed
  then show "mset (map (\<lambda>i. unat (the (map_id m1 (word_of_nat i)))) (range_ids m1)
            @ map (\<lambda>i. unat (the (map_id m2 (word_of_nat i)))) (range_ids m2)) = mset [0..<unat n]"
    using s a r(3) by simp
qed



lemma append_less_same: "(xs :: string) < ys \<Longrightarrow> zs @ xs < zs @ ys"
  by (induction zs) auto

lemma prefix_below_limit:
  assumes "prefix p name" and "p \<noteq> []" and "last p < CHR 0x7F" shows "p \<le> name" and "name < limit_of p"
proof -
  show "p \<le> name" by (rule prefix_le[OF assms(1)])
  obtain q c where p: "p = q @ [c]" using assms(2) by (metis append_butlast_last_id)
  obtain r where name: "name = q @ c # r" using assms(1) p by (auto simp: prefix_def)
  have c: "(of_char c :: nat) < 127" using assms(3) p by (simp add: less_char_def)
  then have u: "unat (byte_of c + 1) = of_char c + 1" by (simp add: unat_word_ariths unat_byte_of)
  then have "encode_rune (int (unat (byte_of c + 1))) = [char_of (of_char c + 1 :: nat)]"
    using c by (simp add: encode_rune_def valid_rune_def chr_def Let_def nat_add_distrib)
  moreover have "c < char_of (of_char c + 1 :: nat)" using c by (simp add: less_char_def of_char_of)
  ultimately have "limit_of p = q @ [char_of (of_char c + 1 :: nat)]" "c < char_of (of_char c + 1 :: nat)"
    using p by (simp_all add: limit_of_def)
  then show "name < limit_of p" unfolding name by (simp add: append_less_same)
qed

subsection \<open>An example\<close>

abbreviation older :: Index where
  "older \<equiv> index_of [''/foobar''] [(''/foobar/x'', [])]"

abbreviation newer :: Index where
  "newer \<equiv> index_of [''/foo''] [(''/foo/a'', [])]"

lemma mergeable_example:
  "mergeable [''/foobar''] [(''/foobar/x'', [])]" "mergeable [''/foo''] [(''/foo/a'', [])]"
  by (simp_all add: mergeable_def docs_ok_def index_file_def index_sections_def postings_def Let_def trailer_def
      magic_def trailerMagic_def length_encodings list_bytes_def name_bytes_def uvarint_bytes_def)

lemma build_maps_example:
  "build_maps older newer [''/foo''] = Inr ([], [\<lparr>ir_lo = 0, ir_hi = 1, ir_new = 0\<rparr>], 1)"
proof -
  note ok = mergeable_example[unfolded mergeable_def]
  have n: "Name older 0 = Inr ''/foobar/x''" "Name newer 0 = Inr ''/foo/a''"
    using named_index_of[of "[''/foobar'']" "[(''/foobar/x'', [])]"] named_index_of[of "[''/foo'']" "[(''/foo/a'', [])]"]
      ok by (simp_all add: named_def)
  have l: "path_limit ''/foo'' = Inr ''/fop''" by code_simp
  have num: "ix_numName older = 1" "ix_numName newer = 1" by (simp_all add: index_of_def)
  have c: "\<not> ''/foobar/x'' < ''/foo''" "\<not> ''/foo/a'' < ''/foo''" "''/foobar/x'' < ''/fop''" "''/foo/a'' < ''/fop''"
    by code_simp+
  have s: "skip_names older 0 ''/foo'' = Inr 0" "skip_names older 0 ''/fop'' = Inr 1"
    "skip_names newer 0 ''/fop'' = Inr 1"
    using n num c by (simp_all add: skip_names.simps)
  show ?thesis
    by (simp add: build_maps_def shadow_path_def s l n num c add_range_def)
qed

lemma build_maps_correct_witness:
  "map_id [] (0 :: u32) = None \<and> map_id [\<lparr>ir_lo = 0, ir_hi = 1, ir_new = 0\<rparr>] (0 :: u32) \<noteq> None"
  using build_maps_correct[OF mergeable_example build_maps_example, of 0]
  by (simp add: shadowed_def) 




end
