(* ===== verification/Utf8.thy ===== *)
theory Utf8
  imports Regexp_Syntax
begin

text \<open>
  What the repository uses of Go's \<^verbatim>\<open>unicode/utf8\<close> and \<^verbatim>\<open>strings\<close> packages: the decoding of a rune,
  with the ranges of second bytes the package accepts, and the search for a substring. A text is
  valid when it is the encoding of a list of runes; then decoding inverts encoding, and a cut after
  an ASCII character leaves valid text.
\<close>

text \<open>\<^verbatim>\<open>utf8.DecodeRuneInString\<close>: the rune and its width; U+FFFD of width 1 on invalid text, of width
  0 on the empty one.\<close>

definition decode_rune :: "string \<Rightarrow> rune \<times> nat" where
  "decode_rune s =
     (let n = length s; b = (\<lambda>i. of_char (s ! i) :: int); cont = (\<lambda>i. 0x80 \<le> b i \<and> b i \<le> 0xBF) in
      if n = 0 then (0xFFFD, 0)
      else if b 0 < 0x80 then (b 0, 1)
      else if 0xC2 \<le> b 0 \<and> b 0 \<le> 0xDF \<and> 1 < n \<and> cont 1 then ((b 0 - 0xC0) * 0x40 + (b 1 - 0x80), 2)
      else if 0xE0 \<le> b 0 \<and> b 0 \<le> 0xEF \<and> 2 < n \<and> cont 1 \<and> cont 2
        \<and> (b 0 = 0xE0 \<longrightarrow> 0xA0 \<le> b 1) \<and> (b 0 = 0xED \<longrightarrow> b 1 \<le> 0x9F)
      then ((b 0 - 0xE0) * 0x1000 + (b 1 - 0x80) * 0x40 + (b 2 - 0x80), 3)
      else if 0xF0 \<le> b 0 \<and> b 0 \<le> 0xF4 \<and> 3 < n \<and> cont 1 \<and> cont 2 \<and> cont 3
        \<and> (b 0 = 0xF0 \<longrightarrow> 0x90 \<le> b 1) \<and> (b 0 = 0xF4 \<longrightarrow> b 1 \<le> 0x8F)
      then ((b 0 - 0xF0) * 0x40000 + (b 1 - 0x80) * 0x1000 + (b 2 - 0x80) * 0x40 + (b 3 - 0x80), 4)
      else (0xFFFD, 1))"

text \<open>\<^verbatim>\<open>strings.Index\<close>.\<close>

fun str_index :: "string \<Rightarrow> string \<Rightarrow> nat option" where
  "str_index [] sub = (if sub = [] then Some 0 else None)"
| "str_index (c # s) sub = (if prefix sub (c # s) then Some 0 else map_option Suc (str_index s sub))"

lemma str_index_Some: "str_index s sub = Some i \<Longrightarrow> i + length sub \<le> length s \<and> prefix sub (drop i s)"
proof (induction s arbitrary: i)
  case (Cons c s)
  show ?case
  proof (cases "prefix sub (c # s)")
    case True
    with Cons.prems have "i = 0" by simp
    with True show ?thesis using prefix_length_le[of sub "c # s"] by simp
  next
    case False
    with Cons.prems obtain j where "i = Suc j" "str_index s sub = Some j" by auto
    with Cons.IH[of j] show ?thesis by simp
  qed
qed (auto split: if_splits)

subsection \<open>Valid text\<close>

definition utf8 :: "string \<Rightarrow> bool" where
  "utf8 s \<longleftrightarrow> (\<exists>rs. list_all valid_rune rs \<and> s = encode_runes rs)"

lemma of_char_chr: "0 \<le> n \<Longrightarrow> n < 256 \<Longrightarrow> (of_char (chr n) :: int) = n"
  using of_nat_of_char[of "chr n", where 'a=int] by (simp add: chr_def)

lemma encode_runes_simps [simp]:
  "encode_runes [] = []" "encode_runes (r # rs) = encode_rune r @ encode_runes rs"
  by (simp_all add: encode_runes_def)

lemma utf8_Nil [simp]: "utf8 []"
  unfolding utf8_def by (intro exI[of _ "[]"]) simp

lemma rune_cases:
  assumes "valid_rune r"
  obtains (one) "0 \<le> r" "r < 0x80" "encode_rune r = [chr r]"
  | (two) "0x80 \<le> r" "r < 0x800" "encode_rune r = [chr (0xC0 + r div 0x40), chr (0x80 + r mod 0x40)]"
  | (three) "0x800 \<le> r" "r < 0xD800 \<or> 0xDFFF < r" "r < 0x10000" "encode_rune r =
      [chr (0xE0 + r div 0x1000), chr (0x80 + r div 0x40 mod 0x40), chr (0x80 + r mod 0x40)]"
  | (four) "0x10000 \<le> r" "r \<le> 0x10FFFF" "encode_rune r =
      [chr (0xF0 + r div 0x40000), chr (0x80 + r div 0x1000 mod 0x40), chr (0x80 + r div 0x40 mod 0x40),
       chr (0x80 + r mod 0x40)]"
proof -
  consider "r < 0x80" | "0x80 \<le> r" "r < 0x800" | "0x800 \<le> r" "r < 0x10000" | "0x10000 \<le> r" by linarith
  then show thesis
    by cases (use assms that in \<open>auto simp: valid_rune_def encode_rune_def Let_def\<close>)
qed

lemma decode_two:
  assumes "2 \<le> a" "a < 0x20" "0 \<le> b" "b < 0x40"
  shows "decode_rune (chr (0xC0 + a) # chr (0x80 + b) # t) = (a * 0x40 + b, 2)"
  using assms by (simp add: decode_rune_def of_char_chr Let_def)

lemma decode_three:
  assumes "0 \<le> a" "a < 0x10" "0 \<le> b" "b < 0x40" "0 \<le> c" "c < 0x40" "a = 0 \<longrightarrow> 0x20 \<le> b" "a = 0xD \<longrightarrow> b \<le> 0x1F"
  shows "decode_rune (chr (0xE0 + a) # chr (0x80 + b) # chr (0x80 + c) # t) = (a * 0x1000 + b * 0x40 + c, 3)"
proof -
  have "0x80 + b \<le> 0xBF" "0x80 + c \<le> 0xBF" "0xE0 + a \<le> 0xEF" using assms by simp_all
  with assms show ?thesis by (simp add: decode_rune_def of_char_chr Let_def)
qed

lemma decode_four:
  assumes "0 \<le> a" "a \<le> 4" "0 \<le> b" "b < 0x40" "0 \<le> c" "c < 0x40" "0 \<le> d" "d < 0x40"
    "a = 0 \<longrightarrow> 0x10 \<le> b" "a = 4 \<longrightarrow> b \<le> 0xF"
  shows "decode_rune (chr (0xF0 + a) # chr (0x80 + b) # chr (0x80 + c) # chr (0x80 + d) # t)
    = (a * 0x40000 + b * 0x1000 + c * 0x40 + d, 4)"
proof -
  have "0x80 + b \<le> 0xBF" "0x80 + c \<le> 0xBF" "0x80 + d \<le> 0xBF" "0xF0 + a \<le> 0xF4" using assms by simp_all
  with assms show ?thesis by (simp add: decode_rune_def of_char_chr Let_def)
qed

lemma base64_digits:
  fixes r :: int
  shows "r div 0x1000 * 0x1000 + r div 0x40 mod 0x40 * 0x40 + r mod 0x40 = r"
    and "r div 0x40000 * 0x40000 + r div 0x1000 mod 0x40 * 0x1000 + r div 0x40 mod 0x40 * 0x40 + r mod 0x40 = r"
    and "0 \<le> r mod 0x40" "r mod 0x40 < 0x40" "0 \<le> r div 0x40 mod 0x40" "r div 0x40 mod 0x40 < 0x40"
    "0 \<le> r div 0x1000 mod 0x40" "r div 0x1000 mod 0x40 < 0x40"
proof -
  have "r div 0x1000 = r div 0x40 div 0x40" "r div 0x40000 = r div 0x1000 div 0x40"
    by (simp_all flip: zdiv_zmult2_eq)
  then show "r div 0x1000 * 0x1000 + r div 0x40 mod 0x40 * 0x40 + r mod 0x40 = r"
    "r div 0x40000 * 0x40000 + r div 0x1000 mod 0x40 * 0x1000 + r div 0x40 mod 0x40 * 0x40 + r mod 0x40 = r"
    using minus_mod_eq_div_mult[of r "0x40"] minus_mod_eq_div_mult[of "r div 0x40" "0x40"]
      minus_mod_eq_div_mult[of "r div 0x1000" "0x40"] by linarith+
qed simp_all

lemma three_digits:
  fixes r :: int
  assumes "r = a * 0x1000 + b * 0x40 + c" "0 \<le> c" "c < 0x40" "0 \<le> b" "b < 0x40"
    and "0x800 \<le> r" "r < 0xD800 \<or> 0xDFFF < r" "r < 0x10000"
  shows "a = 0 \<longrightarrow> 0x20 \<le> b" and "a = 0xD \<longrightarrow> b \<le> 0x1F" and "0 \<le> a" and "a < 0x10"
  using assms by auto

lemma four_digits:
  fixes r :: int
  assumes "r = a * 0x40000 + b * 0x1000 + c * 0x40 + d"
    "0 \<le> d" "d < 0x40" "0 \<le> c" "c < 0x40" "0 \<le> b" "b < 0x40"
    and "0x10000 \<le> r" "r \<le> 0x10FFFF"
  shows "a = 0 \<longrightarrow> 0x10 \<le> b" and "a = 4 \<longrightarrow> b \<le> 0xF" and "0 \<le> a" and "a \<le> 4"
  using assms by auto

lemma decode_encode: "valid_rune r \<Longrightarrow> decode_rune (encode_rune r @ t) = (r, length (encode_rune r))"
proof (erule rune_cases)
  assume "0 \<le> r" "r < 0x80" "encode_rune r = [chr r]"
  then show ?thesis by (simp add: decode_rune_def of_char_chr)
next
  assume r: "0x80 \<le> r" "r < 0x800" and e: "encode_rune r = [chr (0xC0 + r div 0x40), chr (0x80 + r mod 0x40)]"
  have "2 \<le> r div 0x40" "r div 0x40 < 0x20" "r div 0x40 * 0x40 + r mod 0x40 = r" using r by presburger+
  then show ?thesis using decode_two[of "r div 0x40" "r mod 0x40" t] by (simp add: e)
next
  assume r: "0x800 \<le> r" "r < 0xD800 \<or> 0xDFFF < r" "r < 0x10000" and e: "encode_rune r =
      [chr (0xE0 + r div 0x1000), chr (0x80 + r div 0x40 mod 0x40), chr (0x80 + r mod 0x40)]"
  have "r div 0x1000 = 0 \<longrightarrow> 0x20 \<le> r div 0x40 mod 0x40"
    "r div 0x1000 = 0xD \<longrightarrow> r div 0x40 mod 0x40 \<le> 0x1F" "0 \<le> r div 0x1000" "r div 0x1000 < 0x10"
    using three_digits[OF base64_digits(1)[symmetric] base64_digits(3-6) r] by simp_all
  then show ?thesis
    unfolding e append.simps
    by (subst decode_three) (simp_all only: base64_digits length_Cons list.size, simp_all)
next
  assume r: "0x10000 \<le> r" "r \<le> 0x10FFFF" and e: "encode_rune r =
      [chr (0xF0 + r div 0x40000), chr (0x80 + r div 0x1000 mod 0x40), chr (0x80 + r div 0x40 mod 0x40),
       chr (0x80 + r mod 0x40)]"
  have "r div 0x40000 = 0 \<longrightarrow> 0x10 \<le> r div 0x1000 mod 0x40"
    "r div 0x40000 = 4 \<longrightarrow> r div 0x1000 mod 0x40 \<le> 0xF" "r div 0x40000 \<le> 4" "0 \<le> r div 0x40000"
    using four_digits[OF base64_digits(2)[symmetric] base64_digits(3-8) r] by simp_all
  then show ?thesis
    unfolding e append.simps
    by (subst decode_four) (simp_all only: base64_digits length_Cons list.size, simp_all)
qed

text \<open>All bytes of a longer encoding are above ASCII.\<close>

lemma encode_ascii:
  assumes "valid_rune r" and "c \<in> set (encode_rune r)" and "(of_char c :: int) < 0x80"
  shows "encode_rune r = [c]" and "r = of_char c"
proof -
  have high: "\<not> (of_char (chr (0x80 + n)) :: int) < 0x80" if "0 \<le> n" "n < 0x80" for n
    using that by (simp add: of_char_chr)
  have "encode_rune r = [c] \<and> r = of_char c"
    using assms(1)
  proof (cases rule: rune_cases)
    case one
    with assms(2) show ?thesis by (simp add: of_char_chr)
  next
    case two
    with assms(2,3) high[of "0x40 + r div 0x40"] high[of "r mod 0x40"] show ?thesis by auto
  next
    case three
    with assms(2,3) high[of "0x60 + r div 0x1000"] high[of "r div 0x40 mod 0x40"] high[of "r mod 0x40"]
    show ?thesis by auto
  next
    case four
    with assms(2,3) high[of "0x70 + r div 0x40000"] high[of "r div 0x1000 mod 0x40"] high[of "r div 0x40 mod 0x40"]
      high[of "r mod 0x40"]
    show ?thesis by auto
  qed
  then show "encode_rune r = [c]" "r = of_char c" by auto
qed

lemma utf8_cut: "utf8 (u @ c # t) \<Longrightarrow> (of_char c :: int) < 0x80 \<Longrightarrow> utf8 t"
proof -
  have "u @ c # t = encode_runes rs \<Longrightarrow> list_all valid_rune rs \<Longrightarrow> (of_char c :: int) < 0x80 \<Longrightarrow> utf8 t" for rs
  proof (induction rs arbitrary: u)
    case (Cons r rs)
    show ?case
    proof (cases "length (encode_rune r) \<le> length u")
      case True
      then have "encode_runes rs = drop (length (encode_rune r)) u @ c # t"
        using Cons.prems(1) by (metis append_eq_append_conv_if append_eq_conv_conj drop_append
            encode_runes_simps(2) diff_is_0_eq drop0)
      then show ?thesis using Cons.IH Cons.prems by auto
    next
      case False
      then have "c \<in> set (encode_rune r)" 
        using Cons.prems(1) by (metis encode_runes_simps(2) not_le nth_append nth_append_length nth_mem)
      then have "encode_rune r = [c]" using encode_ascii(1) Cons.prems by auto
      with False Cons.prems(1,2) have "t = encode_runes rs" by (cases u) auto
      with Cons.prems(2) show ?thesis by (auto simp: utf8_def)
    qed
  qed simp
  then show "utf8 (u @ c # t) \<Longrightarrow> (of_char c :: int) < 0x80 \<Longrightarrow> utf8 t"
    unfolding utf8_def by blast
qed

lemma utf8_first:
  assumes "utf8 (c # t)"
  obtains r s where "valid_rune r" "c # t = encode_rune r @ s" "utf8 s"
proof -
  obtain rs where rs: "list_all valid_rune rs" "c # t = encode_runes rs" using assms by (auto simp: utf8_def)
  then obtain r rs' where "rs = r # rs'" by (cases rs) auto
  with rs that show thesis by (auto simp: utf8_def)
qed

lemma utf8_decode:
  assumes "utf8 (c # t)"
  shows "snd (decode_rune (c # t)) \<le> length (c # t)" and "utf8 (drop (snd (decode_rune (c # t))) (c # t))"
proof -
  obtain r s where r: "valid_rune r" "c # t = encode_rune r @ s" "utf8 s" using utf8_first[OF assms] by blast
  then have "snd (decode_rune (c # t)) = length (encode_rune r)" by (simp add: decode_encode)
  then show "snd (decode_rune (c # t)) \<le> length (c # t)" "utf8 (drop (snd (decode_rune (c # t))) (c # t))"
    unfolding r(2) using r(3) by simp_all
qed

end
