(* ===== verification/Expression.thy ===== *)
theory Expression
  imports Utf8
begin

text \<open>
  \<^verbatim>\<open>expr/expr.go\<close>: splitting a search expression into its parts at the spaces outside of groups,
  classes and quotes, and the clean-up of the parsed regular expressions. The parser and the printer
  of the standard library are the parameters \<open>parse\<close> and \<open>print\<close> of \<open>Parse\<close>.

  A suffix \<^verbatim>\<open>expr[pos:]\<close> is a list; a width of -1 is \<open>None\<close>.
\<close>

subsection \<open>Widths\<close>

definition runeLen :: "char \<Rightarrow> nat" where
  "runeLen b = [1, 1, 1, 1, 1, 1, 1, 1, 1, 1, 1, 1, 2, 2, 3, 4] ! (of_char b div 16)"

lemma runeLen_pos: "0 < runeLen c"
proof -
  have "\<forall>i < 16. 0 < [1, 1, 1, 1, 1, 1, 1, 1, 1, 1, 1, 1, 2, 2, 3, 4 :: nat] ! i"
    by (simp add: numeral_eq_Suc All_less_Suc)
  moreover have "(of_char c :: nat) div 16 < 16"
    by (rule less_mult_imp_div_less) (use nat_of_char_less_256[of c] in simp)
  ultimately show ?thesis by (simp add: runeLen_def)
qed

text \<open>The loop of \<^verbatim>\<open>consumeCharClass\<close> from a position on.\<close>

function class_loop :: "string \<Rightarrow> nat \<Rightarrow> nat option" where
  "class_loop expr pos =
     (if pos < length expr then
        if expr ! pos = CHR 0x5C
        then class_loop expr (pos + 1 + (if pos + 1 < length expr then runeLen (expr ! (pos + 1)) else 0))
        else if expr ! pos = CHR ''[''
        then (if pos + 1 < length expr \<and> expr ! (pos + 1) = CHR '':''
              then (case str_index (drop (pos + 2) expr) '']'' of
                      None \<Rightarrow> None
                    | Some i \<Rightarrow> class_loop expr (i + (pos + 2)))
              else class_loop expr (pos + 1))
        else if expr ! pos = CHR '']'' then Some (pos + 1)
        else class_loop expr (pos + runeLen (expr ! pos))
      else None)"
  by auto
termination
  by (relation "measure (\<lambda>(expr, pos). length expr - pos)") (use runeLen_pos in \<open>auto intro: diff_less_mono2\<close>)

declare class_loop.simps [simp del]

definition consumeCharClass :: "string \<Rightarrow> nat option" where
  "consumeCharClass expr =
     (let pos = 1;
          pos = (if pos < length expr \<and> expr ! pos = CHR ''^'' then pos + 1 else pos);
          pos = (if pos < length expr \<and> expr ! pos = CHR '']'' then pos + 1 else pos)
      in class_loop expr pos)"

definition consumeQE :: "string \<Rightarrow> nat option" where
  "consumeQE expr = map_option (\<lambda>width. 1 + width + 2) (str_index (drop 1 expr) [CHR 0x5C, CHR ''E''])"

text \<open>The loop of \<^verbatim>\<open>consumeParen\<close>: \<open>pos\<close> is the position, the list is \<^verbatim>\<open>expr[pos:]\<close>, so that
  \<^verbatim>\<open>expr[pos+w:]\<close> drops \<open>w - 1\<close> of the tail; no width is 0.\<close>

function (sequential) consumeParen :: "string \<Rightarrow> nat \<Rightarrow> nat option"
  and paren_loop :: "string \<Rightarrow> nat \<Rightarrow> nat \<Rightarrow> nat option" where
  "consumeParen [] depth = None"
| "consumeParen (p # expr) depth = (if depth > 100 then None else paren_loop expr 1 depth)"
| "paren_loop [] pos depth = None"
| "paren_loop (c # expr) pos depth =
     (if c = CHR '')'' then Some (pos + 1)
      else if c = CHR 0x5C
      then (case decode_rune expr of (r, width) \<Rightarrow>
              if r = 0x51
              then (case consumeQE expr of
                      None \<Rightarrow> None
                    | Some width \<Rightarrow> paren_loop (drop width expr) (pos + 1 + width) depth)
              else paren_loop (drop width expr) (pos + 1 + width) depth)
      else if c = CHR ''[''
      then (case consumeCharClass (c # expr) of
              None \<Rightarrow> None
            | Some width \<Rightarrow> paren_loop (drop (width - 1) expr) (pos + width) depth)
      else if c = CHR ''(''
      then (case consumeParen (c # expr) (depth + 1) of
              None \<Rightarrow> None
            | Some width \<Rightarrow> paren_loop (drop (width - 1) expr) (pos + width) depth)
      else paren_loop (drop (runeLen c - 1) expr) (pos + runeLen c) depth)"
  by pat_completeness auto
termination
  by (relation "measure (\<lambda>a. case a of Inl (expr, _) \<Rightarrow> 2 * length expr - 1 | Inr (expr, _, _) \<Rightarrow> 2 * length expr)")
    auto

text \<open>The function for quoted strings; nothing calls it.\<close>

function string_loop :: "string \<Rightarrow> nat \<Rightarrow> nat option" where
  "string_loop expr pos =
     (if pos < length expr then
        if expr ! pos = CHR 0x22 then Some (pos + 1)
        else if expr ! pos = CHR 0x5C
        then string_loop expr (pos + 1 + (if pos + 1 < length expr then runeLen (expr ! (pos + 1)) else 0))
        else string_loop expr (pos + runeLen (expr ! pos))
      else None)"
  by auto
termination
  by (relation "measure (\<lambda>(expr, pos). length expr - pos)") (use runeLen_pos in \<open>auto intro: diff_less_mono2\<close>)

declare string_loop.simps [simp del]

definition consumeString :: "string \<Rightarrow> nat option" where
  "consumeString expr = string_loop expr 1"

text \<open>A width spans a non-empty part of the text that ends with the closing character.\<close>

definition closes :: "string \<Rightarrow> char \<Rightarrow> nat \<Rightarrow> bool" where
  "closes expr c w \<longleftrightarrow> 0 < w \<and> w \<le> length expr \<and> expr ! (w - 1) = c"

lemma class_loop_closes: "class_loop expr pos = Some w \<Longrightarrow> pos < w \<and> closes expr (CHR '']'') w"
proof (induction expr pos rule: class_loop.induct)
  case (1 expr pos)
  then show ?case
    by (subst (asm) class_loop.simps[of expr pos])
      (auto simp: closes_def split: if_splits option.splits dest!: str_index_Some; fastforce)
qed

lemma consumeCharClass_closes: "consumeCharClass expr = Some w \<Longrightarrow> 1 < w \<and> closes expr (CHR '']'') w"
  by (auto simp: consumeCharClass_def Let_def dest!: class_loop_closes split: if_splits)

text \<open>A named class ends the class it stands in: the bracket that closes the name is taken for the end.\<close>

lemma class_ends_early: "consumeCharClass ''[[:alpha:] ]'' = Some 10" "length ''[[:alpha:] ]'' = 12"
  by code_simp+

lemma consumeQE_closes: "consumeQE expr = Some w \<Longrightarrow> 2 < w \<and> closes expr (CHR ''E'') w"
proof -
  assume "consumeQE expr = Some w"
  then obtain i where i: "str_index (drop 1 expr) [CHR 0x5C, CHR ''E''] = Some i" "w = i + 3"
    by (auto simp: consumeQE_def)
  from str_index_Some[OF i(1)] have "i + 3 \<le> length expr" "drop i (drop 1 expr) ! 1 = CHR ''E''"
    by (auto simp: prefix_def)
  then show ?thesis using i(2) by (simp add: closes_def add.commute)
qed

lemma string_loop_closes: "string_loop expr pos = Some w \<Longrightarrow> pos < w \<and> closes expr (CHR 0x22) w"
proof (induction expr pos rule: string_loop.induct)
  case (1 expr pos)
  then show ?case
    by (subst (asm) string_loop.simps[of expr pos]) (auto simp: closes_def split: if_splits; fastforce)
qed

lemma drop_closes: "closes (drop k s) c w \<Longrightarrow> closes s c (k + w)"
  by (auto simp: closes_def)

lemma closes_Cons: "closes expr c w \<Longrightarrow> closes (x # expr) c (Suc w)"
  by (auto simp: closes_def nth_Cons')

lemma closes_drop_tail: "closes (drop k expr) c w \<Longrightarrow> closes (x # expr) c (Suc k + w)"
  by (drule drop_closes, drule closes_Cons) simp

lemma consumeParen_closes:
  "consumeParen s d = Some w \<Longrightarrow> closes s (CHR '')'') w"
  "paren_loop s pos d = Some w' \<Longrightarrow> \<exists>k. w' = pos + k \<and> closes s (CHR '')'') k"
proof (induction s d and s pos d arbitrary: w and w' rule: consumeParen_paren_loop.induct)
  case (2 p expr depth)
  then obtain k where "w = 1 + k" "closes expr (CHR '')'') k" by (auto split: if_splits)
  then show ?case by (simp add: closes_Cons)
next
  case (4 c expr pos depth)
  obtain r n where dec: "decode_rune expr = (r, n)" by fastforce
  have step: "\<exists>k. w' = pos + k \<and> closes (c # expr) (CHR '')'') k"
    if "\<exists>k. w' = pos + Suc j + k \<and> closes (drop j expr) (CHR '')'') k" for j
    using that closes_drop_tail[of j expr _ _ c] by (metis add.assoc)
  consider (close) "c = CHR '')''" | (quote) "c = CHR 0x5C" | (cls) "c = CHR ''[''" | (paren) "c = CHR ''(''"
    | (other) "c \<noteq> CHR '')''" "c \<noteq> CHR 0x5C" "c \<noteq> CHR ''[''" "c \<noteq> CHR ''(''" by blast
  then show ?case
  proof cases
    case close
    with "4.prems" show ?thesis by (intro exI[of _ 1]) (simp add: closes_def)
  next
    case quote
    show ?thesis
    proof (cases "r = 0x51")
      case True
      with "4.prems" quote dec obtain k where k: "consumeQE expr = Some k"
        "paren_loop (drop k expr) (pos + 1 + k) depth = Some w'" by (auto split: option.splits)
      with "4.IH"(1)[OF _ quote dec[symmetric] True k(1)] quote show ?thesis by (intro step[of k]) simp
    next
      case False
      with "4.prems" quote dec have "paren_loop (drop n expr) (pos + 1 + n) depth = Some w'" by auto
      with "4.IH"(2)[OF _ quote dec[symmetric] False] quote show ?thesis by (intro step[of n]) simp
    qed
  next
    case cls
    with "4.prems" obtain k where k: "consumeCharClass (c # expr) = Some k"
      "paren_loop (drop (k - 1) expr) (pos + k) depth = Some w'" by (auto split: option.splits)
    moreover have "k = Suc (k - 1)" using consumeCharClass_closes[OF k(1)] by simp
    ultimately show ?thesis using "4.IH"(3)[OF _ _ cls k(1)] cls by (intro step[of "k - 1"]) simp
  next
    case paren
    with "4.prems" obtain k where k: "consumeParen (c # expr) (depth + 1) = Some k"
      "paren_loop (drop (k - 1) expr) (pos + k) depth = Some w'" by (auto split: option.splits)
    moreover have "k = Suc (k - 1)" using "4.IH"(4)[OF _ _ _ paren k(1)] paren by (simp add: closes_def)
    ultimately show ?thesis using "4.IH"(5)[OF _ _ _ paren k(1)] paren by (intro step[of "k - 1"]) simp
  next
    case other
    have "runeLen c = Suc (runeLen c - 1)" using runeLen_pos[of c] by simp
    with "4.IH"(6) "4.prems" other show ?thesis by (intro step[of "runeLen c - 1"]) simp
  qed
qed simp_all

subsection \<open>Cleaning\<close>

fun cleanRegexp :: "regexp \<Rightarrow> regexp" where
  "cleanRegexp (OpCapture re) = cleanRegexp re"
| "cleanRegexp (OpConcat subs) =
     (let subs = filter (\<lambda>s. s \<noteq> OpEmptyMatch) (map cleanRegexp subs)
      in if subs = [] then OpEmptyMatch else OpConcat subs)"
| "cleanRegexp (OpStar re) = OpStar (cleanRegexp re)"
| "cleanRegexp (OpPlus re) = OpPlus (cleanRegexp re)"
| "cleanRegexp (OpQuest re) = OpQuest (cleanRegexp re)"
| "cleanRegexp (OpRepeat mn mx re) = OpRepeat mn mx (cleanRegexp re)"
| "cleanRegexp (OpAlternate subs) = OpAlternate (map cleanRegexp subs)"
| "cleanRegexp re = re"

text \<open>Whether an expression has no group, and no concatenation with an empty part.\<close>

fun is_clean :: "regexp \<Rightarrow> bool" where
  "is_clean (OpCapture re) = False"
| "is_clean (OpConcat subs) = (subs \<noteq> [] \<and> (\<forall>s \<in> set subs. is_clean s \<and> s \<noteq> OpEmptyMatch))"
| "is_clean (OpStar re) = is_clean re"
| "is_clean (OpPlus re) = is_clean re"
| "is_clean (OpQuest re) = is_clean re"
| "is_clean (OpRepeat mn mx re) = is_clean re"
| "is_clean (OpAlternate subs) = (\<forall>s \<in> set subs. is_clean s)"
| "is_clean re = True"

lemma rmatches_cong:
  "list_all2 (\<lambda>a b. \<forall>l w r. rmatch sf a l w r \<longleftrightarrow> rmatch sf b l w r) as bs \<Longrightarrow>
     rmatches sf as l w r \<longleftrightarrow> rmatches sf bs l w r"
  by (induction as bs arbitrary: l w rule: list_all2_induct) (simp_all add: rmatches_cons_iff)

lemma rmatches_skip_empty: "rmatches sf (filter (\<lambda>s. s \<noteq> OpEmptyMatch) res) l w r \<longleftrightarrow> rmatches sf res l w r"
proof (induction res arbitrary: l w)
  case (Cons re res)
  have "rmatches sf (OpEmptyMatch # res) l w r \<longleftrightarrow> rmatches sf res l w r"
    using ms_cons[OF m_empty, simplified] by (auto simp: rmatches_cons_iff)
  with Cons show ?case by (cases "re = OpEmptyMatch") (simp_all add: rmatches_cons_iff)
qed simp

inductive_simps rmatch_loop_iffs:
  "rmatch sf (OpStar re) l w r" "rmatch sf (OpPlus re) l w r" "rmatch sf (OpQuest re) l w r"
  "rmatch sf (OpRepeat mn mx re) l w r"

lemma replicate_cong:
  "\<forall>l w r. rmatch sf a l w r \<longleftrightarrow> rmatch sf b l w r \<Longrightarrow>
     rmatches sf (replicate n a) l w r \<longleftrightarrow> rmatches sf (replicate n b) l w r"
  by (intro rmatches_cong) (simp add: list_all2_conv_all_nth)

text \<open>C20. Removing the groups and the empty parts of a regular expression leaves an expression
  that matches the same texts in the same contexts, without groups or empty parts; doing it
  twice changes nothing.\<close>

theorem cleanRegexp_keeps_matches:
  "(rmatch sf (cleanRegexp re) l w r \<longleftrightarrow> rmatch sf re l w r)
     \<and> is_clean (cleanRegexp re) \<and> cleanRegexp (cleanRegexp re) = cleanRegexp re"
proof (intro conjI)
  note loop = replicate_cong[of sf "cleanRegexp re" re for re]
  show "rmatch sf (cleanRegexp re) l w r \<longleftrightarrow> rmatch sf re l w r"
  proof (induction re arbitrary: l w r rule: cleanRegexp.induct)
    case (1 re)
    then show ?case by (auto intro: m_capture)
  next
    case (2 subs)
    have "rmatches sf (filter (\<lambda>s. s \<noteq> OpEmptyMatch) (map cleanRegexp subs)) l w r \<longleftrightarrow> rmatches sf subs l w r"
      unfolding rmatches_skip_empty by (rule rmatches_cong) (simp add: list_all2_conv_all_nth 2)
    then show ?case by (auto simp: rmatch_concat_iff Let_def intro: m_empty)
  next
    case (7 subs)
    then show ?case by (auto simp: rmatch_alternate_iff)
  next
    case (3 re)
    with loop[of re] show ?case by (simp add: rmatch_loop_iffs)
  next
    case (4 re)
    with loop[of re] show ?case by (simp add: rmatch_loop_iffs rmatches_cons_iff)
  next
    case (5 re)
    with loop[of re] show ?case by (simp add: rmatch_loop_iffs)
  next
    case (6 mn mx re)
    with loop[of re] show ?case by (simp add: rmatch_loop_iffs)
  qed simp_all
  show clean: "is_clean (cleanRegexp re)"
    by (induction re rule: cleanRegexp.induct) (auto simp: Let_def)
  have "is_clean x \<Longrightarrow> cleanRegexp x = x" for x
    by (induction x rule: cleanRegexp.induct) (auto simp: Let_def map_idI filter_id_conv)
  with clean show "cleanRegexp (cleanRegexp re) = cleanRegexp re" by blast
qed

subsection \<open>Parsing\<close>

datatype part_code = SNIPPET | MATCH | FILE | LANGUAGE

record ExpressionPart =
  ep_expression :: string
  ep_code :: part_code
  ep_negated :: bool

datatype expr_error =
    ProblemParsing nat        \<comment> \<open>around position\<close>
  | EmptyExpression nat nat   \<comment> \<open>expression around .. to .. is empty\<close>
  | FollowedByEmpty part_code
  | UnmatchedQ nat
  | InvalidClass nat
  | InvalidParens nat
  | NoExpression
  | SliceOutOfRange           \<comment> \<open>the run-time panic of a slice expression\<close>

type_synonym parser = "string \<Rightarrow> regexp option"

definition placeValue ::
  "parser \<Rightarrow> (regexp \<Rightarrow> string) \<Rightarrow> ExpressionPart option \<Rightarrow> string \<Rightarrow> nat \<Rightarrow> nat \<Rightarrow> expr_error + ExpressionPart"
where
  "placeValue parse print cur v start pos =
     (let cur = (case cur of None \<Rightarrow> \<lparr>ep_expression = [], ep_code = SNIPPET, ep_negated = False\<rparr> | Some c \<Rightarrow> c);
          neg = (ep_code cur = SNIPPET \<and> hd v = CHR ''-'');
          (cur, v) = (if neg then (cur\<lparr>ep_negated := True, ep_code := MATCH\<rparr>, tl v)
                      else (if ep_code cur = SNIPPET then cur\<lparr>ep_negated := False\<rparr> else cur, v))
      in case parse v of
           None \<Rightarrow> Inl (ProblemParsing pos)
         | Some re \<Rightarrow>
             let re = cleanRegexp re
             in if re = OpEmptyMatch \<or> re = OpNoMatch then Inl (EmptyExpression start pos)
                else Inr (cur\<lparr>ep_expression := print re\<rparr>))"

definition code_part :: "part_code \<Rightarrow> bool \<Rightarrow> ExpressionPart option" where
  "code_part code neg = Some \<lparr>ep_expression = [], ep_code = code, ep_negated = neg\<rparr>"

definition slice_str :: "string \<Rightarrow> nat \<Rightarrow> nat \<Rightarrow> expr_error + string" where
  "slice_str s lo hi = (case go_slice s lo hi of None \<Rightarrow> Inl SliceOutOfRange | Some v \<Rightarrow> Inr v)"

text \<open>The loop of \<open>Parse\<close> from a position on: \<open>start\<close> and \<open>cur\<close> are its variables, the result is
  the list of the parts found.\<close>

function parse_loop ::
  "parser \<Rightarrow> (regexp \<Rightarrow> string) \<Rightarrow> string \<Rightarrow> nat \<Rightarrow> nat \<Rightarrow> ExpressionPart option \<Rightarrow> ExpressionPart list
    \<Rightarrow> expr_error + ExpressionPart list"
where
  "parse_loop parse print expr start pos cur parts =
     (if pos < length expr then
        if expr ! pos = CHR ''+'' then
          if start = pos then parse_loop parse print expr (pos + 1) (pos + 1) (code_part MATCH False) parts
          else parse_loop parse print expr start (pos + 1) cur parts
        else if expr ! pos = CHR '':'' then
          (let neg = (expr ! start = CHR ''-'');
               code = drop start (take pos expr);
               code = (if neg then tl code else code)
           in if code = ''f'' \<or> code = ''file''
              then parse_loop parse print expr (pos + 1) (pos + 1) (code_part FILE neg) parts
              else if code = ''lang''
              then parse_loop parse print expr (pos + 1) (pos + 1) (code_part LANGUAGE neg) parts
              else parse_loop parse print expr start (pos + 1) cur parts)
        else if expr ! pos = CHR '' '' then
          if start = pos then
            (case cur of
               Some c \<Rightarrow> Inl (FollowedByEmpty (ep_code c))
             | None \<Rightarrow> parse_loop parse print expr (pos + 1) (pos + 1) cur parts)
          else
            (case bindR (slice_str expr start pos) (\<lambda>v. placeValue parse print cur v start pos) of
               Inl e \<Rightarrow> Inl e
             | Inr p \<Rightarrow> parse_loop parse print expr (pos + 1) (pos + 1) None (parts @ [p]))
        else if expr ! pos = CHR 0x5C then
          (case decode_rune (drop (pos + 1) expr) of (r, width) \<Rightarrow>
             if r = 0x51 then
               (case consumeQE (drop (pos + 1) expr) of
                  None \<Rightarrow> Inl (UnmatchedQ (pos + 1))
                | Some width \<Rightarrow> parse_loop parse print expr start (pos + 1 + width) cur parts)
             else parse_loop parse print expr start (pos + 1 + width) cur parts)
        else if expr ! pos = CHR ''['' then
          (case consumeCharClass (drop pos expr) of
             None \<Rightarrow> Inl (InvalidClass pos)
           | Some width \<Rightarrow> parse_loop parse print expr start (pos + width) cur parts)
        else if expr ! pos = CHR ''('' then
          (case consumeParen (drop pos expr) 0 of
             None \<Rightarrow> Inl (InvalidParens pos)
           | Some width \<Rightarrow> parse_loop parse print expr start (pos + width) cur parts)
        else parse_loop parse print expr start (pos + runeLen (expr ! pos)) cur parts
      else if start \<noteq> pos then
        bindR (bindR (slice_str expr start pos) (\<lambda>v. placeValue parse print cur v start pos)) (\<lambda>p.
          Inr (parts @ [p]))
      else Inr parts)"
  by auto
termination
proof (relation "measure (\<lambda>(_, _, expr, _, pos, _, _). length expr - pos)", goal_cases)
  case (11 parse print expr start pos cur parts width)
  then show ?case using consumeCharClass_closes[OF 11(7)] by auto
next
  case (12 parse print expr start pos cur parts width)
  then show ?case using consumeParen_closes(1)[OF 12(8)] by (auto simp: closes_def)
next
  case (13 parse print expr start pos cur parts)
  then show ?case using runeLen_pos[of "expr ! pos"] by simp
qed simp_all

declare parse_loop.simps [simp del]

definition Parse :: "parser \<Rightarrow> (regexp \<Rightarrow> string) \<Rightarrow> string \<Rightarrow> expr_error + ExpressionPart list" where
  "Parse parse print expr =
     bindR (parse_loop parse print expr 0 0 None []) (\<lambda>parts. if parts = [] then Inl NoExpression else Inr parts)"

subsection \<open>Slices stay in range on valid text\<close>

definition pos_ok :: "string \<Rightarrow> nat \<Rightarrow> nat \<Rightarrow> bool" where
  "pos_ok expr start pos \<longleftrightarrow> start \<le> pos \<and> pos \<le> length expr \<and> utf8 (drop pos expr)"

lemma pos_ok_self: "pos_ok expr start pos \<Longrightarrow> pos_ok expr pos pos"
  by (simp add: pos_ok_def)

lemma pos_ok_closes:
  assumes "pos_ok expr start pos" and "closes (drop k expr) c w" and "pos \<le> k" and "(of_char c :: int) < 0x80"
  shows "pos_ok expr start (k + w)"
proof -
  have i: "k + w \<le> length expr" "expr ! (k + w - 1) = c" "0 < w"
    using assms(2) by (auto simp: closes_def)
  then have "drop (k + w - 1) expr = c # drop (k + w) expr"
    using Cons_nth_drop_Suc[of "k + w - 1" expr] by simp
  then have "drop pos expr = take (k + w - 1 - pos) (drop pos expr) @ c # drop (k + w) expr"
    using assms(3) i(3) append_take_drop_id[of "k + w - 1 - pos" "drop pos expr"] by simp
  then have "utf8 (drop (k + w) expr)" using assms(1,4) utf8_cut by (metis pos_ok_def)
  with assms(1,3) i(1) show ?thesis by (auto simp: pos_ok_def)
qed

lemma pos_ok_next:
  "pos_ok expr start pos \<Longrightarrow> pos < length expr \<Longrightarrow> (of_char (expr ! pos) :: int) < 0x80 \<Longrightarrow> pos_ok expr start (pos + 1)"
  by (rule pos_ok_closes[of _ _ pos]) (auto simp: closes_def)

lemma rune_widths:
  "i < 8 \<Longrightarrow> [1, 1, 1, 1, 1, 1, 1, 1, 1, 1, 1, 1, 2, 2, 3, 4 :: nat] ! i = 1"
proof -
  have "\<forall>i < 8. [1, 1, 1, 1, 1, 1, 1, 1, 1, 1, 1, 1, 2, 2, 3, 4 :: nat] ! i = 1"
    by (simp add: numeral_eq_Suc All_less_Suc)
  then show "i < 8 \<Longrightarrow> [1, 1, 1, 1, 1, 1, 1, 1, 1, 1, 1, 1, 2, 2, 3, 4 :: nat] ! i = 1" by blast
qed

lemma runeLen_encode: "valid_rune r \<Longrightarrow> runeLen (hd (encode_rune r)) = length (encode_rune r)"
proof (erule rune_cases)
  assume "0 \<le> r" "r < 0x80" and e: "encode_rune r = [chr r]"
  then have "nat r div 16 < 8" by auto
  with \<open>r < 0x80\<close> show ?thesis using rune_widths(1) by (simp add: e runeLen_def chr_def)
next
  assume r: "0x80 \<le> r" "r < 0x800" and e: "encode_rune r = [chr (0xC0 + r div 0x40), chr (0x80 + r mod 0x40)]"
  then have "nat (0xC0 + r div 0x40) div 16 = 12 \<or> nat (0xC0 + r div 0x40) div 16 = 13"
    "nat (0xC0 + r div 0x40) < 256" by auto
  then show ?thesis by (auto simp: e runeLen_def chr_def)
next
  assume r: "0x800 \<le> r" "r < 0x10000" and e: "encode_rune r =
      [chr (0xE0 + r div 0x1000), chr (0x80 + r div 0x40 mod 0x40), chr (0x80 + r mod 0x40)]"
  then have "nat (0xE0 + r div 0x1000) div 16 = 14" "nat (0xE0 + r div 0x1000) < 256" by auto
  then show ?thesis by (auto simp: e runeLen_def chr_def)
next
  assume r: "0x10000 \<le> r" "r \<le> 0x10FFFF" and e: "encode_rune r =
      [chr (0xF0 + r div 0x40000), chr (0x80 + r div 0x1000 mod 0x40), chr (0x80 + r div 0x40 mod 0x40),
       chr (0x80 + r mod 0x40)]"
  then have "nat (0xF0 + r div 0x40000) div 16 = 15" "nat (0xF0 + r div 0x40000) < 256" by auto
  then show ?thesis by (auto simp: e runeLen_def chr_def)
qed

lemma pos_ok_decode:
  assumes "pos_ok expr start pos"
  shows "pos_ok expr start (pos + snd (decode_rune (drop pos expr)))"
    and "pos < length expr \<Longrightarrow> pos_ok expr start (pos + runeLen (expr ! pos))"
proof -
  show "pos_ok expr start (pos + snd (decode_rune (drop pos expr)))"
  proof (cases "drop pos expr")
    case Nil
    then show ?thesis using assms by (simp add: decode_rune_def)
  next
    case (Cons c t)
    let ?n = "snd (decode_rune (drop pos expr))"
    have "utf8 (drop pos expr)" using assms by (simp add: pos_ok_def)
    then have "?n \<le> length (drop pos expr)" "utf8 (drop ?n (drop pos expr))"
      using utf8_decode[of c t] unfolding Cons by blast+
    with assms show ?thesis by (auto simp: pos_ok_def add.commute)
  qed
  assume lt: "pos < length expr"
  then have d: "drop pos expr = expr ! pos # drop (Suc pos) expr" by (simp add: Cons_nth_drop_Suc)
  then obtain r s where r: "valid_rune r" "drop pos expr = encode_rune r @ s" "utf8 s"
    using assms utf8_first by (metis pos_ok_def)
  then have "expr ! pos = hd (encode_rune r)" using d by (metis hd_append2 encode_rune_nonempty list.sel(1))
  then have w: "runeLen (expr ! pos) = length (encode_rune r)" using runeLen_encode[OF r(1)] by simp
  have "drop (pos + length (encode_rune r)) expr = s" using r(2) by (metis add.commute append_eq_conv_conj drop_drop)
  moreover have "length (encode_rune r) \<le> length (drop pos expr)" using r(2) by simp
  ultimately show "pos_ok expr start (pos + runeLen (expr ! pos))"
    using r(3) assms lt by (simp add: w pos_ok_def)
qed

lemma slice_str_ok: "start \<le> pos \<Longrightarrow> pos \<le> length s \<Longrightarrow> slice_str s start pos = Inr (take (pos - start) (drop start s))"
  by (simp add: slice_str_def go_slice_def)

lemma placeValue_no_slice: "placeValue parse print cur v start pos \<noteq> Inl SliceOutOfRange"
  by (auto simp: placeValue_def Let_def split: option.splits if_splits prod.splits)

lemma parse_loop_in_range:
  "pos_ok expr start pos \<Longrightarrow> parse_loop parse print expr start pos cur parts \<noteq> Inl SliceOutOfRange"
proof (induction parse print expr start pos cur parts rule: parse_loop.induct)
  case (1 parse print expr start pos cur parts)
  note ok = "1.prems" and step = parse_loop.simps[of parse print expr start pos cur parts]
  have sl: "slice_str expr start pos = Inr (take (pos - start) (drop start expr))"
    using ok by (intro slice_str_ok) (simp_all add: pos_ok_def)
  show ?case
  proof (cases "pos < length expr")
    case False
    then show ?thesis
      unfolding step by (auto simp: sl bindR_Inl placeValue_no_slice)
  next
    case True
    have ascii: "pos_ok expr start (pos + 1) \<and> pos_ok expr (pos + 1) (pos + 1)" if "expr ! pos < CHR 0x80"
    proof -
      have "pos_ok expr start (pos + 1)"
        using ok True that by (intro pos_ok_next) (auto simp: less_char_def simp flip: of_nat_of_char[where 'a=int])
      then show ?thesis using pos_ok_self by blast
    qed
    have dec: "pos_ok expr start (pos + 1 + snd (decode_rune (drop (pos + 1) expr)))" if "expr ! pos = CHR 0x5C"
      using ascii that by (intro pos_ok_decode(1)) (simp add: less_char_def)
    have qe: "pos_ok expr start (pos + 1 + w)" if "consumeQE (drop (pos + 1) expr) = Some w" for w
      using pos_ok_closes[OF ok, of "pos + 1" "CHR ''E''" w] consumeQE_closes[OF that] by simp
    have cls: "pos_ok expr start (pos + w)" if "consumeCharClass (drop pos expr) = Some w" for w
      using pos_ok_closes[OF ok, of pos "CHR '']''" w] consumeCharClass_closes[OF that] by simp
    have paren: "pos_ok expr start (pos + w)" if "consumeParen (drop pos expr) 0 = Some w" for w
      using pos_ok_closes[OF ok, of pos "CHR '')''" w] consumeParen_closes(1)[OF that] by simp
    note IH = "1.IH"[OF True]
    consider (plus) "expr ! pos = CHR ''+''" | (colon) "expr ! pos = CHR '':''" | (space) "expr ! pos = CHR '' ''"
      | (bslash) "expr ! pos = CHR 0x5C" | (brack) "expr ! pos = CHR ''[''" | (par) "expr ! pos = CHR ''(''"
      | (other) "expr ! pos \<notin> {CHR ''+'', CHR '':'', CHR '' '', CHR 0x5C, CHR ''['', CHR ''(''}" by blast
    then show ?thesis
    proof cases
      case plus
      with ascii have "pos_ok expr start (pos + 1)" "pos_ok expr (pos + 1) (pos + 1)" by (simp_all add: less_char_def)
      then show ?thesis unfolding step using True plus IH(1,2) by simp
    next
      case colon
      with ascii have "pos_ok expr start (pos + 1)" "pos_ok expr (pos + 1) (pos + 1)" by (simp_all add: less_char_def)
      then show ?thesis unfolding step using True colon IH(3-5) by (simp add: Let_def)
    next
      case space
      with ascii have "pos_ok expr (pos + 1) (pos + 1)" by (simp add: less_char_def)
      then show ?thesis
        unfolding step using True space IH(6,7) placeValue_no_slice by (auto simp: sl split: option.splits sum.splits)
    next
      case bslash
      then show ?thesis unfolding step using True IH(8,9) dec qe
        by (auto split: option.splits prod.splits)
    next
      case brack
      then show ?thesis unfolding step using True IH(10) cls by (auto split: option.splits)
    next
      case par
      then show ?thesis unfolding step using True IH(11) paren by (auto split: option.splits)
    next
      case other
      then show ?thesis unfolding step using True IH(12) pos_ok_decode(2)[OF ok True] by simp
    qed
  qed
qed


subsection \<open>Parsing what one writes\<close>

text \<open>The way to write a part: \<open>+\<close> or \<open>-\<close> for a match without snippet, a tag for files and languages.\<close>

definition tag :: "part_code \<Rightarrow> bool \<Rightarrow> string" where
  "tag code neg = (case code of SNIPPET \<Rightarrow> [] | MATCH \<Rightarrow> (if neg then ''-'' else ''+'')
     | FILE \<Rightarrow> (if neg then ''-f:'' else ''f:'') | LANGUAGE \<Rightarrow> (if neg then ''-lang:'' else ''lang:''))"

fun render :: "(part_code \<times> bool \<times> string) list \<Rightarrow> string" where
  "render [] = []"
| "render [(code, neg, body)] = tag code neg @ body"
| "render ((code, neg, body) # items) = tag code neg @ body @ CHR '' '' # render items"

definition plain :: "char \<Rightarrow> bool" where
  "plain c \<longleftrightarrow> c < CHR 0x80 \<and> c \<notin> set '' +:[('' \<and> c \<noteq> CHR 0x5C"

fun writable :: "part_code \<times> bool \<times> string \<Rightarrow> bool" where
  "writable (code, neg, body) \<longleftrightarrow> body \<noteq> [] \<and> list_all plain body
     \<and> (code = SNIPPET \<longrightarrow> \<not> neg \<and> hd body \<noteq> CHR ''-'')"

lemma plain_runeLen: "plain c \<Longrightarrow> runeLen c = 1"
  using rune_widths(1)[of "of_char c div 16"] by (auto simp: plain_def runeLen_def less_char_def)

lemma plain_run:
  "list_all plain v \<Longrightarrow> parse_loop parse print (u @ v @ w) start (length u) cur parts
     = parse_loop parse print (u @ v @ w) start (length u + length v) cur parts"
proof (induction v arbitrary: u)
  case (Cons c v)
  then have "parse_loop parse print (u @ (c # v) @ w) start (length u) cur parts
      = parse_loop parse print (u @ (c # v) @ w) start (length u + 1) cur parts"
    using plain_runeLen[of c] by (subst parse_loop.simps) (simp add: plain_def)
  with Cons.IH[of "u @ [c]"] Cons.prems show ?case by simp
qed simp

lemma value_end:
  assumes "list_all plain v" and "v \<noteq> []" and "w = [] \<or> hd w = CHR '' ''"
    and "placeValue parse print cur v (length u) (length u + length v) = Inr p"
  shows "parse_loop parse print (u @ v @ w) (length u) (length u) cur parts
    = (if w = [] then Inr (parts @ [p])
       else parse_loop parse print (u @ v @ w) (length u + length v + 1) (length u + length v + 1) None (parts @ [p]))"
proof -
  have s: "slice_str (u @ v @ w) (length u) (length u + length v) = Inr v"
    by (simp add: slice_str_ok)
  have "parse_loop parse print (u @ v @ w) (length u) (length u + length v) cur parts
    = (if w = [] then Inr (parts @ [p])
       else parse_loop parse print (u @ v @ w) (length u + length v + 1) (length u + length v + 1) None (parts @ [p]))"
  proof (cases w)
    case Nil
    with s assms(2,4) show ?thesis by (simp add: parse_loop.simps[of _ _ _ _ "length u + length v"])
  next
    case (Cons c w')
    then have "(u @ v @ w) ! (length u + length v) = CHR '' ''" using assms(3) by (simp add: nth_append)
    with s assms(2,4) Cons show ?thesis by (simp add: parse_loop.simps[of _ _ _ _ "length u + length v"])
  qed
  then show ?thesis using plain_run[OF assms(1), of parse print u w "length u" cur parts] by simp
qed

lemma tag_end:
  assumes "list_all plain t" and "t \<noteq> []"
    and "code = (if hd t = CHR ''-'' then tl t else t)"
  shows "parse_loop parse print (u @ t @ CHR '':'' # w) (length u) (length u) cur parts
    = (let pos = length u + length t + 1; neg = (hd t = CHR ''-'') in
       if code = ''f'' \<or> code = ''file''
       then parse_loop parse print (u @ t @ CHR '':'' # w) pos pos (code_part FILE neg) parts
       else if code = ''lang''
       then parse_loop parse print (u @ t @ CHR '':'' # w) pos pos (code_part LANGUAGE neg) parts
       else parse_loop parse print (u @ t @ CHR '':'' # w) (length u) pos cur parts)"
proof -
  have h: "(u @ t @ CHR '':'' # w) ! length u = hd t" using assms(2) by (cases t) (simp_all add: nth_append)
  have c: "(u @ t @ CHR '':'' # w) ! (length u + length t) = CHR '':''" by (simp add: nth_append)
  have d: "drop (length u) (take (length u + length t) (u @ t @ CHR '':'' # w)) = t" by simp
  have "parse_loop parse print (u @ t @ CHR '':'' # w) (length u) (length u + length t) cur parts
    = (let pos = length u + length t + 1; neg = (hd t = CHR ''-'') in
       if code = ''f'' \<or> code = ''file''
       then parse_loop parse print (u @ t @ CHR '':'' # w) pos pos (code_part FILE neg) parts
       else if code = ''lang''
       then parse_loop parse print (u @ t @ CHR '':'' # w) pos pos (code_part LANGUAGE neg) parts
       else parse_loop parse print (u @ t @ CHR '':'' # w) (length u) pos cur parts)"
    unfolding parse_loop.simps[of _ _ _ _ "length u + length t"] c h d assms(3)
    by (simp add: Let_def)
  with plain_run[OF assms(1), of parse print u "CHR '':'' # w"] show ?thesis by simp
qed

definition part_of :: "parser \<Rightarrow> (regexp \<Rightarrow> string) \<Rightarrow> part_code \<times> bool \<times> string \<Rightarrow> ExpressionPart" where
  "part_of parse print it = (case it of (code, neg, body) \<Rightarrow>
     \<lparr>ep_expression = print (cleanRegexp (the (parse body))), ep_code = code, ep_negated = neg\<rparr>)"

lemma item_step:
  assumes ok: "writable (code, neg, body)" and w: "w = [] \<or> hd w = CHR '' ''"
    and re: "parse body = Some re" "cleanRegexp re \<noteq> OpEmptyMatch" "cleanRegexp re \<noteq> OpNoMatch"
  defines "txt \<equiv> tag code neg @ body"
  shows "parse_loop parse print (u @ txt @ w) (length u) (length u) None parts
    = (if w = [] then Inr (parts @ [part_of parse print (code, neg, body)])
       else parse_loop parse print (u @ txt @ w) (length (u @ txt) + 1) (length (u @ txt) + 1) None
              (parts @ [part_of parse print (code, neg, body)]))"
proof -
  have body: "list_all plain body" "body \<noteq> []" using ok by simp_all
  consider (snippet) "code = SNIPPET" "\<not> neg" "hd body \<noteq> CHR ''-''" | (plus) "code = MATCH" "\<not> neg" | (minus) "code = MATCH" "neg"
    | (files) "code = FILE" | (lang) "code = LANGUAGE"
    using ok by (cases code) auto
  then show ?thesis
  proof cases
    case snippet
    have "placeValue parse print None body (length u) (length u + length body) = Inr (part_of parse print (code, neg, body))"
      using snippet re by (simp add: placeValue_def part_of_def)
    from value_end[OF body w this] show ?thesis using snippet by (simp add: txt_def tag_def)
  next
    case minus
    have p: "list_all plain (CHR ''-'' # body)" using body by (simp add: plain_def less_char_def)
    have "placeValue parse print None (CHR ''-'' # body) (length u) (length u + length (CHR ''-'' # body))
        = Inr (part_of parse print (code, neg, body))"
      using minus re by (simp add: placeValue_def part_of_def)
    from value_end[OF p _ w this] show ?thesis using minus by (simp add: txt_def tag_def)
  next
    case plus
    have pl: "placeValue parse print (code_part MATCH False) body (length (u @ ''+'')) (length (u @ ''+'') + length body)
        = Inr (part_of parse print (code, neg, body))"
      using plus re by (simp add: placeValue_def part_of_def code_part_def)
    have "parse_loop parse print (u @ txt @ w) (length u) (length u) None parts
        = parse_loop parse print (u @ txt @ w) (length u + 1) (length u + 1) (code_part MATCH False) parts"
      using plus by (subst parse_loop.simps) (simp add: txt_def tag_def)
    with value_end[OF body w pl, of parts] show ?thesis using plus by (simp add: txt_def tag_def)
  next
    case files
    let ?t = "if neg then ''-f'' else ''f''"
    have pl: "placeValue parse print (code_part FILE neg) body (length (u @ ?t @ '':'')) (length (u @ ?t @ '':'') + length body)
        = Inr (part_of parse print (code, neg, body))"
      using files re by (simp add: placeValue_def part_of_def code_part_def)
    have "list_all plain ?t" by (simp add: plain_def less_char_def)
    from tag_end[OF this _ refl, of parse print u "body @ w" None parts] value_end[OF body w pl, of parts]
    show ?thesis using files by (simp add: txt_def tag_def split: if_splits)
  next
    case lang
    let ?t = "if neg then ''-lang'' else ''lang''"
    have pl: "placeValue parse print (code_part LANGUAGE neg) body (length (u @ ?t @ '':'')) (length (u @ ?t @ '':'') + length body)
        = Inr (part_of parse print (code, neg, body))"
      using lang re by (simp add: placeValue_def part_of_def code_part_def)
    have "list_all plain ?t" by (simp add: plain_def less_char_def)
    from tag_end[OF this _ refl, of parse print u "body @ w" None parts] value_end[OF body w pl, of parts]
    show ?thesis using lang by (simp add: txt_def tag_def split: if_splits)
  qed
qed

lemma parse_render:
  assumes "items \<noteq> []" and "list_all writable items"
    and "\<forall>(code, neg, body) \<in> set items. \<exists>re. parse body = Some re \<and> cleanRegexp re \<noteq> OpEmptyMatch \<and> cleanRegexp re \<noteq> OpNoMatch"
  shows "parse_loop parse print (u @ render items) (length u) (length u) None parts
    = Inr (parts @ map (part_of parse print) items)"
  using assms
proof (induction items arbitrary: u parts rule: render.induct)
  case (2 code neg body)
  then obtain re where "parse body = Some re" "cleanRegexp re \<noteq> OpEmptyMatch" "cleanRegexp re \<noteq> OpNoMatch" by auto
  with item_step[of code neg body "[]"] 2 show ?case by simp
next
  case (3 code neg body it items)
  then obtain re where "parse body = Some re" "cleanRegexp re \<noteq> OpEmptyMatch" "cleanRegexp re \<noteq> OpNoMatch" by auto
  with item_step[of code neg body "CHR '' '' # render (it # items)" parse re print u parts] 3(3)
    "3.IH"[of "u @ tag code neg @ body @ '' ''" "parts @ [part_of parse print (code, neg, body)]"] 3(2-)
  show ?case by simp
qed simp


definition literal_parser :: parser where
  "literal_parser s = (if s = [] then Some OpEmptyMatch else Some (OpLiteral False (map of_char s)))"

definition literal_printer :: "regexp \<Rightarrow> string" where
  "literal_printer re = (case re of OpLiteral fc rs \<Rightarrow> map chr rs | _ \<Rightarrow> [])"



end
