(* ===== verification/Matcher.thy ===== *)
theory Matcher
  imports Sparse_Set Buf_Writer
begin

text \<open>
  \<^verbatim>\<open>regexp/match.go\<close>: the matcher simulates the byte program of a regular expression line by
  line, with the states of a lazily built automaton. A state of the program is a queue of
  instructions (a sparse set) and flags about the byte before; its encoding as a string is the
  key under which the automaton keeps a \<open>dstate\<close>. A pointer to a \<^verbatim>\<open>dstate\<close> is a \<open>dref\<close>: the
  state \<^verbatim>\<open>dmatch\<close>, which stands for a match seen, or the entry of the map under a key.

  The value \<open>None\<close> is a run-time panic (an id outside of the program, a bad encoding) or, for the
  recursive functions, a computation that does not return.
\<close>

subsection \<open>Programs\<close>

text \<open>\<^verbatim>\<open>syntax.Prog\<close>, with the instruction this package adds.\<close>

datatype inst_op = InstAlt | InstAltMatch | InstCapture | InstEmptyWidth | InstMatch | InstFail | InstNop
  | InstRune | InstRune1 | InstRuneAny | InstRuneAnyNotNL | instByteRange

record Inst =
  in_op :: inst_op
  in_out :: u32
  in_arg :: u32
  in_rune :: "int list"

record Prog =
  pr_inst :: "Inst list"
  pr_start :: nat

definition argFold :: u32 where "argFold = push_bit 16 1"

text \<open>\<^verbatim>\<open>syntax.EmptyOp\<close>\<close>

definition EmptyBeginLine :: byte where "EmptyBeginLine = 1"
definition EmptyEndLine :: byte where "EmptyEndLine = 2"
definition EmptyBeginText :: byte where "EmptyBeginText = 4"
definition EmptyEndText :: byte where "EmptyEndText = 8"
definition EmptyWordBoundary :: byte where "EmptyWordBoundary = 16"
definition EmptyNoWordBoundary :: byte where "EmptyNoWordBoundary = 32"

subsection \<open>States\<close>

record nstate =
  ns_q :: sparse_set
  ns_partial :: int
  ns_flag :: u32

definition flagBOL :: u32 where "flagBOL = 1"
definition flagBOT :: u32 where "flagBOT = 4"
definition flagWord :: u32 where "flagWord = 16"

text \<open>\<^verbatim>\<open>binary.PutUvarint\<close>\<close>

function PutUvarint :: "u64 \<Rightarrow> byte list" where
  "PutUvarint x = (if x \<ge> 0x80 then (ucast x OR 0x80) # PutUvarint (drop_bit 7 x) else [ucast x])"
  by auto
termination
proof (relation "measure unat")
  fix x :: u64 assume "x \<ge> 0x80"
  then have "0 < unat x" by (simp add: word_le_nat_alt)
  moreover have "unat (drop_bit 7 x) = unat x div 2 ^ 7" by (metis unat_drop_bit_eq drop_bit_eq_div)
  ultimately show "(drop_bit 7 x, x) \<in> measure unat" by simp
qed simp

declare PutUvarint.simps [simp del]

fun enc_ids :: "u32 \<Rightarrow> u32 list \<Rightarrow> byte list" where
  "enc_ids lst [] = []"
| "enc_ids lst (x # ids) = PutUvarint (ucast (x - lst)) @ enc_ids x ids"

definition ns_enc :: "nstate \<Rightarrow> byte list" where
  "ns_enc z = PutUvarint (word_of_int (ns_partial z)) @ PutUvarint (ucast (ns_flag z))
     @ enc_ids (- 1) (sort (Dense (ns_q z)))"

function dec_ids :: "sparse_set \<Rightarrow> u32 \<Rightarrow> byte list \<Rightarrow> sparse_set option" where
  "dec_ids q lst b =
     (if b = [] then Some q
      else let (i, n) = Uvarint b
           in if n \<le> 0 then None
              else let lst = lst + ucast i
                   in Option.bind (Add q lst) (\<lambda>q. dec_ids q lst (drop (nat n) b)))"
  by auto
termination by (relation "measure (\<lambda>(q, lst, b). length b)") auto

declare dec_ids.simps [simp del]

definition ns_dec :: "nstate \<Rightarrow> byte list \<Rightarrow> nstate option" where
  "ns_dec z b =
     (let (i, n) = Uvarint b in
      if n \<le> 0 then None
      else let b = drop (nat n) b; (j, n) = Uvarint b in
      if n \<le> 0 then None
      else let b = drop (nat n) b in
        map_option (\<lambda>q. \<lparr>ns_q = q, ns_partial = sint (ucast i :: 32 word), ns_flag = ucast j\<rparr>)
          (dec_ids (Reset (ns_q z)) (- 1) b))"

datatype dref = DMatch | DState "byte list"

record dstate =
  ds_next :: "byte \<Rightarrow> dref option"
  ds_enc :: "byte list"
  ds_matchNL :: bool
  ds_matchEOT :: bool

record matcher =
  m_prog :: Prog
  m_dstate :: "byte list \<Rightarrow> dstate option"
  m_start :: dref
  m_startLine :: dref
  m_z1 :: nstate
  m_z2 :: nstate

subsection \<open>Steps\<close>

partial_function (option) addq :: "Prog \<Rightarrow> sparse_set \<Rightarrow> u32 \<Rightarrow> byte \<Rightarrow> sparse_set option" where
  "addq P q x flag =
     Option.bind (Has q x) (\<lambda>has.
       if has then Some q
       else Option.bind (Add q x) (\<lambda>q. Option.bind (go_index (pr_inst P) (unat x)) (\<lambda>i.
         if in_op i = InstCapture \<or> in_op i = InstNop then addq P q (in_out i) flag
         else if in_op i = InstAlt \<or> in_op i = InstAltMatch
         then Option.bind (addq P q (in_out i) flag) (\<lambda>q. addq P q (in_arg i) flag)
         else if in_op i = InstEmptyWidth
         then (if ucast (in_arg i) AND NOT flag = 0 then addq P q (in_out i) flag else Some q)
         else Some q)))"

fun addq_all :: "Prog \<Rightarrow> sparse_set \<Rightarrow> u32 list \<Rightarrow> byte \<Rightarrow> sparse_set option" where
  "addq_all P q [] flag = Some q"
| "addq_all P q (x # ids) flag = Option.bind (addq P q x flag) (\<lambda>q. addq_all P q ids flag)"

definition stepEmpty :: "Prog \<Rightarrow> sparse_set \<Rightarrow> sparse_set \<Rightarrow> byte \<Rightarrow> sparse_set option" where
  "stepEmpty P runq nextq flag = addq_all P (Reset nextq) (Dense runq) flag"

text \<open>A byte is an \<^verbatim>\<open>int\<close> here, the end of the text is -1.\<close>

definition consumes :: "Inst \<Rightarrow> int \<Rightarrow> bool" where
  "consumes i c =
     (in_op i = instByteRange \<and> c \<noteq> - 1
      \<and> (let lo = int (unat (drop_bit 8 (in_arg i) AND 0xFF)); hi = int (unat (in_arg i AND 0xFF));
             ch = (if in_arg i AND argFold \<noteq> 0 \<and> 97 \<le> c \<and> c \<le> 122 then c + (65 - 97) else c)
         in lo \<le> ch \<and> ch \<le> hi))"

fun step_ids :: "Prog \<Rightarrow> sparse_set \<Rightarrow> u32 list \<Rightarrow> int \<Rightarrow> byte \<Rightarrow> bool \<Rightarrow> (bool \<times> sparse_set) option" where
  "step_ids P q [] c flag mtch = Some (mtch, q)"
| "step_ids P q (x # ids) c flag mtch =
     Option.bind (go_index (pr_inst P) (unat x)) (\<lambda>i.
       if in_op i = InstMatch then step_ids P q ids c flag True
       else if consumes i c
       then Option.bind (addq P q (in_out i) flag) (\<lambda>q. step_ids P q ids c flag mtch)
       else step_ids P q ids c flag mtch)"

definition stepByte :: "Prog \<Rightarrow> sparse_set \<Rightarrow> sparse_set \<Rightarrow> int \<Rightarrow> byte \<Rightarrow> (bool \<times> sparse_set) option" where
  "stepByte P runq nextq c flag =
     Option.bind (addq P (Reset nextq) (word_of_nat (pr_start P)) flag) (\<lambda>q.
       step_ids P q (Dense runq) c flag False)"

definition isWordByte :: "int \<Rightarrow> bool" where
  "isWordByte c = (65 \<le> c \<and> c \<le> 90 \<or> 97 \<le> c \<and> c \<le> 122 \<or> 48 \<le> c \<and> c \<le> 57 \<or> c = 95)"

text \<open>The flags in effect before \<open>c\<close>, the empty-width flags after it and the flags it leaves.\<close>

definition flags_before :: "u32 \<Rightarrow> int \<Rightarrow> byte" where
  "flags_before fl c =
     (let flag = 0;
          flag = (if fl AND flagBOL \<noteq> 0 then flag OR EmptyBeginLine else flag);
          flag = (if fl AND flagBOT \<noteq> 0 then flag OR EmptyBeginText else flag);
          flag = (if fl AND flagWord \<noteq> 0
                  then (if \<not> isWordByte c then flag OR EmptyWordBoundary else flag OR EmptyNoWordBoundary)
                  else (if isWordByte c then flag OR EmptyWordBoundary else flag OR EmptyNoWordBoundary));
          flag = (if c = 10 then flag OR EmptyEndLine else flag);
          flag = (if c = - 1 then flag OR (EmptyEndLine OR EmptyEndText) else flag)
      in flag)"

definition flags_after :: "int \<Rightarrow> byte" where
  "flags_after c = (if c = 10 then EmptyBeginLine else 0)"

definition flags_left :: "int \<Rightarrow> u32" where
  "flags_left c = (if c = 10 then flagBOL else 0) OR (if isWordByte c then flagWord else 0)"

text \<open>\<^verbatim>\<open>computeNext\<close> up to the call of \<^verbatim>\<open>cache\<close>: whether a match ends before \<open>c\<close>, and the matcher
  with the next state in \<^verbatim>\<open>z1\<close>.\<close>

definition next_nstate :: "matcher \<Rightarrow> byte list \<Rightarrow> int \<Rightarrow> (bool \<times> matcher) option" where
  "next_nstate m e c =
     Option.bind (ns_dec (m_z1 m) e) (\<lambda>z1.
     Option.bind (stepEmpty (m_prog m) (ns_q z1) (ns_q (m_z2 m)) (flags_before (ns_flag z1) c)) (\<lambda>q2.
     Option.bind (stepByte (m_prog m) q2 (ns_q z1) c (flags_after c)) (\<lambda>(mtch, q1).
       Some (mtch, m\<lparr>m_z1 := z1\<lparr>ns_q := q1, ns_flag := flags_left c\<rparr>,
                     m_z2 := (m_z2 m)\<lparr>ns_q := q2\<rparr>\<rparr>))))"

definition new_dstate :: "byte list \<Rightarrow> dstate" where
  "new_dstate e = \<lparr>ds_next = (\<lambda>_. None), ds_enc = e, ds_matchNL = False, ds_matchEOT = False\<rparr>"

definition update_dstate :: "matcher \<Rightarrow> byte list \<Rightarrow> (dstate \<Rightarrow> dstate) \<Rightarrow> matcher" where
  "update_dstate m e f = m\<lparr>m_dstate := (m_dstate m)(e := map_option f (m_dstate m e))\<rparr>"

text \<open>\<^verbatim>\<open>cache(&m.z1)\<close>, with the two calls of \<^verbatim>\<open>computeNext\<close> written out; every call of \<^verbatim>\<open>cache\<close> is
  for \<^verbatim>\<open>z1\<close>.\<close>

partial_function (option) cache :: "matcher \<Rightarrow> (dref \<times> matcher) option" where
  "cache m =
     (let e = ns_enc (m_z1 m) in
      if m_dstate m e \<noteq> None then Some (DState e, m)
      else
        Option.bind (next_nstate (m\<lparr>m_dstate := (m_dstate m)(e \<mapsto> new_dstate e)\<rparr>) e 10) (\<lambda>(mtch, m).
        Option.bind (if mtch then Some (DMatch, m) else cache m) (\<lambda>(d, m).
        Option.bind (next_nstate (update_dstate m e (\<lambda>s. s\<lparr>ds_matchNL := (d = DMatch)\<rparr>)) e (- 1)) (\<lambda>(mtch, m).
        Option.bind (if mtch then Some (DMatch, m) else cache m) (\<lambda>(d, m).
          Some (DState e, update_dstate m e (\<lambda>s. s\<lparr>ds_matchEOT := (d = DMatch)\<rparr>)))))))"

definition computeNext :: "matcher \<Rightarrow> byte list \<Rightarrow> int \<Rightarrow> (dref \<times> matcher) option" where
  "computeNext m e c =
     Option.bind (next_nstate m e c) (\<lambda>(mtch, m). if mtch then Some (DMatch, m) else cache m)"

definition m_init :: "Prog \<Rightarrow> matcher option" where
  "m_init P =
     (let n = word_of_nat (length (pr_inst P));
          z = \<lparr>ns_q = Init (NewSet 0) n, ns_partial = 0, ns_flag = 0\<rparr>;
          m = \<lparr>m_prog = P, m_dstate = (\<lambda>_. None), m_start = DMatch, m_startLine = DMatch, m_z1 = z, m_z2 = z\<rparr> in
      Option.bind (addq P (ns_q (m_z1 m)) (word_of_nat (pr_start P)) (EmptyBeginLine OR EmptyBeginText)) (\<lambda>q.
      Option.bind (cache (m\<lparr>m_z1 := (m_z1 m)\<lparr>ns_q := q, ns_flag := flagBOL OR flagBOT\<rparr>\<rparr>)) (\<lambda>(d, m).
      let m = m\<lparr>m_start := d\<rparr> in
      Option.bind (addq P (Reset (ns_q (m_z1 m))) (word_of_nat (pr_start P)) EmptyBeginLine) (\<lambda>q.
      Option.bind (cache (m\<lparr>m_z1 := (m_z1 m)\<lparr>ns_q := q, ns_flag := flagBOL\<rparr>\<rparr>)) (\<lambda>(d, m).
        Some (m\<lparr>m_startLine := d\<rparr>))))))"

subsection \<open>Matching\<close>

text \<open>The fields of the state a pointer points to; \<^verbatim>\<open>dmatch\<close> is set up by \<^verbatim>\<open>init\<close>.\<close>

definition next_of :: "matcher \<Rightarrow> dref \<Rightarrow> byte \<Rightarrow> dref option" where
  "next_of m d c = (case d of DMatch \<Rightarrow> (if c \<noteq> 10 then Some DMatch else None)
     | DState e \<Rightarrow> Option.bind (m_dstate m e) (\<lambda>s. ds_next s c))"

definition matchNL_of :: "matcher \<Rightarrow> dref \<Rightarrow> bool" where
  "matchNL_of m d = (case d of DMatch \<Rightarrow> True
     | DState e \<Rightarrow> (case m_dstate m e of None \<Rightarrow> False | Some s \<Rightarrow> ds_matchNL s))"

definition matchEOT_of :: "matcher \<Rightarrow> dref \<Rightarrow> bool" where
  "matchEOT_of m d = (case d of DMatch \<Rightarrow> True
     | DState e \<Rightarrow> (case m_dstate m e of None \<Rightarrow> False | Some s \<Rightarrow> ds_matchEOT s))"

text \<open>\<^verbatim>\<open>d.next[c] = d1\<close>. It is not reached for \<^verbatim>\<open>dmatch\<close>, which has a next state for every byte but the
  newline, where the loop returns.\<close>

definition store_next :: "matcher \<Rightarrow> dref \<Rightarrow> byte \<Rightarrow> dref \<Rightarrow> matcher" where
  "store_next m d c d1 = (case d of DMatch \<Rightarrow> m
     | DState e \<Rightarrow> update_dstate m e (\<lambda>s. s\<lparr>ds_next := (ds_next s)(c := Some d1)\<rparr>))"

text \<open>The loop of \<^verbatim>\<open>match\<close> from the byte at \<open>i\<close> on.\<close>

fun match_loop :: "matcher \<Rightarrow> dref \<Rightarrow> byte list \<Rightarrow> nat \<Rightarrow> bool \<Rightarrow> (int \<times> matcher) option" where
  "match_loop m d [] i endText =
     Some (if matchNL_of m d \<or> endText \<and> matchEOT_of m d then int i else - 1, m)"
| "match_loop m d (c # b) i endText =
     (case next_of m d c of
        Some d1 \<Rightarrow> match_loop m d1 b (i + 1) endText
      | None \<Rightarrow>
          if c = 10 then
            if matchNL_of m d then Some (int i, m)
            else match_loop (store_next m d c (m_startLine m)) (m_startLine m) b (i + 1) endText
          else case d of
            DMatch \<Rightarrow> None
          | DState e \<Rightarrow>
              Option.bind (computeNext m e (int (unat c))) (\<lambda>(d1, m).
                match_loop (store_next m d c d1) d1 b (i + 1) endText))"

definition m_match :: "matcher \<Rightarrow> byte list \<Rightarrow> bool \<Rightarrow> bool \<Rightarrow> (int \<times> matcher) option" where
  "m_match m b beginText endText =
     match_loop m (if beginText then m_start m else m_startLine m) b 0 endText"

text \<open>\<^verbatim>\<open>matchString\<close> is the same loop over the bytes of a string.\<close>

definition matchString :: "matcher \<Rightarrow> string \<Rightarrow> bool \<Rightarrow> bool \<Rightarrow> (int \<times> matcher) option" where
  "matchString m b beginText endText =
     match_loop m (if beginText then m_start m else m_startLine m) (bytes_of b) 0 endText"

end
