(* ===== verification/Byte_Prog.thy ===== *)
theory Byte_Prog
  imports Matcher Utf8
begin

text \<open>
  \<^verbatim>\<open>regexp/utf.go\<close> and the range functions of \<^verbatim>\<open>regexp/copy.go\<close>: the translation of a program over runes
  into one over bytes. An instruction for a class of runes becomes the root of a machine for the
  UTF-8 encodings of the class: ranges are split until the encodings of a range are all sequences of
  bytes between those of its ends, each such sequence becomes a chain of byte instructions, with equal
  suffixes shared through a cache, and the chains are the branches of the root.

  The value \<open>None\<close> is a run-time panic. \<^verbatim>\<open>unicode.SimpleFold\<close> is the parameter \<open>sf\<close>.
\<close>

subsection \<open>Ranges\<close>

definition appendRange :: "int list \<Rightarrow> int \<Rightarrow> int \<Rightarrow> int list" where
  "appendRange r lo hi =
     (let n = length r;
          joins = (\<lambda>i. n \<ge> i \<and> lo \<le> r ! (n - i + 1) + 1 \<and> r ! (n - i) \<le> hi + 1);
          join = (\<lambda>i. let rlo = r ! (n - i); rhi = r ! (n - i + 1);
                          r = (if lo < rlo then r[n - i := lo] else r)
                      in if hi > rhi then r[n - i + 1 := hi] else r)
      in if joins 2 then join 2 else if joins 4 then join 4 else r @ [lo, hi])"

definition minFold :: int where "minFold = 0x0041"
definition maxFold :: int where "maxFold = 0x1044f"

text \<open>The runes of the folding orbit after \<open>c\<close>; that the loop ends is documented behaviour of
  \<^verbatim>\<open>SimpleFold\<close>.\<close>

partial_function (option) fold_orbit_loop :: "(int \<Rightarrow> int) \<Rightarrow> int \<Rightarrow> int \<Rightarrow> int list \<Rightarrow> int list option" where
  "fold_orbit_loop sf c f r = (if f \<noteq> c then fold_orbit_loop sf c (sf f) (appendRange r f f) else Some r)"

declare fold_orbit_loop.simps [code]

function folded_range_loop :: "(int \<Rightarrow> int) \<Rightarrow> int \<Rightarrow> int \<Rightarrow> int list \<Rightarrow> int list option" where
  "folded_range_loop sf c hi r =
     (if c \<le> hi then
        Option.bind (fold_orbit_loop sf c (sf c) (appendRange r c c)) (\<lambda>r. folded_range_loop sf (c + 1) hi r)
      else Some r)"
  by auto
termination by (relation "measure (\<lambda>(sf, c, hi, r). nat (hi + 1 - c))") auto

declare folded_range_loop.simps [simp del]

definition appendFoldedRange :: "(int \<Rightarrow> int) \<Rightarrow> int list \<Rightarrow> int \<Rightarrow> int \<Rightarrow> int list option" where
  "appendFoldedRange sf r lo hi =
     (if lo \<le> minFold \<and> hi \<ge> maxFold then Some (appendRange r lo hi)
      else if hi < minFold \<or> lo > maxFold then Some (appendRange r lo hi)
      else let (r, lo) = (if lo < minFold then (appendRange r lo (minFold - 1), minFold) else (r, lo));
               (r, hi) = (if hi > maxFold then (appendRange r (maxFold + 1) hi, maxFold) else (r, hi))
           in folded_range_loop sf lo hi r)"

subsection \<open>One byte\<close>

definition foldCase :: u32 where "foldCase = 1"

definition is_fold :: "Inst \<Rightarrow> bool" where
  "is_fold i = (in_arg i AND foldCase \<noteq> 0)"

definition asciiFold :: "(int \<Rightarrow> int) \<Rightarrow> int \<Rightarrow> bool" where
  "asciiFold sf r =
     (if r \<ge> 0x80 then False
      else let r1 = sf r in if r1 \<ge> 0x80 then False else if r1 = r then True else sf r1 = r)"

text \<open>The result is \<^verbatim>\<open>lo, hi, fd\<close>, or \<open>None\<close> when \<^verbatim>\<open>ok\<close> is false; the outer option is the panic.\<close>

definition oneByteRange :: "(int \<Rightarrow> int) \<Rightarrow> Inst \<Rightarrow> (byte \<times> byte \<times> bool) option option" where
  "oneByteRange sf i =
     (if in_op i = InstRune1 \<and> in_rune i = [] then None
      else if in_op i = InstRune1 \<and> in_rune i ! 0 < 0x80
      then Some (Some (word_of_int (in_rune i ! 0), word_of_int (in_rune i ! 0), False))
      else if in_op i \<noteq> InstRune then Some None
      else let fd = is_fold i; rs = in_rune i in
        if length rs = 1 \<or> length rs = 2 \<and> rs ! 0 = rs ! 1 then
          (if rs ! 0 \<ge> 0x80 then Some None
           else if fd \<and> \<not> asciiFold sf (rs ! 0) then Some None
           else Some (Some (word_of_int (rs ! 0), word_of_int (rs ! 0), fd)))
        else if length rs = 2 \<and> rs ! 1 < 0x80 then
          (if fd \<and> list_ex (asciiFold sf) [rs ! 0..rs ! 1] then Some None
           else Some (Some (word_of_int (rs ! 0), word_of_int (rs ! 1), fd)))
        else if length rs = 4 \<and> rs ! 0 = rs ! 1 \<and> rs ! 2 = rs ! 3 \<and> sf (rs ! 0) = rs ! 2 \<and> sf (rs ! 2) = rs ! 0
        then Some (Some (word_of_int (rs ! 0), word_of_int (rs ! 0), True))
        else Some None)"

subsection \<open>Building machines\<close>

definition maxRune :: "nat \<Rightarrow> int" where
  "maxRune n = (let b = (if n = 1 then 7 else 8 - (n + 1) + 6 * (n - 1)) in push_bit b 1 - 1)"

record runeBuilder =
  rb_begin :: u32
  rb_out :: u32
  rb_cache :: "byte \<times> byte \<times> bool \<times> u32 \<Rightarrow> u32 option"
  rb_inst :: "Inst list"

definition op_of :: "runeBuilder \<Rightarrow> inst_op" where
  "op_of b = in_op (rb_inst b ! unat (rb_begin b))"

definition set_inst :: "Inst list \<Rightarrow> u32 \<Rightarrow> (Inst \<Rightarrow> Inst) \<Rightarrow> Inst list" where
  "set_inst is x f = is[unat x := f (is ! unat x)]"

definition rb_init :: "Inst list \<Rightarrow> u32 \<Rightarrow> u32 \<Rightarrow> runeBuilder" where
  "rb_init is begin out =
     \<lparr>rb_begin = begin, rb_out = out, rb_cache = (\<lambda>_. None),
      rb_inst = set_inst is begin (\<lambda>i. i\<lparr>in_op := InstFail\<rparr>)\<rparr>"

definition uncachedSuffix :: "runeBuilder \<Rightarrow> byte \<Rightarrow> byte \<Rightarrow> bool \<Rightarrow> u32 \<Rightarrow> u32 \<times> runeBuilder" where
  "uncachedSuffix b lo hi fd next =
     (let next = (if next = 0 then rb_out b else next);
          pc = word_of_nat (length (rb_inst b));
          arg = push_bit 8 (ucast lo) OR ucast hi;
          arg = (if fd then arg OR argFold else arg)
      in (pc, b\<lparr>rb_inst := rb_inst b @ [\<lparr>in_op = instByteRange, in_out = next, in_arg = arg, in_rune = []\<rparr>]\<rparr>))"

definition rb_suffix :: "runeBuilder \<Rightarrow> byte \<Rightarrow> byte \<Rightarrow> bool \<Rightarrow> u32 \<Rightarrow> u32 \<times> runeBuilder" where
  "rb_suffix b lo hi fd next =
     (if lo < 0x80 \<or> hi > 0xbf then uncachedSuffix b lo hi fd next
      else case rb_cache b (lo, hi, fd, next) of
             Some pc \<Rightarrow> (pc, b)
           | None \<Rightarrow> let (pc, b) = uncachedSuffix b lo hi fd next
                     in (pc, b\<lparr>rb_cache := (rb_cache b)((lo, hi, fd, next) \<mapsto> pc)\<rparr>))"

definition addBranch :: "runeBuilder \<Rightarrow> u32 \<Rightarrow> runeBuilder" where
  "addBranch b pc =
     (let begin = rb_begin b; is = rb_inst b in
      if op_of b = InstFail then b\<lparr>rb_inst := set_inst is begin (\<lambda>i. i\<lparr>in_op := InstNop, in_out := pc\<rparr>)\<rparr>
      else if op_of b = InstNop then b\<lparr>rb_inst := set_inst is begin (\<lambda>i. i\<lparr>in_op := InstAlt, in_arg := pc\<rparr>)\<rparr>
      else if op_of b = InstAlt then
        (let apc = word_of_nat (length is);
             is = is @ [\<lparr>in_op = InstAlt, in_out = in_arg (is ! unat begin), in_arg = pc, in_rune = []\<rparr>]
         in b\<lparr>rb_inst := set_inst is begin (\<lambda>i. i\<lparr>in_arg := apc\<rparr>), rb_begin := apc\<rparr>)
      else b)"

text \<open>The chain for a sequence of byte ranges, from the last byte to the first.\<close>

fun add_chain :: "runeBuilder \<Rightarrow> (byte \<times> byte) list \<Rightarrow> u32 \<Rightarrow> u32 \<times> runeBuilder" where
  "add_chain b [] pc = (pc, b)"
| "add_chain b ((lo, hi) # ranges) pc = (let (pc, b) = rb_suffix b lo hi False pc in add_chain b ranges pc)"

text \<open>The two loops that look for a place to split: at the end of an encoding length, then where the
  leading bytes change. The result has the last rune of the first part.\<close>

fun split_length :: "int \<Rightarrow> int \<Rightarrow> nat list \<Rightarrow> int option" where
  "split_length lo hi [] = None"
| "split_length lo hi (i # is) =
     (let max = maxRune i in if lo \<le> max \<and> max < hi then Some max else split_length lo hi is)"

fun split_bytes :: "int \<Rightarrow> int \<Rightarrow> nat list \<Rightarrow> int option" where
  "split_bytes lo hi [] = None"
| "split_bytes lo hi (i # is) =
     (let m = push_bit (6 * i) 1 - 1 in
      if lo AND NOT m \<noteq> hi AND NOT m then
        if lo AND m \<noteq> 0 then Some (lo OR m)
        else if hi AND m \<noteq> m then Some ((hi AND NOT m) - 1)
        else split_bytes lo hi is
      else split_bytes lo hi is)"

lemma split_length_range: "split_length lo hi is = Some m \<Longrightarrow> lo \<le> m \<and> m < hi"
  by (induction "is") (auto simp: Let_def split: if_splits)

subsection \<open>Masks of continuation bits\<close>

lemma and_low_mask: "(x :: int) AND (2 ^ k - 1) = x mod 2 ^ k"
  by (simp only: take_bit_eq_mod flip: take_bit_eq_mask mask_eq_exp_minus_1)

lemma or_low_mask: "(x :: int) OR (2 ^ k - 1) = 2 ^ k * (x div 2 ^ k) + (2 ^ k - 1)"
proof -
  have "(x AND (2 ^ k - 1)) + (x OR (2 ^ k - 1)) = x + (2 ^ k - 1)" by (rule plus_and_or)
  then have "x OR (2 ^ k - 1) = x - x mod 2 ^ k + (2 ^ k - 1)" unfolding and_low_mask by linarith
  then show ?thesis by (simp add: minus_mod_eq_mult_div)
qed

lemma and_not_low_mask: "(x :: int) AND NOT (2 ^ k - 1) = 2 ^ k * (x div 2 ^ k)"
proof -
  have disjoint: "(x AND NOT (2 ^ k - 1)) AND (2 ^ k - 1) = 0" by (simp add: and.assoc)
  have "(x AND NOT (2 ^ k - 1)) OR (2 ^ k - 1) = x OR (2 ^ k - 1)" by (simp add: bit.disj_conj_distrib2)
  with plus_and_or[of "x AND NOT (2 ^ k - 1)" "2 ^ k - 1"] show ?thesis
    unfolding disjoint or_low_mask by linarith
qed

lemma split_bytes_Cons:
  "split_bytes lo hi (i # is) =
     (let q = 2 ^ (6 * i) in
      if lo div q \<noteq> hi div q then
        if lo mod q \<noteq> 0 then Some (q * (lo div q) + (q - 1))
        else if hi mod q \<noteq> q - 1 then Some (q * (hi div q) - 1)
        else split_bytes lo hi is
      else split_bytes lo hi is)"
  unfolding split_bytes.simps Let_def push_bit_of_1 and_low_mask and_not_low_mask or_low_mask
  by (simp only: mult_cancel_left power_not_zero zero_neq_numeral[symmetric] simp_thms)

lemma split_bytes_range: "split_bytes lo hi is = Some m \<Longrightarrow> lo \<le> hi \<Longrightarrow> lo \<le> m \<and> m < hi"
proof (induction "is")
  case (Cons i "is")
  define q :: int where "q = 2 ^ (6 * i)"
  have q: "0 < q" by (simp add: q_def)
  have lo: "q * (lo div q) + lo mod q = lo" "0 \<le> lo mod q" "lo mod q < q" using q by simp_all
  have hi: "q * (hi div q) + hi mod q = hi" "0 \<le> hi mod q" "hi mod q < q" using q by simp_all
  have "lo div q \<le> hi div q" using Cons.prems(2) q by (simp add: zdiv_mono1)
  then have less: "q * (lo div q) + q \<le> q * (hi div q)" if "lo div q \<noteq> hi div q"
    using that q mult_left_mono[of "lo div q + 1" "hi div q" q] by (simp add: algebra_simps)
  consider "split_bytes lo hi is = Some m"
    | "lo div q \<noteq> hi div q" "m = q * (lo div q) + (q - 1)"
    | "lo div q \<noteq> hi div q" "hi mod q \<noteq> q - 1" "lo mod q = 0" "m = q * (hi div q) - 1"
    using Cons.prems(1) unfolding split_bytes_Cons Let_def q_def[symmetric] by (metis option.inject)
  then show ?case
  proof cases
    case 2
    then show ?thesis using less lo hi by linarith
  next
    case 3
    then show ?thesis using less q lo hi by linarith
  qed (use Cons in blast)
qed simp

declare split_length.simps [simp del] split_bytes.simps [simp del]

subsection \<open>Adding a range\<close>

text \<open>\<^verbatim>\<open>utf8.EncodeRune\<close> as bytes.\<close>

definition EncodeRune :: "int \<Rightarrow> byte list" where
  "EncodeRune r = map of_char (encode_rune r)"

function addRange :: "runeBuilder \<Rightarrow> int \<Rightarrow> int \<Rightarrow> bool \<Rightarrow> runeBuilder option" where
  "addRange b lo hi fd =
     (if lo > hi then Some b
      else case split_length lo hi [1, 2, 3] of
        Some mx \<Rightarrow> Option.bind (addRange b lo mx fd) (\<lambda>b. addRange b (mx + 1) hi fd)
      | None \<Rightarrow>
          if hi < 0x80
          then let (pc, b) = rb_suffix b (word_of_int lo) (word_of_int hi) fd 0 in Some (addBranch b pc)
          else case split_bytes lo hi [1, 2, 3] of
            Some mx \<Rightarrow> Option.bind (addRange b lo mx fd) (\<lambda>b. addRange b (mx + 1) hi fd)
          | None \<Rightarrow>
              let ulo = EncodeRune lo; uhi = EncodeRune hi in
              if length ulo \<noteq> length uhi then None
              else let (pc, b) = add_chain b (rev (zip ulo uhi)) 0 in Some (addBranch b pc))"
  by auto
termination
  by (relation "measure (\<lambda>(b, lo, hi, fd). nat (hi - lo))")
    (auto dest!: split_length_range split_bytes_range)

declare addRange.simps [simp del]

subsection \<open>The translation\<close>

fun add_pairs :: "runeBuilder \<Rightarrow> int list \<Rightarrow> runeBuilder option" where
  "add_pairs b [] = Some b"
| "add_pairs b [x] = None"
| "add_pairs b (lo # hi # r) = Option.bind (addRange b lo hi False) (\<lambda>b. add_pairs b r)"

definition add_class :: "runeBuilder \<Rightarrow> int list \<Rightarrow> runeBuilder option" where
  "add_class b r = (if length r = 1 then addRange b (r ! 0) (r ! 0) False else add_pairs b r)"

fun folded_pairs :: "(int \<Rightarrow> int) \<Rightarrow> int list \<Rightarrow> int list \<Rightarrow> int list option" where
  "folded_pairs sf rr [] = Some rr"
| "folded_pairs sf rr [x] = None"
| "folded_pairs sf rr (lo # hi # r) = Option.bind (appendFoldedRange sf rr lo hi) (\<lambda>rr. folded_pairs sf rr r)"

definition folded_class :: "(int \<Rightarrow> int) \<Rightarrow> int list \<Rightarrow> int list option" where
  "folded_class sf r = (if length r = 1 then appendFoldedRange sf [] (r ! 0) (r ! 0) else folded_pairs sf [] r)"

text \<open>The body of the loop of \<^verbatim>\<open>toByteProg\<close> at \<open>pc\<close>.\<close>

definition byte_inst :: "byte \<Rightarrow> byte \<Rightarrow> bool \<Rightarrow> Inst \<Rightarrow> Inst" where
  "byte_inst lo hi fd i =
     (let arg = push_bit 8 (ucast lo) OR ucast hi
      in i\<lparr>in_op := instByteRange, in_arg := (if fd then arg OR argFold else arg)\<rparr>)"

definition toByte_step :: "(int \<Rightarrow> int) \<Rightarrow> Inst list \<Rightarrow> nat \<Rightarrow> Inst list option" where
  "toByte_step sf is pc =
     (let i = is ! pc in
      if in_op i = InstRune \<or> in_op i = InstRune1 then
        Option.bind (oneByteRange sf i) (\<lambda>one. case one of
          Some (lo, hi, fd) \<Rightarrow> Some (is[pc := byte_inst lo hi fd i])
        | None \<Rightarrow>
            Option.bind (if is_fold i then folded_class sf (in_rune i) else Some (in_rune i)) (\<lambda>r.
              map_option rb_inst (add_class (rb_init is (word_of_nat pc) (in_out i)) r)))
      else if in_op i = InstRuneAny \<or> in_op i = InstRuneAnyNotNL then
        map_option rb_inst (addRange (rb_init is (word_of_nat pc) (in_out i)) 0 0x10FFFF False)
      else Some is)"

fun toByte_loop :: "(int \<Rightarrow> int) \<Rightarrow> nat list \<Rightarrow> Inst list \<Rightarrow> Inst list option" where
  "toByte_loop sf [] is = Some is"
| "toByte_loop sf (pc # pcs) is = Option.bind (toByte_step sf is pc) (toByte_loop sf pcs)"

definition toByteProg :: "(int \<Rightarrow> int) \<Rightarrow> Prog \<Rightarrow> Prog option" where
  "toByteProg sf P =
     map_option (\<lambda>is. P\<lparr>pr_inst := is\<rparr>) (toByte_loop sf [0..<length (pr_inst P)] (pr_inst P))"

end
