(* ===== verification/Byte_Ranges.thy ===== *)
theory Byte_Ranges
  imports Byte_Prog
begin

text \<open>
  The arithmetic behind \<open>addRange\<close>: the ranges it no longer splits partition the range it was given,
  and the encodings of such a range are exactly the sequences of bytes between those of its ends.
\<close>

subsection \<open>Encodings\<close>

text \<open>The encoding scheme without the replacement of surrogates; \<open>EncodeRune\<close> on every valid rune.\<close>

definition low_byte :: "int \<Rightarrow> byte" where
  "low_byte n = word_of_int n"

definition raw_enc :: "int \<Rightarrow> byte list" where
  "raw_enc r =
     (if r < 0x80 then [low_byte r]
      else if r < 0x800 then [low_byte (0xC0 + r div 0x40), low_byte (0x80 + r mod 0x40)]
      else if r < 0x10000 then
        [low_byte (0xE0 + r div 0x1000), low_byte (0x80 + r div 0x40 mod 0x40), low_byte (0x80 + r mod 0x40)]
      else [low_byte (0xF0 + r div 0x40000), low_byte (0x80 + r div 0x1000 mod 0x40),
            low_byte (0x80 + r div 0x40 mod 0x40), low_byte (0x80 + r mod 0x40)])"

lemma byte_chr: "0 \<le> n \<Longrightarrow> n < 256 \<Longrightarrow> (of_char (chr n) :: byte) = low_byte n"
proof -
  assume n: "0 \<le> n" "n < 256"
  have "(of_char (chr n) :: byte) = of_nat (of_char (chr n))" by (simp only: of_nat_of_char)
  also have "(of_char (chr n) :: nat) = nat n" using n by (simp add: chr_def)
  finally show ?thesis using n by (simp add: low_byte_def)
qed

lemma uint_low_byte: "0 \<le> n \<Longrightarrow> n < 256 \<Longrightarrow> uint (low_byte n) = n"
  by (simp add: low_byte_def uint_word_of_int)

lemma low_byte_uint [simp]: "low_byte (uint b) = b"
  by (simp add: low_byte_def)

lemma byte_chr_lead:
  "0 \<le> n \<Longrightarrow> n < 0x20 \<Longrightarrow> (of_char (chr (0xC0 + n)) :: byte) = low_byte (0xC0 + n)"
  "0 \<le> n \<Longrightarrow> n < 0x10 \<Longrightarrow> (of_char (chr (0xE0 + n)) :: byte) = low_byte (0xE0 + n)"
  "0 \<le> n \<Longrightarrow> n < 0x10 \<Longrightarrow> (of_char (chr (0xF0 + n)) :: byte) = low_byte (0xF0 + n)"
  by (rule byte_chr; linarith)+

lemma byte_chr_digit: "(of_char (chr (0x80 + n mod 0x40)) :: byte) = low_byte (0x80 + n mod 0x40)"
  using pos_mod_bound[of "0x40" n] by (intro byte_chr) simp_all

lemma lead_bound:
  fixes r :: int
  assumes "0 \<le> r"
  shows "0 \<le> r div 0x40" "0 \<le> r div 0x1000" "0 \<le> r div 0x40000"
    and "r < 0x800 \<Longrightarrow> r div 0x40 < 0x20" "r < 0x10000 \<Longrightarrow> r div 0x1000 < 0x10"
    "r \<le> 0x10FFFF \<Longrightarrow> r div 0x40000 < 0x10"
  using assms by simp_all

lemma EncodeRune_valid: "valid_rune r \<Longrightarrow> EncodeRune r = raw_enc r"
proof (erule rune_cases)
  assume "0 \<le> r" "r < 0x80" "encode_rune r = [chr r]"
  then show ?thesis by (simp add: EncodeRune_def raw_enc_def byte_chr)
next
  assume r: "0x80 \<le> r" "r < 0x800" and e: "encode_rune r = [chr (0xC0 + r div 0x40), chr (0x80 + r mod 0x40)]"
  with lead_bound[of r] show ?thesis
    by (simp add: EncodeRune_def raw_enc_def byte_chr_digit byte_chr_lead del: div_less)
next
  assume r: "0x800 \<le> r" "r < 0xD800 \<or> 0xDFFF < r" "r < 0x10000" and e: "encode_rune r =
      [chr (0xE0 + r div 0x1000), chr (0x80 + r div 0x40 mod 0x40), chr (0x80 + r mod 0x40)]"
  have "raw_enc r = [low_byte (0xE0 + r div 0x1000), low_byte (0x80 + r div 0x40 mod 0x40),
      low_byte (0x80 + r mod 0x40)]"
    using r(1,3) by (simp add: raw_enc_def)
  then show ?thesis
    using r(1,3) by (simp only: EncodeRune_def e list.map byte_chr_digit byte_chr_lead(2)[OF lead_bound(2,5)])
next
  assume r: "0x10000 \<le> r" "r \<le> 0x10FFFF" and e: "encode_rune r =
      [chr (0xF0 + r div 0x40000), chr (0x80 + r div 0x1000 mod 0x40), chr (0x80 + r div 0x40 mod 0x40),
       chr (0x80 + r mod 0x40)]"
  have "raw_enc r = [low_byte (0xF0 + r div 0x40000), low_byte (0x80 + r div 0x1000 mod 0x40),
      low_byte (0x80 + r div 0x40 mod 0x40), low_byte (0x80 + r mod 0x40)]"
    using r by (simp add: raw_enc_def)
  then show ?thesis
    using r by (simp only: EncodeRune_def e list.map byte_chr_digit byte_chr_lead(3)[OF lead_bound(3,6)])
qed

definition within :: "byte \<Rightarrow> byte \<times> byte \<Rightarrow> bool" where
  "within b r \<longleftrightarrow> fst r \<le> b \<and> b \<le> snd r"

lemma within_byte:
  assumes "0 \<le> x" "x < 256" "0 \<le> y" "y < 256"
  shows "within b (low_byte x, low_byte y) \<longleftrightarrow> x \<le> uint b \<and> uint b \<le> y"
  using assms by (simp add: within_def word_le_def uint_low_byte)

subsection \<open>Digits\<close>

definition aligned :: "int \<Rightarrow> int \<Rightarrow> bool" where
  "aligned lo hi \<longleftrightarrow> lo div 0x40 = hi div 0x40 \<or> lo mod 0x40 = 0 \<and> hi mod 0x40 = 0x3F"

lemma aligned_between:
  assumes "aligned lo hi"
  shows "lo \<le> c \<and> c \<le> hi \<longleftrightarrow> (lo div 0x40 \<le> c div 0x40 \<and> c div 0x40 \<le> hi div 0x40)
    \<and> (lo mod 0x40 \<le> c mod 0x40 \<and> c mod 0x40 \<le> hi mod 0x40)"
proof -
  have step: "64 * a + x \<le> 64 * d + z \<and> 64 * d + z \<le> 64 * b + y \<longleftrightarrow> (a \<le> d \<and> d \<le> b) \<and> x \<le> z \<and> z \<le> y"
    if "0 \<le> x" "x < 64" "0 \<le> y" "y < 64" "0 \<le> z" "z < 64" "a = b \<or> x = 0 \<and> y = 63" for a b d x y z :: int
  proof
    assume "64 * a + x \<le> 64 * d + z \<and> 64 * d + z \<le> 64 * b + y"
    with that(1-6) have "a \<le> d \<and> d \<le> b" "a = d \<longrightarrow> x \<le> z" "d = b \<longrightarrow> z \<le> y" by auto
    with that show "(a \<le> d \<and> d \<le> b) \<and> x \<le> z \<and> z \<le> y" by auto
  qed auto
  show ?thesis
    using step[of "lo mod 0x40" "hi mod 0x40" "c mod 0x40" "lo div 0x40" "hi div 0x40" "c div 0x40"] assms
    by (simp add: aligned_def)
qed

lemma digit_divs: "(c :: int) div 0x40 div 0x40 = c div 0x1000" "(c :: int) div 0x1000 div 0x40 = c div 0x40000"
  by (simp_all flip: zdiv_zmult2_eq)

lemma between_2:
  assumes "aligned lo hi" "aligned (lo div 0x40) (hi div 0x40)"
  shows "lo \<le> c \<and> c \<le> hi \<longleftrightarrow> (lo div 0x1000 \<le> c div 0x1000 \<and> c div 0x1000 \<le> hi div 0x1000)
    \<and> (lo div 0x40 mod 0x40 \<le> c div 0x40 mod 0x40 \<and> c div 0x40 mod 0x40 \<le> hi div 0x40 mod 0x40)
    \<and> (lo mod 0x40 \<le> c mod 0x40 \<and> c mod 0x40 \<le> hi mod 0x40)"
  using aligned_between[OF assms(1), of c] aligned_between[OF assms(2), of "c div 0x40"]
  unfolding digit_divs by blast

lemma between_3:
  assumes "aligned lo hi" "aligned (lo div 0x40) (hi div 0x40)" "aligned (lo div 0x1000) (hi div 0x1000)"
  shows "lo \<le> c \<and> c \<le> hi \<longleftrightarrow> (lo div 0x40000 \<le> c div 0x40000 \<and> c div 0x40000 \<le> hi div 0x40000)
    \<and> (lo div 0x1000 mod 0x40 \<le> c div 0x1000 mod 0x40 \<and> c div 0x1000 mod 0x40 \<le> hi div 0x1000 mod 0x40)
    \<and> (lo div 0x40 mod 0x40 \<le> c div 0x40 mod 0x40 \<and> c div 0x40 mod 0x40 \<le> hi div 0x40 mod 0x40)
    \<and> (lo mod 0x40 \<le> c mod 0x40 \<and> c mod 0x40 \<le> hi mod 0x40)"
  using between_2[OF assms(1,2), of c] aligned_between[OF assms(3), of "c div 0x1000"]
  unfolding digit_divs by blast

lemma split_bytes_None_Cons:
  assumes "split_bytes lo hi (i # is) = None"
  shows "split_bytes lo hi is = None"
    and "lo div 2 ^ (6 * i) = hi div 2 ^ (6 * i) \<or> lo mod 2 ^ (6 * i) = 0 \<and> hi mod 2 ^ (6 * i) = 2 ^ (6 * i) - 1"
  using assms unfolding split_bytes_Cons Let_def by (metis option.distinct(1))+

lemma split_bytes_None:
  assumes "split_bytes lo hi [1, 2, 3] = None"
  shows "aligned lo hi" "aligned (lo div 0x40) (hi div 0x40)" "aligned (lo div 0x1000) (hi div 0x1000)"
proof -
  have cases: "lo div 0x40 = hi div 0x40 \<or> lo mod 0x40 = 0 \<and> hi mod 0x40 = 0x3F"
    "lo div 0x1000 = hi div 0x1000 \<or> lo mod 0x1000 = 0 \<and> hi mod 0x1000 = 0xFFF"
    "lo div 0x40000 = hi div 0x40000 \<or> lo mod 0x40000 = 0 \<and> hi mod 0x40000 = 0x3FFFF"
    using split_bytes_None_Cons(2)[OF assms] split_bytes_None_Cons(2)[OF split_bytes_None_Cons(1)[OF assms]]
      split_bytes_None_Cons(2)[OF split_bytes_None_Cons(1)[OF split_bytes_None_Cons(1)[OF assms]]]
    by simp_all
  have mods: "x mod 0x1000 = 0x40 * (x div 0x40 mod 0x40) + x mod 0x40"
    "x mod 0x40000 = 0x1000 * (x div 0x1000 mod 0x40) + x mod 0x1000" for x :: int
    using zmod_zmult2_eq[of "0x40" x "0x40"] zmod_zmult2_eq[of "0x40" x "0x1000"] by simp_all
  show "aligned lo hi" using cases(1) by (simp add: aligned_def)
  have zero: "a = 0" if "0 = m * a + b" "0 \<le> a" "0 \<le> b" "0 < m" for a b m :: int
    using that by (metis add_nonneg_pos add_nonneg_nonneg mult_pos_pos order_less_le add_pos_nonneg less_irrefl)
  have top: "a = 63" if "64 * m - 1 = m * a + b" "a < 64" "b < m" "0 < m" for a b m :: int
  proof (rule ccontr)
    assume "a \<noteq> 63"
    with that(2) have "a \<le> 62" by simp
    then have "m * a \<le> m * 62" using that(4) by (intro mult_left_mono) simp_all
    with that show False by simp
  qed
  show "aligned (lo div 0x40) (hi div 0x40)"
    using cases(2) zero[of "0x40" "lo div 0x40 mod 0x40" "lo mod 0x40"] top[of "0x40" "hi div 0x40 mod 0x40" "hi mod 0x40"]
    unfolding aligned_def digit_divs mods(1) by simp argo
  show "aligned (lo div 0x1000) (hi div 0x1000)"
    using cases(3) zero[of "0x1000" "lo div 0x1000 mod 0x40" "lo mod 0x1000"]
      top[of "0x1000" "hi div 0x1000 mod 0x40" "hi mod 0x1000"]
    unfolding aligned_def digit_divs mods(2) by simp argo
qed

subsection \<open>Ranges that are not split\<close>

lemma maxRune_values: "maxRune 1 = 0x7F" "maxRune 2 = 0x7FF" "maxRune 3 = 0xFFFF"
  by (simp_all add: maxRune_def push_bit_eq_mult)

lemma split_length_iff:
  "split_length lo hi [1, 2, 3] =
     (if lo \<le> 0x7F \<and> 0x7F < hi then Some 0x7F else if lo \<le> 0x7FF \<and> 0x7FF < hi then Some 0x7FF
      else if lo \<le> 0xFFFF \<and> 0xFFFF < hi then Some 0xFFFF else None)"
  by (simp only: split_length.simps Let_def maxRune_values)

definition leaf_ok :: "int \<Rightarrow> int \<Rightarrow> bool" where
  "leaf_ok lo hi \<longleftrightarrow> 0 \<le> lo \<and> lo \<le> hi \<and> hi \<le> 0x10FFFF \<and> split_length lo hi [1, 2, 3] = None
     \<and> (0x80 \<le> hi \<longrightarrow> split_bytes lo hi [1, 2, 3] = None)"

definition leaf_bytes :: "int \<Rightarrow> int \<Rightarrow> (byte \<times> byte) list" where
  "leaf_bytes lo hi = zip (raw_enc lo) (raw_enc hi)"

lemma within_digit:
  "within b (low_byte (0x80 + x mod 0x40), low_byte (0x80 + y mod 0x40))
    \<longleftrightarrow> x mod 0x40 \<le> uint b - 0x80 \<and> uint b - 0x80 \<le> y mod 0x40"
  using base64_digits(3,4)[of x] base64_digits(3,4)[of y] by (subst within_byte) auto

lemma within_lead:
  assumes "0 \<le> x" "0 \<le> y" "x < m" "y < m" "k + m \<le> 256" "0 \<le> k"
  shows "within b (low_byte (k + x), low_byte (k + y)) \<longleftrightarrow> x \<le> uint b - k \<and> uint b - k \<le> y"
  using assms by (subst within_byte) auto

lemma lead_within:
  assumes "0 \<le> lo" "0 \<le> hi"
  shows "lo < 0x800 \<Longrightarrow> hi < 0x800 \<Longrightarrow> within b (low_byte (0xC0 + lo div 0x40), low_byte (0xC0 + hi div 0x40))
      \<longleftrightarrow> lo div 0x40 \<le> uint b - 0xC0 \<and> uint b - 0xC0 \<le> hi div 0x40"
    and "lo < 0x10000 \<Longrightarrow> hi < 0x10000 \<Longrightarrow> within b (low_byte (0xE0 + lo div 0x1000), low_byte (0xE0 + hi div 0x1000))
      \<longleftrightarrow> lo div 0x1000 \<le> uint b - 0xE0 \<and> uint b - 0xE0 \<le> hi div 0x1000"
    and "lo \<le> 0x10FFFF \<Longrightarrow> hi \<le> 0x10FFFF \<Longrightarrow> within b (low_byte (0xF0 + lo div 0x40000), low_byte (0xF0 + hi div 0x40000))
      \<longleftrightarrow> lo div 0x40000 \<le> uint b - 0xF0 \<and> uint b - 0xF0 \<le> hi div 0x40000"
proof -
  note lo = lead_bound[OF assms(1)] and hi = lead_bound[OF assms(2)]
  show "lo < 0x800 \<Longrightarrow> hi < 0x800 \<Longrightarrow> within b (low_byte (0xC0 + lo div 0x40), low_byte (0xC0 + hi div 0x40))
      \<longleftrightarrow> lo div 0x40 \<le> uint b - 0xC0 \<and> uint b - 0xC0 \<le> hi div 0x40"
    by (rule within_lead[OF lo(1) hi(1) lo(4) hi(4)]) simp_all
  show "lo < 0x10000 \<Longrightarrow> hi < 0x10000 \<Longrightarrow> within b (low_byte (0xE0 + lo div 0x1000), low_byte (0xE0 + hi div 0x1000))
      \<longleftrightarrow> lo div 0x1000 \<le> uint b - 0xE0 \<and> uint b - 0xE0 \<le> hi div 0x1000"
    by (rule within_lead[OF lo(2) hi(2) lo(5) hi(5)]) simp_all
  show "lo \<le> 0x10FFFF \<Longrightarrow> hi \<le> 0x10FFFF \<Longrightarrow> within b (low_byte (0xF0 + lo div 0x40000), low_byte (0xF0 + hi div 0x40000))
      \<longleftrightarrow> lo div 0x40000 \<le> uint b - 0xF0 \<and> uint b - 0xF0 \<le> hi div 0x40000"
    by (rule within_lead[OF lo(3) hi(3) lo(6) hi(6)]) simp_all
qed

lemma leaf_bytes_cases:
  assumes "leaf_ok lo hi"
  obtains (one) "hi < 0x80" "leaf_bytes lo hi = [(low_byte lo, low_byte hi)]"
  | (two) "0x80 \<le> lo" "hi < 0x800" "aligned lo hi" "leaf_bytes lo hi =
      [(low_byte (0xC0 + lo div 0x40), low_byte (0xC0 + hi div 0x40)),
       (low_byte (0x80 + lo mod 0x40), low_byte (0x80 + hi mod 0x40))]"
  | (three) "0x800 \<le> lo" "hi < 0x10000" "aligned lo hi" "aligned (lo div 0x40) (hi div 0x40)" "leaf_bytes lo hi =
      [(low_byte (0xE0 + lo div 0x1000), low_byte (0xE0 + hi div 0x1000)),
       (low_byte (0x80 + lo div 0x40 mod 0x40), low_byte (0x80 + hi div 0x40 mod 0x40)),
       (low_byte (0x80 + lo mod 0x40), low_byte (0x80 + hi mod 0x40))]"
  | (four) "0x10000 \<le> lo" "hi \<le> 0x10FFFF" "aligned lo hi" "aligned (lo div 0x40) (hi div 0x40)"
      "aligned (lo div 0x1000) (hi div 0x1000)" "leaf_bytes lo hi =
      [(low_byte (0xF0 + lo div 0x40000), low_byte (0xF0 + hi div 0x40000)),
       (low_byte (0x80 + lo div 0x1000 mod 0x40), low_byte (0x80 + hi div 0x1000 mod 0x40)),
       (low_byte (0x80 + lo div 0x40 mod 0x40), low_byte (0x80 + hi div 0x40 mod 0x40)),
       (low_byte (0x80 + lo mod 0x40), low_byte (0x80 + hi mod 0x40))]"
proof -
  have same: "hi < 0x80 \<or> 0x80 \<le> lo \<and> hi < 0x800 \<or> 0x800 \<le> lo \<and> hi < 0x10000 \<or> 0x10000 \<le> lo"
    and le: "0 \<le> lo" "lo \<le> hi" "hi \<le> 0x10FFFF"
    using assms unfolding leaf_ok_def split_length_iff by (auto split: if_splits)
  have al: "aligned lo hi" "aligned (lo div 0x40) (hi div 0x40)" "aligned (lo div 0x1000) (hi div 0x1000)"
    if "0x80 \<le> hi" using split_bytes_None assms that by (simp_all add: leaf_ok_def)
  show thesis
    using same
  proof (elim disjE conjE)
    assume "hi < 0x80"
    with le one show ?thesis by (simp add: leaf_bytes_def raw_enc_def)
  next
    assume "0x80 \<le> lo" "hi < 0x800"
    with le two al show ?thesis by (simp add: leaf_bytes_def raw_enc_def)
  next
    assume "0x800 \<le> lo" "hi < 0x10000"
    with le three al show ?thesis by (simp add: leaf_bytes_def raw_enc_def)
  next
    assume "0x10000 \<le> lo"
    with le four al show ?thesis by (simp add: leaf_bytes_def raw_enc_def)
  qed
qed

text \<open>A number from its digits, and the encoding of bytes as digits.\<close>

lemma compose:
  fixes a d :: int
  assumes "0 \<le> d" "d < 0x40"
  shows "(a * 0x40 + d) div 0x40 = a" "(a * 0x40 + d) mod 0x40 = d"
  using assms by simp_all

lemma digit_range:
  assumes "x mod 0x40 \<le> d" "d \<le> y mod 0x40" shows "0 \<le> d" "d < (0x40 :: int)"
  using assms base64_digits(3)[of x] base64_digits(4)[of y] by linarith+

lemma uint_back: "low_byte (k + (uint b - k)) = b"
  by simp

lemma leaf_word:
  assumes "leaf_ok lo hi" and "list_all2 within bs (leaf_bytes lo hi)"
  shows "\<exists>c. lo \<le> c \<and> c \<le> hi \<and> bs = raw_enc c"
  using assms(1)
proof (cases rule: leaf_bytes_cases)
  case one
  with assms obtain b where b: "bs = [b]" "lo \<le> uint b" "uint b \<le> hi"
    by (auto simp: list_all2_Cons2 within_byte leaf_ok_def)
  with one(1) show ?thesis by (intro exI[of _ "uint b"]) (simp add: raw_enc_def)
next
  case two
  have r: "0 \<le> lo" "0 \<le> hi" "lo < 0x800" using assms(1) two(1,2) by (auto simp: leaf_ok_def)
  obtain b0 b1 where bs: "bs = [b0, b1]" using assms(2) two(4) by (auto simp: list_all2_Cons2)
  define a d where "a = uint b0 - 0xC0" and "d = uint b1 - 0x80"
  have w: "lo div 0x40 \<le> a" "a \<le> hi div 0x40" "lo mod 0x40 \<le> d" "d \<le> hi mod 0x40"
    using assms(2)[unfolded two(4) bs list_all2_Cons within_digit lead_within(1)[OF r two(2)]]
    unfolding a_def d_def by blast+
  define c where "c = a * 0x40 + d"
  note digits = compose[OF digit_range[OF w(3,4)], of a, folded c_def]
  have "lo \<le> c \<and> c \<le> hi" unfolding aligned_between[OF two(3)] digits using w by simp
  moreover from this have "raw_enc c = bs"
    using two(1,2) unfolding raw_enc_def digits bs by (simp only: a_def d_def uint_back) simp
  ultimately show ?thesis by blast
next
  case three
  have r: "0 \<le> lo" "0 \<le> hi" "lo < 0x10000" using assms(1) three(1,2) by (auto simp: leaf_ok_def)
  obtain b0 b1 b2 where bs: "bs = [b0, b1, b2]" using assms(2) three(5) by (auto simp: list_all2_Cons2)
  define a d e where "a = uint b0 - 0xE0" and "d = uint b1 - 0x80" and "e = uint b2 - 0x80"
  have w: "lo div 0x1000 \<le> a" "a \<le> hi div 0x1000" "lo div 0x40 mod 0x40 \<le> d" "d \<le> hi div 0x40 mod 0x40"
    "lo mod 0x40 \<le> e" "e \<le> hi mod 0x40"
    using assms(2)[unfolded three(5) bs list_all2_Cons within_digit lead_within(2)[OF r three(2)]]
    unfolding a_def d_def e_def by blast+
  define c where "c = (a * 0x40 + d) * 0x40 + e"
  note digits = compose[OF digit_range[OF w(5,6)], of "a * 0x40 + d", folded c_def]
  have top: "c div 0x1000 = a" unfolding digit_divs[symmetric] digits compose[OF digit_range[OF w(3,4)]] ..
  note digits = digits top compose[OF digit_range[OF w(3,4)]]
  have between: "lo \<le> c \<and> c \<le> hi" unfolding between_2[OF three(3,4)] digits using w by blast
  then have "0x800 \<le> c" "c < 0x10000" using three(1,2) by auto
  then have "\<not> c < 0x80" "\<not> c < 0x800" "c < 0x10000" by auto
  then have "raw_enc c = bs"
    unfolding raw_enc_def digits bs by (simp only: a_def d_def e_def uint_back if_True if_False)
  with between show ?thesis by blast
next
  case four
  have r: "0 \<le> lo" "0 \<le> hi" "lo \<le> 0x10FFFF" using assms(1) four(1,2) by (auto simp: leaf_ok_def)
  obtain b0 b1 b2 b3 where bs: "bs = [b0, b1, b2, b3]" using assms(2) four(6) by (auto simp: list_all2_Cons2)
  define a d e f where "a = uint b0 - 0xF0" and "d = uint b1 - 0x80" and "e = uint b2 - 0x80" and "f = uint b3 - 0x80"
  have w: "lo div 0x40000 \<le> a" "a \<le> hi div 0x40000"
    "lo div 0x1000 mod 0x40 \<le> d" "d \<le> hi div 0x1000 mod 0x40"
    "lo div 0x40 mod 0x40 \<le> e" "e \<le> hi div 0x40 mod 0x40" "lo mod 0x40 \<le> f" "f \<le> hi mod 0x40"
    using assms(2)[unfolded four(6) bs list_all2_Cons within_digit lead_within(3)[OF r four(2)]]
    unfolding a_def d_def e_def f_def by blast+
  define c where "c = ((a * 0x40 + d) * 0x40 + e) * 0x40 + f"
  note digits = compose[OF digit_range[OF w(7,8)], of "(a * 0x40 + d) * 0x40 + e", folded c_def]
  have mid: "c div 0x1000 = a * 0x40 + d"
    unfolding digit_divs[symmetric] digits compose[OF digit_range[OF w(5,6)]] ..
  have top: "c div 0x40000 = a" 
    unfolding digit_divs(2)[symmetric] mid compose[OF digit_range[OF w(3,4)]] ..
  note digits = digits mid top compose[OF digit_range[OF w(3,4)]] compose[OF digit_range[OF w(5,6)]]
  have between: "lo \<le> c \<and> c \<le> hi" unfolding between_3[OF four(3-5)] digits using w by blast
  then have "0x10000 \<le> c" using four(1) by auto
  then have "\<not> c < 0x80" "\<not> c < 0x800" "\<not> c < 0x10000" by auto
  then have "raw_enc c = bs"
    unfolding raw_enc_def digits bs by (simp only: a_def d_def e_def f_def uint_back if_True if_False)
  with between show ?thesis by blast
qed

lemma word_leaf:
  assumes leaf: "leaf_ok lo hi" and c: "lo \<le> c" "c \<le> hi"
  shows "list_all2 within (raw_enc c) (leaf_bytes lo hi)"
  using leaf
proof (cases rule: leaf_bytes_cases)
  case one
  with leaf c show ?thesis by (simp add: raw_enc_def within_byte leaf_ok_def uint_low_byte)
next
  case two
  have r: "0 \<le> lo" "0 \<le> hi" "lo < 0x800" "0 \<le> c" "c < 0x800"
    using leaf two(1,2) c by (auto simp: leaf_ok_def)
  have w: "uint (low_byte (0xC0 + c div 0x40)) = 0xC0 + c div 0x40"
    "uint (low_byte (0x80 + x mod 0x40)) = 0x80 + x mod 0x40" for x
    using lead_bound(1,4)[OF r(4)] r(5) base64_digits(3,4)[of x] by (simp_all add: uint_low_byte)
  have e: "raw_enc c = [low_byte (0xC0 + c div 0x40), low_byte (0x80 + c mod 0x40)]"
    using two(1,2) c by (simp add: raw_enc_def)
  have "lo \<le> c \<and> c \<le> hi" using c ..
  then show ?thesis
    unfolding two(4) e aligned_between[OF two(3)] list_all2_Cons within_digit lead_within(1)[OF r(1-3) two(2)] w
    by simp
next
  case three
  have r: "0 \<le> lo" "0 \<le> hi" "lo < 0x10000" "0 \<le> c" "c < 0x10000"
    using leaf three(1,2) c by (auto simp: leaf_ok_def)
  have w: "uint (low_byte (0xE0 + c div 0x1000)) = 0xE0 + c div 0x1000"
    "uint (low_byte (0x80 + x mod 0x40)) = 0x80 + x mod 0x40" for x
    using lead_bound(2,5)[OF r(4)] r(5) base64_digits(3,4)[of x] by (simp_all add: uint_low_byte)
  have e: "raw_enc c = [low_byte (0xE0 + c div 0x1000), low_byte (0x80 + c div 0x40 mod 0x40),
      low_byte (0x80 + c mod 0x40)]"
    using three(1,2) c by (simp add: raw_enc_def)
  have "lo \<le> c \<and> c \<le> hi" using c ..
  then show ?thesis
    unfolding three(5) e between_2[OF three(3,4)] list_all2_Cons within_digit lead_within(2)[OF r(1-3) three(2)] w
    by simp
next
  case four
  have r: "0 \<le> lo" "0 \<le> hi" "lo \<le> 0x10FFFF" "0 \<le> c" "c \<le> 0x10FFFF"
    using leaf four(1,2) c by (auto simp: leaf_ok_def)
  have w: "uint (low_byte (0xF0 + c div 0x40000)) = 0xF0 + c div 0x40000"
    "uint (low_byte (0x80 + x mod 0x40)) = 0x80 + x mod 0x40" for x
    using lead_bound(3,6)[OF r(4)] r(5) base64_digits(3,4)[of x] by (simp_all add: uint_low_byte)
  have e: "raw_enc c = [low_byte (0xF0 + c div 0x40000), low_byte (0x80 + c div 0x1000 mod 0x40),
      low_byte (0x80 + c div 0x40 mod 0x40), low_byte (0x80 + c mod 0x40)]"
    using four(1,2) c by (simp add: raw_enc_def)
  have "lo \<le> c \<and> c \<le> hi" using c ..
  then show ?thesis
    unfolding four(6) e between_3[OF four(3-5)] list_all2_Cons within_digit lead_within(3)[OF r(1-3) four(2)] w
    by simp
qed

lemma leaf_language:
  "leaf_ok lo hi \<Longrightarrow> list_all2 within bs (leaf_bytes lo hi) \<longleftrightarrow> (\<exists>c \<in> {lo..hi}. bs = raw_enc c)"
  using leaf_word[of lo hi bs] word_leaf[of lo hi] by (metis atLeastAtMost_iff)

subsection \<open>Splitting\<close>

text \<open>Ranges that \<open>addRange\<close> never cuts at a surrogate.\<close>

definition safe_range :: "int \<Rightarrow> int \<Rightarrow> bool" where
  "safe_range lo hi \<longleftrightarrow> 0 \<le> lo \<and> hi \<le> 0x10FFFF
     \<and> (hi < 0xD800 \<or> 0xDFFF < lo \<or> lo \<le> 0xD000 \<and> 0xFFFF \<le> hi)"

lemma split_length_safe:
  "split_length lo hi [1, 2, 3] = Some m \<Longrightarrow> safe_range lo hi \<Longrightarrow> safe_range lo m \<and> safe_range (m + 1) hi"
  unfolding split_length_iff safe_range_def by (auto split: if_splits)

lemma split_bytes_up:
  assumes "split_bytes lo hi (i # is) = Some m" and "hi mod 2 ^ (6 * i) = 2 ^ (6 * i) - 1"
  shows "lo div 2 ^ (6 * i) \<noteq> hi div 2 ^ (6 * i) \<and> lo mod 2 ^ (6 * i) \<noteq> 0
      \<and> m = 2 ^ (6 * i) * (lo div 2 ^ (6 * i)) + (2 ^ (6 * i) - 1)
    \<or> split_bytes lo hi is = Some m"
  using assms unfolding split_bytes_Cons Let_def by (metis option.inject)

lemma split_bytes_top:
  assumes "split_bytes lo 0xFFFF [1, 2, 3] = Some m" and "0 \<le> lo" and "lo \<le> 0xD000" shows "m < 0xD000"
proof -
  have block: "q * (lo div q) + (q - 1) < 0xD000" if "lo mod q \<noteq> 0" "0xD000 = q * k" "0 < q" for q k :: int
  proof -
    have "lo < q * k" using that assms(3) by (metis mod_mult_self1_is_0 order_le_less)
    moreover have "q * (lo div q) \<le> lo"
      using minus_mod_eq_mult_div[of lo q] pos_mod_sign[OF that(3), of lo] by linarith
    ultimately have "lo div q < k" using mult_less_cancel_left_pos[OF that(3)] by (metis order_le_less_trans)
    then have "q * (lo div q + 1) \<le> q * k" using that(3) by (intro mult_left_mono) simp_all
    then show ?thesis unfolding that(2) by (simp add: algebra_simps)
  qed
  have low: "lo div 0x40000 = 0" using assms(2,3) by simp
  have "lo mod 0x40 \<noteq> 0 \<and> m = 0x40 * (lo div 0x40) + (0x40 - 1) \<or> split_bytes lo 0xFFFF [2, 3] = Some m"
    using split_bytes_up[OF assms(1)] by (auto simp del: mod_0_imp_dvd)
  moreover have "lo mod 0x1000 \<noteq> 0 \<and> m = 0x1000 * (lo div 0x1000) + (0x1000 - 1) \<or> split_bytes lo 0xFFFF [3] = Some m"
    if "split_bytes lo 0xFFFF [2, 3] = Some m" using split_bytes_up[OF that] by (auto simp del: mod_0_imp_dvd)
  moreover have "split_bytes lo 0xFFFF [3] = None"
    using low by (simp add: split_bytes_Cons Let_def split_bytes.simps(1))
  ultimately show ?thesis using block[of "0x40" "0x340"] block[of "0x1000" "0xD"] by auto
qed

lemma split_bytes_safe:
  assumes "split_bytes lo hi [1, 2, 3] = Some m" and "split_length lo hi [1, 2, 3] = None"
    and "safe_range lo hi" and "lo \<le> hi"
  shows "safe_range lo m \<and> safe_range (m + 1) hi"
proof -
  have m: "lo \<le> m" "m < hi" using split_bytes_range[OF assms(1,4)] by simp_all
  consider "hi < 0xD800 \<or> 0xDFFF < lo" | "lo \<le> 0xD000" "0xFFFF \<le> hi" using assms(3) by (auto simp: safe_range_def)
  then show ?thesis
  proof cases
    case 1
    with m assms(3) show ?thesis by (auto simp: safe_range_def)
  next
    case 2
    with assms(2) have hi: "hi = 0xFFFF" unfolding split_length_iff by (auto split: if_splits)
    then have "m < 0xD000" using split_bytes_top[of lo m] assms(1,3) 2 by (simp add: safe_range_def)
    with m hi assms(3) show ?thesis by (auto simp: safe_range_def)
  qed
qed

function leaves :: "int \<Rightarrow> int \<Rightarrow> (int \<times> int) list" where
  "leaves lo hi =
     (if lo > hi then []
      else case split_length lo hi [1, 2, 3] of
        Some m \<Rightarrow> leaves lo m @ leaves (m + 1) hi
      | None \<Rightarrow> if hi < 0x80 then [(lo, hi)]
          else case split_bytes lo hi [1, 2, 3] of
            Some m \<Rightarrow> leaves lo m @ leaves (m + 1) hi
          | None \<Rightarrow> [(lo, hi)])"
  by auto
termination
  by (relation "measure (\<lambda>(lo, hi). nat (hi - lo))") (auto dest!: split_length_range split_bytes_range)

declare leaves.simps [simp del]

definition is_leaf :: "int \<Rightarrow> int \<Rightarrow> bool" where
  "is_leaf lo hi \<longleftrightarrow> leaf_ok lo hi \<and> valid_rune lo \<and> valid_rune hi"

lemma unsplit_leaf:
  assumes "\<not> lo > hi" "safe_range lo hi" "split_length lo hi [1, 2, 3] = None"
    and "hi < 0x80 \<or> split_bytes lo hi [1, 2, 3] = None"
  shows "is_leaf lo hi"
proof -
  have "valid_rune lo \<and> valid_rune hi"
    using assms(1-3) unfolding split_length_iff safe_range_def valid_rune_def by (auto split: if_splits)
  with assms show ?thesis by (auto simp: is_leaf_def leaf_ok_def safe_range_def)
qed

lemma leaves_spec:
  "safe_range lo hi \<Longrightarrow> (\<forall>(l, h) \<in> set (leaves lo hi). is_leaf l h) \<and> (\<Union>(l, h) \<in> set (leaves lo hi). {l..h}) = {lo..hi}"
proof (induction lo hi rule: leaves.induct)
  case (1 lo hi)
  have join: "{lo..hi} = {lo..m} \<union> {m + 1..hi}" if "lo \<le> m" "m < hi" for m using that by auto
  consider "lo > hi" | m where "\<not> lo > hi" "split_length lo hi [1, 2, 3] = Some m"
    | "\<not> lo > hi" "split_length lo hi [1, 2, 3] = None" "hi < 0x80 \<or> split_bytes lo hi [1, 2, 3] = None"
    | m where "\<not> lo > hi" "split_length lo hi [1, 2, 3] = None" "\<not> hi < 0x80" "split_bytes lo hi [1, 2, 3] = Some m"
    by (metis option.exhaust)
  then show ?case
  proof cases
    case 1
    then show ?thesis by (simp add: leaves.simps)
  next
    case (2 m)
    note IH = "1.IH"(3,4)[OF 2]
    have "leaves lo hi = leaves lo m @ leaves (m + 1) hi"
      unfolding leaves.simps[of lo hi] by (simp only: 2 if_False option.case)
    then show ?thesis
      using IH split_length_safe[OF 2(2) "1.prems"] join[of m] split_length_range[OF 2(2)] by (simp add: ball_Un)
  next
    case 3
    then have "leaves lo hi = [(lo, hi)]" by (subst leaves.simps) auto
    with unsplit_leaf[OF 3(1) "1.prems" 3(2,3)] show ?thesis by simp
  next
    case (4 m)
    note IH = "1.IH"(1,2)[OF 4]
    have "leaves lo hi = leaves lo m @ leaves (m + 1) hi"
      unfolding leaves.simps[of lo hi] by (simp only: 4 if_False option.case)
    then show ?thesis
      using IH split_bytes_safe[OF 4(4,2) "1.prems"] join[of m] split_bytes_range[OF 4(4)] 4(1) by (simp add: ball_Un)
  qed
qed

text \<open>\<open>addRange\<close> adds the leaves one by one.\<close>

definition add_leaf :: "runeBuilder \<Rightarrow> int \<times> int \<Rightarrow> runeBuilder" where
  "add_leaf b r = (let (pc, b) = add_chain b (rev (leaf_bytes (fst r) (snd r))) 0 in addBranch b pc)"

lemma leaf_lengths: "leaf_ok lo hi \<Longrightarrow> length (raw_enc lo) = length (raw_enc hi)"
  unfolding leaf_ok_def split_length_iff by (auto simp: raw_enc_def split: if_splits)

lemma addRange_leaves:
  "safe_range lo hi \<Longrightarrow> addRange b lo hi False = Some (foldl add_leaf b (leaves lo hi))"
proof (induction lo hi arbitrary: b rule: leaves.induct)
  case (1 lo hi)
  consider "lo > hi" | m where "\<not> lo > hi" "split_length lo hi [1, 2, 3] = Some m"
    | "\<not> lo > hi" "split_length lo hi [1, 2, 3] = None" "hi < 0x80"
    | "\<not> lo > hi" "split_length lo hi [1, 2, 3] = None" "\<not> hi < 0x80" "split_bytes lo hi [1, 2, 3] = None"
    | m where "\<not> lo > hi" "split_length lo hi [1, 2, 3] = None" "\<not> hi < 0x80" "split_bytes lo hi [1, 2, 3] = Some m"
    by (metis option.exhaust)
  then show ?case
  proof cases
    case 1
    then show ?thesis by (simp add: leaves.simps addRange.simps)
  next
    case (2 m)
    have "leaves lo hi = leaves lo m @ leaves (m + 1) hi"
      unfolding leaves.simps[of lo hi] by (simp only: 2 if_False option.case)
    moreover have "addRange b lo hi False = Option.bind (addRange b lo m False) (\<lambda>b. addRange b (m + 1) hi False)"
      unfolding addRange.simps[of b lo hi] by (simp only: 2 if_False option.case)
    ultimately show ?thesis
      using "1.IH"(3,4)[OF 2] split_length_safe[OF 2(2) "1.prems"] by simp
  next
    case 3
    obtain pc b' where suffix: "rb_suffix b (word_of_int lo) (word_of_int hi) False 0 = (pc, b')" by fastforce
    have "addRange b lo hi False = Some (addBranch b' pc)"
      by (subst addRange.simps) (simp only: 3 suffix if_False if_True option.case Let_def prod.case)
    moreover have "leaf_bytes lo hi = [(word_of_int lo, word_of_int hi)]"
      using 3 by (simp add: leaf_bytes_def raw_enc_def low_byte_def)
    ultimately have "addRange b lo hi False = Some (add_leaf b (lo, hi))"
      by (simp add: add_leaf_def suffix Let_def)
    moreover have "leaves lo hi = [(lo, hi)]" using 3 by (subst leaves.simps) auto
    ultimately show ?thesis by simp
  next
    case 4
    have leaf: "is_leaf lo hi" using unsplit_leaf[OF 4(1) "1.prems" 4(2)] 4(4) by simp
    then have "EncodeRune lo = raw_enc lo" "EncodeRune hi = raw_enc hi" "length (raw_enc lo) = length (raw_enc hi)"
      using leaf_lengths[of lo hi] by (simp_all add: is_leaf_def EncodeRune_valid)
    moreover obtain pc b' where chain: "add_chain b (rev (zip (raw_enc lo) (raw_enc hi))) 0 = (pc, b')" by fastforce
    ultimately have "addRange b lo hi False = Some (addBranch b' pc)"
      by (subst addRange.simps) (simp only: 4 chain if_False option.case Let_def prod.case simp_thms)
    then have "addRange b lo hi False = Some (add_leaf b (lo, hi))"
      by (simp add: add_leaf_def leaf_bytes_def chain)
    moreover have "leaves lo hi = [(lo, hi)]" using 4 by (subst leaves.simps) auto
    ultimately show ?thesis by simp
  next
    case (5 m)
    have "leaves lo hi = leaves lo m @ leaves (m + 1) hi"
      unfolding leaves.simps[of lo hi] by (simp only: 5 if_False option.case)
    moreover have "addRange b lo hi False = Option.bind (addRange b lo m False) (\<lambda>b. addRange b (m + 1) hi False)"
      unfolding addRange.simps[of b lo hi] by (simp only: 5 if_False option.case)
    ultimately show ?thesis
      using "1.IH"(1,2)[OF 5] split_bytes_safe[OF 5(4,2) "1.prems"] 5(1) by simp
  qed
qed

end
