(* ===== verification/Matcher_Queues.thy ===== *)
theory Matcher_Queues
  imports Matcher
begin

text \<open>
  The queues of the matcher as sets of instructions: \<open>addq\<close> returns for every well-formed program and
  computes the closure under the empty steps that the flags allow.
\<close>

definition eps_succ :: "Inst \<Rightarrow> byte \<Rightarrow> u32 list" where
  "eps_succ i flag =
     (if in_op i = InstCapture \<or> in_op i = InstNop then [in_out i]
      else if in_op i = InstAlt \<or> in_op i = InstAltMatch then [in_out i, in_arg i]
      else if in_op i = InstEmptyWidth \<and> ucast (in_arg i) AND NOT flag = 0 then [in_out i]
      else [])"

abbreviation inst_at :: "Prog \<Rightarrow> u32 \<Rightarrow> Inst" where
  "inst_at P x \<equiv> pr_inst P ! unat x"

definition ids :: "Prog \<Rightarrow> u32 set" where
  "ids P = {x. unat x < length (pr_inst P)}"

definition start_id :: "Prog \<Rightarrow> u32" where
  "start_id P = word_of_nat (pr_start P)"

text \<open>A program whose targets are in range, as the compiler makes them.\<close>

definition prog_ok :: "Prog \<Rightarrow> bool" where
  "prog_ok P \<longleftrightarrow> length (pr_inst P) < 2 ^ 32 \<and> pr_start P < length (pr_inst P)
     \<and> (\<forall>i \<in> set (pr_inst P). (\<forall>flag. set (eps_succ i flag) \<subseteq> ids P) \<and> (in_op i = instByteRange \<longrightarrow> in_out i \<in> ids P))"

definition eps :: "Prog \<Rightarrow> byte \<Rightarrow> (u32 \<times> u32) set" where
  "eps P flag = {(x, y). y \<in> set (eps_succ (inst_at P x) flag)}"

definition closure :: "Prog \<Rightarrow> byte \<Rightarrow> u32 set \<Rightarrow> u32 set" where
  "closure P flag X = (eps P flag)\<^sup>* `` X"

lemma closure_Un: "closure P flag (X \<union> Y) = closure P flag X \<union> closure P flag Y"
  by (auto simp: closure_def)

lemma closure_extensive: "X \<subseteq> closure P flag X"
  by (auto simp: closure_def)

lemma closure_mono: "X \<subseteq> Y \<Longrightarrow> closure P flag X \<subseteq> closure P flag Y"
  by (auto simp: closure_def)

lemma closure_step: "y \<in> closure P flag X \<Longrightarrow> z \<in> set (eps_succ (inst_at P y) flag) \<Longrightarrow> z \<in> closure P flag X"
  by (auto simp: closure_def eps_def intro: rtrancl_into_rtrancl)

lemma closure_least:
  assumes "X \<subseteq> Y" and "\<forall>y \<in> Y. set (eps_succ (inst_at P y) flag) \<subseteq> Y" shows "closure P flag X \<subseteq> Y"
proof -
  have "(x, y) \<in> (eps P flag)\<^sup>* \<Longrightarrow> x \<in> Y \<Longrightarrow> y \<in> Y" for x y
    by (induction rule: rtrancl_induct) (use assms(2) in \<open>auto simp: eps_def\<close>)
  with assms(1) show ?thesis by (auto simp: closure_def)
qed

lemma finite_ids [simp]: "finite (ids P)" by simp

lemma closure_ids:
  assumes "prog_ok P" and "X \<subseteq> ids P" shows "closure P flag X \<subseteq> ids P"
  using assms by (intro closure_least) (auto simp: prog_ok_def ids_def)

lemma start_id_ids: "prog_ok P \<Longrightarrow> start_id P \<in> ids P"
  by (simp add: prog_ok_def ids_def start_id_def unat_of_nat_u32)

subsection \<open>What a queue grows to\<close>

definition qok :: "Prog \<Rightarrow> sparse_set \<Rightarrow> bool" where
  "qok P q \<longleftrightarrow> sparse_inv q \<and> sparse_len q = length (pr_inst P)"

definition grows :: "Prog \<Rightarrow> byte \<Rightarrow> sparse_set \<Rightarrow> u32 set \<Rightarrow> sparse_set \<Rightarrow> bool" where
  "grows P flag q X q' \<longleftrightarrow> qok P q' \<and> set (dense q) \<union> X \<subseteq> set (dense q')
     \<and> (\<forall>y \<in> set (dense q') - set (dense q). set (eps_succ (inst_at P y) flag) \<subseteq> set (dense q'))
     \<and> set (dense q') \<subseteq> set (dense q) \<union> closure P flag X"

lemma grows_ok: "grows P flag q X q' \<Longrightarrow> qok P q'"
  by (simp add: grows_def)

lemma grows_refl: "qok P q \<Longrightarrow> X \<subseteq> set (dense q) \<Longrightarrow> grows P flag q X q"
  by (auto simp: grows_def)

lemma grows_trans: "grows P flag q X q1 \<Longrightarrow> grows P flag q1 Y q2 \<Longrightarrow> grows P flag q (X \<union> Y) q2"
  unfolding grows_def closure_Un by blast

lemma grows_from_empty:
  assumes "grows P flag q X q'" and "dense q = []" shows "set (dense q') = closure P flag X"
proof
  show "set (dense q') \<subseteq> closure P flag X" using assms by (simp add: grows_def)
  show "closure P flag X \<subseteq> set (dense q')" using assms by (intro closure_least) (auto simp: grows_def)
qed

lemma qok_Reset: "qok P q \<Longrightarrow> qok P (Reset q) \<and> dense (Reset q) = []"
  by (auto simp: qok_def Reset_def sparse_inv_def)

lemma qok_Add:
  assumes "qok P q" and "x \<in> ids P"
  shows "\<exists>q'. Add q x = Some q' \<and> qok P q' \<and> set (dense q') = insert x (set (dense q))"
proof -
  obtain q' where q': "Add q x = Some q'"
    using assms sset.add_defined[of q x] by (auto simp: qok_def ids_def sparse_univ_def)
  with assms Add_inv[OF _ q'] Add_dense[OF _ q'] Add_len[OF q'] show ?thesis by (auto simp: qok_def)
qed

lemma qok_Has: "qok P q \<Longrightarrow> x \<in> ids P \<Longrightarrow> Has q x = Some (x \<in> set (dense q))"
  by (simp add: Has_def qok_def ids_def set_has_iff)

lemma bind_Some_right [simp]: "Option.bind a Some = a"
  by (cases a) auto

lemma addq_unfold:
  "addq P q x flag = Option.bind (Has q x) (\<lambda>has. if has then Some q
     else Option.bind (Add q x) (\<lambda>q. Option.bind (go_index (pr_inst P) (unat x)) (\<lambda>i.
       addq_all P q (eps_succ i flag) flag)))"
proof -
  have body: "addq_all P q (eps_succ i flag) flag =
    (if in_op i = InstCapture \<or> in_op i = InstNop then addq P q (in_out i) flag
     else if in_op i = InstAlt \<or> in_op i = InstAltMatch
     then Option.bind (addq P q (in_out i) flag) (\<lambda>q. addq P q (in_arg i) flag)
     else if in_op i = InstEmptyWidth
     then (if ucast (in_arg i) AND NOT flag = 0 then addq P q (in_out i) flag else Some q)
     else Some q)" for q i
    by (simp add: eps_succ_def)
  show ?thesis unfolding body by (rule addq.simps)
qed

lemma addq_all_from:
  assumes "\<And>q x. qok P q \<Longrightarrow> card (ids P - set (dense q)) < n \<Longrightarrow> x \<in> ids P \<Longrightarrow>
      \<exists>q'. addq P q x flag = Some q' \<and> grows P flag q {x} q'"
  shows "qok P q \<Longrightarrow> card (ids P - set (dense q)) < n \<Longrightarrow> set xs \<subseteq> ids P \<Longrightarrow>
    \<exists>q'. addq_all P q xs flag = Some q' \<and> grows P flag q (set xs) q'"
proof (induction xs arbitrary: q)
  case Nil
  then show ?case by (simp add: grows_refl)
next
  case (Cons x xs)
  then obtain q1 where q1: "addq P q x flag = Some q1" "grows P flag q {x} q1" using assms[of q x] by auto
  have "card (ids P - set (dense q1)) \<le> card (ids P - set (dense q))"
    using q1(2) by (intro card_mono) (auto simp: grows_def)
  then obtain q2 where q2: "addq_all P q1 xs flag = Some q2" "grows P flag q1 (set xs) q2"
    using Cons.IH[of q1] Cons.prems q1(2) by (auto simp: grows_def)
  with q1 grows_trans[OF q1(2) q2(2)] show ?case by simp
qed

lemma addq_spec:
  "prog_ok P \<Longrightarrow> qok P q \<Longrightarrow> x \<in> ids P \<Longrightarrow> \<exists>q'. addq P q x flag = Some q' \<and> grows P flag q {x} q'"
proof (induction "card (ids P - set (dense q))" arbitrary: q x rule: less_induct)
  case less
  show ?case
  proof (cases "x \<in> set (dense q)")
    case True
    with less.prems show ?thesis by (auto simp: addq_unfold qok_Has grows_refl)
  next
    case False
    obtain q1 where q1: "Add q x = Some q1" "qok P q1" "set (dense q1) = insert x (set (dense q))"
      using qok_Add[OF less.prems(2,3)] by blast
    have "card (ids P - set (dense q1)) < card (ids P - set (dense q))"
      using less.prems(3) False q1(3) by (intro psubset_card_mono) auto
    moreover have i: "unat x < length (pr_inst P)" using less.prems(3) by (simp add: ids_def)
    then have "set (eps_succ (inst_at P x) flag) \<subseteq> ids P" using less.prems(1) by (simp add: prog_ok_def)
    ultimately obtain q2 where q2: "addq_all P q1 (eps_succ (inst_at P x) flag) flag = Some q2"
      "grows P flag q1 (set (eps_succ (inst_at P x) flag)) q2"
      using addq_all_from[of P "card (ids P - set (dense q))" flag q1] less.hyps less.prems(1) q1(2) by blast
    have "closure P flag (set (eps_succ (inst_at P x) flag)) \<subseteq> closure P flag {x}"
      by (auto simp: closure_def eps_def intro: converse_rtrancl_into_rtrancl)
    moreover have "x \<in> closure P flag {x}" by (auto simp: closure_def)
    ultimately have "grows P flag q {x} q2" using q2(2) q1(3) unfolding grows_def by auto
    with q1(1) q2(1) False i less.prems show ?thesis by (simp add: addq_unfold qok_Has go_index_def)
  qed
qed

lemma addq_all_spec:
  assumes "prog_ok P" and "qok P q" and "set xs \<subseteq> ids P"
  shows "\<exists>q'. addq_all P q xs flag = Some q' \<and> grows P flag q (set xs) q'"
  using addq_all_from[of P "Suc (card (ids P - set (dense q)))" flag q xs] addq_spec assms by blast

lemma stepEmpty_spec:
  assumes "prog_ok P" and "qok P q" and "set (dense r) \<subseteq> ids P"
  shows "\<exists>q'. stepEmpty P r q flag = Some q' \<and> qok P q' \<and> set (dense q') = closure P flag (set (dense r))"
proof -
  obtain q' where "addq_all P (Reset q) (dense r) flag = Some q'" "grows P flag (Reset q) (set (dense r)) q'"
    using addq_all_spec[OF assms(1) _ assms(3), of "Reset q" flag] qok_Reset[OF assms(2)] by blast
  then show ?thesis
    using grows_from_empty[of P flag "Reset q" _ q'] qok_Reset[OF assms(2)] grows_ok
    by (auto simp: stepEmpty_def Dense_def)
qed

definition byte_outs :: "Prog \<Rightarrow> u32 set \<Rightarrow> int \<Rightarrow> u32 set" where
  "byte_outs P X c = {in_out (inst_at P x) | x. x \<in> X \<and> consumes (inst_at P x) c}"

definition accepting :: "Prog \<Rightarrow> u32 set \<Rightarrow> bool" where
  "accepting P X \<longleftrightarrow> (\<exists>x \<in> X. in_op (inst_at P x) = InstMatch)"

lemma byte_outs_ids: "prog_ok P \<Longrightarrow> X \<subseteq> ids P \<Longrightarrow> byte_outs P X c \<subseteq> ids P"
  by (auto simp: byte_outs_def consumes_def prog_ok_def ids_def)

lemma step_ids_spec:
  "prog_ok P \<Longrightarrow> qok P q \<Longrightarrow> set xs \<subseteq> ids P \<Longrightarrow>
     \<exists>q'. step_ids P q xs c flag mt = Some (mt \<or> accepting P (set xs), q') \<and> grows P flag q (byte_outs P (set xs) c) q'"
proof (induction xs arbitrary: q mt)
  case Nil
  then show ?case by (simp add: accepting_def byte_outs_def grows_refl)
next
  case (Cons x xs)
  have x: "go_index (pr_inst P) (unat x) = Some (inst_at P x)" using Cons.prems by (simp add: go_index_def ids_def)
  have acc: "accepting P (insert x (set xs)) \<longleftrightarrow> in_op (inst_at P x) = InstMatch \<or> accepting P (set xs)"
    by (auto simp: accepting_def)
  have outs: "byte_outs P (insert x (set xs)) c
      = (if consumes (inst_at P x) c then {in_out (inst_at P x)} else {}) \<union> byte_outs P (set xs) c"
    by (auto simp: byte_outs_def)
  consider (mtch) "in_op (inst_at P x) = InstMatch" | (byte) "in_op (inst_at P x) \<noteq> InstMatch" "consumes (inst_at P x) c"
    | (none) "in_op (inst_at P x) \<noteq> InstMatch" "\<not> consumes (inst_at P x) c" by blast
  then show ?case
  proof cases
    case mtch
    then have "\<not> consumes (inst_at P x) c" by (simp add: consumes_def)
    with mtch Cons.IH[of q True] Cons.prems show ?thesis by (simp add: x acc outs)
  next
    case byte
    have "in_out (inst_at P x) \<in> ids P"
      using byte_outs_ids[of P "{x}" c] Cons.prems byte(2) by (auto simp: byte_outs_def)
    then obtain q1 where q1: "addq P q (in_out (inst_at P x)) flag = Some q1"
      "grows P flag q {in_out (inst_at P x)} q1" using addq_spec Cons.prems by blast
    then obtain q2 where q2: "step_ids P q1 xs c flag mt = Some (mt \<or> accepting P (set xs), q2)"
      "grows P flag q1 (byte_outs P (set xs) c) q2" using Cons.IH[of q1 mt] Cons.prems by (auto simp: grows_def)
    from grows_trans[OF q1(2) q2(2)] q1(1) q2(1) byte show ?thesis by (simp add: x acc outs)
  next
    case none
    with Cons.IH[of q mt] Cons.prems show ?thesis by (simp add: x acc outs)
  qed
qed

lemma stepByte_spec:
  assumes "prog_ok P" and "qok P q" and "set (dense r) \<subseteq> ids P"
  shows "\<exists>q'. stepByte P r q c flag = Some (accepting P (set (dense r)), q') \<and> qok P q'
    \<and> set (dense q') = closure P flag ({start_id P} \<union> byte_outs P (set (dense r)) c)"
proof -
  obtain q1 where q1: "addq P (Reset q) (start_id P) flag = Some q1" "grows P flag (Reset q) {start_id P} q1"
    using addq_spec[OF assms(1), of "Reset q" "start_id P" flag] qok_Reset[OF assms(2)] start_id_ids[OF assms(1)]
    by blast
  obtain q2 where q2: "step_ids P q1 (dense r) c flag False = Some (accepting P (set (dense r)), q2)"
    "grows P flag q1 (byte_outs P (set (dense r)) c) q2"
    using step_ids_spec[OF assms(1) _ assms(3), of q1 c flag False] q1(2) by (auto simp: grows_def)
  from grows_trans[OF q1(2) q2(2)] have "grows P flag (Reset q) ({start_id P} \<union> byte_outs P (set (dense r)) c) q2" .
  then have "set (dense q2) = closure P flag ({start_id P} \<union> byte_outs P (set (dense r)) c)" "qok P q2"
    using qok_Reset[OF assms(2)] grows_from_empty grows_ok by blast+
  with q1(1) q2(1) show ?thesis by (simp add: stepByte_def Dense_def start_id_def)
qed

end
