(* ===== verification/Byte_Machine.thy ===== *)
theory Byte_Machine
  imports Byte_Ranges Matcher_Queues
begin

text \<open>
  The machines \<open>addRange\<close> builds: from the instruction it started with, a chain of alternatives leads
  to the branches, and every branch is a chain of byte instructions to the exit. The invariant
  \<open>rb_built\<close> says so, \<open>add_leaf\<close> keeps it and adds one branch, and the strings the machine spells
  are those its branches spell.
\<close>

subsection \<open>What a machine spells\<close>

text \<open>The bytes consumed on a way from an instruction to the exit \<open>o\<close>.\<close>

inductive spells :: "Inst list \<Rightarrow> u32 \<Rightarrow> u32 \<Rightarrow> byte list \<Rightarrow> bool" for "is" ex where
  exit: "spells is ex ex []"
| empty: "x \<noteq> ex \<Longrightarrow> y \<in> set (eps_succ (is ! unat x) 0) \<Longrightarrow> spells is ex y bs \<Longrightarrow> spells is ex x bs"
| byte: "x \<noteq> ex \<Longrightarrow> consumes (is ! unat x) (uint c) \<Longrightarrow> spells is ex (in_out (is ! unat x)) bs \<Longrightarrow>
    spells is ex x (c # bs)"

inductive_cases spells_at: "spells is ex x bs"

lemma spells_exit: "spells is ex ex bs \<longleftrightarrow> bs = []"
  by (auto elim: spells_at intro: spells.exit)

lemma spells_step:
  "x \<noteq> ex \<Longrightarrow> spells is ex x bs \<longleftrightarrow> (\<exists>y \<in> set (eps_succ (is ! unat x) 0). spells is ex y bs)
    \<or> (\<exists>c cs. bs = c # cs \<and> consumes (is ! unat x) (uint c) \<and> spells is ex (in_out (is ! unat x)) cs)"
  by (auto elim: spells_at intro: spells.intros)

definition byte_range :: "byte \<times> byte \<Rightarrow> u32 \<Rightarrow> Inst" where
  "byte_range r next = \<lparr>in_op = instByteRange, in_out = next, in_arg = push_bit 8 (ucast (fst r)) OR ucast (snd r), in_rune = []\<rparr>"

lemma range_arg:
  fixes lo hi :: byte
  defines "arg \<equiv> push_bit 8 (ucast lo) OR ucast hi :: u32"
  shows "unat (drop_bit 8 arg AND 0xFF) = unat lo" and "unat (arg AND 0xFF) = unat hi" and "arg AND argFold = 0"
    and "unat (drop_bit 8 (arg OR argFold) AND 0xFF) = unat lo" and "unat ((arg OR argFold) AND 0xFF) = unat hi"
    and "(arg OR argFold) AND argFold \<noteq> 0"
proof -
  have mask: "(0xFF :: u32) = mask 8" by (simp add: mask_eq_exp_minus_1)
  have f: "bit argFold n \<longleftrightarrow> n = 16" for n
    unfolding argFold_def bit_push_bit_iff bit_1_iff possible_bit_def by auto
  note bits = arg_def bit_and_iff bit_or_iff bit_drop_bit_eq bit_push_bit_iff bit_ucast_iff bit_mask_iff f possible_bit_def
  have b: "bit lo (8 + n) = False" "bit hi (8 + n) = False" "bit lo 8 = False" "bit hi 16 = False" for n
    using bit_imp_le_length[of lo "8 + n"] bit_imp_le_length[of hi "8 + n"] bit_imp_le_length[of lo 8]
      bit_imp_le_length[of hi 16] by auto
  have l: "\<forall>n. bit lo n \<longrightarrow> n < 8" "\<forall>n. bit hi n \<longrightarrow> n < 8"
    using bit_imp_le_length[of lo] bit_imp_le_length[of hi] by auto
  have w: "drop_bit 8 arg AND mask 8 = ucast lo" "arg AND mask 8 = ucast hi" "arg AND argFold = 0"
    "drop_bit 8 (arg OR argFold) AND mask 8 = ucast lo" "(arg OR argFold) AND mask 8 = ucast hi"
    "(arg OR argFold) AND argFold = argFold"
    by (rule bit_word_eqI; use l in \<open>auto simp: bits b\<close>)+
  have small: "unat (ucast (y :: byte) :: u32) = unat y" for y
  proof -
    have "unat y < 2 ^ 32" using unsigned_less[of y, where 'a=nat] by simp
    then show ?thesis by (simp add: unsigned_ucast_eq take_bit_nat_eq_self)
  qed
  show "unat (drop_bit 8 arg AND 0xFF) = unat lo" "unat (arg AND 0xFF) = unat hi" "arg AND argFold = 0"
    "unat (drop_bit 8 (arg OR argFold) AND 0xFF) = unat lo" "unat ((arg OR argFold) AND 0xFF) = unat hi"
    "(arg OR argFold) AND argFold \<noteq> 0"
    unfolding mask w by (simp_all only: small) (simp add: argFold_def)
qed

lemma consumes_range: "consumes (byte_range r n) (uint (c :: byte)) \<longleftrightarrow> within c r"
proof -
  have "uint c \<noteq> - 1" using uint_ge_0[of c] by linarith
  moreover have "(unat (fst r) \<le> unat c \<and> unat c \<le> unat (snd r)) = within c r"
    by (simp add: within_def word_le_nat_alt)
  ultimately show ?thesis
    unfolding consumes_def byte_range_def Let_def Inst.simps range_arg by (simp add: uint_nat del: of_nat_unat)
qed

subsection \<open>Chains\<close>

inductive chain :: "Inst list \<Rightarrow> nat \<Rightarrow> u32 \<Rightarrow> u32 \<Rightarrow> (byte \<times> byte) list \<Rightarrow> bool" for "is" n0 ex where
  chain_end: "chain is n0 ex ex []"
| chain_step: "n0 \<le> unat x \<Longrightarrow> unat x < length is \<Longrightarrow> is ! unat x = byte_range r next \<Longrightarrow> chain is n0 ex next rs \<Longrightarrow>
    chain is n0 ex x (r # rs)"

lemma chain_spells:
  assumes "unat ex < n0" shows "chain is n0 ex x rs \<Longrightarrow> spells is ex x bs \<longleftrightarrow> list_all2 within bs rs"
proof (induction arbitrary: bs rule: chain.induct)
  case chain_end
  then show ?case by (auto simp: spells_exit)
next
  case (chain_step x r "next" rs)
  then have "x \<noteq> ex" "eps_succ (is ! unat x) 0 = []" "in_out (is ! unat x) = next"
    using assms by (auto simp: eps_succ_def byte_range_def)
  with chain_step show ?case
    by (auto simp: spells_step[of x] consumes_range list_all2_Cons2)
qed

lemma chain_frame:
  "chain is n0 ex x rs \<Longrightarrow> length is \<le> length is' \<Longrightarrow>
    (\<And>p. n0 \<le> p \<Longrightarrow> p < length is \<Longrightarrow> in_op (is ! p) = instByteRange \<Longrightarrow> is' ! p = is ! p) \<Longrightarrow> chain is' n0 ex x rs"
proof (induction rule: chain.induct)
  case (chain_step x r "next" rs)
  then show ?case by (intro chain.chain_step) (auto simp: byte_range_def)
qed (rule chain.chain_end)

subsection \<open>Alternatives\<close>

inductive alts :: "Inst list \<Rightarrow> nat \<Rightarrow> u32 \<Rightarrow> u32 list \<Rightarrow> u32 \<Rightarrow> bool" for "is" n0 where
  none: "unat x < length is \<Longrightarrow> in_op (is ! unat x) = InstFail \<Longrightarrow> alts is n0 x [] x"
| one: "unat x < length is \<Longrightarrow> in_op (is ! unat x) = InstNop \<Longrightarrow> in_out (is ! unat x) = p \<Longrightarrow> alts is n0 x [p] x"
| two: "unat x < length is \<Longrightarrow> in_op (is ! unat x) = InstAlt \<Longrightarrow> in_out (is ! unat x) = p \<Longrightarrow> in_arg (is ! unat x) = q \<Longrightarrow>
    alts is n0 x [p, q] x"
| more: "unat x < length is \<Longrightarrow> in_op (is ! unat x) = InstAlt \<Longrightarrow> in_out (is ! unat x) = p \<Longrightarrow> in_arg (is ! unat x) = y \<Longrightarrow>
    n0 \<le> unat y \<Longrightarrow> unat x < unat y \<Longrightarrow> alts is n0 y ps z \<Longrightarrow> alts is n0 x (p # ps) z"

lemma alts_last: "alts is n0 x ps z \<Longrightarrow> unat x \<le> unat z \<and> unat z < length is"
  by (induction rule: alts.induct) auto

lemma alts_spells:
  assumes "unat ex < n0"
  shows "alts is n0 x ps z \<Longrightarrow> x \<noteq> ex \<Longrightarrow> spells is ex x bs \<longleftrightarrow> (\<exists>p \<in> set ps. spells is ex p bs)"
proof (induction rule: alts.induct)
  case (more x p y ps z)
  then have "y \<noteq> ex" using assms by auto
  with more show ?case by (auto simp: spells_step[of x] eps_succ_def consumes_def)
qed (auto simp: spells_step eps_succ_def consumes_def)

lemma alts_frame:
  "alts is n0 x ps z \<Longrightarrow> length is \<le> length is' \<Longrightarrow> (\<And>p. p < length is \<Longrightarrow> is' ! p = is ! p) \<Longrightarrow> alts is' n0 x ps z"
proof (induction rule: alts.induct)
  case (more x p y ps z)
  then show ?case by (intro alts.more[of x is' p y]) auto
qed (auto intro: alts.intros)

subsection \<open>The operations of the builder\<close>

definition cache_ok :: "nat \<Rightarrow> u32 \<Rightarrow> runeBuilder \<Rightarrow> bool" where
  "cache_ok n0 ex b \<longleftrightarrow> (\<forall>lo hi next pc. rb_cache b (lo, hi, False, next) = Some pc \<longrightarrow>
     n0 \<le> unat pc \<and> unat pc < length (rb_inst b) \<and> rb_inst b ! unat pc = byte_range (lo, hi) (if next = 0 then ex else next))"

text \<open>New instructions at the end, everything else as before.\<close>

definition extended :: "runeBuilder \<Rightarrow> runeBuilder \<Rightarrow> bool" where
  "extended b b' \<longleftrightarrow> (\<exists>new. rb_inst b' = rb_inst b @ new) \<and> rb_begin b' = rb_begin b \<and> rb_out b' = rb_out b"

lemma extended_refl: "extended b b"
  by (simp add: extended_def)

lemma extended_trans: "extended b b' \<Longrightarrow> extended b' b'' \<Longrightarrow> extended b b''"
  by (auto simp: extended_def)

lemma extended_nth: "extended b b' \<Longrightarrow> p < length (rb_inst b) \<Longrightarrow> rb_inst b' ! p = rb_inst b ! p"
  by (auto simp: extended_def nth_append)

lemma extended_length: "extended b b' \<Longrightarrow> length (rb_inst b) \<le> length (rb_inst b')"
  by (auto simp: extended_def)

lemma chain_extended: "extended b b' \<Longrightarrow> chain (rb_inst b) n0 ex x rs \<Longrightarrow> chain (rb_inst b') n0 ex x rs"
  by (erule chain_frame) (simp_all add: extended_nth extended_length)

lemma alts_extended: "extended b b' \<Longrightarrow> alts (rb_inst b) n0 x ps z \<Longrightarrow> alts (rb_inst b') n0 x ps z"
  by (erule alts_frame) (simp_all add: extended_nth extended_length)

definition target :: "u32 \<Rightarrow> u32 \<Rightarrow> u32" where
  "target ex next = (if next = 0 then ex else next)"

lemma uncachedSuffix_eq:
  assumes "rb_out b = ex"
  shows "uncachedSuffix b lo hi False next =
    (word_of_nat (length (rb_inst b)), b\<lparr>rb_inst := rb_inst b @ [byte_range (lo, hi) (target ex next)]\<rparr>)"
  using assms by (simp add: uncachedSuffix_def Let_def byte_range_def target_def)

lemma suffix_chain:
  assumes suffix: "rb_suffix b lo hi False next = (pc, b')" and fits: "length (rb_inst b') < 2 ^ 32"
    and b: "cache_ok n0 ex b" "rb_out b = ex" "0 < n0" "n0 \<le> length (rb_inst b)"
    and rest: "chain (rb_inst b) n0 ex (target ex next) rs"
  shows "extended b b' \<and> cache_ok n0 ex b' \<and> pc \<noteq> 0 \<and> chain (rb_inst b') n0 ex pc ((lo, hi) # rs)"
proof -
  have chain: "pc \<noteq> 0 \<and> chain (rb_inst b') n0 ex pc ((lo, hi) # rs)"
    if "n0 \<le> unat pc" "unat pc < length (rb_inst b')" "rb_inst b' ! unat pc = byte_range (lo, hi) (target ex next)"
      "extended b b'"
    using that b(3) chain_extended[OF that(4) rest] by (auto intro: chain.chain_step)
  have new: "cache_ok n0 ex c" if "rb_inst c = rb_inst b @ [i]" "rb_cache c = rb_cache b" for c i
    using b(1) that unfolding cache_ok_def by (auto simp: nth_append less_Suc_eq)
  show ?thesis
  proof (cases "lo < 0x80 \<or> hi > 0xbf")
    case True
    with suffix have eq: "pc = word_of_nat (length (rb_inst b))"
      "b' = b\<lparr>rb_inst := rb_inst b @ [byte_range (lo, hi) (target ex next)]\<rparr>"
      by (simp_all add: rb_suffix_def uncachedSuffix_eq[OF b(2)])
    then have "unat pc = length (rb_inst b)" using fits by (simp add: unat_of_nat_u32)
    with eq b(4) chain new[of b'] show ?thesis by (simp add: extended_def)
  next
    case False
    show ?thesis
    proof (cases "rb_cache b (lo, hi, False, next)")
      case None
      with False suffix have eq: "pc = word_of_nat (length (rb_inst b))"
        "b' = b\<lparr>rb_inst := rb_inst b @ [byte_range (lo, hi) (target ex next)],
          rb_cache := (rb_cache b)((lo, hi, False, next) \<mapsto> pc)\<rparr>"
        by (auto simp: rb_suffix_def uncachedSuffix_eq[OF b(2)] Let_def split: prod.splits)
      then have pc: "unat pc = length (rb_inst b)" using fits by (simp add: unat_of_nat_u32)
      have "cache_ok n0 ex b'"
        using b(1,4) pc unfolding cache_ok_def eq(2) by (auto simp: nth_append target_def less_Suc_eq)
      with eq(2) pc b(4) chain show ?thesis by (simp add: extended_def)
    next
      case (Some pc')
      with False suffix have eq: "pc' = pc" "b' = b" by (simp_all add: rb_suffix_def)
      with Some b(1) have "n0 \<le> unat pc" "unat pc < length (rb_inst b)"
        "rb_inst b ! unat pc = byte_range (lo, hi) (target ex next)"
        unfolding cache_ok_def target_def by blast+
      with eq chain b(1) show ?thesis by (simp add: extended_refl)
    qed
  qed
qed

lemma suffix_length: "rb_suffix b lo hi fd next = (pc, b') \<Longrightarrow> length (rb_inst b) \<le> length (rb_inst b')"
  by (auto simp: rb_suffix_def uncachedSuffix_def Let_def split: if_splits option.splits)

lemma add_chain_length: "add_chain b rs pc = (pc', b') \<Longrightarrow> length (rb_inst b) \<le> length (rb_inst b')"
proof (induction b rs pc rule: add_chain.induct)
  case (2 b lo hi rs pc)
  then show ?case by (force split: prod.splits dest: suffix_length)
qed simp

lemma add_chain_spec:
  "add_chain b rs next = (pc, b') \<Longrightarrow> length (rb_inst b') < 2 ^ 32 \<Longrightarrow> cache_ok n0 ex b \<Longrightarrow> rb_out b = ex \<Longrightarrow> 0 < n0 \<Longrightarrow>
    n0 \<le> length (rb_inst b) \<Longrightarrow> chain (rb_inst b) n0 ex (target ex next) old \<Longrightarrow>
    extended b b' \<and> cache_ok n0 ex b' \<and> chain (rb_inst b') n0 ex (target ex pc) (rev rs @ old)
    \<and> (next \<noteq> 0 \<or> rs \<noteq> [] \<longrightarrow> pc \<noteq> 0)"
proof (induction b rs "next" arbitrary: old rule: add_chain.induct)
  case (1 b pc')
  then show ?case by (simp add: extended_refl)
next
  case (2 b lo hi rs nxt)
  obtain pc1 b1 where one: "rb_suffix b lo hi False nxt = (pc1, b1)" by fastforce
  then have rest: "add_chain b1 rs pc1 = (pc, b')" using "2.prems"(1) by simp
  have fits: "length (rb_inst b1) < 2 ^ 32" using add_chain_length[OF rest] "2.prems"(2) by simp
  from suffix_chain[OF one fits "2.prems"(3-7)]
  have b1: "extended b b1" "cache_ok n0 ex b1" "pc1 \<noteq> 0" "chain (rb_inst b1) n0 ex pc1 ((lo, hi) # old)" by simp_all
  have "extended b1 b' \<and> cache_ok n0 ex b' \<and> chain (rb_inst b') n0 ex (target ex pc) (rev rs @ (lo, hi) # old)
      \<and> (pc1 \<noteq> 0 \<or> rs \<noteq> [] \<longrightarrow> pc \<noteq> 0)"
  proof (rule "2.IH"[OF one[symmetric] refl rest "2.prems"(2) b1(2)])
    show "rb_out b1 = ex" "0 < n0" using b1(1) "2.prems"(4,5) by (simp_all add: extended_def)
    show "n0 \<le> length (rb_inst b1)" using extended_length[OF b1(1)] "2.prems"(6) by simp
    show "chain (rb_inst b1) n0 ex (target ex pc1) ((lo, hi) # old)" using b1(3,4) by (simp add: target_def)
  qed
  with extended_trans[OF b1(1)] b1(3) show ?case by simp
qed

lemma alts_between: "alts is n0 x ps z \<Longrightarrow> z = x \<or> n0 \<le> unat z"
  by (induction rule: alts.induct) auto

lemma addBranch_alts:
  assumes fits: "length (rb_inst b) + 1 < 2 ^ 32" and n0: "n0 \<le> length (rb_inst b)"
  shows "alts is n0 x ps z \<Longrightarrow> is = rb_inst b \<Longrightarrow> z = rb_begin b \<Longrightarrow>
    alts (rb_inst (addBranch b pc)) n0 x (ps @ [pc]) (rb_begin (addBranch b pc))"
proof (induction rule: alts.induct)
  case (none x)
  then show ?case by (auto simp: addBranch_def op_of_def set_inst_def Let_def intro: alts.one)
next
  case (one x p)
  then show ?case by (auto simp: addBranch_def op_of_def set_inst_def Let_def intro: alts.two)
next
  case (two x p q)
  have apc: "unat (word_of_nat (length (rb_inst b)) :: u32) = length (rb_inst b)"
    using fits by (simp add: unat_of_nat_u32)
  have eq: "addBranch b pc = b\<lparr>rb_inst := (rb_inst b)[unat x := (rb_inst b ! unat x)\<lparr>in_arg := word_of_nat (length (rb_inst b))\<rparr>]
      @ [\<lparr>in_op = InstAlt, in_out = q, in_arg = pc, in_rune = []\<rparr>], rb_begin := word_of_nat (length (rb_inst b))\<rparr>"
    using two by (auto simp: addBranch_def op_of_def set_inst_def Let_def nth_append list_update_append)
  have inner: "alts (rb_inst (addBranch b pc)) n0 (word_of_nat (length (rb_inst b))) [q, pc] (word_of_nat (length (rb_inst b)))"
    unfolding eq by (rule alts.two) (simp_all add: apc nth_append)
  have "alts (rb_inst (addBranch b pc)) n0 x (p # [q, pc]) (word_of_nat (length (rb_inst b)))"
    by (rule alts.more[OF _ _ _ _ _ _ inner]) (use two apc n0 in \<open>simp_all add: eq nth_append\<close>)
  then show ?case by (simp add: eq)
next
  case (more x p y ps z)
  have len: "length (rb_inst b) \<le> length (rb_inst (addBranch b pc))"
    by (simp add: addBranch_def set_inst_def Let_def)
  have "unat x < unat z" using alts_last[OF more.hyps(7)] more.hyps(6) by simp
  then have "rb_inst (addBranch b pc) ! unat x = rb_inst b ! unat x"
    using more.hyps(1) more.prems by (auto simp: addBranch_def set_inst_def op_of_def Let_def nth_append)
  moreover have "alts (rb_inst (addBranch b pc)) n0 y (ps @ [pc]) (rb_begin (addBranch b pc))"
    using more by blast
  ultimately have "alts (rb_inst (addBranch b pc)) n0 x (p # (ps @ [pc])) (rb_begin (addBranch b pc))"
    by (intro alts.more[of x _ p y]) (use more len in auto)
  then show ?case by simp
qed

lemma addBranch_other:
  assumes "p < length (rb_inst b)" and "p \<noteq> unat (rb_begin b)" shows "rb_inst (addBranch b pc) ! p = rb_inst b ! p"
  using assms by (auto simp: addBranch_def set_inst_def op_of_def Let_def nth_append)

lemma addBranch_fields [simp]:
  "rb_out (addBranch b pc) = rb_out b" "rb_cache (addBranch b pc) = rb_cache b"
  "length (rb_inst b) \<le> length (rb_inst (addBranch b pc))"
  "length (rb_inst (addBranch b pc)) \<le> length (rb_inst b) + 1"
  by (simp_all add: addBranch_def set_inst_def Let_def)

lemma alts_op: "alts is n0 x ps z \<Longrightarrow> in_op (is ! unat z) \<noteq> instByteRange"
  by (induction rule: alts.induct) auto

subsection \<open>The invariant of the builder\<close>

text \<open>The machine at \<open>begin\<close> has the branches \<open>L\<close>; the other instructions of \<open>is0\<close> are as they were.\<close>

definition rb_built :: "Inst list \<Rightarrow> u32 \<Rightarrow> u32 \<Rightarrow> (byte \<times> byte) list list \<Rightarrow> runeBuilder \<Rightarrow> bool" where
  "rb_built is0 begin ex L b \<longleftrightarrow> rb_out b = ex \<and> length is0 \<le> length (rb_inst b) \<and> cache_ok (length is0) ex b
     \<and> (\<exists>ps. alts (rb_inst b) (length is0) begin ps (rb_begin b)
          \<and> list_all2 (chain (rb_inst b) (length is0) ex) ps L)
     \<and> (\<forall>p < length is0. p \<noteq> unat begin \<longrightarrow> rb_inst b ! p = is0 ! p)"

lemma rb_built_init: "unat begin < length is0 \<Longrightarrow> rb_built is0 begin ex [] (rb_init is0 begin ex)"
  by (auto simp: rb_built_def rb_init_def set_inst_def cache_ok_def intro: alts.none)

lemma add_leaf_length: "length (rb_inst b) \<le> length (rb_inst (add_leaf b r))"
  by (auto simp: add_leaf_def Let_def split: prod.splits dest!: add_chain_length intro: order_trans)

lemma leaf_bytes_nonempty: "leaf_bytes lo hi \<noteq> []"
  by (simp add: leaf_bytes_def raw_enc_def)

lemma add_leaf_built:
  assumes b: "rb_built is0 begin ex L b" and fits: "length (rb_inst (add_leaf b r)) + 1 < 2 ^ 32" and r: "is_leaf (fst r) (snd r)"
    and start: "unat begin < length is0"
  shows "rb_built is0 begin ex (L @ [leaf_bytes (fst r) (snd r)]) (add_leaf b r)"
proof -
  let ?n = "length is0"
  obtain pc b' where chain: "add_chain b (rev (leaf_bytes (fst r) (snd r))) 0 = (pc, b')" by fastforce
  then have leaf: "add_leaf b r = addBranch b' pc" by (simp add: add_leaf_def)
  have fits': "length (rb_inst b') + 1 < 2 ^ 32" using fits addBranch_fields(3)[of b' pc] unfolding leaf by linarith
  have n: "0 < ?n" "?n \<le> length (rb_inst b)" using b start by (auto simp: rb_built_def)
  have "extended b b' \<and> cache_ok ?n ex b' \<and> chain (rb_inst b') ?n ex (target ex pc) (rev (rev (leaf_bytes (fst r) (snd r))) @ [])
      \<and> (0 \<noteq> (0 :: u32) \<or> rev (leaf_bytes (fst r) (snd r)) \<noteq> [] \<longrightarrow> pc \<noteq> 0)"
    by (rule add_chain_spec[OF chain _ _ _ n]) (use b fits' in \<open>auto simp: rb_built_def target_def intro: chain.chain_end\<close>)
  then have b': "extended b b'" "cache_ok ?n ex b'" "chain (rb_inst b') ?n ex pc (leaf_bytes (fst r) (snd r))"
    using leaf_bytes_nonempty[of "fst r" "snd r"] by (auto simp: target_def)
  obtain ps where ps: "alts (rb_inst b) ?n begin ps (rb_begin b)" "list_all2 (chain (rb_inst b) ?n ex) ps L"
    using b by (auto simp: rb_built_def)
  have alts': "alts (rb_inst b') ?n begin ps (rb_begin b')" using alts_extended[OF b'(1) ps(1)] b'(1) by (simp add: extended_def)
  have n': "?n \<le> length (rb_inst b')" using n(2) extended_length[OF b'(1)] by simp
  have range: "p \<noteq> unat (rb_begin b')" if "in_op (rb_inst b' ! p) = instByteRange" for p
    using alts_op[OF alts'] that by auto
  have frame: "chain (rb_inst (addBranch b' pc)) ?n ex p rs" if "chain (rb_inst b') ?n ex p rs" for p rs
    by (rule chain_frame[OF that]) (use range in \<open>auto intro: addBranch_other\<close>)
  have "alts (rb_inst (addBranch b' pc)) ?n begin (ps @ [pc]) (rb_begin (addBranch b' pc))"
    using addBranch_alts[OF fits' n' alts'] by simp
  moreover have "list_all2 (chain (rb_inst (addBranch b' pc)) ?n ex) (ps @ [pc]) (L @ [leaf_bytes (fst r) (snd r)])"
    using list_all2_mono[OF ps(2), of "chain (rb_inst (addBranch b' pc)) ?n ex"] frame chain_extended[OF b'(1)] b'(3)
    by (intro list_all2_appendI) auto
  moreover have "cache_ok ?n ex (addBranch b' pc)"
  proof -
    have entry: "unat x < length (rb_inst (addBranch b' pc)) \<and> rb_inst (addBranch b' pc) ! unat x = byte_range r nx"
      if "unat x < length (rb_inst b')" "rb_inst b' ! unat x = byte_range r nx" for x r nx
      using that order_less_le_trans[OF that(1) addBranch_fields(3), of pc] range[of "unat x"] addBranch_other[of "unat x" b' pc]
      by (auto simp: byte_range_def)
    show ?thesis using b'(2) entry unfolding cache_ok_def addBranch_fields by blast
  qed
  moreover have "rb_inst (addBranch b' pc) ! p = is0 ! p" if "p < ?n" "p \<noteq> unat begin" for p
  proof -
    have "p \<noteq> unat (rb_begin b')" using alts_between[OF alts'] that by auto
    with that n' n(2) show ?thesis
      using addBranch_other[of p b' pc] extended_nth[OF b'(1), of p] b by (auto simp: rb_built_def)
  qed
  moreover have "rb_out b' = ex" using b'(1) b by (simp add: extended_def rb_built_def)
  moreover have "?n \<le> length (rb_inst (addBranch b' pc))" using n' addBranch_fields(3)[of b' pc] by linarith
  ultimately show ?thesis unfolding leaf rb_built_def by auto
qed

lemma add_leaves_length: "length (rb_inst b) \<le> length (rb_inst (foldl add_leaf b rs))"
proof (induction rs arbitrary: b)
  case (Cons r rs)
  show ?case using add_leaf_length[of b r] Cons.IH[of "add_leaf b r"] by simp
qed simp

lemma add_leaves_built:
  "rb_built is0 begin ex L b \<Longrightarrow> length (rb_inst (foldl add_leaf b rs)) + 1 < 2 ^ 32 \<Longrightarrow> \<forall>r \<in> set rs. is_leaf (fst r) (snd r) \<Longrightarrow>
    unat begin < length is0 \<Longrightarrow>
    rb_built is0 begin ex (L @ map (\<lambda>r. leaf_bytes (fst r) (snd r)) rs) (foldl add_leaf b rs)"
proof (induction rs arbitrary: b L)
  case (Cons r rs)
  then have fits: "length (rb_inst (add_leaf b r)) + 1 < 2 ^ 32"
    using add_leaves_length[of "add_leaf b r" rs] by simp
  with Cons have "rb_built is0 begin ex (L @ [leaf_bytes (fst r) (snd r)]) (add_leaf b r)" by (intro add_leaf_built) simp_all
  from Cons.IH[OF this] Cons.prems show ?case by simp
qed simp

subsection \<open>What the builder has built\<close>

text \<open>The encodings of \<open>R\<close> lead from \<open>x\<close> to the exit, whatever happens to instructions below \<open>n0\<close> other
  than \<open>x\<close> and to those past the end.\<close>

definition denotes :: "Inst list \<Rightarrow> nat \<Rightarrow> u32 \<Rightarrow> u32 \<Rightarrow> int set \<Rightarrow> bool" where
  "denotes is n0 ex x R \<longleftrightarrow> (\<forall>is' bs. length is \<le> length is' \<and> is' ! unat x = is ! unat x
      \<and> (\<forall>p. n0 \<le> p \<and> p < length is \<longrightarrow> is' ! p = is ! p)
    \<longrightarrow> (spells is' ex x bs \<longleftrightarrow> (\<exists>c \<in> R. bs = raw_enc c)))"

lemma denotes_spells: "denotes is n0 ex x R \<Longrightarrow> spells is ex x bs \<longleftrightarrow> (\<exists>c \<in> R. bs = raw_enc c)"
  by (simp add: denotes_def)

lemma denotes_frame:
  assumes "denotes is n0 ex x R" and "length is \<le> length is'" and "is' ! unat x = is ! unat x"
    and "\<And>p. n1 \<le> p \<Longrightarrow> p < length is \<Longrightarrow> is' ! p = is ! p" and "n1 \<le> n0"
  shows "denotes is' n1 ex x R"
  using assms unfolding denotes_def by (metis order_trans order_less_le_trans)

lemma alts_frame':
  "alts is n0 x ps z \<Longrightarrow> length is \<le> length is' \<Longrightarrow> is' ! unat x = is ! unat x \<Longrightarrow>
    (\<And>p. n0 \<le> p \<Longrightarrow> p < length is \<Longrightarrow> is' ! p = is ! p) \<Longrightarrow> alts is' n0 x ps z"
proof (induction rule: alts.induct)
  case (more x p y ps z)
  have "unat y < length is" using alts_last[OF more.hyps(7)] by simp
  with more show ?case by (intro alts.more[of x is' p y]) auto
qed (auto intro: alts.intros)

lemma rb_built_denotes:
  assumes b: "rb_built is0 begin ex L b" and ex: "unat ex < length is0" "begin \<noteq> ex"
    and L: "\<And>bs. (\<exists>rs \<in> set L. list_all2 within bs rs) \<longleftrightarrow> (\<exists>c \<in> R. bs = raw_enc c)"
  shows "denotes (rb_inst b) (length is0) ex begin R"
  unfolding denotes_def
proof (intro allI impI)
  fix is' bs
  assume is': "length (rb_inst b) \<le> length is' \<and> is' ! unat begin = rb_inst b ! unat begin
    \<and> (\<forall>p. length is0 \<le> p \<and> p < length (rb_inst b) \<longrightarrow> is' ! p = rb_inst b ! p)"
  obtain ps where ps: "alts (rb_inst b) (length is0) begin ps (rb_begin b)"
    "list_all2 (chain (rb_inst b) (length is0) ex) ps L"
    using b by (auto simp: rb_built_def)
  have "alts is' (length is0) begin ps (rb_begin b)" using is' by (intro alts_frame'[OF ps(1)]) auto
  then have "spells is' ex begin bs \<longleftrightarrow> (\<exists>p \<in> set ps. spells is' ex p bs)" using alts_spells ex by simp
  moreover have chains: "list_all2 (chain is' (length is0) ex) ps L"
    using ps(2) by (rule list_all2_mono) (use is' in \<open>auto intro: chain_frame\<close>)
  have "(\<exists>p \<in> set ps. spells is' ex p bs) \<longleftrightarrow> (\<exists>rs \<in> set L. list_all2 within bs rs)"
    using chains by (induction rule: list_all2_induct) (simp_all add: chain_spells[OF ex(1)])
  ultimately show "spells is' ex begin bs \<longleftrightarrow> (\<exists>c \<in> R. bs = raw_enc c)" using L by simp
qed

end
