(* ===== verification/Byte_Folding.thy ===== *)
theory Byte_Folding
  imports Byte_Prog
begin

text \<open>
  Classes as sets of runes: \<open>appendRange\<close> adds a range to a class and \<open>appendFoldedRange\<close> adds it with
  the runes that case folding makes equal to its runes.
\<close>

definition flat :: "(int \<times> int) list \<Rightarrow> int list" where
  "flat ps = concat (map (\<lambda>(lo, hi). [lo, hi]) ps)"

definition runes_of :: "(int \<times> int) list \<Rightarrow> int set" where
  "runes_of ps = (\<Union>(lo, hi) \<in> set ps. {lo..hi})"

definition ordered :: "(int \<times> int) list \<Rightarrow> bool" where
  "ordered ps \<longleftrightarrow> (\<forall>(lo, hi) \<in> set ps. lo \<le> hi)"

lemma flat_simps [simp]: "flat [] = []" "flat (p # ps) = fst p # snd p # flat ps" "flat (ps @ qs) = flat ps @ flat qs"
  by (simp_all add: flat_def split_def)

lemma runes_of_simps [simp]:
  "runes_of [] = {}" "runes_of (p # ps) = {fst p..snd p} \<union> runes_of ps" "runes_of (ps @ qs) = runes_of ps \<union> runes_of qs"
  by (auto simp: runes_of_def split_def)

lemma ordered_simps [simp]:
  "ordered []" "ordered (p # ps) \<longleftrightarrow> fst p \<le> snd p \<and> ordered ps" "ordered (ps @ qs) \<longleftrightarrow> ordered ps \<and> ordered qs"
  by (auto simp: ordered_def)

lemma class_runes_flat: "class_runes (flat ps) = runes_of ps"
  by (induction ps) simp_all

lemma length_flat: "length (flat ps) = 2 * length ps"
  by (induction ps) simp_all

lemma interval_join:
  "a \<le> b \<Longrightarrow> lo \<le> hi \<Longrightarrow> lo \<le> b + 1 \<Longrightarrow> a \<le> hi + 1 \<Longrightarrow>
    {if lo < a then lo else a..if hi > b then hi else (b :: int)} = {a..b} \<union> {lo..hi}"
  by (auto simp: atLeastAtMost_def)

lemma appendRange_pairs:
  "appendRange (rs @ [a, b, c, d]) lo hi =
     (if lo \<le> d + 1 \<and> c \<le> hi + 1 then rs @ [a, b, if lo < c then lo else c, if hi > d then hi else d]
      else if lo \<le> b + 1 \<and> a \<le> hi + 1 then rs @ [if lo < a then lo else a, if hi > b then hi else b, c, d]
      else rs @ [a, b, c, d, lo, hi])"
proof -
  let ?r = "rs @ [a, b, c, d]"
  have n: "length ?r = length rs + 4" "length rs + 4 - 2 = length rs + 2" "length rs + 4 - 4 = length rs"
    "length rs + 2 + 1 = length rs + 3" by simp_all
  have nths: "?r ! (length rs + 2) = c" "?r ! (length rs + 3) = d" "?r ! length rs = a" "?r ! (length rs + 1) = b"
    by (simp_all add: nth_append)
  have ups: "?r[length rs + 2 := x] = rs @ [a, b, x, d]" "?r[length rs + 3 := x] = rs @ [a, b, c, x]"
    "(rs @ [a, b, y, d])[length rs + 3 := x] = rs @ [a, b, y, x]"
    "?r[length rs := x] = rs @ [x, b, c, d]" "?r[length rs + 1 := x] = rs @ [a, x, c, d]"
    "(rs @ [y, b, c, d])[length rs + 1 := x] = rs @ [y, x, c, d]" for x y
    by (simp_all add: list_update_append)
  have four: "length rs + 4 \<ge> 2" "length rs + 4 \<ge> 4" by simp_all
  show ?thesis
    unfolding appendRange_def Let_def n nths by (simp only: four simp_thms ups nths append_assoc append_Cons append_Nil if_True split: if_split) simp
qed

lemma appendRange_spec:
  assumes "ordered ps" and "lo \<le> hi"
  obtains qs where "appendRange (flat ps) lo hi = flat qs" "ordered qs" "runes_of qs = runes_of ps \<union> {lo..hi}"
proof -
  consider "ps = []" | p where "ps = [p]" | rs p q where "ps = rs @ [q, p]"
    by (metis append_Nil append_butlast_last_id append_assoc append_Cons)
  then show thesis
  proof cases
    case 1
    then show ?thesis using assms by (intro that[of "[(lo, hi)]"]) (simp_all add: appendRange_def)
  next
    case (2 p)
    let ?p = "(if lo < fst p then lo else fst p, if hi > snd p then hi else snd p)"
    show ?thesis
    proof (cases "lo \<le> snd p + 1 \<and> fst p \<le> hi + 1")
      case True
      with 2 have "appendRange (flat ps) lo hi = flat [?p]" by (simp add: appendRange_def)
      with True 2 assms show ?thesis by (intro that[of "[?p]"]) (simp_all add: interval_join)
    next
      case False
      with 2 have "appendRange (flat ps) lo hi = flat [p, (lo, hi)]" by (auto simp: appendRange_def)
      with 2 assms show ?thesis by (intro that[of "[p, (lo, hi)]"]) simp_all
    qed
  next
    case (3 rs p q)
    let ?p = "(if lo < fst p then lo else fst p, if hi > snd p then hi else snd p)"
    let ?q = "(if lo < fst q then lo else fst q, if hi > snd q then hi else snd q)"
    have eq: "flat ps = flat rs @ [fst q, snd q, fst p, snd p]" using 3 by simp
    show ?thesis
    proof (cases "lo \<le> snd p + 1 \<and> fst p \<le> hi + 1")
      case True
      then have "appendRange (flat ps) lo hi = flat (rs @ [q, ?p])" unfolding eq appendRange_pairs by simp
      with True 3 assms show ?thesis by (intro that[of "rs @ [q, ?p]"]) (simp_all only: flat_simps ordered_simps runes_of_simps interval_join fst_conv snd_conv, auto)
    next
      case no: False
      show ?thesis
      proof (cases "lo \<le> snd q + 1 \<and> fst q \<le> hi + 1")
        case True
        with no have "appendRange (flat ps) lo hi = flat (rs @ [?q, p])" unfolding eq appendRange_pairs by simp
        with True 3 assms show ?thesis by (intro that[of "rs @ [?q, p]"]) (simp_all only: flat_simps ordered_simps runes_of_simps interval_join fst_conv snd_conv, auto)
      next
        case False
        with no have "appendRange (flat ps) lo hi = flat (rs @ [q, p, (lo, hi)])"
          unfolding eq appendRange_pairs by simp
        with 3 assms show ?thesis by (intro that[of "rs @ [q, p, (lo, hi)]"]) auto
      qed
    qed
  qed
qed

subsection \<open>Case folding\<close>

text \<open>What the comments of \<^verbatim>\<open>minFold\<close> and \<^verbatim>\<open>SimpleFold\<close> say: the function steps through cycles, and
  runes outside of the two bounds are alone in theirs.\<close>

definition fold_ok :: "(int \<Rightarrow> int) \<Rightarrow> bool" where
  "fold_ok sf \<longleftrightarrow> (\<forall>c. \<exists>n > 0. (sf ^^ n) c = c) \<and> (\<forall>c. c < minFold \<or> maxFold < c \<longrightarrow> sf c = c)"

lemma fixed_orbit: "sf c = c \<Longrightarrow> fold_orbit sf c = {c}"
proof -
  assume "sf c = c"
  then have "(sf ^^ n) c = c" for n by (induction n) simp_all
  then show ?thesis by (auto simp: fold_orbit_def)
qed

lemma orbit_self: "c \<in> fold_orbit sf c"
  unfolding fold_orbit_def by (auto intro: exI[of _ 0])

lemma first_return:
  assumes "fold_ok sf"
  obtains n where "(sf ^^ n) (sf c) = c" "\<And>m. m < n \<Longrightarrow> (sf ^^ m) (sf c) \<noteq> c"
    "fold_orbit sf c = insert c {(sf ^^ m) (sf c) | m. m < n}"
proof -
  obtain k where "k > 0" "(sf ^^ k) c = c" using assms by (auto simp: fold_ok_def)
  then have ex: "\<exists>n. (sf ^^ n) (sf c) = c" by (metis Suc_pred funpow_swap1 funpow_Suc_right o_apply)
  define n where "n = (LEAST n. (sf ^^ n) (sf c) = c)"
  have n: "(sf ^^ n) (sf c) = c" unfolding n_def using ex by (rule LeastI_ex)
  have least: "(sf ^^ m) (sf c) \<noteq> c" if "m < n" for m using that not_less_Least unfolding n_def by blast
  let ?O = "insert c {(sf ^^ m) (sf c) | m. m < n}"
  have closed: "sf x \<in> ?O" if x: "x \<in> ?O" for x
  proof -
    consider "x = c" | m where "x = (sf ^^ m) (sf c)" "m < n" using x by auto
    then show ?thesis
    proof cases
      case 1
      show ?thesis
      proof (cases "n = 0")
        case True
        with 1 n show ?thesis by simp
      next
        case False
        with 1 show ?thesis by (auto intro!: exI[of _ 0])
      qed
    next
      case (2 m)
      have step: "sf x = (sf ^^ Suc m) (sf c)" using 2(1) by simp
      show ?thesis
      proof (cases "Suc m = n")
        case True
        with step n show ?thesis by simp
      next
        case False
        with 2 have "Suc m < n" by simp
        with step show ?thesis by blast
      qed
    qed
  qed
  have "(sf ^^ k) c \<in> ?O" for k by (induction k) (use closed in auto)
  moreover have "(sf ^^ m) (sf c) \<in> fold_orbit sf c" for m
    unfolding fold_orbit_def by (auto simp: funpow_swap1 intro!: exI[of _ "Suc m"])
  ultimately have "fold_orbit sf c = ?O"
    using orbit_self[of c sf] unfolding fold_orbit_def by auto
  with n least that show thesis by blast
qed

lemma fold_orbit_loop_spec:
  "(sf ^^ n) f = c \<Longrightarrow> (\<And>m. m < n \<Longrightarrow> (sf ^^ m) f \<noteq> c) \<Longrightarrow> ordered ps \<Longrightarrow>
    \<exists>qs. fold_orbit_loop sf c f (flat ps) = Some (flat qs) \<and> ordered qs \<and> runes_of qs = runes_of ps \<union> {(sf ^^ m) f | m. m < n}"
proof (induction n arbitrary: f ps)
  case 0
  then show ?case by (subst fold_orbit_loop.simps) auto
next
  case (Suc n)
  obtain rs where rs: "appendRange (flat ps) f f = flat rs" "ordered rs" "runes_of rs = runes_of ps \<union> {f}"
    using appendRange_spec[OF Suc.prems(3), of f f] by auto
  have f: "f \<noteq> c" using Suc.prems(2)[of 0] by simp
  have step: "(sf ^^ n) (sf f) = c" "\<And>m. m < n \<Longrightarrow> (sf ^^ m) (sf f) \<noteq> c"
    using Suc.prems(1) Suc.prems(2)[of "Suc m" for m] by (simp_all add: funpow_swap1)
  obtain qs where qs: "fold_orbit_loop sf c (sf f) (flat rs) = Some (flat qs)" "ordered qs"
    "runes_of qs = runes_of rs \<union> {(sf ^^ m) (sf f) | m. m < n}"
    using Suc.IH[OF step rs(2)] by blast
  have "{(sf ^^ m) f | m. m < Suc n} = insert f {(sf ^^ m) (sf f) | m. m < n}"
  proof -
    have "(sf ^^ m) f \<in> insert f {(sf ^^ m) (sf f) | m. m < n}" if "m < Suc n" for m
      using that by (cases m) (auto simp: funpow_swap1)
    moreover have "(sf ^^ m) (sf f) \<in> {(sf ^^ m) f | m. m < Suc n}" if "m < n" for m
      using that by (auto simp: funpow_swap1 intro!: exI[of _ "Suc m"])
    moreover have "f \<in> {(sf ^^ m) f | m. m < Suc n}" by (auto intro!: exI[of _ 0])
    ultimately show ?thesis by auto
  qed
  then have "runes_of qs = runes_of ps \<union> {(sf ^^ m) f | m. m < Suc n}" using qs(3) rs(3) by auto
  moreover have "fold_orbit_loop sf c f (flat ps) = fold_orbit_loop sf c (sf f) (flat rs)"
    using f rs(1) by (subst fold_orbit_loop.simps) simp
  ultimately show ?case using qs by auto
qed

definition folds :: "(int \<Rightarrow> int) \<Rightarrow> int set \<Rightarrow> int set" where
  "folds sf R = (\<Union>c \<in> R. fold_orbit sf c)"

lemma folded_range_loop_spec:
  "fold_ok sf \<Longrightarrow> ordered ps \<Longrightarrow>
    \<exists>qs. folded_range_loop sf c hi (flat ps) = Some (flat qs) \<and> ordered qs \<and> runes_of qs = runes_of ps \<union> folds sf {c..hi}"
proof (induction "nat (hi + 1 - c)" arbitrary: c ps)
  case 0
  then show ?case by (subst folded_range_loop.simps) (auto simp: folds_def)
next
  case (Suc k)
  then have le: "c \<le> hi" by simp
  obtain rs where rs: "appendRange (flat ps) c c = flat rs" "ordered rs" "runes_of rs = runes_of ps \<union> {c}"
    using appendRange_spec[OF Suc.prems(2), of c c] by auto
  obtain n where n: "(sf ^^ n) (sf c) = c" "\<And>m. m < n \<Longrightarrow> (sf ^^ m) (sf c) \<noteq> c"
    "fold_orbit sf c = insert c {(sf ^^ m) (sf c) | m. m < n}" using first_return[OF Suc.prems(1), of c] by blast
  obtain os where os: "fold_orbit_loop sf c (sf c) (flat rs) = Some (flat os)" "ordered os"
    "runes_of os = runes_of rs \<union> {(sf ^^ m) (sf c) | m. m < n}"
    using fold_orbit_loop_spec[OF n(1,2) rs(2)] by blast
  obtain qs where qs: "folded_range_loop sf (c + 1) hi (flat os) = Some (flat qs)" "ordered qs"
    "runes_of qs = runes_of os \<union> folds sf {c + 1..hi}"
  proof -
    have "k = nat (hi + 1 - (c + 1))" using Suc.hyps(2) by linarith
    from Suc.hyps(1)[OF this Suc.prems(1) os(2)] that show ?thesis by blast
  qed
  have "{c..hi} = insert c {c + 1..hi}" using le by auto
  then have "folds sf {c..hi} = fold_orbit sf c \<union> folds sf {c + 1..hi}" by (simp add: folds_def)
  then have "runes_of qs = runes_of ps \<union> folds sf {c..hi}" using qs(3) os(3) rs(3) n(3) by auto
  moreover have "folded_range_loop sf c hi (flat ps) = Some (flat qs)"
    using le rs(1) os(1) qs(1) by (subst folded_range_loop.simps) simp
  ultimately show ?case using qs(2) by blast
qed

lemma orbit_in_range:
  assumes "fold_ok sf" and "minFold \<le> c" and "c \<le> maxFold" shows "fold_orbit sf c \<subseteq> {minFold..maxFold}"
proof
  fix x assume "x \<in> fold_orbit sf c"
  then obtain n where x: "x = (sf ^^ n) c" by (auto simp: fold_orbit_def)
  obtain k where k: "k > 0" "(sf ^^ k) c = c" using assms(1) by (auto simp: fold_ok_def)
  show "x \<in> {minFold..maxFold}"
  proof (rule ccontr)
    assume "x \<notin> {minFold..maxFold}"
    then have "sf x = x" using assms(1) by (auto simp: fold_ok_def)
    then have fixed: "(sf ^^ m) x = x" for m by (induction m) simp_all
    have cycle: "(sf ^^ (k * m)) c = c" for m
      by (induction m) (simp_all add: funpow_add k(2))
    have "n \<le> k * n" using k(1) by simp
    then have "k * n - n + n = k * n" by simp
    then have "(sf ^^ (k * n - n)) x = (sf ^^ (k * n)) c" unfolding x by (metis funpow_add o_apply)
    with fixed cycle have "x = c" by simp
    with \<open>x \<notin> {minFold..maxFold}\<close> assms(2,3) show False by simp
  qed
qed

lemma folds_fixed: "fold_ok sf \<Longrightarrow> R \<subseteq> {c. c < minFold \<or> maxFold < c} \<Longrightarrow> folds sf R = R"
proof -
  assume "fold_ok sf" and "R \<subseteq> {c. c < minFold \<or> maxFold < c}"
  then have "fold_orbit sf c = {c}" if "c \<in> R" for c using that by (intro fixed_orbit) (auto simp: fold_ok_def)
  then show ?thesis by (simp add: folds_def)
qed

lemma folds_Un: "folds sf (A \<union> B) = folds sf A \<union> folds sf B"
  by (auto simp: folds_def)

lemma subset_folds: "R \<subseteq> folds sf R"
  unfolding folds_def using orbit_self by blast

lemma folds_full:
  assumes "fold_ok sf" and "lo \<le> minFold" and "maxFold \<le> hi" shows "folds sf {lo..hi} = {lo..hi}"
proof
  show "folds sf {lo..hi} \<subseteq> {lo..hi}"
  proof
    fix x assume "x \<in> folds sf {lo..hi}"
    then obtain c where c: "lo \<le> c" "c \<le> hi" "x \<in> fold_orbit sf c" by (auto simp: folds_def)
    show "x \<in> {lo..hi}"
    proof (cases "minFold \<le> c \<and> c \<le> maxFold")
      case True
      with orbit_in_range[OF assms(1), of c] c(3) assms(2,3) show ?thesis by auto
    next
      case False
      with assms(1) have "sf c = c" by (auto simp: fold_ok_def)
      with c show ?thesis by (simp add: fixed_orbit)
    qed
  qed
qed (rule subset_folds)

lemma appendFoldedRange_spec:
  assumes sf: "fold_ok sf" and ps: "ordered ps" and le: "lo \<le> hi"
  obtains qs where "appendFoldedRange sf (flat ps) lo hi = Some (flat qs)" "ordered qs"
    "runes_of qs = runes_of ps \<union> folds sf {lo..hi}"
proof -
  have plain: "\<exists>qs. Some (appendRange (flat ps) lo hi) = Some (flat qs) \<and> ordered qs \<and> runes_of qs = runes_of ps \<union> folds sf {lo..hi}"
    if "folds sf {lo..hi} = {lo..hi}" using appendRange_spec[OF ps le] that by metis
  show thesis
  proof (cases "lo \<le> minFold \<and> hi \<ge> maxFold \<or> hi < minFold \<or> lo > maxFold")
    case True
    then have "folds sf {lo..hi} = {lo..hi}"
      using folds_full[OF sf, of lo hi] folds_fixed[OF sf, of "{lo..hi}"] by fastforce
    moreover have "appendFoldedRange sf (flat ps) lo hi = Some (appendRange (flat ps) lo hi)"
      using True by (auto simp: appendFoldedRange_def)
    ultimately show thesis using plain that by metis
  next
    case False
    let ?lo = "if lo < minFold then minFold else lo" and ?hi = "if hi > maxFold then maxFold else hi"
    let ?below = "if lo < minFold then {lo..minFold - 1} else {}" and ?above = "if hi > maxFold then {maxFold + 1..hi} else {}"
    obtain rs where rs: "(if lo < minFold then appendRange (flat ps) lo (minFold - 1) else flat ps) = flat rs"
      "ordered rs" "runes_of rs = runes_of ps \<union> ?below"
      using ps appendRange_spec[OF ps, of lo "minFold - 1"] by (cases "lo < minFold") (simp_all, metis)
    obtain ts where ts: "(if hi > maxFold then appendRange (flat rs) (maxFold + 1) hi else flat rs) = flat ts"
      "ordered ts" "runes_of ts = runes_of rs \<union> ?above"
      using rs(2) appendRange_spec[OF rs(2), of "maxFold + 1" hi] by (cases "hi > maxFold") (simp_all, metis)
    obtain qs where qs: "folded_range_loop sf ?lo ?hi (flat ts) = Some (flat qs)" "ordered qs"
      "runes_of qs = runes_of ts \<union> folds sf {?lo..?hi}" using folded_range_loop_spec[OF sf ts(2)] by blast
    have "appendFoldedRange sf (flat ps) lo hi = folded_range_loop sf ?lo ?hi (flat ts)"
      using False rs(1) ts(1) by (auto simp: appendFoldedRange_def Let_def split: if_splits)
    moreover have "{lo..hi} = ?below \<union> {?lo..?hi} \<union> ?above" using False le by (cases "lo < minFold"; cases "hi > maxFold") auto
    then have "folds sf {lo..hi} = folds sf ?below \<union> folds sf {?lo..?hi} \<union> folds sf ?above" by (simp only: folds_Un)
    then have "runes_of qs = runes_of ps \<union> folds sf {lo..hi}"
    proof -
      have "folds sf ?below = ?below" "folds sf ?above = ?above" by (rule folds_fixed[OF sf]; auto)+
      with \<open>folds sf {lo..hi} = _\<close> show ?thesis unfolding qs(3) ts(3) rs(3) by (simp only: Un_assoc Un_commute Un_left_commute)
    qed
    ultimately show thesis using that qs by metis
  qed
qed

end
