(* ===== verification/Byte_Prog_Correct.thy ===== *)
theory Byte_Prog_Correct
  imports Byte_Machine Byte_Folding
begin

text \<open>
  \<open>toByteProg\<close> is correct: it returns, the instructions that do not read runes are as they were, and
  from each instruction for a class of runes the byte program reads exactly the encodings of the
  runes of the class.
\<close>

subsection \<open>Adding a class\<close>

lemma singleton_leaf: "leaf_bytes c c \<noteq> []"
  by (rule leaf_bytes_nonempty)

lemma addRange_built:
  assumes b: "rb_built is0 begin ex L b" and safe: "safe_range lo hi" and start: "unat begin < length is0"
    and add: "addRange b lo hi False = Some b'" and fits: "length (rb_inst b') + 1 < 2 ^ 32"
  shows "\<exists>L'. rb_built is0 begin ex (L @ L') b'
    \<and> (\<forall>bs. (\<exists>rs \<in> set L'. list_all2 within bs rs) \<longleftrightarrow> (\<exists>c \<in> {lo..hi}. bs = raw_enc c))"
proof -
  let ?rs = "leaves lo hi"
  have b': "b' = foldl add_leaf b ?rs" using add addRange_leaves[OF safe, of b] by simp
  have rs: "\<forall>(l, h) \<in> set ?rs. is_leaf l h" "(\<Union>(l, h) \<in> set ?rs. {l..h}) = {lo..hi}"
    using leaves_spec[OF safe] by blast+
  have "rb_built is0 begin ex (L @ map (\<lambda>r. leaf_bytes (fst r) (snd r)) ?rs) b'"
    using add_leaves_built[OF b, of ?rs] fits rs(1) start unfolding b' by (simp add: split_def)
  moreover have "(\<exists>rs \<in> set (map (\<lambda>r. leaf_bytes (fst r) (snd r)) ?rs). list_all2 within bs rs)
      \<longleftrightarrow> (\<exists>c \<in> {lo..hi}. bs = raw_enc c)" for bs
  proof -
    have "(\<exists>rs \<in> set (map (\<lambda>r. leaf_bytes (fst r) (snd r)) ?rs). list_all2 within bs rs)
      \<longleftrightarrow> (\<exists>r \<in> set ?rs. \<exists>c \<in> {fst r..snd r}. bs = raw_enc c)"
    proof -
      have "list_all2 within bs (leaf_bytes (fst r) (snd r)) \<longleftrightarrow> (\<exists>c \<in> {fst r..snd r}. bs = raw_enc c)" if "r \<in> set ?rs" for r
        using leaf_language[of "fst r" "snd r" bs] rs(1) that by (auto simp: is_leaf_def split_def)
      then show ?thesis by auto
    qed
    also have "\<dots> \<longleftrightarrow> (\<exists>c \<in> {lo..hi}. bs = raw_enc c)" unfolding rs(2)[symmetric] by force
    finally show ?thesis .
  qed
  ultimately show ?thesis by blast
qed

lemma addRange_total: "safe_range lo hi \<Longrightarrow> \<exists>b'. addRange b lo hi False = Some b'"
  by (simp add: addRange_leaves)

lemma addRange_length: "safe_range lo hi \<Longrightarrow> addRange b lo hi False = Some b' \<Longrightarrow> length (rb_inst b) \<le> length (rb_inst b')"
  using add_leaves_length by (auto simp: addRange_leaves)

definition safe_pairs :: "(int \<times> int) list \<Rightarrow> bool" where
  "safe_pairs ps \<longleftrightarrow> (\<forall>(lo, hi) \<in> set ps. safe_range lo hi)"

lemma safe_pairs_simps [simp]: "safe_pairs []" "safe_pairs (p # ps) \<longleftrightarrow> safe_range (fst p) (snd p) \<and> safe_pairs ps"
  by (auto simp: safe_pairs_def)

lemma add_pairs_total: "safe_pairs ps \<Longrightarrow> \<exists>b'. add_pairs b (flat ps) = Some b' \<and> length (rb_inst b) \<le> length (rb_inst b')"
proof (induction ps arbitrary: b)
  case (Cons p ps)
  then obtain b1 where b1: "addRange b (fst p) (snd p) False = Some b1" using addRange_total by fastforce
  then have "length (rb_inst b) \<le> length (rb_inst b1)" using addRange_length[OF _ b1] Cons.prems by simp
  with Cons.IH[of b1] Cons.prems b1 show ?case by fastforce
qed simp

lemma add_pairs_built:
  "rb_built is0 begin ex L b \<Longrightarrow> safe_pairs ps \<Longrightarrow> unat begin < length is0 \<Longrightarrow> add_pairs b (flat ps) = Some b' \<Longrightarrow>
    length (rb_inst b') + 1 < 2 ^ 32 \<Longrightarrow>
    \<exists>L'. rb_built is0 begin ex (L @ L') b'
      \<and> (\<forall>bs. (\<exists>rs \<in> set L'. list_all2 within bs rs) \<longleftrightarrow> (\<exists>c \<in> runes_of ps. bs = raw_enc c))"
proof (induction ps arbitrary: b L)
  case Nil
  then show ?case by (intro exI[of _ "[]"]) simp
next
  case (Cons p ps)
  obtain b1 where b1: "addRange b (fst p) (snd p) False = Some b1" "add_pairs b1 (flat ps) = Some b'"
    using Cons.prems(4) by (auto split: bind_splits)
  have fits: "length (rb_inst b1) + 1 < 2 ^ 32"
    using add_pairs_total[of ps b1] Cons.prems(2,5) b1(2) by auto
  obtain L1 where L1: "rb_built is0 begin ex (L @ L1) b1"
    "\<And>bs. (\<exists>rs \<in> set L1. list_all2 within bs rs) \<longleftrightarrow> (\<exists>c \<in> {fst p..snd p}. bs = raw_enc c)"
    using addRange_built[OF Cons.prems(1) _ Cons.prems(3) b1(1) fits] Cons.prems(2) by auto
  obtain L2 where L2: "rb_built is0 begin ex ((L @ L1) @ L2) b'"
    "\<And>bs. (\<exists>rs \<in> set L2. list_all2 within bs rs) \<longleftrightarrow> (\<exists>c \<in> runes_of ps. bs = raw_enc c)"
    using Cons.IH[OF L1(1) _ Cons.prems(3) b1(2) Cons.prems(5)] Cons.prems(2) by auto
  have "(\<exists>rs \<in> set (L1 @ L2). list_all2 within bs rs) \<longleftrightarrow> (\<exists>c \<in> runes_of (p # ps). bs = raw_enc c)" for bs
    using L1(2)[of bs] L2(2)[of bs] by (simp add: bex_Un)
  then show ?case using L2(1) by (intro exI[of _ "L1 @ L2"]) simp
qed

text \<open>The result of a step whose machine starts at \<open>pc\<close>.\<close>

definition replaced :: "Inst list \<Rightarrow> nat \<Rightarrow> int set \<Rightarrow> Inst list \<Rightarrow> bool" where
  "replaced is pc R is' \<longleftrightarrow> length is \<le> length is' \<and> (\<forall>p < length is. p \<noteq> pc \<longrightarrow> is' ! p = is ! p)
     \<and> denotes is' (length is) (in_out (is ! pc)) (word_of_nat pc) R"

lemma rb_built_replaced:
  assumes "rb_built is (word_of_nat pc) (in_out (is ! pc)) L b" and "pc < length is" "length is < 2 ^ 32"
    and "unat (in_out (is ! pc)) < length is" "in_out (is ! pc) \<noteq> word_of_nat pc"
    and "\<And>bs. (\<exists>rs \<in> set L. list_all2 within bs rs) \<longleftrightarrow> (\<exists>c \<in> R. bs = raw_enc c)"
  shows "replaced is pc R (rb_inst b)"
proof -
  have pc: "unat (word_of_nat pc :: u32) = pc" using assms(2,3) by (simp add: unat_of_nat_u32)
  have "denotes (rb_inst b) (length is) (in_out (is ! pc)) (word_of_nat pc) R"
    using rb_built_denotes[OF assms(1,4) _ assms(6)] assms(5) by simp
  with assms(1) pc show ?thesis by (simp add: replaced_def rb_built_def)
qed

lemma add_pairs_replaced:
  assumes ps: "safe_pairs ps" "runes_of ps = R" and pc: "pc < length is" "length is < 2 ^ 32"
    and ex: "unat (in_out (is ! pc)) < length is" "in_out (is ! pc) \<noteq> word_of_nat pc"
  shows "\<exists>b. add_pairs (rb_init is (word_of_nat pc) (in_out (is ! pc))) (flat ps) = Some b \<and> length is \<le> length (rb_inst b)
    \<and> (length (rb_inst b) + 1 < 2 ^ 32 \<longrightarrow> replaced is pc R (rb_inst b))"
proof -
  let ?init = "rb_init is (word_of_nat pc) (in_out (is ! pc))"
  have start: "unat (word_of_nat pc :: u32) < length is" using pc by (simp add: unat_of_nat_u32)
  obtain b where b: "add_pairs ?init (flat ps) = Some b" "length (rb_inst ?init) \<le> length (rb_inst b)"
    using add_pairs_total[OF ps(1)] by blast
  moreover have "replaced is pc R (rb_inst b)" if fits: "length (rb_inst b) + 1 < 2 ^ 32"
  proof -
    obtain L where "rb_built is (word_of_nat pc) (in_out (is ! pc)) ([] @ L) b"
      "\<And>bs. (\<exists>rs \<in> set L. list_all2 within bs rs) \<longleftrightarrow> (\<exists>c \<in> R. bs = raw_enc c)"
      using add_pairs_built[OF rb_built_init[OF start] ps(1) start b(1) fits] ps(2) by blast
    then show ?thesis using rb_built_replaced[of "is" pc L b R] pc ex by simp
  qed
  moreover have "length (rb_inst ?init) = length is" by (simp add: rb_init_def set_inst_def)
  ultimately show ?thesis by auto
qed

lemma add_class_single: "add_class b [c] = add_pairs b (flat [(c, c)])"
  by (simp add: add_class_def)

lemma add_class_flat: "add_class b (flat ps) = add_pairs b (flat ps)"
  by (auto simp: add_class_def length_flat)

subsection \<open>Instructions for classes\<close>

text \<open>What is documented about \<^verbatim>\<open>unicode.SimpleFold\<close>: it steps through the cycles of runes that are
  equal under case folding, with K and S as the letters of ASCII with a third form.\<close>

definition simple_fold :: "(int \<Rightarrow> int) \<Rightarrow> bool" where
  "simple_fold sf \<longleftrightarrow> fold_ok sf \<and> (\<forall>c. valid_rune c \<longrightarrow> valid_rune (sf c))
     \<and> (\<forall>c \<in> {0x41..0x5A}. sf c = c + 0x20)
     \<and> (\<forall>c \<in> {0x61..0x7A} - {0x6B, 0x73}. sf c = c - 0x20)
     \<and> sf 0x6B = 0x212A \<and> sf 0x212A = 0x4B \<and> sf 0x73 = 0x17F \<and> sf 0x17F = 0x53
     \<and> (\<forall>c < 0x80. c \<notin> {0x41..0x5A} \<union> {0x61..0x7A} \<longrightarrow> sf c = c)"

text \<open>The runes an instruction reads, as \<^verbatim>\<open>syntax.Inst\<close> documents.\<close>

definition inst_runes :: "(int \<Rightarrow> int) \<Rightarrow> Inst \<Rightarrow> int set" where
  "inst_runes sf i =
     (if in_op i = InstRuneAny \<or> in_op i = InstRuneAnyNotNL then {0..0x10FFFF}
      else if is_fold i then folds sf (class_runes (in_rune i))
      else class_runes (in_rune i))"

definition reads_rune :: "Inst \<Rightarrow> bool" where
  "reads_rune i \<longleftrightarrow> in_op i \<in> {InstRune, InstRune1, InstRuneAny, InstRuneAnyNotNL}"

text \<open>The instructions the compiler of the library makes: a folded one has a single rune, the least of
  its cycle; a class is sorted. Excluded are the classes cut at a surrogate and those of two
  runes above ASCII that are the whole of a cycle, which \<^verbatim>\<open>oneByteRange\<close> takes for a byte.\<close>

definition good_inst :: "(int \<Rightarrow> int) \<Rightarrow> Inst \<Rightarrow> bool" where
  "good_inst sf i \<longleftrightarrow>
     (in_op i = InstRune1 \<longrightarrow> \<not> is_fold i \<and> (\<exists>c. in_rune i = [c] \<and> valid_rune c))
   \<and> (in_op i = InstRune \<longrightarrow> (\<exists>c. in_rune i = [c] \<and> valid_rune c \<and> (is_fold i \<longrightarrow> (\<forall>x \<in> fold_orbit sf c. c \<le> x)))
        \<or> \<not> is_fold i \<and> (\<exists>ps. in_rune i = flat ps \<and> ordered ps \<and> safe_pairs ps \<and> sorted_wrt (\<lambda>p q. snd p < fst q) ps)
          \<and> \<not> (\<exists>a b. in_rune i = [a, a, b, b] \<and> 0x80 \<le> a \<and> sf a = b \<and> sf b = a))"

subsection \<open>One byte\<close>

definition upper :: "int \<Rightarrow> int" where
  "upper c = (if 0x61 \<le> c \<and> c \<le> 0x7A then c - 0x20 else c)"

lemma consumes_byte_inst:
  "consumes (byte_inst lo hi fd i) (uint (c :: byte)) \<longleftrightarrow>
     (let ch = if fd then upper (uint c) else uint c in uint lo \<le> ch \<and> ch \<le> uint hi)"
proof -
  have "uint c \<noteq> - 1" using uint_ge_0[of c] by linarith
  moreover have i: "in_op (byte_inst lo hi fd i) = instByteRange"
    "in_arg (byte_inst lo hi fd i) = (if fd then (push_bit 8 (ucast lo) OR ucast hi) OR argFold else push_bit 8 (ucast lo) OR ucast hi)"
    by (simp_all add: byte_inst_def Let_def)
  have "int (unat (drop_bit 8 (in_arg (byte_inst lo hi fd i)) AND 0xFF)) = uint lo"
    "int (unat (in_arg (byte_inst lo hi fd i) AND 0xFF)) = uint hi" "in_arg (byte_inst lo hi fd i) AND argFold \<noteq> 0 \<longleftrightarrow> fd"
    unfolding i by (cases fd; simp only: range_arg if_True if_False uint_nat simp_thms)+
  ultimately show ?thesis by (simp only: consumes_def i(1) Let_def upper_def simp_thms, cases fd) auto
qed

lemma byte_inst_replaced:
  assumes R: "R \<subseteq> {0..<0x80}" "\<And>c :: byte. consumes (byte_inst lo hi fd (is ! pc)) (uint c) \<longleftrightarrow> uint c \<in> R"
    and pc: "pc < length is" "length is < 2 ^ 32" and ex: "in_out (is ! pc) \<noteq> word_of_nat pc"
  shows "replaced is pc R (is[pc := byte_inst lo hi fd (is ! pc)])"
proof -
  let ?i = "byte_inst lo hi fd (is ! pc)" and ?x = "word_of_nat pc :: u32" and ?ex = "in_out (is ! pc)"
  have x: "unat ?x = pc" using pc by (simp add: unat_of_nat_u32)
  have "spells is' ?ex ?x bs \<longleftrightarrow> (\<exists>c \<in> R. bs = raw_enc c)" if at: "is' ! pc = ?i" for is' bs
  proof -
    have "spells is' ?ex ?x bs \<longleftrightarrow> (\<exists>c. bs = [c] \<and> consumes ?i (uint c))"
      using ex by (auto simp: spells_step[of ?x] x at eps_succ_def byte_inst_def Let_def spells_exit)
    also have "\<dots> \<longleftrightarrow> (\<exists>c :: byte. bs = [c] \<and> uint c \<in> R)" by (simp only: R(2))
    also have "\<dots> \<longleftrightarrow> (\<exists>c \<in> R. bs = raw_enc c)"
    proof
      assume "\<exists>c :: byte. bs = [c] \<and> uint c \<in> R"
      then obtain c :: byte where "bs = [c]" "uint c \<in> R" by blast
      with R(1) show "\<exists>c \<in> R. bs = raw_enc c" by (intro bexI[of _ "uint c"]) (auto simp: raw_enc_def)
    next
      assume "\<exists>c \<in> R. bs = raw_enc c"
      then obtain c where c: "c \<in> R" "bs = raw_enc c" by blast
      then have "0 \<le> c" "c < 0x80" using R(1) by auto
      with c show "\<exists>c :: byte. bs = [c] \<and> uint c \<in> R"
        by (intro exI[of _ "low_byte c"]) (simp add: raw_enc_def uint_low_byte)
    qed
    finally show ?thesis .
  qed
  then show ?thesis using pc(1) by (auto simp: replaced_def denotes_def x)
qed

lemma uint_small: "0 \<le> c \<Longrightarrow> c < 0x80 \<Longrightarrow> uint (word_of_int c :: byte) = c"
  using uint_low_byte[of c] by (simp add: low_byte_def)

lemma valid_rune_ge: "valid_rune c \<Longrightarrow> 0 \<le> c"
  by (auto simp: valid_rune_def)

lemma upper_eq_iff: "c \<notin> {0x41..0x5A} \<Longrightarrow> c \<notin> {0x61..0x7A} \<Longrightarrow> upper x = c \<longleftrightarrow> x = c"
  by (auto simp: upper_def)

lemma upper_letter: "c \<in> {0x41..0x5A} \<Longrightarrow> upper x = c \<longleftrightarrow> x = c \<or> x = c + 0x20"
  by (auto simp: upper_def)

text \<open>A single rune of ASCII whose cycle stays in ASCII.\<close>

lemma pair_orbit:
  assumes "sf a = b" "sf b = a" shows "fold_orbit sf a = {a, b}"
proof -
  have "(sf ^^ n) a \<in> {a, b}" for n by (induction n) (use assms in auto)
  moreover have "b = (sf ^^ 1) a" "a = (sf ^^ 0) a" using assms by simp_all
  ultimately show ?thesis unfolding fold_orbit_def by blast
qed

lemma ascii_letters:
  assumes "simple_fold sf" and "c < 0x80"
  obtains "c \<in> {0x41..0x5A}" "sf c = c + 0x20" | "c \<in> {0x61..0x7A}" "sf c = c - 0x20"
  | "c \<in> {0x6B, 0x73}" "0x80 \<le> sf c" "sf (sf c) = c - 0x20"
  | "c \<notin> {0x41..0x5A}" "c \<notin> {0x61..0x7A}" "sf c = c"
  using assms unfolding simple_fold_def by (cases "c \<in> {0x41..0x5A}"; cases "c \<in> {0x61..0x7A}"; cases "c \<in> {0x6B, 0x73}") auto

lemma folded_ascii:
  assumes sf: "simple_fold sf" and c: "0 \<le> c" "c < 0x80" and least: "\<forall>x \<in> fold_orbit sf c. c \<le> x" and f: "asciiFold sf c"
  shows "fold_orbit sf c \<subseteq> {0..<0x80}" and "upper x = c \<longleftrightarrow> x \<in> fold_orbit sf c"
proof -
  have next_in: "sf c \<in> fold_orbit sf c" unfolding fold_orbit_def by (auto intro!: exI[of _ 1])
  have "fold_orbit sf c \<subseteq> {0..<0x80} \<and> (upper x = c \<longleftrightarrow> x \<in> fold_orbit sf c)"
    using sf c(2)
  proof (cases rule: ascii_letters)
    case 1
    then have "sf (c + 0x20) = c" using f c by (auto simp: asciiFold_def Let_def split: if_splits)
    with 1 c show ?thesis by (simp add: pair_orbit upper_letter)
  next
    case 2
    with least next_in show ?thesis by auto
  next
    case 3
    with f c show ?thesis by (auto simp: asciiFold_def Let_def split: if_splits)
  next
    case 4
    with c show ?thesis by (simp add: fixed_orbit upper_eq_iff)
  qed
  then show "fold_orbit sf c \<subseteq> {0..<0x80}" "upper x = c \<longleftrightarrow> x \<in> fold_orbit sf c" by simp_all
qed

text \<open>Two runes of ASCII that fold to each other.\<close>

lemma folded_pair:
  assumes sf: "simple_fold sf" and "0 \<le> a" "a < 0x80" "a < b" "sf a = b" "sf b = a"
  shows "{a, b} \<subseteq> {0..<0x80}" and "upper x = a \<longleftrightarrow> x \<in> {a, b}"
proof -
  have "{a, b} \<subseteq> {0..<0x80} \<and> (upper x = a \<longleftrightarrow> x \<in> {a, b})"
    using sf assms(3)
  proof (cases rule: ascii_letters)
    case 1
    with assms show ?thesis by (auto simp: upper_letter)
  next
    case 3
    with assms(5,6) have "a = a - 0x20" by simp
    then show ?thesis by simp
  qed (use assms in auto)
  then show "{a, b} \<subseteq> {0..<0x80}" "upper x = a \<longleftrightarrow> x \<in> {a, b}" by simp_all
qed

subsection \<open>One step of the translation\<close>

definition step_ok :: "(int \<Rightarrow> int) \<Rightarrow> Inst list \<Rightarrow> nat \<Rightarrow> int set \<Rightarrow> bool" where
  "step_ok sf is pc R \<longleftrightarrow> (\<exists>is'. toByte_step sf is pc = Some is' \<and> length is \<le> length is'
     \<and> (length is' + 1 < 2 ^ 32 \<longrightarrow> replaced is pc R is'))"

definition placed :: "Inst list \<Rightarrow> nat \<Rightarrow> bool" where
  "placed is pc \<longleftrightarrow> pc < length is \<and> length is < 2 ^ 32 \<and> unat (in_out (is ! pc)) < length is
     \<and> in_out (is ! pc) \<noteq> word_of_nat pc"

lemma step_class:
  assumes pl: "placed is pc" and i: "in_op (is ! pc) \<in> {InstRune, InstRune1}" "oneByteRange sf (is ! pc) = Some None"
    and r: "(if is_fold (is ! pc) then folded_class sf (in_rune (is ! pc)) else Some (in_rune (is ! pc))) = Some r"
    and ps: "\<And>b. add_class b r = add_pairs b (flat ps)" "safe_pairs ps" "runes_of ps = R"
  shows "step_ok sf is pc R"
proof -
  have eq: "toByte_step sf is pc = map_option rb_inst (add_pairs (rb_init is (word_of_nat pc) (in_out (is ! pc))) (flat ps))"
    using i(1) r by (auto simp: toByte_step_def Let_def i(2) ps(1))
  show ?thesis
    using add_pairs_replaced[OF ps(2,3), of pc "is"] pl unfolding step_ok_def eq placed_def by auto
qed

lemma step_byte:
  assumes pl: "placed is pc" and i: "in_op (is ! pc) \<in> {InstRune, InstRune1}"
    and one: "oneByteRange sf (is ! pc) = Some (Some (word_of_int lo, word_of_int hi, fd))"
    and bounds: "0 \<le> lo" "lo < 0x80" "0 \<le> hi" "hi < 0x80"
    and R: "R \<subseteq> {0..<0x80}" "\<And>x. 0 \<le> x \<Longrightarrow> (let ch = if fd then upper x else x in lo \<le> ch \<and> ch \<le> hi) \<longleftrightarrow> x \<in> R"
  shows "step_ok sf is pc R"
proof -
  have "consumes (byte_inst (word_of_int lo) (word_of_int hi) fd (is ! pc)) (uint c) \<longleftrightarrow> uint c \<in> R" for c :: byte
    using R(2)[OF uint_ge_0, of c] by (simp add: consumes_byte_inst uint_small bounds)
  from byte_inst_replaced[OF R(1) this] pl have
    "replaced is pc R (is[pc := byte_inst (word_of_int lo) (word_of_int hi) fd (is ! pc)])"
    by (simp add: placed_def)
  then show ?thesis using i by (auto simp: step_ok_def toByte_step_def Let_def one)
qed

lemma safe_point: "valid_rune c \<Longrightarrow> safe_range c c"
  by (auto simp: valid_rune_def safe_range_def)

lemma safe_interval: "lo \<le> hi \<Longrightarrow> {lo..hi} \<subseteq> Collect valid_rune \<Longrightarrow> safe_range lo hi"
proof -
  assume le: "lo \<le> hi" and sub: "{lo..hi} \<subseteq> Collect valid_rune"
  then have "valid_rune lo" "valid_rune hi" "0xD800 \<notin> {lo..hi}" by (auto simp: valid_rune_def)
  with le show ?thesis by (auto simp: valid_rune_def safe_range_def)
qed

lemma orbit_valid: "simple_fold sf \<Longrightarrow> valid_rune c \<Longrightarrow> fold_orbit sf c \<subseteq> Collect valid_rune"
proof -
  assume sf: "simple_fold sf" and c: "valid_rune c"
  have "valid_rune ((sf ^^ n) c)" for n by (induction n) (use sf c in \<open>auto simp: simple_fold_def\<close>)
  then show ?thesis by (auto simp: fold_orbit_def)
qed

lemma step_single_fold:
  assumes sf: "simple_fold sf" and pl: "placed is pc" and i: "in_op (is ! pc) = InstRune" "in_rune (is ! pc) = [c]"
    "is_fold (is ! pc)" and c: "valid_rune c" "\<forall>x \<in> fold_orbit sf c. c \<le> x"
  shows "step_ok sf is pc (fold_orbit sf c)"
proof (cases "c < 0x80 \<and> asciiFold sf c")
  case True
  have "0 \<le> c" using c(1) by (rule valid_rune_ge)
  note orbit = folded_ascii[OF sf this conjunct1[OF True] c(2) conjunct2[OF True]]
  have one: "oneByteRange sf (is ! pc) = Some (Some (word_of_int c, word_of_int c, True))"
    using i True by (simp add: oneByteRange_def Let_def)
  have op: "in_op (is ! pc) \<in> {InstRune, InstRune1}" using i by simp
  have "(let ch = if True then upper x else x in c \<le> ch \<and> ch \<le> c) \<longleftrightarrow> x \<in> fold_orbit sf c" for x
    unfolding orbit(2)[of x, symmetric] by (auto simp: Let_def)
  with step_byte[OF pl op one _ _ _ _ orbit(1)] \<open>0 \<le> c\<close> True show ?thesis by blast
next
  case False
  then have one: "oneByteRange sf (is ! pc) = Some None" using i by (auto simp: oneByteRange_def Let_def)
  obtain qs where qs: "appendFoldedRange sf (flat []) c c = Some (flat qs)" "ordered qs"
    "runes_of qs = runes_of [] \<union> folds sf {c..c}"
    using appendFoldedRange_spec[of sf "[]" c c] sf by (auto simp: simple_fold_def)
  have "{lo..hi} \<subseteq> Collect valid_rune" if "(lo, hi) \<in> set qs" for lo hi
    using that orbit_valid[OF sf c(1)] qs(3) by (auto simp: runes_of_def folds_def)
  then have "safe_pairs qs" using qs(2) safe_interval by (fastforce simp: safe_pairs_def ordered_def)
  then show ?thesis
    using i qs one by (intro step_class[OF pl, of sf "flat qs" qs]) (simp_all add: folded_class_def add_class_flat folds_def)
qed

lemma step_single:
  assumes pl: "placed is pc" and i: "in_op (is ! pc) \<in> {InstRune, InstRune1}" "in_rune (is ! pc) = [c]"
    "\<not> is_fold (is ! pc)" and c: "valid_rune c"
  shows "step_ok sf is pc {c}"
proof (cases "c < 0x80")
  case True
  then show ?thesis
    using valid_rune_ge[OF c] i by (intro step_byte[OF pl i(1), of sf c c False]) (auto simp: oneByteRange_def Let_def)
next
  case False
  then have "oneByteRange sf (is ! pc) = Some None" using i by (auto simp: oneByteRange_def Let_def)
  then show ?thesis
    using i safe_point[OF c] by (intro step_class[OF pl i(1), of sf "[c]" "[(c, c)]"]) (simp_all add: add_class_single)
qed

lemma step_pairs:
  assumes sf: "simple_fold sf" and pl: "placed is pc" and i: "in_op (is ! pc) = InstRune" "in_rune (is ! pc) = flat ps"
    "\<not> is_fold (is ! pc)" and ps: "ordered ps" "safe_pairs ps" "sorted_wrt (\<lambda>p q. snd p < fst q) ps"
    and no_cycle: "\<not> (\<exists>a b. flat ps = [a, a, b, b] \<and> 0x80 \<le> a \<and> sf a = b \<and> sf b = a)"
  shows "step_ok sf is pc (runes_of ps)"
proof (cases "oneByteRange sf (is ! pc)")
  case None
  with i show ?thesis by (auto simp: oneByteRange_def Let_def split: if_splits)
next
  case (Some one)
  show ?thesis
  proof (cases one)
    case None
    with Some i ps(2) show ?thesis by (intro step_class[OF pl, of sf "flat ps" ps]) (simp_all add: add_class_flat)
  next
    case (Some r)
    with \<open>oneByteRange sf (is ! pc) = Some one\<close> have r: "oneByteRange sf (is ! pc) = Some (Some r)" by simp
    have op: "in_op (is ! pc) \<in> {InstRune, InstRune1}" using i by simp
    have len: "length ps \<le> 2" using r i by (auto simp: oneByteRange_def Let_def length_flat split: if_splits)
    consider "ps = []" | a b where "ps = [(a, b)]" | a b c d where "ps = [(a, b), (c, d)]"
      using len by (cases ps; cases "tl ps"; cases "tl (tl ps)") fastforce+
    then show ?thesis
    proof cases
      case 1
      with r i show ?thesis by (simp add: oneByteRange_def Let_def)
    next
      case (2 a b)
      with ps(1,2) have ab: "0 \<le> a" "a \<le> b" by (auto simp: safe_range_def)
      with r i 2 have "b < 0x80" "r = (word_of_int a, word_of_int b, False)"
        by (auto simp: oneByteRange_def Let_def split: if_splits)
      with r have one: "oneByteRange sf (is ! pc) = Some (Some (word_of_int a, word_of_int b, False))" by simp
      show ?thesis
        by (rule step_byte[OF pl op one]) (use ab \<open>b < 0x80\<close> 2 in auto)
    next
      case (3 a b c d)
      with r i have eq: "a = b" "c = d" "sf a = c" "sf c = a" "r = (word_of_int a, word_of_int a, True)"
        by (auto simp: oneByteRange_def Let_def split: if_splits)
      with r have one: "oneByteRange sf (is ! pc) = Some (Some (word_of_int a, word_of_int a, True))" by simp
      have a: "0 \<le> a" "a < 0x80" "a < c" using 3 ps eq no_cycle by (auto simp: safe_range_def)
      note pair = folded_pair[OF sf a eq(3,4)]
      have "runes_of ps = {a, c}" using 3 eq(1,2) by auto
      moreover have "(let ch = if True then upper x else x in a \<le> ch \<and> ch \<le> a) \<longleftrightarrow> x \<in> {a, c}" for x
        unfolding pair(2)[of x, symmetric] by (auto simp: Let_def)
      ultimately show ?thesis using step_byte[OF pl op one a(1,2) a(1,2) pair(1)] by simp
    qed
  qed
qed

lemma step_any:
  assumes pl: "placed is pc" and i: "in_op (is ! pc) \<in> {InstRuneAny, InstRuneAnyNotNL}"
  shows "step_ok sf is pc {0..0x10FFFF}"
proof -
  have "addRange b 0 0x10FFFF False = add_pairs b (flat [(0, 0x10FFFF)])" for b by simp
  then have eq: "toByte_step sf is pc =
      map_option rb_inst (add_pairs (rb_init is (word_of_nat pc) (in_out (is ! pc))) (flat [(0, 0x10FFFF)]))"
    using i by (auto simp: toByte_step_def Let_def)
  have "safe_pairs [(0, 0x10FFFF)]" "runes_of [(0, 0x10FFFF)] = {0..0x10FFFF}" by (simp_all add: safe_range_def)
  from add_pairs_replaced[OF this, of pc "is"] pl show ?thesis unfolding step_ok_def eq placed_def by auto
qed

lemma step_good:
  assumes sf: "simple_fold sf" and pl: "placed is pc" and i: "reads_rune (is ! pc)" "good_inst sf (is ! pc)"
  shows "step_ok sf is pc (inst_runes sf (is ! pc))"
proof -
  let ?i = "is ! pc"
  consider "in_op ?i \<in> {InstRuneAny, InstRuneAnyNotNL}" | "in_op ?i = InstRune1" | "in_op ?i = InstRune"
    using i(1) by (auto simp: reads_rune_def)
  then show ?thesis
  proof cases
    case 1
    then have "inst_runes sf ?i = {0..0x10FFFF}" by (auto simp: inst_runes_def)
    with step_any[OF pl 1] show ?thesis by simp
  next
    case 2
    then obtain c where c: "\<not> is_fold ?i" "in_rune ?i = [c]" "valid_rune c" using i(2) by (auto simp: good_inst_def)
    then have "inst_runes sf ?i = {c}" using 2 by (simp add: inst_runes_def)
    with step_single[OF pl _ c(2,1,3)] 2 show ?thesis by simp
  next
    case 3
    then consider c where "in_rune ?i = [c]" "valid_rune c" "is_fold ?i \<longrightarrow> (\<forall>x \<in> fold_orbit sf c. c \<le> x)"
      | ps where "\<not> is_fold ?i" "in_rune ?i = flat ps" "ordered ps" "safe_pairs ps" "sorted_wrt (\<lambda>p q. snd p < fst q) ps"
        "\<not> (\<exists>a b. flat ps = [a, a, b, b] \<and> 0x80 \<le> a \<and> sf a = b \<and> sf b = a)"
      using i(2) by (auto simp: good_inst_def)
    then show ?thesis
    proof cases
      case (1 c)
      show ?thesis
      proof (cases "is_fold ?i")
        case True
        then have "inst_runes sf ?i = fold_orbit sf c" using 3 1 by (simp add: inst_runes_def folds_def)
        with step_single_fold[OF sf pl 3 1(1) True 1(2)] 1(3) True show ?thesis by simp
      next
        case False
        then have "inst_runes sf ?i = {c}" using 3 1 by (simp add: inst_runes_def)
        with step_single[OF pl _ 1(1) False 1(2)] 3 show ?thesis by simp
      qed
    next
      case (2 ps)
      then have "inst_runes sf ?i = runes_of ps" using 3 by (simp add: inst_runes_def class_runes_flat)
      with step_pairs[OF sf pl 3 2(2,1,3-6)] show ?thesis by simp
    qed
  qed
qed

subsection \<open>The whole translation\<close>

text \<open>A program as the compiler makes it: the exits of the instructions are instructions, other than
  themselves.\<close>

definition good_prog :: "(int \<Rightarrow> int) \<Rightarrow> Inst list \<Rightarrow> bool" where
  "good_prog sf is \<longleftrightarrow> length is < 2 ^ 32 \<and> (\<forall>pc < length is. reads_rune (is ! pc) \<longrightarrow>
     good_inst sf (is ! pc) \<and> unat (in_out (is ! pc)) < length is \<and> unat (in_out (is ! pc)) \<noteq> pc)"

definition translated :: "(int \<Rightarrow> int) \<Rightarrow> Inst list \<Rightarrow> nat \<Rightarrow> Inst list \<Rightarrow> bool" where
  "translated sf is0 k is \<longleftrightarrow> length is0 \<le> length is \<and> (\<forall>pc < length is0.
     if pc < k \<and> reads_rune (is0 ! pc)
     then denotes is (length is0) (in_out (is0 ! pc)) (word_of_nat pc) (inst_runes sf (is0 ! pc))
     else is ! pc = is0 ! pc)"

lemma translated_step:
  assumes sf: "simple_fold sf" and good: "good_prog sf is0" and t: "translated sf is0 k is" and k: "k < length is0"
    and fits: "length is < 2 ^ 32"
  shows "\<exists>is'. toByte_step sf is k = Some is' \<and> length is \<le> length is'
    \<and> (length is' + 1 < 2 ^ 32 \<longrightarrow> translated sf is0 (Suc k) is')"
proof (cases "reads_rune (is0 ! k)")
  case False
  with t k have "toByte_step sf is k = Some is" by (auto simp: translated_def toByte_step_def Let_def reads_rune_def)
  moreover have "translated sf is0 (Suc k) is"
    using t False unfolding translated_def by (auto simp: less_Suc_eq)
  ultimately show ?thesis by auto
next
  case True
  have same: "is ! k = is0 ! k" and len: "length is0 \<le> length is" using t k by (auto simp: translated_def)
  have exit: "unat (in_out (is0 ! k)) < length is0" "unat (in_out (is0 ! k)) \<noteq> k" "good_inst sf (is0 ! k)"
    using good True k by (auto simp: good_prog_def)
  have word: "unat (word_of_nat p :: u32) = p" if "p < length is0" for p
    using that good by (auto simp: good_prog_def unat_of_nat_u32)
  have "placed is k" using exit len k fits word[OF k] by (auto simp: placed_def same)
  from step_good[OF sf this] True exit(3) have "step_ok sf is k (inst_runes sf (is0 ! k))" by (simp add: same)
  then obtain is' where is': "toByte_step sf is k = Some is'" "length is \<le> length is'"
    "length is' + 1 < 2 ^ 32 \<Longrightarrow> replaced is k (inst_runes sf (is0 ! k)) is'" by (auto simp: step_ok_def)
  moreover have "translated sf is0 (Suc k) is'" if big: "length is' + 1 < 2 ^ 32"
  proof -
    have other: "is' ! p = is ! p" if "p < length is" "p \<noteq> k" for p using is'(3)[OF big] that by (simp add: replaced_def)
    have here: "denotes is' (length is) (in_out (is0 ! k)) (word_of_nat k) (inst_runes sf (is0 ! k))"
      using is'(3)[OF big] by (simp add: replaced_def same)
    have "denotes is' (length is0) (in_out (is0 ! p)) (word_of_nat p) (inst_runes sf (is0 ! p))"
      if p: "p < length is0" "p < Suc k" "reads_rune (is0 ! p)" for p
    proof (cases "p = k")
      case True
      show ?thesis unfolding True by (rule denotes_frame[OF here]) (use len in auto)
    next
      case False
      with p t have old: "denotes is (length is0) (in_out (is0 ! p)) (word_of_nat p) (inst_runes sf (is0 ! p))"
        by (auto simp: translated_def)
      show ?thesis by (rule denotes_frame[OF old is'(2)]) (use other False p word len k in auto)
    qed
    moreover have "is' ! p = is0 ! p" if "p < length is0" "\<not> (p < Suc k \<and> reads_rune (is0 ! p))" for p
    proof -
      have "p \<noteq> k" using that True by auto
      with other[of p] that t len show ?thesis by (auto simp: translated_def)
    qed
    ultimately show ?thesis using len is'(2) by (auto simp: translated_def)
  qed
  ultimately show ?thesis by blast
qed


lemma toByte_loop_snoc: "toByte_loop sf (pcs @ [pc]) is = Option.bind (toByte_loop sf pcs is) (\<lambda>is. toByte_step sf is pc)"
proof (induction pcs arbitrary: "is")
  case Nil
  show ?case by (cases "toByte_step sf is pc") simp_all
next
  case (Cons a pcs)
  then show ?case by (cases "toByte_step sf is a") simp_all
qed

lemma toByte_loop_translated:
  assumes sf: "simple_fold sf" and good: "good_prog sf is0"
    and fits: "\<And>k is. k \<le> length is0 \<Longrightarrow> toByte_loop sf [0..<k] is0 = Some is \<Longrightarrow> length is + 1 < 2 ^ 32"
  shows "k \<le> length is0 \<Longrightarrow> \<exists>is. toByte_loop sf [0..<k] is0 = Some is \<and> translated sf is0 k is"
proof (induction k)
  case 0
  then show ?case by (simp add: translated_def)
next
  case (Suc k)
  then obtain "is" where k: "toByte_loop sf [0..<k] is0 = Some is" "translated sf is0 k is" by auto
  with fits[of k "is"] Suc.prems have "length is < 2 ^ 32" by simp
  with translated_step[OF sf good k(2)] Suc.prems obtain is' where
    is': "toByte_step sf is k = Some is'" "length is' + 1 < 2 ^ 32 \<longrightarrow> translated sf is0 (Suc k) is'" by auto
  then have "toByte_loop sf [0..<Suc k] is0 = Some is'" using k(1) by (simp add: toByte_loop_snoc)
  with fits[of "Suc k" is'] Suc.prems is'(2) show ?case by simp
qed


definition demo_fold :: "int \<Rightarrow> int" where
  "demo_fold c =
     (if 0x41 \<le> c \<and> c \<le> 0x5A then c + 0x20 else if c = 0x6B then 0x212A else if c = 0x73 then 0x17F
      else if 0x61 \<le> c \<and> c \<le> 0x7A then c - 0x20 else if c = 0x212A then 0x4B else if c = 0x17F then 0x53 else c)"

lemma simple_fold_demo: "simple_fold demo_fold"
proof -
  have "\<exists>n > 0. (demo_fold ^^ n) c = c" for c
  proof -
    have "demo_fold c = c \<or> demo_fold (demo_fold c) = c \<or> demo_fold (demo_fold (demo_fold c)) = c"
      by (auto simp: demo_fold_def)
    then have "(demo_fold ^^ 1) c = c \<or> (demo_fold ^^ 2) c = c \<or> (demo_fold ^^ 3) c = c"
      by (simp add: eval_nat_numeral)
    then show ?thesis by (metis zero_less_numeral zero_less_one)
  qed
  then have "fold_ok demo_fold" by (auto simp: fold_ok_def demo_fold_def minFold_def maxFold_def)
  then show ?thesis by (auto simp: simple_fold_def demo_fold_def valid_rune_def)
qed

definition prog_letters :: Prog where
  "prog_letters = \<lparr>pr_inst =
     [\<lparr>in_op = InstFail, in_out = 0, in_arg = 0, in_rune = []\<rparr>,
      \<lparr>in_op = InstRune, in_out = 2, in_arg = 0, in_rune = [0xE9, 0xFC, 0x7B0, 0x90A]\<rparr>,
      \<lparr>in_op = InstRune, in_out = 3, in_arg = 1, in_rune = [0x4B]\<rparr>,
      \<lparr>in_op = InstMatch, in_out = 0, in_arg = 0, in_rune = []\<rparr>], pr_start = 1\<rparr>"

lemma prog_letters_good: "good_prog demo_fold (pr_inst prog_letters)"
proof -
  have K: "(demo_fold ^^ n) 0x4B \<in> {0x4B, 0x6B, 0x212A}" for n
    by (induction n) (auto simp: demo_fold_def)
  have "0x4B \<le> (demo_fold ^^ n) 0x4B" for n using K[of n] by auto
  then have least: "\<forall>x \<in> fold_orbit demo_fold 0x4B. 0x4B \<le> x" unfolding fold_orbit_def by blast
  have "good_inst demo_fold (pr_inst prog_letters ! 1)"
    unfolding good_inst_def
    by (intro conjI impI disjI2; (simp add: prog_letters_def is_fold_def; fail)?)
      (auto simp: prog_letters_def is_fold_def safe_range_def intro!: exI[of _ "[(0xE9, 0xFC), (0x7B0, 0x90A)]"])
  moreover have "good_inst demo_fold (pr_inst prog_letters ! 2)"
    unfolding good_inst_def using least by (simp add: prog_letters_def valid_rune_def)
  moreover have "length (pr_inst prog_letters) = 4" "\<not> reads_rune (pr_inst prog_letters ! 0)"
    "\<not> reads_rune (pr_inst prog_letters ! 3)" "in_out (pr_inst prog_letters ! 1) = 2" "in_out (pr_inst prog_letters ! 2) = 3"
    by (simp_all add: prog_letters_def reads_rune_def)
  moreover from this have "pc = 1 \<or> pc = 2" if "pc < 4" "reads_rune (pr_inst prog_letters ! pc)" for pc
  proof -
    have "pc = 0 \<or> pc = 1 \<or> pc = 2 \<or> pc = 3" using that(1) by auto
    with that calculation(4,5) show ?thesis by auto
  qed
  ultimately show ?thesis unfolding good_prog_def by fastforce
qed

lemma prog_letters_fits:
  "k \<le> length (pr_inst prog_letters) \<Longrightarrow> toByte_loop demo_fold [0..<k] (pr_inst prog_letters) = Some is \<Longrightarrow> length is + 1 < 2 ^ 32"
proof -
  assume k: "k \<le> length (pr_inst prog_letters)" and l: "toByte_loop demo_fold [0..<k] (pr_inst prog_letters) = Some is"
  have "list_all (\<lambda>k. case toByte_loop demo_fold [0..<k] (pr_inst prog_letters) of None \<Rightarrow> True | Some is \<Rightarrow> length is < 1000)
      [0, 1, 2, 3, 4]" by code_simp
  moreover have "k \<in> set [0, 1, 2, 3, 4]" using k by (auto simp: prog_letters_def)
  ultimately show ?thesis using l by (auto simp: list_all_iff simp del: set_simps)
qed


end
