(* ===== verification/Matcher_States.thy ===== *)
theory Matcher_States
  imports Matcher_Queues
begin

text \<open>
  The automaton of the matcher. A state is a set of instructions with flags; its key is the encoding,
  from which it can be read back. \<open>cache\<close> returns, and whatever the order in which states are
  built, an entry of the map says of its state what the program says.
\<close>

subsection \<open>Encoding and decoding\<close>

lemma ucast_u64_u32 [simp]: "ucast (ucast (x :: u32) :: u64) = x"
  by (rule bit_word_eqI) (auto simp: bit_simps)

lemma unat_ucast_u64 [simp]: "unat (ucast (y :: u32) :: u64) = unat y"
proof -
  have "unat y < 2 ^ 64" using unsigned_less[of y, where 'a=nat] by simp
  then show ?thesis by (simp add: unsigned_ucast_eq take_bit_nat_eq_self)
qed

lemma unat_exp_u32: "k < 32 \<Longrightarrow> unat (2 ^ k :: u32) = 2 ^ k"
proof -
  assume "k < 32"
  then have "(2 :: nat) ^ k < 2 ^ 32" by (intro power_strict_increasing) auto
  then have "unat (word_of_nat (2 ^ k) :: u32) = 2 ^ k" by (rule unat_of_nat_u32)
  then show ?thesis by simp
qed

lemma PutUvarint_step:
  "PutUvarint (ucast (y :: u32)) = (if y < 0x80 then [ucast y] else ucast (y OR 0x80) # PutUvarint (ucast (drop_bit 7 y)))"
proof -
  have c: "(ucast y :: u64) \<ge> 0x80 \<longleftrightarrow> \<not> y < 0x80"
    by (simp add: word_le_nat_alt word_less_nat_alt not_less)
  have b: "(ucast (ucast y :: u64) :: byte) = ucast y" by (rule bit_word_eqI) (auto simp: bit_simps)
  have o: "(ucast y OR 0x80 :: byte) = ucast (y OR 0x80)"
    by (rule bit_word_eqI) (auto simp: bit_simps bit_0x80 simp del: bit_numeral_word_iff)
  have d: "drop_bit 7 (ucast y :: u64) = ucast (drop_bit 7 y)" by (rule bit_word_eqI) (auto simp: bit_simps dest: bit_imp_le_length)
  show ?thesis by (subst PutUvarint.simps) (simp only: c b o d if_distrib if_not_P Not_eq_iff cong: if_cong, simp)
qed

lemma drop_bit_below: "drop_bit k (y :: u32) < 0x80 \<longleftrightarrow> unat y < 2 ^ (k + 7)"
proof -
  have "unat (drop_bit k y) = unat y div 2 ^ k" by (metis unat_drop_bit_eq drop_bit_eq_div)
  then show ?thesis by (simp add: word_less_nat_alt div_less_iff_less_mult power_add mult.commute)
qed

lemma PutUvarint_uvarint_bytes: "PutUvarint (ucast (y :: u32)) = uvarint_bytes y"
proof -
  have l': "k < 32 \<Longrightarrow> y < push_bit k 1 \<longleftrightarrow> unat y < 2 ^ k" for k
    by (simp only: word_less_nat_alt push_bit_eq_mult mult_1 unat_exp_u32)
  have l: "y < push_bit 7 1 \<longleftrightarrow> unat y < 2 ^ 7" "y < push_bit 14 1 \<longleftrightarrow> unat y < 2 ^ 14"
    "y < push_bit 21 1 \<longleftrightarrow> unat y < 2 ^ 21" "y < push_bit 28 1 \<longleftrightarrow> unat y < 2 ^ 28"
    by (rule l', simp)+
  have c: "y < 0x80 \<longleftrightarrow> unat y < 2 ^ 7" "drop_bit 7 y < 0x80 \<longleftrightarrow> unat y < 2 ^ 14"
    "drop_bit 14 y < 0x80 \<longleftrightarrow> unat y < 2 ^ 21" "drop_bit 21 y < 0x80 \<longleftrightarrow> unat y < 2 ^ 28" "drop_bit 28 y < 0x80"
    using unsigned_less[of y, where 'a=nat] drop_bit_below[of 0 y] drop_bit_below[of 7 y] drop_bit_below[of 14 y]
      drop_bit_below[of 21 y] drop_bit_below[of 28 y] by simp_all
  have s: "PutUvarint (ucast (drop_bit k y)) = (if drop_bit k y < 0x80 then [ucast (drop_bit k y)]
      else ucast (drop_bit k y OR 0x80) # PutUvarint (ucast (drop_bit k' y)))" if "k' = k + 7" for k k'
    using PutUvarint_step[of "drop_bit k y"] by (simp add: that drop_bit_drop_bit add.commute)
  have num: "(14 :: nat) = 7 + 7" "(21 :: nat) = 14 + 7" "(28 :: nat) = 21 + 7" "(35 :: nat) = 28 + 7" by simp_all
  note steps = PutUvarint_step[of y] s[of 14 7, OF num(1)] s[of 21 14, OF num(2)] s[of 28 21, OF num(3)] s[of 35 28, OF num(4)]
  consider "unat y < 2 ^ 7" | "\<not> unat y < 2 ^ 7" "unat y < 2 ^ 14" | "\<not> unat y < 2 ^ 7" "\<not> unat y < 2 ^ 14" "unat y < 2 ^ 21"
    | "\<not> unat y < 2 ^ 7" "\<not> unat y < 2 ^ 14" "\<not> unat y < 2 ^ 21" "unat y < 2 ^ 28"
    | "\<not> unat y < 2 ^ 7" "\<not> unat y < 2 ^ 14" "\<not> unat y < 2 ^ 21" "\<not> unat y < 2 ^ 28" by blast
  then show ?thesis
    by cases (simp_all only: uvarint_bytes_def l steps c if_True if_False)
qed

lemma Uvarint_PutUvarint: "Uvarint (PutUvarint (ucast (x :: u32)) @ rest) = (ucast x, int (length (PutUvarint (ucast x :: u64))))"
  by (simp add: PutUvarint_uvarint_bytes Uvarint_uvarint_bytes)

lemma PutUvarint_nonempty: "PutUvarint x \<noteq> []"
  by (subst PutUvarint.simps) simp

text \<open>The key of a state.\<close>

definition key :: "u32 set \<Rightarrow> u32 \<Rightarrow> byte list" where
  "key S fl = PutUvarint 0 @ PutUvarint (ucast fl) @ enc_ids (- 1) (sorted_list_of_set S)"

lemma ns_enc_key:
  assumes "sparse_inv (ns_q z)" and "ns_partial z = 0"
  shows "ns_enc z = key (set (dense (ns_q z))) (ns_flag z)"
proof -
  have "distinct (dense (ns_q z))" using assms(1) by (simp add: sparse_inv_def)
  then have "sorted_list_of_set (set (dense (ns_q z))) = sort (dense (ns_q z))"
    by (simp add: sorted_list_of_set_sort_remdups distinct_remdups_id)
  with assms(2) show ?thesis by (simp add: ns_enc_def key_def Dense_def)
qed

lemma dec_enc_ids:
  "qok P q \<Longrightarrow> set xs \<subseteq> ids P \<Longrightarrow>
     \<exists>q'. dec_ids q lst (enc_ids lst xs) = Some q' \<and> qok P q' \<and> set (dense q') = set (dense q) \<union> set xs"
proof (induction xs arbitrary: q lst)
  case Nil
  then show ?case by (simp add: dec_ids.simps)
next
  case (Cons x xs)
  obtain q1 where q1: "Add q x = Some q1" "qok P q1" "set (dense q1) = insert x (set (dense q))"
    using qok_Add[of P q x] Cons.prems by auto
  obtain q2 where q2: "dec_ids q1 x (enc_ids x xs) = Some q2" "qok P q2" "set (dense q2) = set (dense q1) \<union> set xs"
    using Cons.IH[OF q1(2), of x] Cons.prems(2) by auto
  have "dec_ids q lst (enc_ids lst (x # xs)) = dec_ids q1 x (enc_ids x xs)"
    using q1(1) PutUvarint_nonempty
    by (subst dec_ids.simps) (simp add: Uvarint_PutUvarint)
  with q2 q1(3) show ?case by auto
qed

lemma ns_dec_key:
  assumes "qok P (ns_q z)" and "S \<subseteq> ids P"
  shows "\<exists>z'. ns_dec z (key S fl) = Some z' \<and> qok P (ns_q z') \<and> set (dense (ns_q z')) = S
    \<and> ns_partial z' = 0 \<and> ns_flag z' = fl"
proof -
  have f: "finite S" using assms(2) by (rule finite_subset) simp
  obtain q' where "dec_ids (Reset (ns_q z)) (- 1) (enc_ids (- 1) (sorted_list_of_set S)) = Some q'" "qok P q'"
    "set (dense q') = S"
    using dec_enc_ids[of P "Reset (ns_q z)" "sorted_list_of_set S" "- 1"] qok_Reset[OF assms(1)] assms(2) f by auto
  moreover have "Uvarint (PutUvarint 0 @ rest) = (0, int (length (PutUvarint 0)))" for rest
    using Uvarint_PutUvarint[of 0 rest] by simp
  ultimately show ?thesis
    by (simp add: ns_dec_def key_def Uvarint_PutUvarint PutUvarint_nonempty)
qed

lemma key_inject:
  assumes "S \<subseteq> ids P" and "S' \<subseteq> ids P" and "prog_ok P" shows "key S fl = key S' fl' \<longleftrightarrow> S = S' \<and> fl = fl'"
proof -
  have l: "unat (word_of_nat (length (pr_inst P)) :: u32) = length (pr_inst P)"
    using assms(3) by (intro unat_of_nat_u32) (simp add: prog_ok_def)
  have "qok P (ns_q \<lparr>ns_q = NewSet (word_of_nat (length (pr_inst P))), ns_partial = 0, ns_flag = 0\<rparr>)"
    unfolding qok_def nstate.simps by (rule conjI[OF NewSet_inv]) (simp only: NewSet_def sparse_set.simps l)
  from ns_dec_key[OF this assms(1), of fl] ns_dec_key[OF this assms(2), of fl'] show ?thesis by (metis option.inject)
qed


end
