(* ===== verification/Matcher_Cache.thy ===== *)
theory Matcher_Cache
  imports Matcher_States
begin

text \<open>
  The automaton. \<open>nxt\<close> is the step of the program on sets of instructions, \<open>hit\<close> says whether a match ends
  before the next byte. \<open>cache\<close> returns and adds entries that agree with them, whatever the order
  in which states are built.
\<close>

type_synonym state = "u32 set \<times> u32"

definition expand :: "Prog \<Rightarrow> state \<Rightarrow> int \<Rightarrow> u32 set" where
  "expand P st c = closure P (flags_before (snd st) c) (fst st)"

definition hit :: "Prog \<Rightarrow> state \<Rightarrow> int \<Rightarrow> bool" where
  "hit P st c = accepting P (expand P st c)"

definition nxt :: "Prog \<Rightarrow> state \<Rightarrow> int \<Rightarrow> state" where
  "nxt P st c = (closure P (flags_after c) ({start_id P} \<union> byte_outs P (expand P st c) c), flags_left c)"

abbreviation key_of :: "state \<Rightarrow> byte list" where
  "key_of st \<equiv> key (fst st) (snd st)"

definition state_ok :: "Prog \<Rightarrow> state \<Rightarrow> bool" where
  "state_ok P st \<longleftrightarrow> fst st \<subseteq> ids P"

definition text_start :: "Prog \<Rightarrow> state" where
  "text_start P = (closure P (EmptyBeginLine OR EmptyBeginText) {start_id P}, flagBOL OR flagBOT)"

definition line_start :: "Prog \<Rightarrow> state" where
  "line_start P = (closure P EmptyBeginLine {start_id P}, flagBOL)"

lemma expand_ok: "prog_ok P \<Longrightarrow> state_ok P st \<Longrightarrow> expand P st c \<subseteq> ids P"
  by (simp add: expand_def state_ok_def closure_ids)

lemma nxt_ok: "prog_ok P \<Longrightarrow> state_ok P st \<Longrightarrow> state_ok P (nxt P st c)"
  by (simp add: nxt_def state_ok_def closure_ids byte_outs_ids expand_ok start_id_ids)

lemma starts_ok: "prog_ok P \<Longrightarrow> state_ok P (text_start P)" "prog_ok P \<Longrightarrow> state_ok P (line_start P)"
  by (simp_all add: text_start_def line_start_def state_ok_def closure_ids start_id_ids)

lemma key_of_inject: "prog_ok P \<Longrightarrow> state_ok P st \<Longrightarrow> state_ok P st' \<Longrightarrow> key_of st = key_of st' \<longleftrightarrow> st = st'"
  by (simp add: key_inject state_ok_def prod_eq_iff)

lemma finite_keys: "finite (key_of ` {st. state_ok P st})"
proof -
  have "{st. state_ok P st} = Pow (ids P) \<times> UNIV" by (auto simp: state_ok_def)
  then show ?thesis by simp
qed

text \<open>A state in one of the matcher's two registers.\<close>

definition holds_state :: "Prog \<Rightarrow> nstate \<Rightarrow> state \<Rightarrow> bool" where
  "holds_state P z st \<longleftrightarrow> qok P (ns_q z) \<and> set (dense (ns_q z)) = fst st \<and> ns_flag z = snd st \<and> ns_partial z = 0"

lemma ns_enc_holds: "holds_state P z st \<Longrightarrow> ns_enc z = key_of st"
  by (simp add: holds_state_def ns_enc_key qok_def)

definition dref_of :: "Prog \<Rightarrow> state \<Rightarrow> int \<Rightarrow> dref" where
  "dref_of P st c = (if hit P st c then DMatch else DState (key_of (nxt P st c)))"

text \<open>A pointer is valid when its state is in the map.\<close>

definition valid_ref :: "matcher \<Rightarrow> dref \<Rightarrow> bool" where
  "valid_ref m r = (case r of DMatch \<Rightarrow> True | DState e \<Rightarrow> m_dstate m e \<noteq> None)"

text \<open>What an entry has to say about its state; the flags of an entry under construction are not yet
  known.\<close>

definition next_ok :: "Prog \<Rightarrow> matcher \<Rightarrow> state \<Rightarrow> byte \<Rightarrow> dref \<Rightarrow> bool" where
  "next_ok P m st c r \<longleftrightarrow> valid_ref m r
     \<and> (if c = 10 then \<not> hit P st 10 \<and> r = DState (key_of (line_start P)) else r = dref_of P st (int (unat c)))"

definition entry_ok :: "Prog \<Rightarrow> matcher \<Rightarrow> bool \<Rightarrow> state \<Rightarrow> dstate \<Rightarrow> bool" where
  "entry_ok P m done st s \<longleftrightarrow>
     (done \<longrightarrow> ds_matchNL s = hit P st 10 \<and> ds_matchEOT s = hit P st (- 1))
     \<and> (\<forall>c r. ds_next s c = Some r \<longrightarrow> next_ok P m st c r)"

definition minv :: "Prog \<Rightarrow> byte list set \<Rightarrow> matcher \<Rightarrow> bool" where
  "minv P X m \<longleftrightarrow> m_prog m = P \<and> qok P (ns_q (m_z1 m)) \<and> qok P (ns_q (m_z2 m)) \<and> ns_partial (m_z1 m) = 0
     \<and> (\<forall>e s. m_dstate m e = Some s \<longrightarrow> (\<exists>st. state_ok P st \<and> e = key_of st \<and> entry_ok P m (e \<notin> X) st s))"

definition extends :: "Prog \<Rightarrow> byte list set \<Rightarrow> matcher \<Rightarrow> matcher \<Rightarrow> bool" where
  "extends P X m m' \<longleftrightarrow> minv P X m' \<and> m_dstate m \<subseteq>\<^sub>m m_dstate m'
     \<and> m_start m' = m_start m \<and> m_startLine m' = m_startLine m"

lemma extends_refl: "minv P X m \<Longrightarrow> extends P X m m"
  by (simp add: extends_def)

lemma valid_ref_mono: "m_dstate m \<subseteq>\<^sub>m m_dstate m' \<Longrightarrow> valid_ref m r \<Longrightarrow> valid_ref m' r"
  by (auto simp: valid_ref_def map_le_def dom_def split: dref.splits)

lemma entry_ok_mono: "m_dstate m \<subseteq>\<^sub>m m_dstate m' \<Longrightarrow> entry_ok P m d st s \<Longrightarrow> entry_ok P m' d st s"
  unfolding entry_ok_def next_ok_def using valid_ref_mono by blast

lemma entry_ok_cong: "m_dstate m = m_dstate m' \<Longrightarrow> entry_ok P m = entry_ok P m'"
proof -
  assume "m_dstate m = m_dstate m'"
  then have "valid_ref m r = valid_ref m' r" for r by (cases r) (simp_all add: valid_ref_def)
  then show "entry_ok P m = entry_ok P m'" by (intro ext) (simp only: entry_ok_def next_ok_def)
qed

lemma next_nstate_spec:
  assumes "prog_ok P" and "minv P X m" and "state_ok P st"
  shows "\<exists>m'. next_nstate m (key_of st) c = Some (hit P st c, m') \<and> minv P X m'
    \<and> m_dstate m' = m_dstate m \<and> m_start m' = m_start m \<and> m_startLine m' = m_startLine m
    \<and> holds_state P (m_z1 m') (nxt P st c)"
proof -
  have m: "m_prog m = P" "qok P (ns_q (m_z1 m))" "qok P (ns_q (m_z2 m))" using assms(2) by (simp_all add: minv_def)
  obtain z where z: "ns_dec (m_z1 m) (key_of st) = Some z" "qok P (ns_q z)" "set (dense (ns_q z)) = fst st"
    "ns_partial z = 0" "ns_flag z = snd st"
    using ns_dec_key[OF m(2)] assms(3) unfolding state_ok_def by blast
  obtain q2 where q2: "stepEmpty P (ns_q z) (ns_q (m_z2 m)) (flags_before (snd st) c) = Some q2" "qok P q2"
    "set (dense q2) = expand P st c"
    using stepEmpty_spec[OF assms(1) m(3), of "ns_q z"] assms(3) z(3) unfolding state_ok_def expand_def by metis
  obtain q1 where q1: "stepByte P q2 (ns_q z) c (flags_after c) = Some (hit P st c, q1)" "qok P q1"
    "set (dense q1) = fst (nxt P st c)"
    using stepByte_spec[OF assms(1) z(2), of q2] expand_ok[OF assms(1,3)] q2(3) unfolding hit_def nxt_def fst_conv by metis
  let ?m = "m\<lparr>m_z1 := z\<lparr>ns_q := q1, ns_flag := flags_left c\<rparr>, m_z2 := (m_z2 m)\<lparr>ns_q := q2\<rparr>\<rparr>"
  have "next_nstate m (key_of st) c = Some (hit P st c, ?m)"
    using z q2 q1 m(1) by (simp add: next_nstate_def)
  moreover have "minv P X ?m" using assms(2) q1(2) q2(2) z(4) entry_ok_cong[of ?m m P]
    by (simp add: minv_def del: fun_upd_apply)
  moreover have "holds_state P (m_z1 ?m) (nxt P st c)" using q1 z(4) by (simp add: holds_state_def nxt_def)
  ultimately show ?thesis by (intro exI[of _ ?m]) simp
qed

lemma extends_trans: "extends P X m m' \<Longrightarrow> extends P X m' m'' \<Longrightarrow> extends P X m m''"
  unfolding extends_def using map_le_trans by auto

lemma extends_lookup: "extends P X m m' \<Longrightarrow> m_dstate m e = Some s \<Longrightarrow> m_dstate m' e = Some s"
  by (force simp: extends_def map_le_def)

lemma update_dstate_fields [simp]:
  "m_prog (update_dstate m e f) = m_prog m" "m_z1 (update_dstate m e f) = m_z1 m"
  "m_z2 (update_dstate m e f) = m_z2 m" "m_start (update_dstate m e f) = m_start m"
  "m_startLine (update_dstate m e f) = m_startLine m"
  "m_dstate (update_dstate m e f) = (m_dstate m)(e := map_option f (m_dstate m e))"
  by (simp_all add: update_dstate_def)

text \<open>Changing one entry.\<close>

lemma minv_update:
  assumes "minv P X m" and "state_ok P st" and "m_dstate m (key_of st) = Some s"
    and "entry_ok P m (key_of st \<notin> Y) st (f s)"
    and "X - {key_of st} \<subseteq> Y"
  shows "minv P Y (update_dstate m (key_of st) f)"
proof -
  let ?m = "update_dstate m (key_of st) f"
  have v: "valid_ref ?m r = valid_ref m r" for r
    by (simp add: valid_ref_def split: dref.splits)
  have e: "entry_ok P ?m b st' s' = entry_ok P m b st' s'" for b st' s'
    unfolding entry_ok_def next_ok_def v ..
  have "\<exists>st'. state_ok P st' \<and> e = key_of st' \<and> entry_ok P ?m (e \<notin> Y) st' s'" if "m_dstate ?m e = Some s'" for e s'
  proof (cases "e = key_of st")
    case True
    then have "s' = f s" using that assms(3) by simp
    then show ?thesis using True assms(2,4) e by blast
  next
    case False
    then have "m_dstate m e = Some s'" using that by simp
    then obtain st' where "state_ok P st'" "e = key_of st'" "entry_ok P m (e \<notin> X) st' s'"
      using assms(1) unfolding minv_def by blast
    moreover have "e \<notin> Y \<longrightarrow> e \<notin> X" using False assms(5) by blast
    ultimately show ?thesis using e unfolding entry_ok_def by blast
  qed
  then show ?thesis using assms(1) by (simp add: minv_def)
qed

lemma cache_step:
  assumes P: "prog_ok P" and m: "minv P X m" and st: "state_ok P st"
    and rec: "\<And>m' st'. m_dstate m \<subseteq>\<^sub>m m_dstate m' \<Longrightarrow> minv P X m' \<Longrightarrow> state_ok P st' \<Longrightarrow> holds_state P (m_z1 m') st' \<Longrightarrow>
      \<exists>m''. cache m' = Some (DState (key_of st'), m'') \<and> extends P X m' m''"
  shows "\<exists>m1 m2 r. next_nstate m (key_of st) c = Some (hit P st c, m1)
    \<and> (if hit P st c then Some (DMatch, m1) else cache m1) = Some (r, m2) \<and> (r = DMatch \<longleftrightarrow> hit P st c) \<and> extends P X m m2"
proof -
  obtain m1 where m1: "next_nstate m (key_of st) c = Some (hit P st c, m1)" "minv P X m1"
    "m_dstate m1 = m_dstate m" "m_start m1 = m_start m" "m_startLine m1 = m_startLine m"
    "holds_state P (m_z1 m1) (nxt P st c)"
    using next_nstate_spec[OF P m st] by blast
  then have ext: "extends P X m m1" by (simp add: extends_def)
  show ?thesis
  proof (cases "hit P st c")
    case True
    with m1(1) ext show ?thesis by (intro exI[of _ m1] exI[of _ DMatch]) simp
  next
    case False
    obtain m2 where "cache m1 = Some (DState (key_of (nxt P st c)), m2)" "extends P X m1 m2"
      using rec[OF _ m1(2) nxt_ok[OF P st] m1(6)] m1(3) by auto
    with m1(1) False extends_trans[OF ext] show ?thesis
      by (intro exI[of _ m1] exI[of _ m2] exI[of _ "DState (key_of (nxt P st c))"]) simp
  qed
qed

lemma cache_spec:
  "prog_ok P \<Longrightarrow> minv P X m \<Longrightarrow> state_ok P st \<Longrightarrow> holds_state P (m_z1 m) st \<Longrightarrow>
     \<exists>m'. cache m = Some (DState (key_of st), m') \<and> extends P X m m' \<and> valid_ref m' (DState (key_of st))"
proof (induction "card (key_of ` {st. state_ok P st} - dom (m_dstate m))" arbitrary: m st X rule: less_induct)
  case less
  note P = less.prems(1) and inv = less.prems(2) and st = less.prems(3)
  let ?e = "key_of st"
  have e: "ns_enc (m_z1 m) = ?e" by (rule ns_enc_holds[OF less.prems(4)])
  show ?case
  proof (cases "m_dstate m ?e = None")
    case False
    then have "cache m = Some (DState ?e, m)" by (subst cache.simps) (simp add: e)
    with False inv show ?thesis by (auto simp: extends_refl valid_ref_def)
  next
    case True
    let ?m0 = "m\<lparr>m_dstate := (m_dstate m)(?e \<mapsto> new_dstate ?e)\<rparr>" and ?X = "insert ?e X"
    have le0: "m_dstate m \<subseteq>\<^sub>m m_dstate ?m0" using True by (auto simp: map_le_def)
    have "\<exists>st'. state_ok P st' \<and> e' = key_of st' \<and> entry_ok P ?m0 (e' \<notin> ?X) st' s'"
      if "m_dstate ?m0 e' = Some s'" for e' s'
    proof (cases "e' = ?e")
      case True
      with that st show ?thesis by (intro exI[of _ st]) (auto simp: entry_ok_def new_dstate_def)
    next
      case False
      then have "m_dstate m e' = Some s'" using that by simp
      then obtain st' where "state_ok P st'" "e' = key_of st'" "entry_ok P m (e' \<notin> X) st' s'"
        using inv unfolding minv_def by blast
      with False entry_ok_mono[OF le0] show ?thesis by (intro exI[of _ st']) auto
    qed
    then have inv0: "minv P ?X ?m0" using inv by (simp add: minv_def del: fun_upd_apply)
    have rec: "\<exists>m''. cache m' = Some (DState (key_of st'), m'') \<and> extends P ?X m' m''"
      if "m_dstate ?m0 \<subseteq>\<^sub>m m_dstate m'" "minv P ?X m'" "state_ok P st'" "holds_state P (m_z1 m') st'" for m' st'
    proof -
      have "dom (m_dstate ?m0) \<subseteq> dom (m_dstate m')" by (rule map_le_implies_dom_le[OF that(1)])
      then have "key_of ` {st. state_ok P st} - dom (m_dstate m') \<subset> key_of ` {st. state_ok P st} - dom (m_dstate m)"
        using True st by auto
      then have "card (key_of ` {st. state_ok P st} - dom (m_dstate m')) < card (key_of ` {st. state_ok P st} - dom (m_dstate m))"
        using finite_keys by (intro psubset_card_mono) auto
      from less.hyps[OF this P that(2-4)] show ?thesis by blast
    qed
    obtain m1 m2 r1 where one: "next_nstate ?m0 ?e 10 = Some (hit P st 10, m1)"
      "(if hit P st 10 then Some (DMatch, m1) else cache m1) = Some (r1, m2)" "r1 = DMatch \<longleftrightarrow> hit P st 10" "extends P ?X ?m0 m2"
      using cache_step[OF P inv0 st rec, of 10] by blast
    let ?f = "\<lambda>s. s\<lparr>ds_matchNL := (r1 = DMatch)\<rparr>"
    let ?m3 = "update_dstate m2 ?e ?f"
    have e2: "m_dstate m2 ?e = Some (new_dstate ?e)" using one(4) by (auto simp: extends_def map_le_def)
    have inv3: "minv P ?X ?m3"
      using one(4) by (intro minv_update[OF _ st e2]) (auto simp: extends_def entry_ok_def new_dstate_def)
    have le3: "m_dstate m2 ?e = Some s \<Longrightarrow> dom (m_dstate ?m3) = dom (m_dstate m2)" for s by auto
    have rec3: "\<exists>m''. cache m' = Some (DState (key_of st'), m'') \<and> extends P ?X m' m''"
      if "m_dstate ?m3 \<subseteq>\<^sub>m m_dstate m'" "minv P ?X m'" "state_ok P st'" "holds_state P (m_z1 m') st'" for m' st'
    proof -
      have "dom (m_dstate ?m0) \<subseteq> dom (m_dstate m2)"
        using one(4) unfolding extends_def by (elim conjE) (rule map_le_implies_dom_le)
      then have "dom (m_dstate ?m0) \<subseteq> dom (m_dstate m')"
        using le3[OF e2] map_le_implies_dom_le[OF that(1)] by blast
      then have "key_of ` {st. state_ok P st} - dom (m_dstate m') \<subset> key_of ` {st. state_ok P st} - dom (m_dstate m)"
        using True st by auto
      then have "card (key_of ` {st. state_ok P st} - dom (m_dstate m')) < card (key_of ` {st. state_ok P st} - dom (m_dstate m))"
        using finite_keys by (intro psubset_card_mono) auto
      from less.hyps[OF this P that(2-4)] show ?thesis by blast
    qed
    obtain m4 m5 r2 where two: "next_nstate ?m3 ?e (- 1) = Some (hit P st (- 1), m4)"
      "(if hit P st (- 1) then Some (DMatch, m4) else cache m4) = Some (r2, m5)" "r2 = DMatch \<longleftrightarrow> hit P st (- 1)" "extends P ?X ?m3 m5"
      using cache_step[OF P inv3 st rec3, of "- 1"] by blast
    let ?m6 = "update_dstate m5 ?e (\<lambda>s. s\<lparr>ds_matchEOT := (r2 = DMatch)\<rparr>)"
    have e5: "m_dstate m5 ?e = Some (?f (new_dstate ?e))"
      using two(4) e2 by (auto simp: extends_def map_le_def)
    have "minv P X ?m6"
      using two(3,4) one(3) by (intro minv_update[OF _ st e5, of ?X]) (auto simp: extends_def entry_ok_def new_dstate_def)
    moreover have "m_dstate m \<subseteq>\<^sub>m m_dstate ?m6"
    proof -
      have "m_dstate ?m6 e' = m_dstate m e'" if dm: "e' \<in> dom (m_dstate m)" for e'
      proof -
        have ne: "e' \<noteq> ?e" using dm True by auto
        obtain s where s: "m_dstate m e' = Some s" using dm by blast
        then have "m_dstate m2 e' = Some s" using ne by (intro extends_lookup[OF one(4)]) simp
        then have "m_dstate m5 e' = Some s" using ne by (intro extends_lookup[OF two(4)]) simp
        then show ?thesis using ne s by simp
      qed
      then show ?thesis by (simp add: map_le_def)
    qed
    moreover have "m_start ?m6 = m_start m" "m_startLine ?m6 = m_startLine m"
      using one(4) two(4) by (simp_all add: extends_def)
    ultimately have "extends P X m ?m6" by (simp add: extends_def)
    moreover have "cache m = Some (DState ?e, ?m6)"
      using True one(1,2) two(1,2) by (subst cache.simps) (simp add: e Let_def)
    moreover have "valid_ref ?m6 (DState ?e)" using e5 by (simp add: valid_ref_def)
    ultimately show ?thesis by blast
  qed
qed

end
