(* ===== verification/Matcher_Correct.thy ===== *)
theory Matcher_Correct
  imports Matcher_Cache
begin

text \<open>
  The matcher finds the end of the first line with a match. A match in a line is a run of the
  program as a nondeterministic machine: it starts anywhere in the line, takes the empty steps
  whose conditions hold at its position and consumes bytes.
\<close>

subsection \<open>Runs of the program\<close>

definition word_before :: "byte list \<Rightarrow> nat \<Rightarrow> bool" where
  "word_before w j = (j \<noteq> 0 \<and> isWordByte (int (unat (w ! (j - 1)))))"

text \<open>What comes after position \<open>j\<close> of a line that \<open>e\<close> follows: a newline or the end of the text.\<close>

definition char_after :: "byte list \<Rightarrow> int \<Rightarrow> nat \<Rightarrow> int" where
  "char_after w e j = (if j < length w then int (unat (w ! j)) else e)"

text \<open>The conditions that hold at a position of a line; \<open>bt\<close> says that the line begins the text.\<close>

definition conditions :: "bool \<Rightarrow> byte list \<Rightarrow> int \<Rightarrow> nat \<Rightarrow> byte" where
  "conditions bt w e j =
     (if j = 0 then EmptyBeginLine else 0) OR (if j = 0 \<and> bt then EmptyBeginText else 0)
     OR (if j = length w then EmptyEndLine else 0) OR (if j = length w \<and> e = - 1 then EmptyEndText else 0)
     OR (if word_before w j \<noteq> isWordByte (char_after w e j) then EmptyWordBoundary else EmptyNoWordBoundary)"

inductive thread :: "Prog \<Rightarrow> bool \<Rightarrow> byte list \<Rightarrow> int \<Rightarrow> nat \<Rightarrow> u32 \<Rightarrow> bool" for P bt w e where
  start: "j \<le> length w \<Longrightarrow> thread P bt w e j (start_id P)"
| empty_step: "thread P bt w e j x \<Longrightarrow> y \<in> set (eps_succ (inst_at P x) (conditions bt w e j)) \<Longrightarrow> thread P bt w e j y"
| byte_step: "thread P bt w e j x \<Longrightarrow> j < length w \<Longrightarrow> consumes (inst_at P x) (int (unat (w ! j))) \<Longrightarrow>
    thread P bt w e (Suc j) (in_out (inst_at P x))"

definition line_matches :: "Prog \<Rightarrow> bool \<Rightarrow> byte list \<Rightarrow> int \<Rightarrow> bool" where
  "line_matches P bt w e \<longleftrightarrow> (\<exists>j x. thread P bt w e j x \<and> in_op (inst_at P x) = InstMatch)"

function first_match_end :: "Prog \<Rightarrow> bool \<Rightarrow> byte list \<Rightarrow> bool \<Rightarrow> nat \<Rightarrow> int" where
  "first_match_end P bt b eot i =
     (let line = takeWhile (\<lambda>c. c \<noteq> 10) b; rest = dropWhile (\<lambda>c. c \<noteq> 10) b in
      if line_matches P bt line 10 \<or> rest = [] \<and> eot \<and> line_matches P bt line (- 1) then int (i + length line)
      else if rest = [] then - 1
      else first_match_end P False (tl rest) eot (i + length line + 1))"
  by auto
termination
proof (relation "measure (\<lambda>(P, bt, b, eot, i). length b)")
  fix b line rest :: "byte list"
  assume r: "rest = dropWhile (\<lambda>c. c \<noteq> 10) b" "rest \<noteq> []"
  then have "length (tl rest) < length rest" "length rest \<le> length b"
    using length_dropWhile_le[of "\<lambda>c. c \<noteq> 10" b] by (cases rest, auto)
  then show "((P, False, tl rest, eot, i + length line + 1), (P, bt, b, eot, i)) \<in> measure (\<lambda>(P, bt, b, eot, i). length b)"
    for P bt eot i by simp
qed simp

declare first_match_end.simps [simp del]

subsection \<open>The sets of instructions reached\<close>

fun reached :: "Prog \<Rightarrow> bool \<Rightarrow> byte list \<Rightarrow> int \<Rightarrow> nat \<Rightarrow> u32 set" where
  "reached P bt w e 0 = closure P (conditions bt w e 0) {start_id P}"
| "reached P bt w e (Suc j) = closure P (conditions bt w e (Suc j))
     ({start_id P} \<union> byte_outs P (reached P bt w e j) (int (unat (w ! j))))"

lemma thread_reached: "thread P bt w e j x \<Longrightarrow> j \<le> length w \<and> x \<in> reached P bt w e j"
proof (induction rule: thread.induct)
  case (start j)
  then show ?case using closure_extensive by (cases j) (fastforce, force)
next
  case (empty_step j x y)
  then show ?case by (cases j) (auto intro: closure_step)
next
  case (byte_step j x)
  then have "in_out (inst_at P x) \<in> byte_outs P (reached P bt w e j) (int (unat (w ! j)))"
    by (auto simp: byte_outs_def)
  then show ?case using byte_step(2) closure_extensive by fastforce
qed

lemma reached_thread: "j \<le> length w \<Longrightarrow> x \<in> reached P bt w e j \<Longrightarrow> thread P bt w e j x"
proof (induction j arbitrary: x)
  case 0
  have "closure P (conditions bt w e 0) {start_id P} \<subseteq> {x. thread P bt w e 0 x}"
    by (rule closure_least) (auto intro: thread.intros)
  with 0 show ?case by auto
next
  case (Suc j)
  then have IH: "\<And>x. x \<in> reached P bt w e j \<Longrightarrow> thread P bt w e j x" "j < length w" by auto
  have "closure P (conditions bt w e (Suc j)) ({start_id P} \<union> byte_outs P (reached P bt w e j) (int (unat (w ! j))))
      \<subseteq> {x. thread P bt w e (Suc j) x}"
    by (rule closure_least) (use IH in \<open>auto simp: byte_outs_def intro: thread.intros\<close>)
  with Suc.prems show ?case by auto
qed

lemma line_matches_reached: "line_matches P bt w e \<longleftrightarrow> (\<exists>j \<le> length w. accepting P (reached P bt w e j))"
  unfolding line_matches_def accepting_def using thread_reached reached_thread by metis

subsection \<open>The states of the automaton along a line\<close>

lemma closure_absorb:
  assumes "f AND NOT g = 0" shows "closure P g (closure P f X) = closure P g X"
proof
  have "h AND NOT f = 0 \<Longrightarrow> h AND NOT g = 0" for h :: byte
  proof (rule bit_word_eqI)
    fix n assume h: "h AND NOT f = 0" and n: "n < LENGTH(8)"
    have "\<not> bit (h AND NOT f) n" "\<not> bit (f AND NOT g) n" using h assms by simp_all
    then show "bit (h AND NOT g) n = bit 0 n" using n by (auto simp: bit_simps)
  qed
  then have "eps P f \<subseteq> eps P g" by (auto simp: eps_def eps_succ_def split: if_splits)
  then have "(eps P f)\<^sup>* \<subseteq> (eps P g)\<^sup>*" by (rule rtrancl_mono)
  then show "closure P g (closure P f X) \<subseteq> closure P g X"
    unfolding closure_def by (auto intro: rtrancl_trans)
  show "closure P g X \<subseteq> closure P g (closure P f X)" by (rule closure_mono[OF closure_extensive])
qed

definition start_state :: "Prog \<Rightarrow> bool \<Rightarrow> state" where
  "start_state P bt = (if bt then text_start P else line_start P)"

fun state_at :: "Prog \<Rightarrow> bool \<Rightarrow> byte list \<Rightarrow> nat \<Rightarrow> state" where
  "state_at P bt w 0 = start_state P bt"
| "state_at P bt w (Suc j) = nxt P (state_at P bt w j) (int (unat (w ! j)))"

lemmas flag_defs = flags_before_def flags_left_def flags_after_def flagBOL_def flagBOT_def flagWord_def
  EmptyBeginLine_def EmptyEndLine_def EmptyBeginText_def EmptyEndText_def EmptyWordBoundary_def EmptyNoWordBoundary_def

lemma byte_is_nl: "int (unat (c :: byte)) = 10 \<longleftrightarrow> c = 10" "uint (c :: byte) = 10 \<longleftrightarrow> c = 10"
proof -
  have "unat c = 10 \<longleftrightarrow> c = 10" by (simp add: word_unat_eq_iff)
  then show "int (unat c) = 10 \<longleftrightarrow> c = 10" by linarith
  then show "uint c = 10 \<longleftrightarrow> c = 10" by simp
qed

lemma byte_not_end [simp]: "int (unat (c :: byte)) \<noteq> - 1" "uint (c :: byte) \<noteq> - 1"
proof -
  have "0 \<le> uint c" by simp
  then show "int (unat c) \<noteq> - 1" "uint c \<noteq> - 1" by linarith+
qed

lemma flags_at_0:
  assumes "e = 10 \<or> e = - 1" and "10 \<notin> set w"
  shows "flags_before (snd (start_state P bt)) (char_after w e 0) = conditions bt w e 0"
proof -
  have "w ! 0 \<noteq> 10" if "w \<noteq> []" using assms(2) that by (metis length_greater_0_conv nth_mem)
  then have "int (unat (w ! 0)) \<noteq> 10" if "w \<noteq> []" using that by (simp add: byte_is_nl)
  then show ?thesis using assms(1)
    by (cases "w = []"; cases bt; cases "isWordByte (char_after w e 0)")
      (auto simp: conditions_def flag_defs start_state_def text_start_def line_start_def char_after_def word_before_def)
qed

lemma flags_at_Suc:
  assumes "e = 10 \<or> e = - 1" and "10 \<notin> set w" and "j < length w"
  shows "flags_before (snd (nxt P st (int (unat (w ! j))))) (char_after w e (Suc j)) = conditions bt w e (Suc j)"
proof -
  have n: "c \<in> set w \<Longrightarrow> int (unat c) \<noteq> 10" for c using assms(2) by (auto simp: byte_is_nl)
  have "int (unat (w ! j)) \<noteq> 10" by (rule n[OF nth_mem[OF assms(3)]])
  moreover have "Suc j < length w \<Longrightarrow> int (unat (w ! Suc j)) \<noteq> 10" by (rule n[OF nth_mem])
  ultimately show ?thesis using assms(1,3)
    by (cases "Suc j < length w"; cases "isWordByte (int (unat (w ! j)))"; cases "isWordByte (char_after w e (Suc j))")
      (auto simp: conditions_def flag_defs nxt_def char_after_def word_before_def)
qed

text \<open>The next step expands the state under the conditions at the position, whatever part of them the last
  step already used.\<close>

lemma expand_reached:
  assumes "prog_ok P" and "e = 10 \<or> e = - 1" and "10 \<notin> set w"
  shows "j \<le> length w \<Longrightarrow> expand P (state_at P bt w j) (char_after w e j) = reached P bt w e j"
proof (induction j)
  case 0
  have "(EmptyBeginLine OR (if bt then EmptyBeginText else 0)) AND NOT (conditions bt w e 0) = 0"
    by (cases bt) (auto simp: conditions_def flag_defs)
  then show ?case
    using flags_at_0[OF assms(2,3), of P bt]
    by (auto simp: expand_def start_state_def text_start_def line_start_def closure_absorb split: if_splits)
next
  case (Suc j)
  then have j: "j < length w" and c: "char_after w e j = int (unat (w ! j))" by (auto simp: char_after_def)
  have nl: "int (unat (w ! j)) \<noteq> 10" using nth_mem[OF j] assms(3) by (auto simp: byte_is_nl)
  have "fst (state_at P bt w (Suc j)) = closure P 0 ({start_id P} \<union> byte_outs P (reached P bt w e j) (int (unat (w ! j))))"
    using Suc j c nl by (simp add: nxt_def flags_after_def)
  moreover have "closure P f (closure P 0 X) = closure P f X" for f X by (rule closure_absorb) simp
  ultimately show ?case
    using flags_at_Suc[OF assms(2,3) j, of P "state_at P bt w j"] by (simp add: expand_def)
qed

lemma state_at_ok: "prog_ok P \<Longrightarrow> state_ok P (state_at P bt w j)"
  by (induction j) (simp_all add: start_state_def starts_ok nxt_ok)

text \<open>A position of the automaton; \<open>None\<close> when a match has been seen in the line.\<close>

fun ends :: "Prog \<Rightarrow> state option \<Rightarrow> int \<Rightarrow> bool" where
  "ends P None c = True"
| "ends P (Some st) c = hit P st c"

definition advance :: "Prog \<Rightarrow> state option \<Rightarrow> int \<Rightarrow> state option" where
  "advance P q c = (case q of None \<Rightarrow> None | Some st \<Rightarrow> if hit P st c then None else Some (nxt P st c))"

definition position :: "Prog \<Rightarrow> bool \<Rightarrow> byte list \<Rightarrow> nat \<Rightarrow> state option" where
  "position P bt w j =
     (if \<exists>i < j. hit P (state_at P bt w i) (int (unat (w ! i))) then None else Some (state_at P bt w j))"

lemma position_Suc: "position P bt w (Suc j) = advance P (position P bt w j) (int (unat (w ! j)))"
  by (auto simp: position_def advance_def less_Suc_eq)

lemma ends_position:
  assumes "prog_ok P" and "e = 10 \<or> e = - 1" and "10 \<notin> set w"
  shows "ends P (position P bt w (length w)) e \<longleftrightarrow> line_matches P bt w e"
proof -
  have hit: "hit P (state_at P bt w j) (char_after w e j) \<longleftrightarrow> accepting P (reached P bt w e j)" if "j \<le> length w" for j
    using expand_reached[OF assms that] by (simp add: hit_def)
  have hit_byte: "j < length w \<Longrightarrow> hit P (state_at P bt w j) (int (unat (w ! j))) \<longleftrightarrow> accepting P (reached P bt w e j)" for j
    using hit[of j] by (simp add: char_after_def)
  have "(\<exists>j \<le> length w. accepting P (reached P bt w e j))
      \<longleftrightarrow> (\<exists>j < length w. accepting P (reached P bt w e j)) \<or> accepting P (reached P bt w e (length w))"
    by (auto simp: le_less)
  also have "\<dots> \<longleftrightarrow> (\<exists>j < length w. hit P (state_at P bt w j) (int (unat (w ! j)))) \<or> hit P (state_at P bt w (length w)) e"
    using hit_byte hit[of "length w"] by (auto simp: char_after_def)
  also have "\<dots> \<longleftrightarrow> ends P (position P bt w (length w)) e" by (auto simp: position_def)
  finally show ?thesis by (simp add: line_matches_reached)
qed

subsection \<open>The loop\<close>

definition ready :: "Prog \<Rightarrow> matcher \<Rightarrow> bool" where
  "ready P m \<longleftrightarrow> prog_ok P \<and> minv P {} m \<and> m_start m = DState (key_of (text_start P))
     \<and> valid_ref m (DState (key_of (text_start P)))
     \<and> m_startLine m = DState (key_of (line_start P)) \<and> valid_ref m (DState (key_of (line_start P)))"

definition points :: "Prog \<Rightarrow> matcher \<Rightarrow> dref \<Rightarrow> state option \<Rightarrow> bool" where
  "points P m d q \<longleftrightarrow> (case q of None \<Rightarrow> d = DMatch
     | Some st \<Rightarrow> state_ok P st \<and> d = DState (key_of st) \<and> valid_ref m d)"

lemma extends_ready: "ready P m \<Longrightarrow> extends P {} m m' \<Longrightarrow> ready P m'"
  unfolding ready_def extends_def using valid_ref_mono by metis

lemma minvD:
  "minv P X m \<Longrightarrow> m_dstate m e = Some s \<Longrightarrow> \<exists>st. state_ok P st \<and> e = key_of st \<and> entry_ok P m (e \<notin> X) st s"
  unfolding minv_def by blast

lemma points_entry:
  assumes "ready P m" and "points P m (DState e) (Some st)"
  obtains s where "m_dstate m e = Some s" "entry_ok P m True st s"
proof -
  have st: "state_ok P st" "e = key_of st" using assms(2) by (simp_all add: points_def)
  obtain s where s: "m_dstate m e = Some s" using assms(2) by (auto simp: points_def valid_ref_def)
  have "minv P {} m" using assms(1) by (simp add: ready_def)
  from minvD[OF this s] obtain st' where "state_ok P st'" "e = key_of st'" "entry_ok P m (e \<notin> {}) st' s" by blast
  then have st': "state_ok P st'" "e = key_of st'" "entry_ok P m True st' s" by simp_all
  have "prog_ok P" using assms(1) by (simp add: ready_def)
  then have "st' = st" using key_of_inject[of P st' st] st' st by metis
  with s st'(3) show thesis by (intro that) simp_all
qed

lemma points_flags:
  assumes "ready P m" and "points P m d q"
  shows "matchNL_of m d \<longleftrightarrow> ends P q 10" and "matchEOT_of m d \<longleftrightarrow> ends P q (- 1)"
proof -
  have "(matchNL_of m d \<longleftrightarrow> ends P q 10) \<and> (matchEOT_of m d \<longleftrightarrow> ends P q (- 1))"
  proof (cases q)
    case None
    then show ?thesis using assms(2) by (simp add: points_def matchNL_of_def matchEOT_of_def)
  next
    case (Some st)
    then obtain e where d: "d = DState e" using assms(2) by (auto simp: points_def)
    obtain s where "m_dstate m e = Some s" "entry_ok P m True st s"
      using points_entry assms(1) assms(2)[unfolded Some d] by blast
    then show ?thesis by (simp add: d Some matchNL_of_def matchEOT_of_def entry_ok_def)
  qed
  then show "matchNL_of m d \<longleftrightarrow> ends P q 10" "matchEOT_of m d \<longleftrightarrow> ends P q (- 1)" by auto
qed

lemma points_mono: "m_dstate m \<subseteq>\<^sub>m m_dstate m' \<Longrightarrow> points P m d q \<Longrightarrow> points P m' d q"
  unfolding points_def using valid_ref_mono[of m m' d] by (auto split: option.splits)

text \<open>Storing a next state that is right keeps the matcher ready.\<close>

lemma store_next_ready:
  assumes "ready P m" and "points P m (DState e) (Some st)" and "next_ok P m st c r"
  shows "ready P (store_next m (DState e) c r)"
    and "points P m d q \<Longrightarrow> points P (store_next m (DState e) c r) d q"
proof -
  obtain s where s: "m_dstate m e = Some s" "entry_ok P m True st s" using points_entry[OF assms(1,2)] by blast
  let ?f = "\<lambda>s. s\<lparr>ds_next := (ds_next s)(c := Some r)\<rparr>"
  have e: "state_ok P st" "e = key_of st" using assms(2) by (simp_all add: points_def)
  have v: "valid_ref (update_dstate m e ?f) x = valid_ref m x" for x
    by (simp add: valid_ref_def split: dref.splits)
  have "entry_ok P m True st (?f s)" using s(2) assms(3) by (auto simp: entry_ok_def)
  then have "minv P {} (update_dstate m e ?f)"
    using assms(1) s(1) e unfolding e(2) by (intro minv_update[of P "{}"]) (auto simp: ready_def)
  then show "ready P (store_next m (DState e) c r)"
    using assms(1) by (simp add: ready_def store_next_def v)
  show "points P m d q \<Longrightarrow> points P (store_next m (DState e) c r) d q"
    by (auto simp: points_def store_next_def v split: option.splits)
qed

lemma computeNext_spec:
  assumes "ready P m" and "points P m (DState e) (Some st)"
  shows "\<exists>m'. computeNext m e c = Some (dref_of P st c, m') \<and> extends P {} m m' \<and> points P m' (dref_of P st c) (advance P (Some st) c)"
proof -
  have P: "prog_ok P" "minv P {} m" using assms(1) by (simp_all add: ready_def)
  have st: "state_ok P st" "e = key_of st" using assms(2) by (simp_all add: points_def)
  obtain m1 where m1: "next_nstate m e c = Some (hit P st c, m1)" "minv P {} m1" "m_dstate m1 = m_dstate m"
    "m_start m1 = m_start m" "m_startLine m1 = m_startLine m" "holds_state P (m_z1 m1) (nxt P st c)"
    using next_nstate_spec[OF P st(1), of c] st(2) by blast
  then have ext: "extends P {} m m1" by (simp add: extends_def)
  show ?thesis
  proof (cases "hit P st c")
    case True
    with m1(1) ext show ?thesis by (simp add: computeNext_def dref_of_def advance_def points_def)
  next
    case False
    obtain m2 where "cache m1 = Some (DState (key_of (nxt P st c)), m2)" "extends P {} m1 m2"
      "valid_ref m2 (DState (key_of (nxt P st c)))"
      using cache_spec[OF P(1) m1(2) nxt_ok[OF P(1) st(1)] m1(6)] by blast
    with m1(1) False extends_trans[OF ext] nxt_ok[OF P(1) st(1)] show ?thesis
      by (simp add: computeNext_def dref_of_def advance_def points_def)
  qed
qed

text \<open>The loop, on positions.\<close>

fun run_from :: "Prog \<Rightarrow> state option \<Rightarrow> byte list \<Rightarrow> nat \<Rightarrow> bool \<Rightarrow> int" where
  "run_from P q [] i eot = (if ends P q 10 \<or> eot \<and> ends P q (- 1) then int i else - 1)"
| "run_from P q (c # b) i eot =
     (if c = 10 then if ends P q 10 then int i else run_from P (Some (line_start P)) b (i + 1) eot
      else run_from P (advance P q (int (unat c))) b (i + 1) eot)"

lemma match_loop_spec:
  "ready P m \<Longrightarrow> points P m d q \<Longrightarrow>
     \<exists>m'. match_loop m d b i eot = Some (run_from P q b i eot, m') \<and> ready P m'"
proof (induction b arbitrary: m d q i)
  case Nil
  then show ?case using points_flags[OF Nil] by simp
next
  case (Cons c b)
  note fl = points_flags(1)[OF Cons.prems]
  have line: "points P m (m_startLine m) (Some (line_start P))"
    using Cons.prems(1) starts_ok(2) by (auto simp: points_def ready_def)
  show ?case
  proof (cases q)
    case None
    then have d: "d = DMatch" using Cons.prems(2) by (simp add: points_def)
    show ?thesis
    proof (cases "c = 10")
      case True
      with Cons.prems(1) show ?thesis by (simp add: d None next_of_def matchNL_of_def)
    next
      case False
      with Cons.IH[OF Cons.prems(1), of DMatch None "i + 1"] show ?thesis
        by (simp add: d None next_of_def points_def advance_def)
    qed
  next
    case (Some st)
    then obtain e where d: "d = DState e" using Cons.prems(2) by (auto simp: points_def)
    have pt: "points P m (DState e) (Some st)" using Cons.prems(2) d Some by simp
    have P: "prog_ok P" using Cons.prems(1) by (simp add: ready_def)
    have st: "state_ok P st" using pt by (simp add: points_def)
    obtain s where s: "m_dstate m e = Some s" "entry_ok P m True st s" using points_entry[OF Cons.prems(1) pt] by blast
    show ?thesis
    proof (cases "ds_next s c")
      case (Some d1)
      then have ok: "next_ok P m st c d1" using s(2) by (simp add: entry_ok_def)
      let ?q = "if c = 10 then Some (line_start P) else advance P q (int (unat c))"
      have "points P m d1 ?q"
        using ok starts_ok(2)[OF P] nxt_ok[OF P st]
        by (auto simp: points_def \<open>q = Some st\<close> advance_def dref_of_def next_ok_def split: if_splits)
      from Cons.IH[OF Cons.prems(1) this, of "i + 1"] show ?thesis
        using Some s(1) ok by (auto simp: d next_of_def next_ok_def \<open>q = Some st\<close> split: if_splits)
    next
      case None
      then have nx: "next_of m d c = None" using s(1) by (simp add: next_of_def d)
      show ?thesis
      proof (cases "c = 10")
        case True
        show ?thesis
        proof (cases "ends P q 10")
          case hit: True
          with True nx fl Cons.prems(1) show ?thesis by simp
        next
          case miss: False
          then have h: "\<not> hit P st 10" using \<open>q = Some st\<close> by simp
          have "m_startLine m = DState (key_of (line_start P))" "valid_ref m (m_startLine m)"
            using Cons.prems(1) by (simp_all add: ready_def)
          then have "ready P (store_next m (DState e) c (m_startLine m))"
            "points P (store_next m (DState e) c (m_startLine m)) (m_startLine m) (Some (line_start P))"
            using store_next_ready[OF Cons.prems(1) pt, of c "m_startLine m"] line h True by (auto simp: next_ok_def)
          from Cons.IH[OF this, of "i + 1"] True nx fl miss show ?thesis by (simp add: d)
        qed
      next
        case False
        obtain m1 where m1: "computeNext m e (int (unat c)) = Some (dref_of P st (int (unat c)), m1)" "extends P {} m m1"
          "points P m1 (dref_of P st (int (unat c))) (advance P (Some st) (int (unat c)))"
          using computeNext_spec[OF Cons.prems(1) pt] by blast
        have r1: "ready P m1" by (rule extends_ready[OF Cons.prems(1) m1(2)])
        have p1: "points P m1 (DState e) (Some st)" using points_mono[OF _ pt] m1(2) by (simp add: extends_def)
        have v1: "next_ok P m1 st c (dref_of P st (int (unat c)))"
          using m1(3) False by (auto simp: points_def dref_of_def advance_def valid_ref_def next_ok_def split: if_splits)
        have "ready P (store_next m1 (DState e) c (dref_of P st (int (unat c))))"
          "points P (store_next m1 (DState e) c (dref_of P st (int (unat c)))) (dref_of P st (int (unat c)))
             (advance P (Some st) (int (unat c)))"
          using store_next_ready[OF r1 p1 v1] m1(3) by auto
        from Cons.IH[OF this, of "i + 1"] False nx m1(1) show ?thesis by (simp add: d \<open>q = Some st\<close>)
      qed
    qed
  qed
qed

subsection \<open>Lines\<close>

lemma run_from_line:
  assumes "10 \<notin> set w" and "j \<le> length w" and "r = [] \<or> hd r = 10"
  shows "run_from P (position P bt w j) (drop j w @ r) i eot
    = (let q = position P bt w (length w); n = i + (length w - j) in
       if ends P q 10 \<or> r = [] \<and> eot \<and> ends P q (- 1) then int n
       else if r = [] then - 1
       else run_from P (Some (line_start P)) (tl r) (n + 1) eot)"
  using assms(2)
proof (induction "length w - j" arbitrary: j i)
  case 0
  then show ?case using assms(3) by (cases r) auto
next
  case (Suc n)
  then have j: "j < length w" by simp
  then have "w ! j \<noteq> 10" using assms(1) nth_mem by metis
  then have step: "run_from P (position P bt w j) (drop j w @ r) i eot
      = run_from P (position P bt w (Suc j)) (drop (Suc j) w @ r) (i + 1) eot"
    using j by (simp add: position_Suc flip: Cons_nth_drop_Suc)
  have "n = length w - Suc j" "Suc j \<le> length w" "(i + 1) + (length w - Suc j) = i + (length w - j)"
    using Suc.hyps(2) j by simp_all
  from Suc.hyps(1)[OF this(1,2), of "i + 1", unfolded this(3)] show ?case unfolding step .
qed

lemma run_from_start:
  "prog_ok P \<Longrightarrow> run_from P (Some (start_state P bt)) b i eot = first_match_end P bt b eot i"
proof (induction P bt b eot i rule: first_match_end.induct)
  case (1 P bt b eot i)
  let ?w = "takeWhile (\<lambda>c. c \<noteq> 10) b" and ?r = "dropWhile (\<lambda>c. c \<noteq> 10) b"
  have w: "10 \<notin> set ?w" by (auto dest: set_takeWhileD)
  have r: "?r = [] \<or> hd ?r = 10" using hd_dropWhile[of "\<lambda>c. c \<noteq> 10" b] by auto
  have p0: "position P bt ?w 0 = Some (start_state P bt)" by (simp add: position_def)
  have "start_state P False = line_start P" by (simp add: start_state_def)
  with 1 have IH: "\<not> (line_matches P bt ?w 10 \<or> ?r = [] \<and> eot \<and> line_matches P bt ?w (- 1)) \<Longrightarrow> ?r \<noteq> [] \<Longrightarrow>
      run_from P (Some (line_start P)) (tl ?r) (i + length ?w + 1) eot = first_match_end P False (tl ?r) eot (i + length ?w + 1)"
    by simp
  have "run_from P (Some (start_state P bt)) (?w @ ?r) i eot
    = (if line_matches P bt ?w 10 \<or> ?r = [] \<and> eot \<and> line_matches P bt ?w (- 1) then int (i + length ?w)
       else if ?r = [] then - 1
       else run_from P (Some (line_start P)) (tl ?r) (i + length ?w + 1) eot)"
    using run_from_line[OF w le0 r, of P bt i eot] ends_position[OF 1(2) _ w, of 10 bt] ends_position[OF 1(2) _ w, of "- 1" bt]
    by (simp add: p0 Let_def del: takeWhile_dropWhile_id)
  then have "run_from P (Some (start_state P bt)) b i eot
    = (if line_matches P bt ?w 10 \<or> ?r = [] \<and> eot \<and> line_matches P bt ?w (- 1) then int (i + length ?w)
       else if ?r = [] then - 1
       else first_match_end P False (tl ?r) eot (i + length ?w + 1))"
    unfolding takeWhile_dropWhile_id using IH by presburger
  then show ?case unfolding first_match_end.simps[of P bt b eot i] Let_def .
qed

lemma m_init_ready:
  assumes "prog_ok P" shows "\<exists>m. m_init P = Some m \<and> ready P m"
proof -
  let ?n = "word_of_nat (length (pr_inst P)) :: u32"
  let ?z = "\<lparr>ns_q = Init (NewSet 0) ?n, ns_partial = 0, ns_flag = 0\<rparr>"
  let ?m = "\<lparr>m_prog = P, m_dstate = (\<lambda>_. None), m_start = DMatch, m_startLine = DMatch, m_z1 = ?z, m_z2 = ?z\<rparr>"
  have n: "unat ?n = length (pr_inst P)" using assms by (intro unat_of_nat_u32) (simp add: prog_ok_def)
  have z: "qok P (ns_q ?z)" "dense (ns_q ?z) = []"
    using unsigned_less[of ?n, where 'a=nat] n by (simp_all add: qok_def sparse_inv_def Init_def NewSet_def)
  obtain q1 where q1: "addq P (ns_q ?z) (start_id P) (EmptyBeginLine OR EmptyBeginText) = Some q1" "qok P q1"
    "set (dense q1) = fst (text_start P)"
    using addq_spec[OF assms z(1) start_id_ids[OF assms]] grows_from_empty[OF _ z(2)] grows_ok
    unfolding text_start_def fst_conv by metis
  let ?m1 = "?m\<lparr>m_z1 := ?z\<lparr>ns_q := q1, ns_flag := flagBOL OR flagBOT\<rparr>\<rparr>"
  have inv: "minv P {} ?m1" using q1(2) z(1) by (simp add: minv_def)
  have "holds_state P (m_z1 ?m1) (text_start P)" using q1 by (simp add: holds_state_def text_start_def)
  from cache_spec[OF assms inv starts_ok(1)[OF assms] this] obtain m2 where
    m2: "cache ?m1 = Some (DState (key_of (text_start P)), m2)" "extends P {} ?m1 m2"
      "valid_ref m2 (DState (key_of (text_start P)))" by blast
  let ?m3 = "m2\<lparr>m_start := DState (key_of (text_start P))\<rparr>"
  have q3: "qok P (ns_q (m_z1 m2))" "ns_partial (m_z1 m2) = 0" "m_prog m2 = P" using m2(2) by (simp_all add: extends_def minv_def)
  obtain q4 where q4: "addq P (Reset (ns_q (m_z1 m2))) (start_id P) EmptyBeginLine = Some q4" "qok P q4"
    "set (dense q4) = fst (line_start P)"
    using addq_spec[OF assms _ start_id_ids[OF assms], of "Reset (ns_q (m_z1 m2))" EmptyBeginLine] qok_Reset[OF q3(1)]
      grows_from_empty grows_ok unfolding line_start_def fst_conv by metis
  let ?m4 = "?m3\<lparr>m_z1 := (m_z1 m2)\<lparr>ns_q := q4, ns_flag := flagBOL\<rparr>\<rparr>"
  have same: "m_dstate ?m4 = m_dstate m2" by simp
  have inv4: "minv P {} ?m4"
    using m2(2) q4(2) q3 entry_ok_cong[OF same] by (simp add: extends_def minv_def)
  have "holds_state P (m_z1 ?m4) (line_start P)" using q4 q3 by (simp add: holds_state_def line_start_def)
  from cache_spec[OF assms inv4 starts_ok(2)[OF assms] this] obtain m5 where
    m5: "cache ?m4 = Some (DState (key_of (line_start P)), m5)" "extends P {} ?m4 m5"
      "valid_ref m5 (DState (key_of (line_start P)))" by blast
  let ?m6 = "m5\<lparr>m_startLine := DState (key_of (line_start P))\<rparr>"
  have "m_init P = Some ?m6"
    using q1(1) m2(1) q4(1) m5(1) by (simp add: m_init_def Let_def start_id_def)
  moreover have "ready P ?m6"
  proof -
    have same6: "m_dstate ?m6 = m_dstate m5" by simp
    have v: "valid_ref ?m6 r = valid_ref m5 r" for r by (cases r) (simp_all add: valid_ref_def)
    have "minv P {} ?m6" using m5(2) entry_ok_cong[OF same6] by (simp add: extends_def minv_def)
    moreover have "valid_ref m5 (DState (key_of (text_start P)))"
      using m2(3) m5(2) same unfolding extends_def by (metis valid_ref_mono)
    moreover have "m_start ?m6 = DState (key_of (text_start P))" using m5(2) by (simp add: extends_def)
    ultimately show ?thesis using assms m5(3) v by (simp add: ready_def)
  qed
  ultimately show ?thesis by blast
qed

text \<open>Matching one text after the other.\<close>

fun match_all :: "matcher \<Rightarrow> (byte list \<times> bool \<times> bool) list \<Rightarrow> int list option" where
  "match_all m [] = Some []"
| "match_all m ((b, bt, eot) # ts) =
     Option.bind (m_match m b bt eot) (\<lambda>(r, m). map_option ((#) r) (match_all m ts))"

text \<open>C12. A matcher made for a well-formed program returns, for any sequence of texts, the end of the first
  line of each text that has a match, or -1: what it keeps from one text to the next changes no
  result, and no call panics or runs forever.\<close>

theorem matcher_correct:
  assumes "prog_ok P"
  shows "\<exists>m. m_init P = Some m \<and> match_all m ts = Some (map (\<lambda>(b, bt, eot). first_match_end P bt b eot 0) ts)"
proof -
  have "ready P m \<Longrightarrow> match_all m ts = Some (map (\<lambda>(b, bt, eot). first_match_end P bt b eot 0) ts)" for m
  proof (induction ts arbitrary: m)
    case (Cons t ts)
    obtain b bt eot where t: "t = (b, bt, eot)" by (cases t)
    have "points P m (if bt then m_start m else m_startLine m) (Some (start_state P bt))"
      using Cons.prems starts_ok[OF assms] by (simp add: points_def ready_def start_state_def)
    from match_loop_spec[OF Cons.prems this, of b 0 eot] obtain m' where
      "m_match m b bt eot = Some (first_match_end P bt b eot 0, m')" "ready P m'"
      by (auto simp: m_match_def run_from_start[OF assms])
    with Cons.IH show ?case by (simp add: t)
  qed simp
  with m_init_ready[OF assms] show ?thesis by blast
qed

definition prog_a :: Prog where
  "prog_a = \<lparr>pr_inst = [\<lparr>in_op = instByteRange, in_out = 1, in_arg = 0x6161, in_rune = []\<rparr>,
     \<lparr>in_op = InstMatch, in_out = 0, in_arg = 0, in_rune = []\<rparr>], pr_start = 0\<rparr>"

lemma prog_a_ok: "prog_ok prog_a"
  by (simp add: prog_ok_def prog_a_def ids_def eps_succ_def)

lemma matcher_correct_witness:
  "\<exists>m. m_init prog_a = Some m
    \<and> match_all m [([98, 10, 97], True, True)] = Some [first_match_end prog_a True [98, 10, 97] True 0]"
  using matcher_correct[OF prog_a_ok, of "[([98, 10, 97], True, True)]"] by simp


end
