(* ===== verification/Grep.thy ===== *)
theory Grep
  imports Matcher_Correct
begin

text \<open>
  The \<^verbatim>\<open>Grep\<close> type of \<^verbatim>\<open>regexp/match.go\<close>: reading a text in chunks that end at a line, finding the
  lines that match and printing them, with their numbers if asked for.

  A reader is the list of bytes it still gives and the error it then returns, \<open>None\<close> for the end of
  the file. What is printed is the list of the texts written to \<^verbatim>\<open>Stdout\<close> and \<^verbatim>\<open>Stderr\<close>.
\<close>

subsection \<open>State\<close>

record Grep =
  g_L :: bool
  g_C :: bool
  g_N :: bool
  g_H :: bool

record grep_out =
  go_match :: bool
  go_stdout :: "byte list list"
  go_stderr :: "byte list list"

text \<open>The local variables of \<^verbatim>\<open>Reader\<close>.\<close>

record greader =
  gr_out :: grep_out
  gr_matcher :: matcher
  gr_lineno :: int
  gr_count :: int
  gr_beginText :: bool

record source =
  src_data :: "byte list"
  src_err :: "byte list option"

datatype read_result = NoErr | EndOfFile | ReadErr "byte list"

definition bufcap :: nat where "bufcap = 2 ^ 20"

text \<open>\<^verbatim>\<open>io.ReadFull\<close>: the two errors for a short read at the end of a file are one here.\<close>

definition ReadFull :: "source \<Rightarrow> nat \<Rightarrow> byte list \<times> read_result \<times> source" where
  "ReadFull r k =
     (let n = min k (length (src_data r)) in
      (take n (src_data r),
       (if n = k then NoErr else case src_err r of None \<Rightarrow> EndOfFile | Some e \<Rightarrow> ReadErr e),
       r\<lparr>src_data := drop n (src_data r)\<rparr>))"

subsection \<open>Lines\<close>

text \<open>\<^verbatim>\<open>bytes.LastIndex(b, nl)\<close>, -1 if there is none, and \<^verbatim>\<open>bytes.IndexByte\<close>.\<close>

definition last_nl :: "byte list \<Rightarrow> int" where
  "last_nl b = (if 10 \<in> set b then int (length b) - 1 - int (length (takeWhile (\<lambda>c. c \<noteq> 10) (rev b))) else - 1)"

definition index_nl :: "byte list \<Rightarrow> int" where
  "index_nl b = (if 10 \<in> set b then int (length (takeWhile (\<lambda>c. c \<noteq> 10) b)) else - 1)"

lemma line_prefix [simp]:
  "10 \<notin> set xs \<Longrightarrow> takeWhile (\<lambda>c. c \<noteq> 10) (xs @ 10 # ys) = (xs :: byte list)"
  "10 \<notin> set xs \<Longrightarrow> dropWhile (\<lambda>c. c \<noteq> 10) (xs @ 10 # ys) = 10 # (ys :: byte list)"
  "10 \<notin> set xs \<Longrightarrow> takeWhile (\<lambda>c. c \<noteq> 10) xs = xs" "10 \<notin> set xs \<Longrightarrow> dropWhile (\<lambda>c. c \<noteq> 10) xs = []"
  by (induction xs) auto

lemma index_nl_bound: "\<not> index_nl b < 0 \<Longrightarrow> nat (index_nl b) < length b"
proof -
  assume "\<not> index_nl b < 0"
  then have "10 \<in> set b" by (auto simp: index_nl_def split: if_splits)
  then obtain xs ys where "b = xs @ 10 # ys" "10 \<notin> set xs" by (metis split_list_first)
  then show ?thesis by (simp add: index_nl_def)
qed

function countNL :: "byte list \<Rightarrow> int" where
  "countNL b = (let i = index_nl b in if i < 0 then 0 else 1 + countNL (drop (nat i + 1) b))"
  by auto
termination by (relation "measure length") (auto dest: index_nl_bound)

declare countNL.simps [simp del]

fun itoa_nat :: "nat \<Rightarrow> byte list" where
  "itoa_nat n = (if n < 10 then [word_of_nat (48 + n)] else itoa_nat (n div 10) @ [word_of_nat (48 + n mod 10)])"

declare itoa_nat.simps [simp del]

definition itoa :: "int \<Rightarrow> byte list" where
  "itoa i = (if i < 0 then 45 # itoa_nat (nat (- i)) else itoa_nat (nat i))"

subsection \<open>Printing\<close>

definition put :: "byte list \<Rightarrow> greader \<Rightarrow> greader" where
  "put s st = st\<lparr>gr_out := (gr_out st)\<lparr>go_stdout := go_stdout (gr_out st) @ [s]\<rparr>\<rparr>"

definition grep_prefix :: "Grep \<Rightarrow> byte list \<Rightarrow> byte list" where
  "grep_prefix g name = (if \<not> g_H g then name @ [58] else [])"

definition missing_nl :: "byte list \<Rightarrow> byte list" where
  "missing_nl line = (if length line = 0 \<or> line ! (length line - 1) \<noteq> 10 then [10] else [])"

definition emit :: "Grep \<Rightarrow> byte list \<Rightarrow> byte list \<Rightarrow> greader \<Rightarrow> greader" where
  "emit g name line st =
     (let prefix' = grep_prefix g name; nl = missing_nl line;
          st = (if g_C g then st\<lparr>gr_count := gr_count st + 1\<rparr>
                else if g_N g then put (prefix' @ itoa (gr_lineno st) @ [58] @ line @ nl) st
                else put (prefix' @ line @ nl) st)
      in if g_N g then st\<lparr>gr_lineno := gr_lineno st + 1\<rparr> else st)"

text \<open>The loop over \<^verbatim>\<open>buf[chunkStart:end]\<close>. The result is whether \<^verbatim>\<open>Reader\<close> returns, the rest of the
  chunk at the end of the loop and the state; \<open>None\<close> is a panic of the matcher.\<close>

function chunk_loop :: "Grep \<Rightarrow> byte list \<Rightarrow> bool \<Rightarrow> byte list \<Rightarrow> greader \<Rightarrow> (bool \<times> byte list \<times> greader) option" where
  "chunk_loop g name endText b st =
     (if b = [] then Some (False, b, st)
      else Option.bind (m_match (gr_matcher st) b (gr_beginText st) endText) (\<lambda>(m1, m).
        let st = st\<lparr>gr_matcher := m, gr_beginText := False\<rparr> in
        if m1 < 0 then Some (False, b, st)
        else let st = st\<lparr>gr_out := (gr_out st)\<lparr>go_match := True\<rparr>\<rparr> in
        if g_L g then Some (True, b, put (name @ [10]) st)
        else let lineStart = nat (last_nl (take (nat m1) b) + 1);
                 lineEnd = min (nat m1 + 1) (length b);
                 st = (if g_N g then st\<lparr>gr_lineno := gr_lineno st + countNL (take lineStart b)\<rparr> else st);
                 line = drop lineStart (take lineEnd b)
             in chunk_loop g name endText (drop lineEnd b) (emit g name line st)))"
  by pat_completeness auto
termination
  by (relation "measure (\<lambda>(g, name, endText, b, st). length b)") auto

declare chunk_loop.simps [simp del]

text \<open>The loop over the chunks; \<open>next_chunk\<close> is its body up to \<^verbatim>\<open>chunkStart := 0\<close>, with the lines to search
  and what stays in the buffer.\<close>

definition next_chunk :: "source \<Rightarrow> byte list \<Rightarrow> byte list \<times> byte list \<times> read_result \<times> source" where
  "next_chunk r buf =
     (let (new, err, r') = ReadFull r (bufcap - length buf); buf = buf @ new;
          end = (if err = NoErr \<and> last_nl buf \<ge> 0 then nat (last_nl buf + 1) else length buf)
      in (take end buf, drop end buf, err, r'))"

lemma next_chunk_end: "next_chunk r buf = (chunk, rest, err, r') \<Longrightarrow> err \<noteq> NoErr \<Longrightarrow> rest = []"
  by (auto simp: next_chunk_def Let_def split: prod.splits)

lemma ReadFull_full: "ReadFull r k = (new, NoErr, r') \<Longrightarrow> length new = k \<and> src_data r = new @ src_data r' \<and> src_err r' = src_err r"
  by (auto simp: ReadFull_def Let_def min_def split: if_splits option.splits)

lemma next_chunk_progress:
  assumes "next_chunk r buf = (chunk, rest, NoErr, r')"
  shows "length (src_data r') + length rest < length (src_data r) + length buf"
proof -
  obtain new err r1 where read: "ReadFull r (bufcap - length buf) = (new, err, r1)" by (metis prod_cases3)
  with assms have err: "err = NoErr" and r': "r' = r1" by (auto simp: next_chunk_def Let_def)
  define e where "e = (if last_nl (buf @ new) \<ge> 0 then nat (last_nl (buf @ new) + 1) else length (buf @ new))"
  have rest: "rest = drop e (buf @ new)" using assms read err by (simp add: next_chunk_def e_def Let_def split: if_splits)
  from ReadFull_full[OF read[unfolded err]] have n: "length new = bufcap - length buf" "src_data r = new @ src_data r1" by simp_all
  have "length (buf @ new) > 0" using n(1) by (cases buf) (auto simp: bufcap_def)
  moreover from this have "e > 0" by (auto simp: e_def)
  ultimately have "length (drop e (buf @ new)) < length (buf @ new)" unfolding length_drop by linarith
  then show ?thesis unfolding rest r' n(2) by simp
qed

function reader_loop :: "Grep \<Rightarrow> byte list \<Rightarrow> source \<Rightarrow> byte list \<Rightarrow> greader \<Rightarrow> (bool \<times> greader) option" where
  "reader_loop g name r buf st =
     (let (chunk, buf, err, r) = next_chunk r buf
      in Option.bind (chunk_loop g name (err \<noteq> NoErr) chunk st) (\<lambda>(ret, rest, st).
        if ret then Some (True, st)
        else let st = (if g_N g \<and> err = NoErr then st\<lparr>gr_lineno := gr_lineno st + countNL rest\<rparr> else st)
             in if buf = [] \<and> err \<noteq> NoErr
                then Some (False, case err of
                  ReadErr e \<Rightarrow> st\<lparr>gr_out := (gr_out st)\<lparr>go_stderr := go_stderr (gr_out st) @ [name @ [58, 32] @ e @ [10]]\<rparr>\<rparr>
                | _ \<Rightarrow> st)
                else reader_loop g name r buf st))"
  by pat_completeness auto
termination
proof (relation "measure (\<lambda>(g, name, r, buf, st). length (src_data r) + length buf)", goal_cases)
  case (2 g name r buf st x chunk y rest z err r' res ret w rest' st2 st3)
  then have chunk: "next_chunk r buf = (chunk, rest, err, r')" by simp
  with 2 next_chunk_end[OF chunk] have "err = NoErr" by blast
  with next_chunk_progress chunk show ?case by simp
qed simp

declare reader_loop.simps [simp del]

definition Reader :: "Grep \<Rightarrow> matcher \<Rightarrow> grep_out \<Rightarrow> byte list \<Rightarrow> source \<Rightarrow> (grep_out \<times> matcher) option" where
  "Reader g m out name r =
     map_option (\<lambda>(ret, st).
       let st = (if \<not> ret \<and> g_C g \<and> gr_count st > 0 then put (name @ [58, 32] @ itoa (gr_count st) @ [10]) st else st)
       in (gr_out st, gr_matcher st))
     (reader_loop g name r [] \<lparr>gr_out = out, gr_matcher = m, gr_lineno = 1, gr_count = 0, gr_beginText = True\<rparr>)"

text \<open>\<^verbatim>\<open>File\<close>, where \<open>opened\<close> is what \<^verbatim>\<open>os.Open\<close> returns.\<close>

definition grep_File :: "Grep \<Rightarrow> matcher \<Rightarrow> grep_out \<Rightarrow> byte list \<Rightarrow> byte list + source \<Rightarrow> (grep_out \<times> matcher) option" where
  "grep_File g m out name opened = (case opened of
     Inl err \<Rightarrow> Some (out\<lparr>go_stderr := go_stderr out @ [err @ [10]]\<rparr>, m)
   | Inr r \<Rightarrow> Reader g m out name r)"

end
