(* ===== verification/Grep_Correct.thy ===== *)
theory Grep_Correct
  imports Grep
begin

text \<open>
  What \<^verbatim>\<open>Grep.Reader\<close> prints does not depend on the chunks it reads: for a pattern that does not match
  the empty line and a text whose lines fit the buffer, it is the list of the matching lines of the
  text, each with its number in the text.
\<close>

subsection \<open>The lines that match\<close>

text \<open>The lines of \<open>b\<close> that match, with their newlines and numbers from \<open>n\<close> on.\<close>

function hits :: "Prog \<Rightarrow> bool \<Rightarrow> bool \<Rightarrow> byte list \<Rightarrow> int \<Rightarrow> (int \<times> byte list) list" where
  "hits P bt eot b n =
     (if b = [] then []
      else let line = takeWhile (\<lambda>c. c \<noteq> 10) b; rest = dropWhile (\<lambda>c. c \<noteq> 10) b in
        (if line_matches P bt line 10 \<or> rest = [] \<and> eot \<and> line_matches P bt line (- 1)
         then [(n, line @ take 1 rest)] else [])
        @ hits P False eot (tl rest) (n + 1))"
  by pat_completeness auto
termination
proof (relation "measure (\<lambda>(P, bt, eot, b, n). length b)", goal_cases)
  case (2 P bt eot b n line rest)
  then have "0 < length b" "length rest \<le> length b" using length_dropWhile_le[of "\<lambda>c. c \<noteq> 10" b] by auto
  then have "length (tl rest) < length b" unfolding length_tl by linarith
  then show ?case by (simp del: length_tl)
qed simp

declare hits.simps [simp del]

lemma hits_Nil [simp]: "hits P bt eot [] n = []"
  by (simp add: hits.simps)

lemma hits_line:
  assumes "10 \<notin> set line"
  shows "hits P bt eot (line @ 10 # rest) n =
    (if line_matches P bt line 10 then [(n, line @ [10])] else []) @ hits P False eot rest (n + 1)"
    and "line \<noteq> [] \<Longrightarrow> hits P bt eot line n =
    (if line_matches P bt line 10 \<or> eot \<and> line_matches P bt line (- 1) then [(n, line)] else [])"
  using assms by (subst hits.simps, simp)+

lemma line_cases:
  fixes b :: "byte list"
  obtains (ended) line rest where "b = line @ 10 # rest" "10 \<notin> set line" | (open_) "10 \<notin> set b"
  by (metis split_list_first)

definition newlines :: "byte list \<Rightarrow> int" where
  "newlines b = int (length (filter (\<lambda>c. c = 10) b))"

lemma newlines_simps [simp]:
  "newlines [] = 0" "newlines (c # b) = (if c = 10 then 1 else 0) + newlines b" "newlines (u @ v) = newlines u + newlines v"
  by (simp_all add: newlines_def)

lemma newlines_none: "10 \<notin> set b \<Longrightarrow> newlines b = 0"
  by (induction b) auto

lemma countNL_newlines: "countNL b = newlines b"
proof (induction b rule: countNL.induct)
  case (1 b)
  show ?case
  proof (cases b rule: line_cases)
    case (ended line rest)
    then have "index_nl b = int (length line)" by (simp add: index_nl_def)
    with 1 ended show ?thesis by (subst countNL.simps) (simp add: newlines_none)
  next
    case open_
    then show ?thesis by (subst countNL.simps) (simp add: index_nl_def newlines_none)
  qed
qed

lemma last_nl_after: "10 \<notin> set line \<Longrightarrow> pre = [] \<or> last pre = 10 \<Longrightarrow> last_nl (pre @ line) = int (length pre) - 1"
proof -
  assume line: "10 \<notin> set line" and pre: "pre = [] \<or> last pre = 10"
  show ?thesis
  proof (cases "pre = []")
    case True
    with line show ?thesis by (simp add: last_nl_def)
  next
    case False
    then obtain p where "pre = p @ [10]" using pre by (metis append_butlast_last_id)
    with line show ?thesis by (simp add: last_nl_def)
  qed
qed

text \<open>A chunk that ends at a line.\<close>

lemma hits_append:
  "hits P bt eot (c @ 10 # rest) n = hits P bt eot' (c @ [10]) n @ hits P False eot rest (n + newlines (c @ [10]))"
proof (induction c arbitrary: bt n rule: length_induct)
  case (1 c)
  show ?case
  proof (cases c rule: line_cases)
    case (ended line c')
    with 1 have "hits P False eot (c' @ 10 # rest) (n + 1) =
        hits P False eot' (c' @ [10]) (n + 1) @ hits P False eot rest (n + 1 + newlines (c' @ [10]))" by simp
    with ended show ?thesis by (simp add: hits_line newlines_none add.assoc)
  next
    case open_
    then show ?thesis by (simp add: hits_line newlines_none)
  qed
qed

subsection \<open>The first line that matches\<close>

text \<open>The pattern does not match the empty line; without this the empty text after the last newline of a
  chunk counts as a line.\<close>

definition quiet :: "Prog \<Rightarrow> bool" where
  "quiet P \<longleftrightarrow> \<not> line_matches P False [] 10 \<and> \<not> line_matches P False [] (- 1)"

lemma first_hit:
  assumes "quiet P"
  shows "b \<noteq> [] \<or> \<not> bt \<Longrightarrow>
    first_match_end P bt b eot i = - 1 \<and> hits P bt eot b n = [] \<or>
    (\<exists>pre line rest. b = pre @ line @ rest \<and> (pre = [] \<or> last pre = 10) \<and> 10 \<notin> set line \<and> (rest = [] \<or> hd rest = 10) \<and> line @ rest \<noteq> []
       \<and> first_match_end P bt b eot i = int i + int (length pre) + int (length line)
       \<and> hits P bt eot b n = (n + newlines pre, line @ take 1 rest) # hits P False eot (tl rest) (n + newlines pre + 1))"
proof (induction b arbitrary: bt i n rule: length_induct)
  case (1 b)
  show ?case
  proof (cases b rule: line_cases)
    case (ended line rest)
    show ?thesis
    proof (cases "line_matches P bt line 10")
      case True
      with ended show ?thesis
        by (intro disjI2 exI[of _ "[]"] exI[of _ line] exI[of _ "10 # rest"]) (simp add: first_match_end.simps[of P bt] hits_line)
    next
      case False
      have eq: "first_match_end P bt b eot i = first_match_end P False rest eot (i + length line + 1)"
        "hits P bt eot b n = hits P False eot rest (n + 1)"
        using False ended by (simp_all add: first_match_end.simps[of P bt] hits_line)
      have "length rest < length b" using ended by simp
      with 1 have IH: "first_match_end P False rest eot (i + length line + 1) = - 1 \<and> hits P False eot rest (n + 1) = [] \<or>
        (\<exists>pre l r. rest = pre @ l @ r \<and> (pre = [] \<or> last pre = 10) \<and> 10 \<notin> set l \<and> (r = [] \<or> hd r = 10) \<and> l @ r \<noteq> []
         \<and> first_match_end P False rest eot (i + length line + 1) = int (i + length line + 1) + int (length pre) + int (length l)
         \<and> hits P False eot rest (n + 1) = (n + 1 + newlines pre, l @ take 1 r) # hits P False eot (tl r) (n + 1 + newlines pre + 1))"
        by blast
      show ?thesis
      proof (cases "first_match_end P False rest eot (i + length line + 1) = - 1 \<and> hits P False eot rest (n + 1) = []")
        case False
        with IH obtain pre l r where *: "rest = pre @ l @ r" "10 \<notin> set l" 
          "first_match_end P False rest eot (i + length line + 1) = int (i + length line + 1) + int (length pre) + int (length l)"
          "hits P False eot rest (n + 1) = (n + 1 + newlines pre, l @ take 1 r) # hits P False eot (tl r) (n + 1 + newlines pre + 1)"
          and "pre = [] \<or> last pre = 10" "r = [] \<or> hd r = 10" "l @ r \<noteq> []" by blast
        have n1: "newlines (line @ 10 # pre) = 1 + newlines pre" using ended(2) by (simp add: newlines_none)
        have "b = (line @ 10 # pre) @ l @ r" "last (line @ 10 # pre) = 10" using ended *(1) \<open>pre = [] \<or> last pre = 10\<close> by auto
        moreover have "first_match_end P bt b eot i = int i + int (length (line @ 10 # pre)) + int (length l)"
          unfolding eq *(3) by simp
        moreover have "hits P bt eot b n = (n + newlines (line @ 10 # pre), l @ take 1 r)
            # hits P False eot (tl r) (n + newlines (line @ 10 # pre) + 1)"
          unfolding eq *(4) n1 by (simp add: add.assoc)
        ultimately show ?thesis using *(2) \<open>r = [] \<or> hd r = 10\<close> \<open>l @ r \<noteq> []\<close> by blast
      qed (simp_all add: eq)
    qed
  next
    case open_
    show ?thesis
    proof (cases "b = []")
      case True
      with 1 assms show ?thesis by (auto simp: first_match_end.simps[of P False] quiet_def)
    next
      case False
      show ?thesis
      proof (cases "line_matches P bt b 10 \<or> eot \<and> line_matches P bt b (- 1)")
        case True
        with open_ False show ?thesis
          by (intro disjI2 exI[of _ "[]"] exI[of _ b]) (auto simp: first_match_end.simps[of P bt] hits_line(2))
      next
        case no: False
        with open_ False show ?thesis by (auto simp: first_match_end.simps[of P bt] hits_line(2))
      qed
    qed
  qed
qed

subsection \<open>Chunks\<close>

lemma ready_match:
  assumes "prog_ok P" and "ready P m"
  shows "\<exists>m'. m_match m b bt eot = Some (first_match_end P bt b eot 0, m') \<and> ready P m'"
proof -
  have "points P m (if bt then m_start m else m_startLine m) (Some (start_state P bt))"
    using assms starts_ok[OF assms(1)] by (simp add: points_def ready_def start_state_def)
  from match_loop_spec[OF assms(2) this, of b 0 eot] show ?thesis
    by (auto simp: m_match_def run_from_start[OF assms(1)])
qed

definition hit_line :: "Grep \<Rightarrow> byte list \<Rightarrow> int \<times> byte list \<Rightarrow> byte list" where
  "hit_line g name h = grep_prefix g name @ (if g_N g then itoa (fst h) @ [58] else []) @ snd h @ missing_nl (snd h)"

text \<open>The effect of printing the lines \<open>hs\<close>; line numbers are kept only if they are printed.\<close>

definition after_hits :: "Grep \<Rightarrow> byte list \<Rightarrow> (int \<times> byte list) list \<Rightarrow> greader \<Rightarrow> greader \<Rightarrow> bool" where
  "after_hits g name hs st st' \<longleftrightarrow>
     go_match (gr_out st') = (go_match (gr_out st) \<or> hs \<noteq> [])
   \<and> go_stdout (gr_out st') = go_stdout (gr_out st) @ (if g_C g then [] else map (hit_line g name) hs)
   \<and> go_stderr (gr_out st') = go_stderr (gr_out st)
   \<and> gr_count st' = gr_count st + (if g_C g then int (length hs) else 0)"

lemma after_hits_Nil: "gr_out st' = gr_out st \<Longrightarrow> gr_count st' = gr_count st \<Longrightarrow> after_hits g name [] st st'"
  by (simp add: after_hits_def)

lemma after_hits_trans: "after_hits g name hs st st1 \<Longrightarrow> after_hits g name hs' st1 st2 \<Longrightarrow> after_hits g name (hs @ hs') st st2"
  by (auto simp: after_hits_def)

lemma after_hits_emit:
  assumes "g_N g \<Longrightarrow> gr_lineno st' = n" and "gr_out st' = (gr_out st)\<lparr>go_match := True\<rparr>" and "gr_count st' = gr_count st"
  shows "after_hits g name [(n, line)] st (emit g name line st')"
  using assms by (auto simp: after_hits_def emit_def put_def hit_line_def Let_def)

lemma drop_append_length: "drop (length u) (u @ v) = v"
  by simp

lemma emit_fields:
  "gr_matcher (emit g name line st) = gr_matcher st" "gr_beginText (emit g name line st) = gr_beginText st"
  "g_N g \<Longrightarrow> gr_lineno (emit g name line st) = gr_lineno st + 1"
  by (simp_all add: emit_def put_def Let_def)

lemma chunk_loop_spec:
  assumes P: "prog_ok P" "quiet P" and g: "\<not> g_L g"
  shows "ready P (gr_matcher st) \<Longrightarrow> (g_N g \<Longrightarrow> gr_lineno st = n) \<Longrightarrow>
    \<exists>rest st'. chunk_loop g name eot b st = Some (False, rest, st') \<and> ready P (gr_matcher st')
      \<and> after_hits g name (hits P (gr_beginText st) eot b n) st st'
      \<and> (g_N g \<and> (b = [] \<or> last b = 10) \<longrightarrow> gr_lineno st' + newlines rest = n + newlines b)
      \<and> gr_beginText st' = (gr_beginText st \<and> b = [])"
proof (induction b arbitrary: st n rule: length_induct)
  case (1 b)
  show ?case
  proof (cases "b = []")
    case True
    with 1 show ?thesis by (simp add: chunk_loop.simps[of _ _ _ "[]"] after_hits_Nil)
  next
    case False
    define r where "r = first_match_end P (gr_beginText st) b eot 0"
    obtain m where m: "m_match (gr_matcher st) b (gr_beginText st) eot = Some (r, m)" "ready P m"
      using ready_match[OF P(1) "1.prems"(1)] unfolding r_def by blast
    define st1 where "st1 = st\<lparr>gr_matcher := m, gr_beginText := False\<rparr>"
    show ?thesis
    proof (cases "r = - 1 \<and> hits P (gr_beginText st) eot b n = []")
      case True
      then have "chunk_loop g name eot b st = Some (False, b, st1)"
        using False m(1) by (subst chunk_loop.simps) (simp add: st1_def)
      with True False m(2) 1 show ?thesis by (auto simp: st1_def intro: after_hits_Nil)
    next
      case hit: False
      then obtain pre line rest where b: "b = pre @ line @ rest" and pre: "pre = [] \<or> last pre = 10"
        and line: "10 \<notin> set line" and rest: "rest = [] \<or> hd rest = 10" "line @ rest \<noteq> []"
        and r: "r = int (length pre) + int (length line)"
        and hs: "hits P (gr_beginText st) eot b n =
          (n + newlines pre, line @ take 1 rest) # hits P False eot (tl rest) (n + newlines pre + 1)"
        using first_hit[OF P(2), of b "gr_beginText st" eot 0 n] False unfolding r_def by auto
      define st2 where "st2 = st1\<lparr>gr_out := (gr_out st1)\<lparr>go_match := True\<rparr>\<rparr>"
      define st3 where "st3 = (if g_N g then st2\<lparr>gr_lineno := gr_lineno st2 + countNL (take (length pre) b)\<rparr> else st2)"
      define st4 where "st4 = emit g name (line @ take 1 rest) st3"
      have take_r: "take (nat r) b = pre @ line" using r by (simp add: b nat_add_distrib)
      have lineStart: "nat (last_nl (take (nat r) b) + 1) = length pre"
        unfolding take_r last_nl_after[OF line pre] by simp
      have lineEnd: "min (nat r + 1) (length b) = length (pre @ line @ take 1 rest)"
        using r by (cases rest) (simp_all add: b nat_add_distrib)
      have split_b: "take (length (pre @ line @ take 1 rest)) b = pre @ line @ take 1 rest"
        "drop (length (pre @ line @ take 1 rest)) b = tl rest"
        by (cases rest; simp add: b)+
      have pos: "(r < 0) = False" using r by simp
      have step: "chunk_loop g name eot b st = chunk_loop g name eot (tl rest) st4"
        unfolding chunk_loop.simps[of g name eot b st] m(1)
        by (simp only: False g pos if_False Option.bind.simps prod.case Let_def st1_def[symmetric] st2_def[symmetric]
            lineStart lineEnd split_b drop_append_length st3_def[symmetric] st4_def[symmetric])
      have st4: "ready P (gr_matcher st4)" "gr_beginText st4 = False"
        using m(2) by (simp_all add: st4_def st3_def st2_def st1_def emit_fields)
      have lineno: "g_N g \<Longrightarrow> gr_lineno st3 = n + newlines pre"
        using "1.prems"(2) by (simp add: st3_def st2_def st1_def countNL_newlines b)
      have lineno4: "g_N g \<Longrightarrow> gr_lineno st4 = n + newlines pre + 1" using lineno by (simp add: st4_def emit_fields)
      have one: "after_hits g name [(n + newlines pre, line @ take 1 rest)] st st4"
        unfolding st4_def by (rule after_hits_emit) (use lineno in \<open>auto simp: st3_def st2_def st1_def\<close>)
      have "length (tl rest) < length b"
        using \<open>b \<noteq> []\<close> unfolding b by (cases rest) auto
      then have "\<exists>rest' st'. chunk_loop g name eot (tl rest) st4 = Some (False, rest', st') \<and> ready P (gr_matcher st')
        \<and> after_hits g name (hits P (gr_beginText st4) eot (tl rest) (n + newlines pre + 1)) st4 st'
        \<and> (g_N g \<and> (tl rest = [] \<or> last (tl rest) = 10) \<longrightarrow> gr_lineno st' + newlines rest' = n + newlines pre + 1 + newlines (tl rest))
        \<and> gr_beginText st' = (gr_beginText st4 \<and> tl rest = [])"
        using "1.IH" st4(1) lineno4 by blast
      then obtain rest' st' where rec: "chunk_loop g name eot (tl rest) st4 = Some (False, rest', st')" "ready P (gr_matcher st')"
        "after_hits g name (hits P False eot (tl rest) (n + newlines pre + 1)) st4 st'"
        "g_N g \<and> (tl rest = [] \<or> last (tl rest) = 10) \<Longrightarrow> gr_lineno st' + newlines rest' = n + newlines pre + 1 + newlines (tl rest)" "\<not> gr_beginText st'"
        using st4(2) by auto
      have nb: "newlines b = newlines pre + (if rest = [] then 0 else 1) + newlines (tl rest)"
        using rest(1) line by (cases rest) (auto simp: b newlines_none)
      have "after_hits g name (hits P (gr_beginText st) eot b n) st st'"
        using after_hits_trans[OF one rec(3)] by (simp add: hs)
      moreover have "gr_lineno st' + newlines rest' = n + newlines b" if last: "g_N g" "last b = 10"
      proof -
        have "rest \<noteq> []"
        proof
          assume "rest = []"
          with rest(2) have "last b = last line" "line \<noteq> []" by (simp_all add: b)
          with last(2) line show False by (metis last_in_set)
        qed
        then obtain c t where c: "rest = c # t" by (cases rest) auto
        with last(2) have "t = [] \<or> last t = 10" by (auto simp: b split: if_splits)
        with rec(4) last(1) nb c show ?thesis by simp
      qed
      ultimately show ?thesis using step rec False by auto
    qed
  qed
qed

subsection \<open>Texts\<close>

text \<open>Every window of the size of the buffer has a newline.\<close>

definition short_lines :: "byte list \<Rightarrow> bool" where
  "short_lines t \<longleftrightarrow> (\<forall>u v w. t = u @ v @ w \<longrightarrow> length v = bufcap \<longrightarrow> 10 \<in> set v)"

lemma short_lines_suffix: "short_lines (u @ t) \<Longrightarrow> short_lines t"
  unfolding short_lines_def by (metis append_assoc)

lemma last_nl_split:
  assumes "10 \<in> set b"
  obtains c d where "b = c @ 10 # d" "10 \<notin> set d" "last_nl b = int (length c)"
proof -
  obtain c d where b: "b = c @ 10 # d" "10 \<notin> set d" using assms by (metis split_list_last)
  then have "last_nl b = last_nl ((c @ [10]) @ d)" by simp
  also have "\<dots> = int (length c)" by (subst last_nl_after) (use b in simp_all)
  finally show thesis using b that by blast
qed

lemma next_chunk_cases:
  assumes nx: "next_chunk r buf = (chunk, rest, err, r')" and short: "short_lines (buf @ src_data r)" and len: "length buf \<le> bufcap"
  obtains (last_chunk) "err = (case src_err r of None \<Rightarrow> EndOfFile | Some e \<Rightarrow> ReadErr e)" "chunk = buf @ src_data r" "rest = []"
  | (full) c where "err = NoErr" "chunk = c @ [10]" "buf @ src_data r = chunk @ rest @ src_data r'" "src_err r' = src_err r"
      "length rest \<le> bufcap"
proof -
  obtain new e r1 where read: "ReadFull r (bufcap - length buf) = (new, e, r1)" by (metis prod_cases3)
  have eq: "err = e" "r' = r1" using nx read by (auto simp: next_chunk_def Let_def)
  show thesis
  proof (cases "e = NoErr")
    case True
    have new: "length (buf @ new) = bufcap" "src_data r = new @ src_data r1" "src_err r1 = src_err r"
      using ReadFull_full[OF read[unfolded True]] len by simp_all
    from new(1,2) short have "10 \<in> set (buf @ new)"
      unfolding short_lines_def by (metis append_Nil append_assoc)
    then obtain c d where c: "buf @ new = c @ 10 # d" "10 \<notin> set d" "last_nl (buf @ new) = int (length c)" by (rule last_nl_split)
    have "chunk = c @ [10]" "rest = d" using nx
      unfolding next_chunk_def read Let_def prod.case True c(1) c(3)[unfolded c(1)] by (simp_all add: nat_add_distrib)
    moreover have "length d \<le> bufcap" using new(1) unfolding c(1) by simp
    moreover have "buf @ src_data r = (c @ [10]) @ d @ src_data r1"
      using c(1) by (simp add: new(2) flip: append_assoc)
    ultimately show thesis using full[of c] True eq new(3) by simp
  next
    case False
    then have "new = src_data r" "e = (case src_err r of None \<Rightarrow> EndOfFile | Some e \<Rightarrow> ReadErr e)"
      using read by (auto simp: ReadFull_def Let_def min_def split: if_splits)
    moreover have "chunk = buf @ new" "rest = []" using nx False by (auto simp: next_chunk_def read Let_def)
    ultimately show thesis using last_chunk eq by simp
  qed
qed

text \<open>What \<^verbatim>\<open>Reader\<close> reports of a read error.\<close>

definition complaint :: "byte list \<Rightarrow> source \<Rightarrow> byte list list" where
  "complaint name r = (case src_err r of None \<Rightarrow> [] | Some e \<Rightarrow> [name @ [58, 32] @ e @ [10]])"

lemma complaint_eof: "err = (case src_err r of None \<Rightarrow> EndOfFile | Some e \<Rightarrow> ReadErr e) \<Longrightarrow>
    (case err of ReadErr e \<Rightarrow> st\<lparr>gr_out := (gr_out st)\<lparr>go_stderr := go_stderr (gr_out st) @ [name @ [58, 32] @ e @ [10]]\<rparr>\<rparr> | _ \<Rightarrow> st)
    = st\<lparr>gr_out := (gr_out st)\<lparr>go_stderr := go_stderr (gr_out st) @ complaint name r\<rparr>\<rparr>"
  by (cases "src_err r") (simp_all add: complaint_def)

lemma reader_loop_spec:
  assumes P: "prog_ok P" "quiet P" and g: "\<not> g_L g"
  shows "ready P (gr_matcher st) \<Longrightarrow> (g_N g \<Longrightarrow> gr_lineno st = n) \<Longrightarrow> short_lines (buf @ src_data r) \<Longrightarrow> length buf \<le> bufcap \<Longrightarrow>
    \<exists>st1 st'. reader_loop g name r buf st = Some (False, st') \<and> ready P (gr_matcher st')
      \<and> after_hits g name (hits P (gr_beginText st) True (buf @ src_data r) n) st st1
      \<and> st' = st1\<lparr>gr_out := (gr_out st1)\<lparr>go_stderr := go_stderr (gr_out st1) @ complaint name r\<rparr>\<rparr>"
proof (induction "length (src_data r) + length buf" arbitrary: r buf st n rule: less_induct)
  case less
  obtain chunk rest err r' where nx: "next_chunk r buf = (chunk, rest, err, r')" by (metis prod_cases4)
  obtain crest st1 where chunk: "chunk_loop g name (err \<noteq> NoErr) chunk st = Some (False, crest, st1)" "ready P (gr_matcher st1)"
    "after_hits g name (hits P (gr_beginText st) (err \<noteq> NoErr) chunk n) st st1"
    "g_N g \<and> (chunk = [] \<or> last chunk = 10) \<longrightarrow> gr_lineno st1 + newlines crest = n + newlines chunk"
    "gr_beginText st1 = (gr_beginText st \<and> chunk = [])"
    using chunk_loop_spec[OF P g less.prems(1,2), where eot = "err \<noteq> NoErr" and b = chunk] by blast
  from nx less.prems(3,4) show ?case
  proof (cases rule: next_chunk_cases)
    case last_chunk
    then have err: "(err \<noteq> NoErr) = True" by (auto split: option.splits)
    then have "reader_loop g name r buf st =
        Some (False, st1\<lparr>gr_out := (gr_out st1)\<lparr>go_stderr := go_stderr (gr_out st1) @ complaint name r\<rparr>\<rparr>)"
      unfolding reader_loop.simps[of g name r buf st] nx complaint_eof[OF last_chunk(1), symmetric]
      using chunk(1) last_chunk(3) by simp
    then show ?thesis using chunk(2,3) unfolding err last_chunk(2) by auto
  next
    case (full c)
    define st2 where "st2 = (if g_N g then st1\<lparr>gr_lineno := gr_lineno st1 + countNL crest\<rparr> else st1)"
    have step: "reader_loop g name r buf st = reader_loop g name r' rest st2"
      unfolding reader_loop.simps[of g name r buf st] nx using chunk(1) full(1) by (simp add: st2_def)
    have "length (src_data r') + length rest < length (src_data r) + length buf"
      using next_chunk_progress nx full(1) by simp
    moreover have st2: "ready P (gr_matcher st2)" "g_N g \<Longrightarrow> gr_lineno st2 = n + newlines chunk" "gr_beginText st2 = False"
      "gr_out st2 = gr_out st1" "gr_count st2 = gr_count st1"
      using chunk(2,4,5) full(2) by (auto simp: st2_def countNL_newlines)
    moreover have "short_lines (rest @ src_data r')" using less.prems(3) short_lines_suffix unfolding full(3) by blast
    ultimately obtain st3 st' where rec: "reader_loop g name r' rest st2 = Some (False, st')" "ready P (gr_matcher st')"
      "after_hits g name (hits P False True (rest @ src_data r') (n + newlines chunk)) st2 st3"
      "st' = st3\<lparr>gr_out := (gr_out st3)\<lparr>go_stderr := go_stderr (gr_out st3) @ complaint name r'\<rparr>\<rparr>"
      using less.hyps[of r' rest st2 "n + newlines chunk"] full(5) by auto
    have "hits P (gr_beginText st) True (buf @ src_data r) n =
        hits P (gr_beginText st) False chunk n @ hits P False True (rest @ src_data r') (n + newlines chunk)"
      unfolding full(3) full(2) using hits_append[of P "gr_beginText st" True c "rest @ src_data r'" n False] by simp
    moreover have "after_hits g name (hits P (gr_beginText st) False chunk n) st st2"
      using chunk(3) full(1) st2(4,5) by (simp add: after_hits_def)
    ultimately have "after_hits g name (hits P (gr_beginText st) True (buf @ src_data r) n) st st3"
      using after_hits_trans rec(3) by simp
    moreover have "complaint name r' = complaint name r" by (simp add: complaint_def full(4))
    ultimately show ?thesis using step rec by auto
  qed
qed

text \<open>C30. For a pattern that does not match the empty line and a text whose lines fit the buffer,
  \<^verbatim>\<open>Grep.Reader\<close> returns and prints the lines of the text that match, in order, each with its number in
  the whole text where numbers are asked for, or else only how many there are, whatever the chunks the text is
  read in; \<^verbatim>\<open>Match\<close> says whether there are any, and a read error is reported after them.\<close>

theorem grep_reader_correct:
  assumes "prog_ok P" and "quiet P" and "short_lines (src_data r)" and "\<not> g_L g"
  shows "\<exists>m m'. m_init P = Some m \<and> (let hs = hits P True True (src_data r) 1 in
    Reader g m out name r = Some
      (\<lparr>go_match = (go_match out \<or> hs \<noteq> []),
        go_stdout = go_stdout out @ (if g_C g then if hs \<noteq> [] then [name @ [58, 32] @ itoa (int (length hs)) @ [10]] else []
          else map (hit_line g name) hs),
        go_stderr = go_stderr out @ complaint name r\<rparr>, m'))"
proof -
  obtain m where m: "m_init P = Some m" "ready P m" using m_init_ready[OF assms(1)] by blast
  let ?st = "\<lparr>gr_out = out, gr_matcher = m, gr_lineno = 1, gr_count = 0, gr_beginText = True\<rparr>"
  obtain st1 st' where run: "reader_loop g name r [] ?st = Some (False, st')"
    "after_hits g name (hits P True True (src_data r) 1) ?st st1"
    "st' = st1\<lparr>gr_out := (gr_out st1)\<lparr>go_stderr := go_stderr (gr_out st1) @ complaint name r\<rparr>\<rparr>"
    using reader_loop_spec[OF assms(1,2,4), of ?st 1 "[]" r name] m(2) assms(3) by auto
  have "let hs = hits P True True (src_data r) 1 in Reader g m out name r = Some
      (\<lparr>go_match = (go_match out \<or> hs \<noteq> []),
        go_stdout = go_stdout out @ (if g_C g then if hs \<noteq> [] then [name @ [58, 32] @ itoa (int (length hs)) @ [10]] else []
          else map (hit_line g name) hs),
        go_stderr = go_stderr out @ complaint name r\<rparr>, gr_matcher st')"
    unfolding Reader_def run(1) using run(2,3)
    by (cases "gr_out st1") (auto simp: after_hits_def put_def Let_def)
  with m(1) show ?thesis unfolding Let_def by blast
qed

lemma prog_a_quiet: "quiet prog_a"
proof -
  have "x = 0" if "thread prog_a bt [] e j x" for bt e j x
    using that by (induction rule: thread.induct) (simp_all add: start_id_def prog_a_def eps_succ_def)
  then show ?thesis unfolding quiet_def line_matches_def by (fastforce simp: prog_a_def)
qed

lemma short_text: "length t < bufcap \<Longrightarrow> short_lines t"
  by (auto simp: short_lines_def)

lemma grep_reader_correct_witness:
  "\<exists>m m'. m_init prog_a = Some m \<and> (let hs = hits prog_a True True [97, 10, 98, 10, 98, 97] 1 in
    Reader \<lparr>g_L = False, g_C = False, g_N = True, g_H = False\<rparr> m \<lparr>go_match = False, go_stdout = [], go_stderr = []\<rparr> [102]
      \<lparr>src_data = [97, 10, 98, 10, 98, 97], src_err = None\<rparr> = Some
      (\<lparr>go_match = (hs \<noteq> []), go_stdout = map (hit_line \<lparr>g_L = False, g_C = False, g_N = True, g_H = False\<rparr> [102]) hs,
        go_stderr = []\<rparr>, m'))"
  using grep_reader_correct[of prog_a "\<lparr>src_data = [97, 10, 98, 10, 98, 97], src_err = None\<rparr>"
      "\<lparr>g_L = False, g_C = False, g_N = True, g_H = False\<rparr>" "\<lparr>go_match = False, go_stdout = [], go_stderr = []\<rparr>" "[102]"]
    prog_a_ok prog_a_quiet short_text[of "[97, 10, 98, 10, 98, 97]"]
  by (simp add: Let_def bufcap_def complaint_def)

end
