(* ===== verification/Shard_Cache.thy ===== *)
theory Shard_Cache
  imports Prelude
begin

text \<open>
  \<^verbatim>\<open>cmd/cindex-serve/cache/cache.go\<close>: the cache of loaded shards. Every load has one object, which
  stands for the \<^verbatim>\<open>loading\<close> value and for the \<^verbatim>\<open>entry\<close> in it; a reference says through which of the two
  pointers it is used. The lock makes each of the operations below one step; what the loader returns
  and when it does is a step of its own, \<open>finish\<close>.

  The value \<open>None\<close> of an operation is a run-time panic.
\<close>

subsection \<open>State\<close>

datatype ref = Loading nat | Loaded nat

record 'k entry =
  e_key :: 'k
  e_size :: int  \<comment> \<open>\<^verbatim>\<open>len(e.body)\<close>\<close>
  e_count :: int
  e_element :: bool  \<comment> \<open>\<^verbatim>\<open>e.element != nil\<close>\<close>
  l_done :: bool
  l_err :: bool
  l_cancelled :: bool

record 'k Cache =
  c_items :: "'k \<Rightarrow> ref option"
  c_lru :: "nat list"
  c_available :: int
  c_inLRU :: int
  c_inUse :: int
  c_objs :: "'k entry list"

record LoadParams =
  lp_Start :: int
  lp_Length :: int
  lp_IgnoreLimit :: bool

definition New :: "int \<Rightarrow> 'k Cache" where
  "New available = \<lparr>c_items = (\<lambda>_. None), c_lru = [], c_available = available, c_inLRU = 0, c_inUse = 0, c_objs = []\<rparr>"

definition upd_obj :: "'k Cache \<Rightarrow> nat \<Rightarrow> ('k entry \<Rightarrow> 'k entry) \<Rightarrow> 'k Cache" where
  "upd_obj c i f = c\<lparr>c_objs := (c_objs c)[i := f (c_objs c ! i)]\<rparr>"

subsection \<open>Entries\<close>

text \<open>\<^verbatim>\<open>entry.acquire\<close>; the element of an entry that was evicted is not in the list any more, and
  removing it again does nothing.\<close>

definition entry_acquire :: "'k Cache \<Rightarrow> nat \<Rightarrow> 'k Cache option" where
  "entry_acquire c i =
     (let c = upd_obj c i (\<lambda>e. e\<lparr>e_count := e_count e + 1\<rparr>); e = c_objs c ! i in
      if e_count e = 1 then
        let tokens = e_size e;
            c = c\<lparr>c_inLRU := c_inLRU c - tokens, c_inUse := c_inUse c + tokens\<rparr>
        in if \<not> e_element e then None
           else Some (upd_obj (c\<lparr>c_lru := remove1 i (c_lru c)\<rparr>) i (\<lambda>e. e\<lparr>e_element := False\<rparr>))
      else Some c)"

definition innerAcquire :: "'k Cache \<Rightarrow> 'k \<Rightarrow> (ref option \<times> 'k Cache) option" where
  "innerAcquire c key = (case c_items c key of
     None \<Rightarrow> Some (None, c)
   | Some (Loading i) \<Rightarrow> map_option (\<lambda>c. (Some (Loading i), c)) (entry_acquire c i)
   | Some (Loaded i) \<Rightarrow> map_option (\<lambda>c. (Some (Loaded i), c)) (entry_acquire c i))"

text \<open>An entry with no more users goes to the front of the list.\<close>

definition to_lru :: "'k Cache \<Rightarrow> nat \<Rightarrow> 'k Cache" where
  "to_lru c i =
     (let tokens = e_size (c_objs c ! i);
          c = upd_obj (c\<lparr>c_lru := i # c_lru c\<rparr>) i (\<lambda>e. e\<lparr>e_element := True\<rparr>)
      in c\<lparr>c_inLRU := c_inLRU c + tokens, c_inUse := c_inUse c - tokens\<rparr>)"

subsection \<open>Clients\<close>

record 'k prepare =
  p_key :: 'k
  p_params :: LoadParams
  p_entry :: "ref option"

datatype 'k handle = Prepare "'k prepare" | Ref ref

definition Acquire :: "'k Cache \<Rightarrow> 'k \<Rightarrow> LoadParams \<Rightarrow> ('k handle \<times> 'k Cache) option" where
  "Acquire c key params =
     map_option (\<lambda>(e, c). (case e of None \<Rightarrow> Prepare \<lparr>p_key = key, p_params = params, p_entry = None\<rparr> | Some e \<Rightarrow> Ref e, c))
       (innerAcquire c key)"

text \<open>The loop that evicts entries, least recently used first, and its body.\<close>

definition evict_one :: "'k Cache \<Rightarrow> 'k Cache option" where
  "evict_one c =
     (let key = e_key (c_objs c ! List.last (c_lru c)); c = c\<lparr>c_lru := butlast (c_lru c)\<rparr> in
      case c_items c key of
        Some (Loaded i) \<Rightarrow>
          let n = e_size (c_objs c ! i)
          in Some (c\<lparr>c_available := c_available c + n, c_inLRU := c_inLRU c - n, c_items := (c_items c)(key := None)\<rparr>)
      | _ \<Rightarrow> None)"

lemma evict_one_lru: "evict_one c = Some c' \<Longrightarrow> c_lru c' = butlast (c_lru c)"
  by (auto simp: evict_one_def Let_def split: option.splits ref.splits)

function evict :: "'k Cache \<Rightarrow> int \<Rightarrow> 'k Cache option" where
  "evict c tokens =
     (if c_available c < tokens \<and> length (c_lru c) > 0 then Option.bind (evict_one c) (\<lambda>c. evict c tokens)
      else Some c)"
  by pat_completeness auto
termination by (relation "measure (\<lambda>(c, tokens). length (c_lru c))") (auto dest: evict_one_lru)

declare evict.simps [simp del]

datatype load_err = BadParams | ErrMemoryPressure

definition tryLoad :: "'k Cache \<Rightarrow> 'k \<Rightarrow> LoadParams \<Rightarrow> ((load_err + ref) \<times> 'k Cache) option" where
  "tryLoad c key params =
     (if lp_Start params < 0 \<or> lp_Length params < 0 then Some (Inl BadParams, c)
      else Option.bind (innerAcquire c key) (\<lambda>(e, c). case e of
        Some e \<Rightarrow> Some (Inr e, c)
      | None \<Rightarrow>
          let tokens = lp_Length params in
          if \<not> lp_IgnoreLimit params \<and> c_available c + c_inLRU c < tokens then Some (Inl ErrMemoryPressure, c)
          else Option.bind (evict c tokens) (\<lambda>c.
            let i = length (c_objs c);
                l = \<lparr>e_key = key, e_size = lp_Length params, e_count = 1, e_element = False,
                     l_done = False, l_err = False, l_cancelled = False\<rparr>
            in Some (Inr (Loading i), c\<lparr>c_available := c_available c - tokens, c_inUse := c_inUse c + tokens,
                 c_objs := c_objs c @ [l], c_items := (c_items c)(key \<mapsto> Loading i)\<rparr>))))"

text \<open>\<^verbatim>\<open>Release\<close> up to the wait for the end of a cancelled load.\<close>

definition Release_ref :: "'k Cache \<Rightarrow> ref \<Rightarrow> 'k Cache" where
  "Release_ref c r = (case r of
     Loading i \<Rightarrow>
       let c = upd_obj c i (\<lambda>e. e\<lparr>e_count := e_count e - 1\<rparr>); e = c_objs c ! i in
       if e_count e \<noteq> 0 then c
       else if l_done e then (if \<not> l_err e then to_lru c i else c)
       else (upd_obj c i (\<lambda>e. e\<lparr>l_cancelled := True\<rparr>))\<lparr>c_items := (c_items c)(e_key e := None)\<rparr>
   | Loaded i \<Rightarrow>
       let c = upd_obj c i (\<lambda>e. e\<lparr>e_count := e_count e - 1\<rparr>)
       in if e_count (c_objs c ! i) = 0 then to_lru c i else c)"

definition Release :: "'k Cache \<Rightarrow> 'k handle \<Rightarrow> 'k Cache" where
  "Release c h = (case h of
     Prepare p \<Rightarrow> (case p_entry p of None \<Rightarrow> c | Some r \<Rightarrow> Release_ref c r)
   | Ref r \<Rightarrow> Release_ref c r)"

text \<open>\<^verbatim>\<open>finish\<close>; \<open>ok\<close> says that the loader gave no error and the checksum is right.\<close>

definition finish :: "'k Cache \<Rightarrow> nat \<Rightarrow> bool \<Rightarrow> 'k Cache" where
  "finish c i ok =
     (let e = c_objs c ! i;
          c = (if \<not> ok then
                 let tokens = e_size e in
                 upd_obj (c\<lparr>c_items := (c_items c)(e_key e := None), c_inUse := c_inUse c - tokens,
                   c_available := c_available c + tokens\<rparr>) i (\<lambda>e. e\<lparr>e_size := 0\<rparr>)
               else if e_count e > 0 then c\<lparr>c_items := (c_items c)(e_key e \<mapsto> Loaded i)\<rparr>
               else c)
      in upd_obj c i (\<lambda>e. e\<lparr>l_done := True, l_err := \<not> ok\<rparr>))"

subsection \<open>Reading\<close>

datatype get_result = Blocks | GetError | GetBody nat | GetCtxErr

text \<open>The results \<^verbatim>\<open>Get\<close> may have: the select of a \<^verbatim>\<open>loading\<close> takes any of the cases that are ready.\<close>

definition Get_ref :: "'k Cache \<Rightarrow> ref \<Rightarrow> bool \<Rightarrow> get_result set" where
  "Get_ref c r ctxDone = (case r of
     Loaded i \<Rightarrow> {GetBody i}
   | Loading i \<Rightarrow>
       let e = c_objs c ! i;
           done = (if l_done e then {if l_err e then GetError else GetBody i} else {});
           ctx = (if ctxDone then {GetCtxErr} else {})
       in if done \<union> ctx = {} then {Blocks} else done \<union> ctx)"

text \<open>\<^verbatim>\<open>prepare.Get\<close> up to the call of \<^verbatim>\<open>p.entry.Get\<close>; \<open>len\<close> and \<open>lenErr\<close> are what the loader returns for the
  size. \<open>Inl None\<close> is the error of the loader.\<close>

definition Get_prepare ::
  "'k Cache \<Rightarrow> 'k prepare \<Rightarrow> int \<Rightarrow> bool \<Rightarrow> ((load_err option + ref) \<times> 'k prepare \<times> 'k Cache) option" where
  "Get_prepare c p len lenErr =
     (case p_entry p of
        Some r \<Rightarrow> Some (Inr r, p, c)
      | None \<Rightarrow>
          let ask = (lp_Length (p_params p) = 0);
              p = (if ask then p\<lparr>p_params := (p_params p)\<lparr>lp_Length := len\<rparr>\<rparr> else p)
          in if ask \<and> lenErr then Some (Inl None, p, c)
             else map_option (\<lambda>(r, c). case r of
                 Inl err \<Rightarrow> (Inl (Some err), p, c)
               | Inr r \<Rightarrow> (Inr r, p\<lparr>p_entry := Some r\<rparr>, c))
               (tryLoad c (p_key p) (p_params p)))"

end
