(* ===== verification/Shard_Cache_Correct.thy ===== *)
theory Shard_Cache_Correct
  imports Shard_Cache
begin

text \<open>
  The shard cache as a state machine: clients acquire, load and release, and loads finish, in any
  order. The token account always adds up. In an orderly history, where a load that all its clients have
  given up fails and its key is not loaded again before that, no operation panics, and the
  three counters are exactly the free, cached and used space.
\<close>

subsection \<open>Histories\<close>

datatype 'k event = EAcquire 'k LoadParams | ELoad 'k LoadParams | ERelease ref | EFinish nat bool

text \<open>The cache and the number of references the clients hold.\<close>

record 'k sys =
  s_cache :: "'k Cache"
  s_hold :: "ref \<Rightarrow> nat"

definition start :: "int \<Rightarrow> 'k sys" where
  "start n = \<lparr>s_cache = New n, s_hold = (\<lambda>_. 0)\<rparr>"

definition hold_handle :: "'k handle \<Rightarrow> (ref \<Rightarrow> nat) \<Rightarrow> ref \<Rightarrow> nat" where
  "hold_handle h f = (case h of Ref r \<Rightarrow> f(r := f r + 1) | Prepare _ \<Rightarrow> f)"

definition do_event :: "'k sys \<Rightarrow> 'k event \<Rightarrow> 'k sys option" where
  "do_event s ev = (case ev of
     EAcquire key params \<Rightarrow>
       map_option (\<lambda>(h, c). \<lparr>s_cache = c, s_hold = hold_handle h (s_hold s)\<rparr>) (Acquire (s_cache s) key params)
   | ELoad key params \<Rightarrow>
       map_option (\<lambda>(r, c). \<lparr>s_cache = c, s_hold = (case r of Inl _ \<Rightarrow> s_hold s | Inr r \<Rightarrow> (s_hold s)(r := s_hold s r + 1))\<rparr>)
         (tryLoad (s_cache s) key params)
   | ERelease r \<Rightarrow> Some \<lparr>s_cache = Release_ref (s_cache s) r, s_hold = (s_hold s)(r := s_hold s r - 1)\<rparr>
   | EFinish i ok \<Rightarrow> Some \<lparr>s_cache = finish (s_cache s) i ok, s_hold = s_hold s\<rparr>)"

fun run :: "'k sys \<Rightarrow> 'k event list \<Rightarrow> 'k sys option" where
  "run s [] = Some s"
| "run s (ev # evs) = Option.bind (do_event s ev) (\<lambda>s. run s evs)"

text \<open>A client releases what it holds, and a load finishes once.\<close>

definition legal :: "'k sys \<Rightarrow> 'k event \<Rightarrow> bool" where
  "legal s ev = (case ev of
     ERelease r \<Rightarrow> s_hold s r > 0
   | EFinish i ok \<Rightarrow> i < length (c_objs (s_cache s)) \<and> \<not> l_done (c_objs (s_cache s) ! i)
   | _ \<Rightarrow> True)"

definition tidy :: "'k sys \<Rightarrow> 'k event \<Rightarrow> bool" where
  "tidy s ev = (case ev of
     EFinish i ok \<Rightarrow> \<not> (e_count (c_objs (s_cache s) ! i) = 0 \<and> ok)
   | ELoad key params \<Rightarrow> \<not> list_ex (\<lambda>e. e_key e = key \<and> \<not> l_done e \<and> e_count e = 0) (c_objs (s_cache s))
   | _ \<Rightarrow> True)"

fun orderly :: "'k sys \<Rightarrow> 'k event list \<Rightarrow> bool" where
  "orderly s [] = True"
| "orderly s (ev # evs) = (legal s ev \<and> tidy s ev \<and> (case do_event s ev of None \<Rightarrow> True | Some s \<Rightarrow> orderly s evs))"

subsection \<open>The account\<close>

definition account :: "'k Cache \<Rightarrow> int" where
  "account c = c_available c + c_inLRU c + c_inUse c"

lemma account_upd_obj [simp]: "account (upd_obj c i f) = account c"
  by (simp add: account_def upd_obj_def)

lemma upd_obj_fields [simp]:
  "c_items (upd_obj c i f) = c_items c" "c_lru (upd_obj c i f) = c_lru c" "c_available (upd_obj c i f) = c_available c"
  "c_inLRU (upd_obj c i f) = c_inLRU c" "c_inUse (upd_obj c i f) = c_inUse c"
  "length (c_objs (upd_obj c i f)) = length (c_objs c)"
  by (simp_all add: upd_obj_def)

lemma account_acquire: "entry_acquire c i = Some c' \<Longrightarrow> account c' = account c"
  by (auto simp: entry_acquire_def Let_def account_def split: if_splits)

lemma account_innerAcquire: "innerAcquire c key = Some (r, c') \<Longrightarrow> account c' = account c"
  by (auto simp: innerAcquire_def account_acquire split: option.splits ref.splits)

lemma account_evict: "evict c tokens = Some c' \<Longrightarrow> account c' = account c"
proof (induction c tokens rule: evict.induct)
  case (1 c tokens)
  show ?case
  proof (cases "c_available c < tokens \<and> length (c_lru c) > 0")
    case True
    then obtain c1 where c1: "evict_one c = Some c1" "evict c1 tokens = Some c'"
      using "1.prems" by (subst (asm) evict.simps) (auto split: bind_splits)
    then have "account c1 = account c" by (auto simp: evict_one_def Let_def account_def split: option.splits ref.splits)
    with "1.IH"[OF True c1] show ?thesis by simp
  next
    case False
    with "1.prems" show ?thesis by (subst (asm) evict.simps) auto
  qed
qed

lemma account_to_lru: "account (to_lru c i) = account c"
  by (simp add: to_lru_def Let_def account_def)

lemma account_do_event: "do_event s ev = Some s' \<Longrightarrow> account (s_cache s') = account (s_cache s)"
proof (cases ev)
  case (EAcquire key params)
  assume "do_event s ev = Some s'"
  with EAcquire show ?thesis by (auto simp: do_event_def Acquire_def account_innerAcquire)
next
  case (ELoad key params)
  assume "do_event s ev = Some s'"
  with ELoad show ?thesis
    by (auto simp: do_event_def tryLoad_def Let_def split: if_splits bind_splits option.splits
        dest!: account_innerAcquire account_evict) (auto simp: account_def)
next
  case (ERelease r)
  assume "do_event s ev = Some s'"
  with ERelease show ?thesis
    by (cases r) (auto simp: do_event_def Release_ref_def Let_def account_to_lru, auto simp: account_def)
next
  case (EFinish i ok)
  assume "do_event s ev = Some s'"
  with EFinish show ?thesis by (auto simp: do_event_def finish_def Let_def, auto simp: account_def)
qed

lemma account_run: "run s0 evs = Some s \<Longrightarrow> account (s_cache s) = account (s_cache s0)"
proof (induction evs arbitrary: s0)
  case (Cons ev evs)
  then obtain s1 where "do_event s0 ev = Some s1" "run s1 evs = Some s" by (auto simp: bind_eq_Some_conv)
  with Cons.IH[of s1] account_do_event[of s0 ev s1] show ?case by metis
qed simp

lemma run_append: "run s (evs @ evs') = Option.bind (run s evs) (\<lambda>s. run s evs')"
proof (induction evs arbitrary: s)
  case (Cons ev evs)
  then show ?case by (cases "do_event s ev") simp_all
qed simp

text \<open>C34. The tokens of the cache are never lost or made up: whatever the clients and loaders do, free, cached and
  used space add up to the space the cache was made with.\<close>

theorem cache_tokens_conserved:
  assumes "run (start n) evs = Some s"
  shows "c_available (s_cache s) + c_inLRU (s_cache s) + c_inUse (s_cache s) = n"
  using account_run[OF assms] by (simp add: start_def New_def account_def)

subsection \<open>The invariant of orderly histories\<close>

definition used_size :: "'k entry \<Rightarrow> int" where
  "used_size e = (if \<not> l_done e \<or> \<not> l_err e \<and> e_count e > 0 then e_size e else 0)"

definition obj_inv :: "('k \<Rightarrow> ref option) \<Rightarrow> nat list \<Rightarrow> (ref \<Rightarrow> nat) \<Rightarrow> nat \<Rightarrow> 'k entry \<Rightarrow> bool" where
  "obj_inv items lru hold i e \<longleftrightarrow>
     e_count e = int (hold (Loading i)) + int (hold (Loaded i)) \<and> 0 \<le> e_size e
   \<and> (hold (Loaded i) > 0 \<longrightarrow> l_done e \<and> \<not> l_err e)
   \<and> (\<not> l_done e \<longrightarrow> items (e_key e) = (if e_count e > 0 then Some (Loading i) else None))
   \<and> (l_done e \<and> \<not> l_err e \<and> e_count e > 0 \<longrightarrow> items (e_key e) = Some (Loaded i))
   \<and> (i \<in> set lru \<longleftrightarrow> items (e_key e) = Some (Loaded i) \<and> e_count e = 0)
   \<and> (i \<in> set lru \<longrightarrow> l_done e \<and> \<not> l_err e \<and> e_element e)"

definition item_inv :: "'k entry list \<Rightarrow> 'k \<Rightarrow> ref \<Rightarrow> bool" where
  "item_inv objs key r = (case r of
     Loading i \<Rightarrow> i < length objs \<and> e_key (objs ! i) = key \<and> \<not> l_done (objs ! i)
   | Loaded i \<Rightarrow> i < length objs \<and> e_key (objs ! i) = key \<and> l_done (objs ! i) \<and> \<not> l_err (objs ! i))"

definition cache_inv :: "'k Cache \<Rightarrow> (ref \<Rightarrow> nat) \<Rightarrow> bool" where
  "cache_inv c hold \<longleftrightarrow>
     (\<forall>i < length (c_objs c). obj_inv (c_items c) (c_lru c) hold i (c_objs c ! i))
   \<and> (\<forall>key r. c_items c key = Some r \<longrightarrow> item_inv (c_objs c) key r)
   \<and> distinct (c_lru c) \<and> (\<forall>i \<in> set (c_lru c). i < length (c_objs c))
   \<and> (\<forall>i. length (c_objs c) \<le> i \<longrightarrow> hold (Loading i) = 0 \<and> hold (Loaded i) = 0)
   \<and> c_inLRU c = (\<Sum>i \<in> set (c_lru c). e_size (c_objs c ! i))
   \<and> c_inUse c = (\<Sum>i < length (c_objs c). used_size (c_objs c ! i))"

text \<open>The objects behind the current value of their key.\<close>

definition owns :: "'k Cache \<Rightarrow> nat \<Rightarrow> bool" where
  "owns c i \<longleftrightarrow> c_items c (e_key (c_objs c ! i)) \<in> {Some (Loading i), Some (Loaded i)}"

lemma inv_obj: "cache_inv c hold \<Longrightarrow> i < length (c_objs c) \<Longrightarrow> obj_inv (c_items c) (c_lru c) hold i (c_objs c ! i)"
  by (simp add: cache_inv_def)

lemma inv_item: "cache_inv c hold \<Longrightarrow> c_items c key = Some r \<Longrightarrow> item_inv (c_objs c) key r"
  by (simp add: cache_inv_def)

lemma obj_inv_other:
  assumes "obj_inv items lru hold j e" and "hold' (Loading j) = hold (Loading j)" "hold' (Loaded j) = hold (Loaded j)"
    and "j \<in> set lru' \<longleftrightarrow> j \<in> set lru" and "items' (e_key e) = items (e_key e)"
  shows "obj_inv items' lru' hold' j e"
  using assms(1) unfolding obj_inv_def assms(2-5) .

text \<open>Another object with the key of an owner is retired.\<close>

lemma obj_inv_retired:
  assumes "obj_inv items lru hold j e" and "hold' (Loading j) = hold (Loading j)" "hold' (Loaded j) = hold (Loaded j)"
    and "j \<in> set lru' \<longleftrightarrow> j \<in> set lru" and "items (e_key e) \<in> {Some (Loading i), Some (Loaded i)}" "i \<noteq> j"
    and "items' (e_key e) \<in> {None, Some (Loading i), Some (Loaded i)}"
  shows "obj_inv items' lru' hold' j e"
proof -
  note inv = assms(1)[unfolded obj_inv_def]
  have old: "items (e_key e) \<noteq> None" "items (e_key e) \<noteq> Some (Loading j)" "items (e_key e) \<noteq> Some (Loaded j)"
    and new: "items' (e_key e) \<noteq> Some (Loaded j)"
    using assms(5-7) by auto
  have r: "l_done e" "\<not> (l_done e \<and> \<not> l_err e \<and> e_count e > 0)" "j \<notin> set lru"
    using inv old by metis+
  from inv r new show ?thesis unfolding obj_inv_def assms(2,3,4) by blast
qed

lemma sum_change:
  fixes f g :: "nat \<Rightarrow> int"
  assumes "finite A" "finite B" "A - {i} = B - {i}" "\<And>j. j \<in> A \<Longrightarrow> j \<noteq> i \<Longrightarrow> g j = f j"
  shows "(\<Sum>j \<in> B. g j) = (\<Sum>j \<in> A. f j) - (if i \<in> A then f i else 0) + (if i \<in> B then g i else 0)"
proof -
  have split_sum: "(\<Sum>j \<in> C. h j) = (\<Sum>j \<in> C - {i}. h j) + (if i \<in> C then h i else 0)" if "finite C" for C and h :: "nat \<Rightarrow> int"
    using sum.remove[OF that, of i h] by auto
  have "(\<Sum>j \<in> B - {i}. g j) = (\<Sum>j \<in> A - {i}. f j)" using assms(3,4) by (intro sum.cong) auto
  with split_sum[OF assms(1), of f] split_sum[OF assms(2), of g] show ?thesis by simp
qed

lemma cache_inv_step:
  assumes inv: "cache_inv c hold" and i: "i < length (c_objs c)"
    and objs: "c_objs c' = (c_objs c)[i := e']" "e_key e' = e_key (c_objs c ! i)"
    and items: "c_items c' = c_items c
      \<or> owns c i \<and> x \<in> {None, Some (Loading i), Some (Loaded i)} \<and> c_items c' = (c_items c)(e_key e' := x)"
    and lru: "set (c_lru c') - {i} = set (c_lru c) - {i}" "distinct (c_lru c')"
    and hold: "\<And>j. j \<noteq> i \<Longrightarrow> hold' (Loading j) = hold (Loading j)" "\<And>j. j \<noteq> i \<Longrightarrow> hold' (Loaded j) = hold (Loaded j)"
    and obj: "obj_inv (c_items c') (c_lru c') hold' i e'"
    and item: "\<And>r. c_items c' (e_key e') = Some r \<Longrightarrow> r \<in> {Loading i, Loaded i} \<Longrightarrow> item_inv ((c_objs c)[i := e']) (e_key e') r"
    and inLRU: "c_inLRU c' = c_inLRU c - (if i \<in> set (c_lru c) then e_size (c_objs c ! i) else 0) + (if i \<in> set (c_lru c') then e_size e' else 0)"
    and inUse: "c_inUse c' = c_inUse c - used_size (c_objs c ! i) + used_size e'"
  shows "cache_inv c' hold'"
proof -
  have nth: "c_objs c' ! j = c_objs c ! j" if "j \<noteq> i" for j using that by (simp add: objs(1))
  have nth_i: "c_objs c' ! i = e'" using i by (simp add: objs(1))
  have mem: "j \<in> set (c_lru c') \<longleftrightarrow> j \<in> set (c_lru c)" if "j \<noteq> i" for j using that lru(1) by blast
  have "obj_inv (c_items c') (c_lru c') hold' j (c_objs c' ! j)" if "j < length (c_objs c)" for j
  proof (cases "j = i")
    case True
    with obj nth_i show ?thesis by simp
  next
    case False
    note old = inv_obj[OF inv that]
    show ?thesis
    proof (cases "c_items c' (e_key (c_objs c ! j)) = c_items c (e_key (c_objs c ! j))")
      case True
      then show ?thesis
        unfolding nth[OF False] using mem[OF False] hold[OF False] by (intro obj_inv_other[OF old])
    next
      case changed: False
      with items have "e_key (c_objs c ! j) = e_key e'" "owns c i" "x \<in> {None, Some (Loading i), Some (Loaded i)}"
        "c_items c' (e_key e') = x" by (auto split: if_splits)
      then show ?thesis
        unfolding nth[OF False] using mem[OF False] hold[OF False] False objs(2)
        by (intro obj_inv_retired[OF old, where i = i]) (simp_all add: owns_def)
    qed
  qed
  moreover have "item_inv (c_objs c') key r" if "c_items c' key = Some r" for key r
  proof (cases "r \<in> {Loading i, Loaded i}")
    case True
    show ?thesis
    proof (cases "key = e_key e'")
      case True
      with item[of r] that \<open>r \<in> _\<close> show ?thesis by (simp add: objs(1))
    next
      case False
      then have "c_items c key = Some r" using items that by auto
      from inv_item[OF inv this] \<open>r \<in> _\<close> False objs(2) show ?thesis by (auto simp: item_inv_def)
    qed
  next
    case False
    then have "c_items c key = Some r" using items that by (auto split: if_splits)
    from inv_item[OF inv this] False show ?thesis by (auto simp: item_inv_def objs(1) split: ref.splits)
  qed
  moreover have "j < length (c_objs c')" if "j \<in> set (c_lru c')" for j
    using that mem[of j] inv i by (cases "j = i") (auto simp: cache_inv_def objs(1))
  moreover have "c_inLRU c' = (\<Sum>j \<in> set (c_lru c'). e_size (c_objs c' ! j))"
    using sum_change[of "set (c_lru c)" "set (c_lru c')" i "\<lambda>j. e_size (c_objs c' ! j)" "\<lambda>j. e_size (c_objs c ! j)"]
      lru(1) nth nth_i inLRU inv by (auto simp: cache_inv_def)
  moreover have "c_inUse c' = (\<Sum>j < length (c_objs c'). used_size (c_objs c' ! j))"
    using sum_change[of "{..<length (c_objs c)}" "{..<length (c_objs c)}" i "\<lambda>j. used_size (c_objs c' ! j)" "\<lambda>j. used_size (c_objs c ! j)"]
      nth nth_i inUse inv i by (simp add: cache_inv_def objs(1))
  moreover have "hold' (Loading j) = 0 \<and> hold' (Loaded j) = 0" if "length (c_objs c') \<le> j" for j
    using that i hold[of j] inv by (auto simp: cache_inv_def objs(1))
  ultimately show ?thesis using lru(2) by (simp add: cache_inv_def objs(1))
qed

lemma objs_upd_obj: "c_objs (upd_obj c i f) = (c_objs c)[i := f (c_objs c ! i)]"
  by (simp add: upd_obj_def)

lemma obj_invD:
  assumes "cache_inv c hold" and "i < length (c_objs c)"
  shows "e_count (c_objs c ! i) = int (hold (Loading i)) + int (hold (Loaded i))" "0 \<le> e_size (c_objs c ! i)"
    "hold (Loaded i) > 0 \<Longrightarrow> l_done (c_objs c ! i) \<and> \<not> l_err (c_objs c ! i)"
    "\<not> l_done (c_objs c ! i) \<Longrightarrow> c_items c (e_key (c_objs c ! i)) = (if e_count (c_objs c ! i) > 0 then Some (Loading i) else None)"
    "l_done (c_objs c ! i) \<Longrightarrow> \<not> l_err (c_objs c ! i) \<Longrightarrow> e_count (c_objs c ! i) > 0 \<Longrightarrow>
      c_items c (e_key (c_objs c ! i)) = Some (Loaded i)"
    "i \<in> set (c_lru c) \<longleftrightarrow> c_items c (e_key (c_objs c ! i)) = Some (Loaded i) \<and> e_count (c_objs c ! i) = 0"
    "i \<in> set (c_lru c) \<Longrightarrow> l_done (c_objs c ! i) \<and> \<not> l_err (c_objs c ! i) \<and> e_element (c_objs c ! i)"
  using inv_obj[OF assms] unfolding obj_inv_def by metis+

lemma acquire_again:
  assumes inv: "cache_inv c hold" and i: "i < length (c_objs c)" and pos: "e_count (c_objs c ! i) > 0"
    and r: "r = Loading i \<or> r = Loaded i \<and> l_done (c_objs c ! i) \<and> \<not> l_err (c_objs c ! i)"
  shows "\<exists>c'. entry_acquire c i = Some c' \<and> cache_inv c' (hold(r := hold r + 1)) \<and> c_items c' = c_items c \<and> length (c_objs c') = length (c_objs c)"
proof -
  let ?e = "c_objs c ! i" and ?c = "upd_obj c i (\<lambda>e. e\<lparr>e_count := e_count e + 1\<rparr>)" and ?hold = "hold(r := hold r + 1)"
  let ?e' = "?e\<lparr>e_count := e_count ?e + 1\<rparr>"
  note o = obj_invD[OF inv i]
  have out: "i \<notin> set (c_lru c)" using o(6) pos by simp
  have "obj_inv (c_items ?c) (c_lru ?c) ?hold i ?e'"
    unfolding obj_inv_def using o(1-5) pos out r by auto
  moreover have "item_inv ((c_objs c)[i := ?e']) key q" if "c_items c key = Some q" for key q
    using inv_item[OF inv that] i by (auto simp: item_inv_def nth_list_update split: ref.splits)
  moreover have "?hold (Loading j) = hold (Loading j)" "?hold (Loaded j) = hold (Loaded j)" if "j \<noteq> i" for j
    using r that by auto
  moreover have "distinct (c_lru c)" using inv by (simp add: cache_inv_def)
  ultimately have "cache_inv ?c ?hold"
    by (intro cache_inv_step[OF inv i, where e' = ?e']) (use pos out in \<open>simp_all add: objs_upd_obj used_size_def\<close>)
  moreover have "entry_acquire c i = Some ?c"
    using i pos by (simp add: entry_acquire_def Let_def objs_upd_obj)
  ultimately show ?thesis by simp
qed

lemma acquire_cached:
  assumes inv: "cache_inv c hold" and i: "i < length (c_objs c)" and zero: "e_count (c_objs c ! i) = 0" and lru: "i \<in> set (c_lru c)"
  shows "\<exists>c'. entry_acquire c i = Some c' \<and> cache_inv c' (hold(Loaded i := hold (Loaded i) + 1)) \<and> c_items c' = c_items c
    \<and> length (c_objs c') = length (c_objs c)"
proof -
  let ?e = "c_objs c ! i" and ?hold = "hold(Loaded i := hold (Loaded i) + 1)"
  let ?e' = "?e\<lparr>e_count := 1, e_element := False\<rparr>"
  let ?c = "c\<lparr>c_lru := remove1 i (c_lru c), c_inLRU := c_inLRU c - e_size ?e, c_inUse := c_inUse c + e_size ?e, c_objs := (c_objs c)[i := ?e']\<rparr>"
  note o = obj_invD[OF inv i]
  have d: "distinct (c_lru c)" using inv by (simp add: cache_inv_def)
  have "obj_inv (c_items ?c) (c_lru ?c) ?hold i ?e'"
    unfolding obj_inv_def using o(1,2,6,7) zero lru d by auto
  then have "cache_inv ?c ?hold"
    by (intro cache_inv_step[OF inv i, where e' = ?e'])
      (use zero lru d o(6,7) in \<open>auto simp: used_size_def item_inv_def i\<close>)
  moreover have "entry_acquire c i = Some ?c"
    using i zero o(7)[OF lru] by (simp add: entry_acquire_def Let_def upd_obj_def)
  ultimately show ?thesis by simp
qed

lemma innerAcquire_spec:
  assumes inv: "cache_inv c hold"
  shows "\<exists>r c'. innerAcquire c key = Some (r, c') \<and> length (c_objs c') = length (c_objs c) \<and>
    (case r of None \<Rightarrow> c' = c \<and> c_items c key = None | Some r \<Rightarrow> cache_inv c' (hold(r := hold r + 1)))"
proof (cases "c_items c key")
  case None
  then show ?thesis by (simp add: innerAcquire_def)
next
  case (Some r)
  note item = inv_item[OF inv Some]
  show ?thesis
  proof (cases r)
    case (Loading i)
    then have i: "i < length (c_objs c)" "e_key (c_objs c ! i) = key" "\<not> l_done (c_objs c ! i)" using item by (simp_all add: item_inv_def)
    then have "e_count (c_objs c ! i) > 0" using obj_invD(4)[OF inv i(1,3)] Some Loading by (auto split: if_splits)
    from acquire_again[OF inv i(1) this, of "Loading i"] Some Loading show ?thesis by (auto simp: innerAcquire_def)
  next
    case (Loaded i)
    then have i: "i < length (c_objs c)" "e_key (c_objs c ! i) = key" "l_done (c_objs c ! i)" "\<not> l_err (c_objs c ! i)"
      using item by (simp_all add: item_inv_def)
    show ?thesis
    proof (cases "e_count (c_objs c ! i) > 0")
      case True
      from acquire_again[OF inv i(1) this, of "Loaded i"] Some Loaded i show ?thesis by (auto simp: innerAcquire_def)
    next
      case False
      then have "e_count (c_objs c ! i) = 0" using obj_invD(1)[OF inv i(1)] by simp
      moreover from this have "i \<in> set (c_lru c)" using obj_invD(6)[OF inv i(1)] Some Loaded i(2) by simp
      ultimately show ?thesis using acquire_cached[OF inv i(1)] Some Loaded by (auto simp: innerAcquire_def)
    qed
  qed
qed

subsection \<open>Eviction and loading\<close>

lemma evict_one_spec:
  assumes inv: "cache_inv c hold" and ne: "c_lru c \<noteq> []"
  shows "\<exists>c'. evict_one c = Some c' \<and> cache_inv c' hold \<and> c_objs c' = c_objs c \<and> c_inUse c' = c_inUse c
    \<and> (\<forall>key. c_items c key = None \<longrightarrow> c_items c' key = None)"
proof -
  let ?i = "List.last (c_lru c)"
  have mem: "?i \<in> set (c_lru c)" using ne by simp
  then have i: "?i < length (c_objs c)" and d: "distinct (c_lru c)" using inv by (auto simp: cache_inv_def)
  let ?e = "c_objs c ! ?i"
  let ?c = "c\<lparr>c_lru := butlast (c_lru c), c_available := c_available c + e_size ?e, c_inLRU := c_inLRU c - e_size ?e,
    c_items := (c_items c)(e_key ?e := None)\<rparr>"
  note o = obj_invD[OF inv i]
  have at: "c_items c (e_key ?e) = Some (Loaded ?i)" "e_count ?e = 0" using o(6) mem by simp_all
  obtain l where l: "c_lru c = l @ [?i]" using ne by (metis append_butlast_last_id)
  then have out: "?i \<notin> set (butlast (c_lru c))" "set (butlast (c_lru c)) = set (c_lru c) - {?i}"
    using d by (metis butlast_snoc distinct_append disjoint_insert(1) list.simps(15), metis Diff_insert_absorb butlast_snoc distinct_append
      disjoint_insert(1) empty_set list.simps(15) set_append Un_insert_right sup_bot_right)
  have "obj_inv (c_items ?c) (c_lru ?c) hold ?i ?e"
    unfolding obj_inv_def using o(1-3,7) mem at out(1) by auto
  then have "cache_inv ?c hold"
    by (intro cache_inv_step[OF inv i, where e' = ?e and x = None])
      (use mem at out d in \<open>auto simp: owns_def distinct_butlast\<close>)
  moreover have "evict_one c = Some ?c" using at by (simp add: evict_one_def Let_def)
  ultimately show ?thesis by auto
qed

lemma evict_spec:
  "cache_inv c hold \<Longrightarrow> \<exists>c'. evict c tokens = Some c' \<and> cache_inv c' hold \<and> c_objs c' = c_objs c \<and> c_inUse c' = c_inUse c
    \<and> (\<forall>key. c_items c key = None \<longrightarrow> c_items c' key = None) \<and> (c_available c' < tokens \<longrightarrow> c_lru c' = [])"
proof (induction c tokens rule: evict.induct)
  case (1 c tokens)
  show ?case
  proof (cases "c_available c < tokens \<and> length (c_lru c) > 0")
    case True
    then obtain c1 where c1: "evict_one c = Some c1" "cache_inv c1 hold" "c_objs c1 = c_objs c" "c_inUse c1 = c_inUse c"
      "\<And>key. c_items c key = None \<Longrightarrow> c_items c1 key = None"
      using evict_one_spec[OF "1.prems"] by auto
    have "evict c tokens = evict c1 tokens" using True c1(1) by (subst evict.simps) simp
    with "1.IH"[OF True c1(1,2)] c1(3-5) show ?thesis by auto
  next
    case False
    then have "evict c tokens = Some c" by (subst evict.simps) auto
    with False "1.prems" show ?thesis by auto
  qed
qed

lemma add_load_inv:
  assumes inv: "cache_inv c hold" and fresh: "c_items c key = None" and size: "0 \<le> n"
    and tidy: "\<not> list_ex (\<lambda>e. e_key e = key \<and> \<not> l_done e \<and> e_count e = 0) (c_objs c)"
  shows "cache_inv (c\<lparr>c_available := a, c_inUse := c_inUse c + n, c_objs := c_objs c @
      [\<lparr>e_key = key, e_size = n, e_count = 1, e_element = False, l_done = False, l_err = False, l_cancelled = False\<rparr>],
      c_items := (c_items c)(key \<mapsto> Loading (length (c_objs c)))\<rparr>)
    (hold(Loading (length (c_objs c)) := hold (Loading (length (c_objs c))) + 1))"
    (is "cache_inv ?c ?hold")
proof -
  let ?n = "length (c_objs c)"
  let ?e = "\<lparr>e_key = key, e_size = n, e_count = 1, e_element = False, l_done = False, l_err = False, l_cancelled = False\<rparr>"
  have lru: "distinct (c_lru c)" "\<forall>i \<in> set (c_lru c). i < ?n" and zero: "\<And>i. ?n \<le> i \<Longrightarrow> hold (Loading i) = 0 \<and> hold (Loaded i) = 0"
    using inv by (auto simp: cache_inv_def)
  have "obj_inv (c_items ?c) (c_lru ?c) ?hold i (c_objs ?c ! i)" if "i < length (c_objs ?c)" for i
  proof (cases "i = ?n")
    case True
    then show ?thesis using zero[of ?n] lru size by (auto simp: obj_inv_def)
  next
    case False
    with that have i: "i < ?n" by simp
    have "e_key (c_objs c ! i) \<noteq> key \<or> (l_done (c_objs c ! i) \<and> \<not> (\<not> l_err (c_objs c ! i) \<and> e_count (c_objs c ! i) > 0) \<and> i \<notin> set (c_lru c))"
    proof (cases "e_key (c_objs c ! i) = key")
      case True
      have "l_done (c_objs c ! i)"
      proof (rule ccontr)
        assume nd: "\<not> l_done (c_objs c ! i)"
        with obj_invD(4)[OF inv i nd] True fresh have "\<not> e_count (c_objs c ! i) > 0" by auto
        then have "e_count (c_objs c ! i) = 0" using obj_invD(1)[OF inv i] by simp
        with True nd i tidy show False by (auto simp: list_ex_iff)
      qed
      with obj_invD(5,6)[OF inv i] True fresh show ?thesis by auto
    qed simp
    then show ?thesis
    proof
      assume "e_key (c_objs c ! i) \<noteq> key"
      then have "obj_inv (c_items ?c) (c_lru ?c) ?hold i (c_objs c ! i)"
        by (intro obj_inv_other[OF inv_obj[OF inv i]]) (use i in auto)
      then show ?thesis using i by (simp add: nth_append)
    next
      assume "l_done (c_objs c ! i) \<and> \<not> (\<not> l_err (c_objs c ! i) \<and> e_count (c_objs c ! i) > 0) \<and> i \<notin> set (c_lru c)"
      with obj_invD(1-3,6)[OF inv i] have "obj_inv (c_items ?c) (c_lru ?c) ?hold i (c_objs c ! i)"
        unfolding obj_inv_def using i by auto
      then show ?thesis using i by (simp add: nth_append)
    qed
  qed
  moreover have "item_inv (c_objs ?c) k r" if "c_items ?c k = Some r" for k r
  proof (cases "k = key")
    case True
    with that show ?thesis by (auto simp: item_inv_def)
  next
    case False
    with that have "c_items c k = Some r" by simp
    from inv_item[OF inv this] show ?thesis by (auto simp: item_inv_def nth_append split: ref.splits)
  qed
  moreover have "(\<Sum>i \<in> set (c_lru c). e_size ((c_objs c @ [?e]) ! i)) = (\<Sum>i \<in> set (c_lru c). e_size (c_objs c ! i))"
    using lru(2) by (intro sum.cong) (auto simp: nth_append)
  moreover have "(\<Sum>i < Suc ?n. used_size ((c_objs c @ [?e]) ! i)) = (\<Sum>i < ?n. used_size (c_objs c ! i)) + n"
  proof -
    have "(\<Sum>i < ?n. used_size ((c_objs c @ [?e]) ! i)) = (\<Sum>i < ?n. used_size (c_objs c ! i))"
      by (intro sum.cong) (auto simp: nth_append)
    then show ?thesis by (simp add: used_size_def)
  qed
  ultimately show ?thesis using inv lru zero by (simp add: cache_inv_def less_Suc_eq)
qed

lemma tryLoad_spec:
  assumes inv: "cache_inv c hold"
    and tidy: "\<not> list_ex (\<lambda>e. e_key e = key \<and> \<not> l_done e \<and> e_count e = 0) (c_objs c)"
  shows "\<exists>r c'. tryLoad c key params = Some (r, c') \<and> cache_inv c' (case r of Inl _ \<Rightarrow> hold | Inr r \<Rightarrow> hold(r := hold r + 1))
    \<and> (c_items c key = None \<longrightarrow> \<not> lp_IgnoreLimit params \<longrightarrow> (case r of Inl _ \<Rightarrow> c' = c | Inr _ \<Rightarrow> 0 \<le> c_available c'))"
proof (cases "lp_Start params < 0 \<or> lp_Length params < 0")
  case True
  then show ?thesis using inv by (simp add: tryLoad_def)
next
  case valid: False
  obtain r c1 where acq: "innerAcquire c key = Some (r, c1)"
    "case r of None \<Rightarrow> c1 = c \<and> c_items c key = None | Some r \<Rightarrow> cache_inv c1 (hold(r := hold r + 1))"
    using innerAcquire_spec[OF inv] by blast
  show ?thesis
  proof (cases r)
    case (Some r')
    with acq have "c_items c key \<noteq> None" by (auto simp: innerAcquire_def split: option.splits ref.splits)
    with valid acq Some show ?thesis by (auto simp: tryLoad_def)
  next
    case None
    then have c1: "c1 = c" "c_items c key = None" using acq(2) by simp_all
    show ?thesis
    proof (cases "\<not> lp_IgnoreLimit params \<and> c_available c + c_inLRU c < lp_Length params")
      case True
      with valid acq None c1 inv show ?thesis by (simp add: tryLoad_def Let_def)
    next
      case room: False
      obtain c2 where c2: "evict c (lp_Length params) = Some c2" "cache_inv c2 hold" "c_objs c2 = c_objs c" "c_inUse c2 = c_inUse c"
        "c_items c2 key = None" "c_available c2 < lp_Length params \<Longrightarrow> c_lru c2 = []"
        using evict_spec[OF inv, of "lp_Length params"] c1(2) by blast
      have "0 \<le> c_available c2 - lp_Length params" if "\<not> lp_IgnoreLimit params"
      proof (rule ccontr)
        assume "\<not> ?thesis"
        then have less: "c_available c2 < lp_Length params" by simp
        with c2(6) have "c_inLRU c2 = 0" using c2(2) by (simp add: cache_inv_def)
        moreover have "account c2 = account c" using account_evict[OF c2(1)] .
        ultimately have "c_available c2 = c_available c + c_inLRU c" using c2(4) by (simp add: account_def)
        with room that less show False by simp
      qed
      moreover have "\<not> list_ex (\<lambda>e. e_key e = key \<and> \<not> l_done e \<and> e_count e = 0) (c_objs c2)" using tidy c2(3) by simp
      from add_load_inv[OF c2(2,5) _ this, of "lp_Length params" "c_available c2 - lp_Length params"] valid
      have "cache_inv (c2\<lparr>c_available := c_available c2 - lp_Length params, c_inUse := c_inUse c2 + lp_Length params,
          c_objs := c_objs c2 @ [\<lparr>e_key = key, e_size = lp_Length params, e_count = 1, e_element = False, l_done = False, l_err = False, l_cancelled = False\<rparr>],
          c_items := (c_items c2)(key \<mapsto> Loading (length (c_objs c2)))\<rparr>)
        (hold(Loading (length (c_objs c2)) := hold (Loading (length (c_objs c2))) + 1))" by simp
      ultimately show ?thesis
        using valid acq None c1 room c2(1) by (auto simp: tryLoad_def Let_def)
    qed
  qed
qed

subsection \<open>Releasing\<close>

lemma release_again:
  assumes inv: "cache_inv c hold" and i: "i < length (c_objs c)" and r: "r \<in> {Loading i, Loaded i}" "hold r > 0"
    and pos: "e_count (c_objs c ! i) > 1"
  shows "cache_inv (upd_obj c i (\<lambda>e. e\<lparr>e_count := e_count e - 1\<rparr>)) (hold(r := hold r - 1))" (is "cache_inv ?c ?hold")
proof -
  let ?e = "c_objs c ! i"
  let ?e' = "?e\<lparr>e_count := e_count ?e - 1\<rparr>"
  note o = obj_invD[OF inv i]
  have out: "i \<notin> set (c_lru c)" using o(6) pos by simp
  have dec: "int (hold r - 1) = int (hold r) - 1" using r(2) by simp
  have "obj_inv (c_items ?c) (c_lru ?c) ?hold i ?e'"
    unfolding obj_inv_def using o(1-5) pos out r dec by auto
  moreover have "item_inv ((c_objs c)[i := ?e']) key q" if "c_items c key = Some q" for key q
    using inv_item[OF inv that] i by (auto simp: item_inv_def nth_list_update split: ref.splits)
  moreover have "?hold (Loading j) = hold (Loading j)" "?hold (Loaded j) = hold (Loaded j)" if "j \<noteq> i" for j
    using r that by auto
  moreover have "distinct (c_lru c)" using inv by (simp add: cache_inv_def)
  ultimately show ?thesis
    by (intro cache_inv_step[OF inv i, where e' = ?e']) (use pos out in \<open>simp_all add: objs_upd_obj used_size_def\<close>)
qed

lemma release_last:
  assumes inv: "cache_inv c hold" and i: "i < length (c_objs c)" and r: "r \<in> {Loading i, Loaded i}" "hold r > 0"
    and one: "e_count (c_objs c ! i) = 1" and loaded: "l_done (c_objs c ! i)" "\<not> l_err (c_objs c ! i)"
  shows "cache_inv (to_lru (upd_obj c i (\<lambda>e. e\<lparr>e_count := e_count e - 1\<rparr>)) i) (hold(r := hold r - 1))" (is "cache_inv ?c ?hold")
proof -
  let ?e = "c_objs c ! i"
  let ?e' = "?e\<lparr>e_count := 0, e_element := True\<rparr>"
  note o = obj_invD[OF inv i]
  have out: "i \<notin> set (c_lru c)" using o(6) one by simp
  have at: "c_items c (e_key ?e) = Some (Loaded i)" using o(5) loaded one by simp
  have "hold (Loading i) + hold (Loaded i) = 1" using o(1) one by simp
  then have zero: "?hold (Loading i) = 0" "?hold (Loaded i) = 0" using r by auto
  have c: "c_items ?c = c_items c" "c_lru ?c = i # c_lru c" "c_objs ?c = (c_objs c)[i := ?e']"
    "c_inLRU ?c = c_inLRU c + e_size ?e" "c_inUse ?c = c_inUse c - e_size ?e"
    using i one by (simp_all add: to_lru_def upd_obj_def Let_def)
  have "obj_inv (c_items ?c) (c_lru ?c) ?hold i ?e'"
    unfolding obj_inv_def c zero using o(2) at loaded by simp
  moreover have "item_inv ((c_objs c)[i := ?e']) key q" if "c_items c key = Some q" for key q
    using inv_item[OF inv that] i by (auto simp: item_inv_def nth_list_update split: ref.splits)
  moreover have "?hold (Loading j) = hold (Loading j)" "?hold (Loaded j) = hold (Loaded j)" if "j \<noteq> i" for j
    using r that by auto
  moreover have "distinct (c_lru c)" using inv by (simp add: cache_inv_def)
  ultimately show ?thesis
    by (intro cache_inv_step[OF inv i, where e' = ?e']) (use out one loaded in \<open>simp_all add: c used_size_def\<close>)
qed

lemma release_failed:
  assumes inv: "cache_inv c hold" and i: "i < length (c_objs c)" and r: "hold (Loading i) > 0"
    and one: "e_count (c_objs c ! i) = 1" and failed: "l_done (c_objs c ! i)" "l_err (c_objs c ! i)"
  shows "cache_inv (upd_obj c i (\<lambda>e. e\<lparr>e_count := e_count e - 1\<rparr>)) (hold(Loading i := hold (Loading i) - 1))" (is "cache_inv ?c ?hold")
proof -
  let ?e = "c_objs c ! i"
  let ?e' = "?e\<lparr>e_count := 0\<rparr>"
  note o = obj_invD[OF inv i]
  have c: "c_objs ?c = (c_objs c)[i := ?e']" using one by (simp add: objs_upd_obj)
  have zero: "?hold (Loading i) = 0" "?hold (Loaded i) = 0" using o(1,3) one failed r by auto
  have other: "c_items c (e_key ?e) \<noteq> Some (Loaded i)" using inv_item[OF inv, of "e_key ?e" "Loaded i"] failed by (auto simp: item_inv_def)
  have "obj_inv (c_items ?c) (c_lru ?c) ?hold i ?e'"
    unfolding obj_inv_def zero using o(2,6) other failed by simp
  moreover have "item_inv ((c_objs c)[i := ?e']) key q" if "c_items c key = Some q" for key q
    using inv_item[OF inv that] i by (auto simp: item_inv_def nth_list_update split: ref.splits)
  moreover have "distinct (c_lru c)" using inv by (simp add: cache_inv_def)
  ultimately show ?thesis
    by (intro cache_inv_step[OF inv i, where e' = ?e']) (use one failed o(6) in \<open>simp_all add: c used_size_def\<close>)
qed

lemma release_cancel:
  assumes inv: "cache_inv c hold" and i: "i < length (c_objs c)" and r: "hold (Loading i) > 0"
    and one: "e_count (c_objs c ! i) = 1" and pending: "\<not> l_done (c_objs c ! i)"
  shows "cache_inv (c\<lparr>c_objs := (c_objs c)[i := (c_objs c ! i)\<lparr>e_count := 0, l_cancelled := True\<rparr>],
      c_items := (c_items c)(e_key (c_objs c ! i) := None)\<rparr>) (hold(Loading i := hold (Loading i) - 1))" (is "cache_inv ?c ?hold")
proof -
  let ?e = "c_objs c ! i"
  let ?e' = "?e\<lparr>e_count := 0, l_cancelled := True\<rparr>"
  note o = obj_invD[OF inv i]
  have zero: "?hold (Loading i) = 0" "?hold (Loaded i) = 0" using o(1,3) one pending r by auto
  have "obj_inv (c_items ?c) (c_lru ?c) ?hold i ?e'"
    unfolding obj_inv_def zero using o(2,6) one pending by simp
  moreover have "owns c i" using o(4) one pending by (simp add: owns_def)
  moreover have "distinct (c_lru c)" using inv by (simp add: cache_inv_def)
  ultimately show ?thesis
    by (intro cache_inv_step[OF inv i, where e' = ?e' and x = None]) (use one pending o(6) in \<open>simp_all add: used_size_def\<close>)
qed

lemma held_obj:
  assumes inv: "cache_inv c hold" and r: "hold r > 0"
  obtains i where "r = Loading i \<or> r = Loaded i \<and> l_done (c_objs c ! i) \<and> \<not> l_err (c_objs c ! i)"
    "i < length (c_objs c)" "e_count (c_objs c ! i) \<ge> 1"
proof -
  obtain i where i: "r = Loading i \<or> r = Loaded i" by (cases r) auto
  have len: "i < length (c_objs c)" 
  proof (rule ccontr)
    assume "\<not> ?thesis"
    with inv have "hold (Loading i) = 0 \<and> hold (Loaded i) = 0" by (simp add: cache_inv_def)
    with i r show False by auto
  qed
  have "hold (Loading i) \<ge> 1 \<or> hold (Loaded i) \<ge> 1" using r i by auto
  then have "e_count (c_objs c ! i) \<ge> 1" unfolding obj_invD(1)[OF inv len] by linarith
  moreover have "r = Loaded i \<Longrightarrow> l_done (c_objs c ! i) \<and> \<not> l_err (c_objs c ! i)" using obj_invD(3)[OF inv len] r by blast
  ultimately show thesis using that[of i] i len by blast
qed

lemma Release_ref_spec:
  assumes inv: "cache_inv c hold" and r: "hold r > 0"
  shows "cache_inv (Release_ref c r) (hold(r := hold r - 1))"
proof -
  obtain i where i: "r = Loading i \<or> r = Loaded i \<and> l_done (c_objs c ! i) \<and> \<not> l_err (c_objs c ! i)"
    "i < length (c_objs c)" "e_count (c_objs c ! i) \<ge> 1" using held_obj[OF inv r] by blast
  let ?c = "upd_obj c i (\<lambda>e. e\<lparr>e_count := e_count e - 1\<rparr>)"
  have e: "e_count (c_objs ?c ! i) = e_count (c_objs c ! i) - 1" "l_done (c_objs ?c ! i) = l_done (c_objs c ! i)"
    "l_err (c_objs ?c ! i) = l_err (c_objs c ! i)" "e_key (c_objs ?c ! i) = e_key (c_objs c ! i)"
    using i(2) by (simp_all add: objs_upd_obj)
  show ?thesis
  proof (cases "e_count (c_objs c ! i) = 1")
    case False
    then have "Release_ref c r = ?c" using i(1) e by (auto simp: Release_ref_def Let_def)
    with release_again[OF inv i(2) _ r] False i show ?thesis by auto
  next
    case one: True
    show ?thesis
    proof (cases "l_done (c_objs c ! i)")
      case fin: True
      show ?thesis
      proof (cases "l_err (c_objs c ! i)")
        case True
        with i(1) one fin e have "r = Loading i" "Release_ref c r = ?c" by (auto simp: Release_ref_def Let_def)
        with release_failed[OF inv i(2) _ one fin True] r show ?thesis by simp
      next
        case False
        then have "Release_ref c r = to_lru ?c i" using i(1) one fin e by (auto simp: Release_ref_def Let_def)
        with release_last[OF inv i(2) _ r one fin False] i(1) show ?thesis by auto
      qed
    next
      case False
      with i(1) have "r = Loading i" by auto
      moreover have "Release_ref c (Loading i) = c\<lparr>c_objs := (c_objs c)[i := (c_objs c ! i)\<lparr>e_count := 0, l_cancelled := True\<rparr>],
          c_items := (c_items c)(e_key (c_objs c ! i) := None)\<rparr>"
        using False one i(2) by (simp add: Release_ref_def Let_def upd_obj_def)
      ultimately show ?thesis using release_cancel[OF inv i(2) _ one False] r by simp
    qed
  qed
qed

subsection \<open>The end of a load\<close>

lemma finish_spec:
  assumes inv: "cache_inv c hold" and i: "i < length (c_objs c)" and pending: "\<not> l_done (c_objs c ! i)"
    and tidy: "\<not> (e_count (c_objs c ! i) = 0 \<and> ok)"
  shows "cache_inv (finish c i ok) hold"
proof -
  let ?e = "c_objs c ! i"
  note o = obj_invD[OF inv i]
  have d: "distinct (c_lru c)" using inv by (simp add: cache_inv_def)
  have out: "i \<notin> set (c_lru c)" using o(7) pending by blast
  have hold0: "hold (Loaded i) = 0" using o(3) pending by blast
  have nn: "0 \<le> e_count ?e" using o(1) by simp
  show ?thesis
  proof (cases ok)
    case True
    let ?e' = "?e\<lparr>l_done := True, l_err := False\<rparr>"
    have pos: "e_count ?e > 0" using tidy True nn by simp
    let ?c = "c\<lparr>c_items := (c_items c)(e_key ?e \<mapsto> Loaded i), c_objs := (c_objs c)[i := ?e']\<rparr>"
    have "finish c i ok = ?c" using True pos i by (simp add: finish_def Let_def upd_obj_def)
    moreover have "obj_inv (c_items ?c) (c_lru ?c) hold i ?e'"
      unfolding obj_inv_def using o(1,2) out pos hold0 by simp
    moreover have "owns c i" using o(4) pending pos by (simp add: owns_def)
    ultimately show ?thesis
      by (simp only:, intro cache_inv_step[OF inv i, where e' = ?e' and x = "Some (Loaded i)"])
        (use pos out d pending i in \<open>auto simp: used_size_def item_inv_def\<close>)
  next
    case False
    let ?e' = "?e\<lparr>e_size := 0, l_done := True, l_err := True\<rparr>"
    let ?c = "c\<lparr>c_items := (c_items c)(e_key ?e := None), c_inUse := c_inUse c - e_size ?e, c_available := c_available c + e_size ?e,
      c_objs := (c_objs c)[i := ?e']\<rparr>"
    have "finish c i ok = ?c" using False i by (simp add: finish_def Let_def upd_obj_def)
    moreover have "obj_inv (c_items ?c) (c_lru ?c) hold i ?e'"
      unfolding obj_inv_def using o(1) out hold0 by simp
    moreover have "c_items ?c = c_items c \<or> owns c i"
    proof (cases "e_count ?e > 0")
      case True
      then show ?thesis using o(4) pending by (simp add: owns_def)
    next
      case False
      then show ?thesis using o(4) pending by auto
    qed
    ultimately show ?thesis
      by (simp only:, intro cache_inv_step[OF inv i, where e' = ?e' and x = None])
        (use out d pending i in \<open>auto simp: used_size_def\<close>)
  qed
qed

subsection \<open>Orderly histories\<close>

lemma do_event_spec:
  assumes inv: "cache_inv (s_cache s) (s_hold s)" and ok: "legal s ev" "tidy s ev"
  shows "\<exists>s'. do_event s ev = Some s' \<and> cache_inv (s_cache s') (s_hold s')"
proof (cases ev)
  case (EAcquire key params)
  obtain r c where "innerAcquire (s_cache s) key = Some (r, c)"
    "case r of None \<Rightarrow> c = s_cache s \<and> c_items (s_cache s) key = None | Some r \<Rightarrow> cache_inv c ((s_hold s)(r := s_hold s r + 1))"
    using innerAcquire_spec[OF inv] by blast
  with EAcquire inv show ?thesis by (cases r) (auto simp: do_event_def Acquire_def hold_handle_def)
next
  case (ELoad key params)
  with ok(2) have "\<not> list_ex (\<lambda>e. e_key e = key \<and> \<not> l_done e \<and> e_count e = 0) (c_objs (s_cache s))" by (simp add: tidy_def)
  from tryLoad_spec[OF inv this, of params] obtain r c where
    "tryLoad (s_cache s) key params = Some (r, c)"
    "cache_inv c (case r of Inl _ \<Rightarrow> s_hold s | Inr r \<Rightarrow> (s_hold s)(r := s_hold s r + 1))" by blast
  with ELoad show ?thesis by (cases r) (auto simp: do_event_def)
next
  case (ERelease r)
  with ok(1) Release_ref_spec[OF inv] show ?thesis by (simp add: do_event_def legal_def)
next
  case (EFinish i b)
  with ok finish_spec[OF inv] show ?thesis by (simp add: do_event_def legal_def tidy_def)
qed

lemma start_inv: "cache_inv (s_cache (start n)) (s_hold (start n))"
  by (simp add: cache_inv_def start_def New_def)

lemma orderly_inv:
  "cache_inv (s_cache s) (s_hold s) \<Longrightarrow> orderly s evs \<Longrightarrow> \<exists>s'. run s evs = Some s' \<and> cache_inv (s_cache s') (s_hold s')"
proof (induction evs arbitrary: s)
  case (Cons ev evs)
  obtain s1 where s1: "do_event s ev = Some s1" "cache_inv (s_cache s1) (s_hold s1)"
    using do_event_spec[OF Cons.prems(1)] Cons.prems(2) by auto
  with Cons.IH[OF s1(2)] Cons.prems(2) show ?case by simp
qed simp

text \<open>C31. In an orderly history no operation of the cache panics, and afterwards the counters are exact: the entries
  in the list are the loaded ones that no client holds, \<^verbatim>\<open>inLRU\<close> is their size, and \<^verbatim>\<open>inUse\<close> is the size of the
  entries that are being loaded or held.\<close>

theorem cache_orderly:
  assumes "orderly (start n) evs"
  shows "\<exists>s. run (start n) evs = Some s \<and> (let c = s_cache s; held = (\<lambda>i. s_hold s (Loading i) + s_hold s (Loaded i)) in
    distinct (c_lru c)
    \<and> set (c_lru c) = {i. i < length (c_objs c) \<and> c_items c (e_key (c_objs c ! i)) = Some (Loaded i) \<and> held i = 0}
    \<and> c_inLRU c = (\<Sum>i \<in> set (c_lru c). e_size (c_objs c ! i))
    \<and> c_inUse c = (\<Sum>i \<in> {i. i < length (c_objs c) \<and> (\<not> l_done (c_objs c ! i) \<or> \<not> l_err (c_objs c ! i) \<and> held i > 0)}.
        e_size (c_objs c ! i)))"
proof -
  obtain s where s: "run (start n) evs = Some s" "cache_inv (s_cache s) (s_hold s)"
    using orderly_inv[OF start_inv assms] by blast
  let ?c = "s_cache s" and ?held = "\<lambda>i. s_hold s (Loading i) + s_hold s (Loaded i)"
  have count: "e_count (c_objs ?c ! i) = int (?held i)" if "i < length (c_objs ?c)" for i
    using obj_invD(1)[OF s(2) that] by simp
  have lru: "i \<in> set (c_lru ?c) \<longleftrightarrow> i < length (c_objs ?c) \<and> c_items ?c (e_key (c_objs ?c ! i)) = Some (Loaded i) \<and> ?held i = 0" for i
  proof (cases "i < length (c_objs ?c)")
    case True
    with obj_invD(6)[OF s(2) True] count[OF True] show ?thesis by (simp add: add_nonneg_eq_0_iff)
  next
    case False
    with s(2) show ?thesis by (auto simp: cache_inv_def)
  qed
  have "(\<Sum>i < length (c_objs ?c). used_size (c_objs ?c ! i))
    = (\<Sum>i \<in> {i. i < length (c_objs ?c) \<and> (\<not> l_done (c_objs ?c ! i) \<or> \<not> l_err (c_objs ?c ! i) \<and> ?held i > 0)}. e_size (c_objs ?c ! i))"
    by (rule sum.mono_neutral_cong_right) (auto simp: used_size_def count)
  moreover have "distinct (c_lru ?c)" "c_inLRU ?c = (\<Sum>i \<in> set (c_lru ?c). e_size (c_objs ?c ! i))"
    "c_inUse ?c = (\<Sum>i < length (c_objs ?c). used_size (c_objs ?c ! i))" using s(2) by (auto simp: cache_inv_def)
  moreover have "set (c_lru ?c) = {i. i < length (c_objs ?c) \<and> c_items ?c (e_key (c_objs ?c ! i)) = Some (Loaded i) \<and> ?held i = 0}"
    using lru by blast
  ultimately show ?thesis using s(1) by (intro exI[of _ s]) (simp add: Let_def)
qed

text \<open>C33. In an orderly history a load of a key that is not in the cache, made under the limit, is either refused
  with nothing changed, or leaves the free space not negative, by evicting as much as it takes.\<close>

theorem cache_limit:
  assumes "orderly (start n) evs" and "run (start n) evs = Some s" and "tidy s (ELoad key params)"
    and "\<not> lp_IgnoreLimit params" and "c_items (s_cache s) key = None"
  shows "\<exists>r c. tryLoad (s_cache s) key params = Some (r, c) \<and> (case r of Inl _ \<Rightarrow> c = s_cache s | Inr _ \<Rightarrow> 0 \<le> c_available c)"
proof -
  have inv: "cache_inv (s_cache s) (s_hold s)" using orderly_inv[OF start_inv assms(1)] assms(2) by simp
  have "\<not> list_ex (\<lambda>e. e_key e = key \<and> \<not> l_done e \<and> e_count e = 0) (c_objs (s_cache s))"
    using assms(3) by (simp add: tidy_def)
  from tryLoad_spec[OF inv this, of params] assms(4,5) show ?thesis by blast
qed

subsection \<open>Draining\<close>

definition drains :: "'k event \<Rightarrow> bool" where
  "drains ev = (case ev of ERelease _ \<Rightarrow> True | EFinish _ _ \<Rightarrow> True | _ \<Rightarrow> False)"

text \<open>The references held and the loads under way.\<close>

definition work :: "'k sys \<Rightarrow> nat" where
  "work s = (\<Sum>i < length (c_objs (s_cache s)). s_hold s (Loading i) + s_hold s (Loaded i)
     + (if l_done (c_objs (s_cache s) ! i) then 0 else 1))"

lemma work_change:
  assumes "i < length (c_objs (s_cache s))" and "length (c_objs (s_cache s')) = length (c_objs (s_cache s))"
    and "\<And>j. j \<noteq> i \<Longrightarrow> s_hold s' (Loading j) = s_hold s (Loading j) \<and> s_hold s' (Loaded j) = s_hold s (Loaded j)
      \<and> l_done (c_objs (s_cache s') ! j) = l_done (c_objs (s_cache s) ! j)"
    and "s_hold s' (Loading i) + s_hold s' (Loaded i) + (if l_done (c_objs (s_cache s') ! i) then 0 else 1) + 1
      = s_hold s (Loading i) + s_hold s (Loaded i) + (if l_done (c_objs (s_cache s) ! i) then 0 else 1)"
  shows "work s' + 1 = work s"
proof -
  let ?f = "\<lambda>s i. s_hold s (Loading i) + s_hold s (Loaded i) + (if l_done (c_objs (s_cache s) ! i) then 0 else 1)"
  let ?A = "{..<length (c_objs (s_cache s))}"
  have "work s = ?f s i + (\<Sum>j \<in> ?A - {i}. ?f s j)" "work s' = ?f s' i + (\<Sum>j \<in> ?A - {i}. ?f s' j)"
    using assms(1,2) by (simp_all add: work_def sum.remove)
  moreover have "(\<Sum>j \<in> ?A - {i}. ?f s' j) = (\<Sum>j \<in> ?A - {i}. ?f s j)" using assms(3) by (intro sum.cong) auto
  ultimately show ?thesis using assms(4) by simp
qed

lemma upd_obj_done: "(\<And>e. l_done (f e) = l_done e) \<Longrightarrow> l_done (c_objs (upd_obj c i f) ! j) = l_done (c_objs c ! j)"
  by (cases "i < length (c_objs c)"; cases "j = i") (simp_all add: upd_obj_def list_update_beyond)

lemma Release_ref_objs:
  "length (c_objs (Release_ref c r)) = length (c_objs c)" "l_done (c_objs (Release_ref c r) ! j) = l_done (c_objs c ! j)"
  by (cases r; simp add: Release_ref_def to_lru_def Let_def upd_obj_done; simp add: upd_obj_def)+

lemma drain_step:
  assumes inv: "cache_inv (s_cache s) (s_hold s)" and ok: "legal s ev" "tidy s ev" "drains ev" and s': "do_event s ev = Some s'"
  shows "work s' + 1 = work s"
proof (cases ev)
  case (ERelease r)
  then have r: "s_hold s r > 0" using ok(1) by (simp add: legal_def)
  obtain i where i: "r = Loading i \<or> r = Loaded i" "i < length (c_objs (s_cache s))" using held_obj[OF inv r] by blast
  have eq: "s_cache s' = Release_ref (s_cache s) r" "s_hold s' = (s_hold s)(r := s_hold s r - 1)"
    using s' ERelease by (auto simp: do_event_def)
  show ?thesis
    using i(1)
  proof
    assume "r = Loading i"
    with r show ?thesis by (intro work_change[OF i(2)]) (simp_all add: eq Release_ref_objs)
  next
    assume "r = Loaded i"
    with r show ?thesis by (intro work_change[OF i(2)]) (simp_all add: eq Release_ref_objs)
  qed
next
  case (EFinish i b)
  then have i: "i < length (c_objs (s_cache s))" "\<not> l_done (c_objs (s_cache s) ! i)" using ok(1) by (simp_all add: legal_def)
  have eq: "s_cache s' = finish (s_cache s) i b" "s_hold s' = s_hold s"
    using s' EFinish by (auto simp: do_event_def)
  show ?thesis
    by (rule work_change[OF i(1)]) (use i in \<open>auto simp: eq finish_def upd_obj_def Let_def\<close>)
qed (use ok(3) in \<open>simp_all add: drains_def\<close>)

lemma drain_run:
  "cache_inv (s_cache s) (s_hold s) \<Longrightarrow> orderly s evs \<Longrightarrow> list_all drains evs \<Longrightarrow> run s evs = Some s' \<Longrightarrow>
    work s' + length evs = work s"
proof (induction evs arbitrary: s)
  case (Cons ev evs)
  obtain s1 where s1: "do_event s ev = Some s1" "cache_inv (s_cache s1) (s_hold s1)"
    using do_event_spec[OF Cons.prems(1)] Cons.prems(2) by auto
  moreover have "work s1 + 1 = work s" using drain_step[OF Cons.prems(1) _ _ _ s1(1)] Cons.prems(2,3) by simp
  ultimately show ?case using Cons.IH[OF s1(2)] Cons.prems(2-4) by simp
qed simp

text \<open>C32. The cache drains: from any state an orderly history reaches, when clients only release what they hold and loads only
  finish, there is always such a step to take until nothing is held and nothing is loading, after a number of steps fixed in
  advance; then no space is in use any more, and all of it is free or cached.\<close>

theorem cache_drains:
  assumes "orderly (start n) evs" and "run (start n) evs = Some s"
    and "orderly s evs'" and "list_all drains evs'"
  shows "\<exists>s'. run s evs' = Some s' \<and> work s' + length evs' = work s
    \<and> (if work s' = 0 then c_inUse (s_cache s') = 0 \<and> c_available (s_cache s') + c_inLRU (s_cache s') = n
       else (\<exists>ev. drains ev \<and> legal s' ev \<and> tidy s' ev))"
proof -
  have inv: "cache_inv (s_cache s) (s_hold s)" using orderly_inv[OF start_inv assms(1)] assms(2) by simp
  obtain s' where s': "run s evs' = Some s'" "cache_inv (s_cache s') (s_hold s')" using orderly_inv[OF inv assms(3)] by blast
  let ?c = "s_cache s'"
  have "account (s_cache s') = account (s_cache (start n :: 'a sys))"
    using account_run[of "start n" "evs @ evs'" s'] assms(2) s'(1) by (simp add: run_append)
  then have total: "c_available ?c + c_inLRU ?c + c_inUse ?c = n" by (simp add: account_def start_def New_def)
  show ?thesis
  proof (cases "work s' = 0")
    case True
    then have idle: "s_hold s' (Loading i) = 0 \<and> s_hold s' (Loaded i) = 0 \<and> l_done (c_objs ?c ! i)" if "i < length (c_objs ?c)" for i
      using that by (auto simp: work_def split: if_splits)
    then have "used_size (c_objs ?c ! i) = 0" if "i < length (c_objs ?c)" for i
      using that obj_invD(1)[OF s'(2) that] by (simp add: used_size_def)
    then have "c_inUse ?c = 0" using s'(2) by (simp add: cache_inv_def)
    with total True s'(1) drain_run[OF inv assms(3,4) s'(1)] show ?thesis by auto
  next
    case False
    then obtain i where i: "i < length (c_objs ?c)"
      "s_hold s' (Loading i) > 0 \<or> s_hold s' (Loaded i) > 0 \<or> \<not> l_done (c_objs ?c ! i)"
      by (auto simp: work_def split: if_splits)
    have "\<exists>ev. drains ev \<and> legal s' ev \<and> tidy s' ev"
      using i(2)
    proof (elim disjE)
      show ?thesis if "s_hold s' (Loading i) > 0"
        using that by (intro exI[of _ "ERelease (Loading i)"]) (simp add: drains_def legal_def tidy_def)
      show ?thesis if "s_hold s' (Loaded i) > 0"
        using that by (intro exI[of _ "ERelease (Loaded i)"]) (simp add: drains_def legal_def tidy_def)
      show ?thesis if "\<not> l_done (c_objs ?c ! i)"
        using that i(1) by (intro exI[of _ "EFinish i False"]) (simp add: drains_def legal_def tidy_def)
    qed
    with False s'(1) drain_run[OF inv assms(3,4) s'(1)] show ?thesis by auto
  qed
qed

subsection \<open>Abandoned loads\<close>

fun all_legal :: "'k sys \<Rightarrow> 'k event list \<Rightarrow> bool" where
  "all_legal s [] = True"
| "all_legal s (ev # evs) = (legal s ev \<and> (case do_event s ev of None \<Rightarrow> True | Some s \<Rightarrow> all_legal s evs))"

definition load_of :: "int \<Rightarrow> LoadParams" where
  "load_of n = \<lparr>lp_Start = 0, lp_Length = n, lp_IgnoreLimit = False\<rparr>"

text \<open>A load given up by its clients fails when its key is being loaded again, and takes the new load out of the cache; the
  third load of the key then leads to two entries in the list with one key.\<close>

definition race_panic :: "nat event list" where
  "race_panic =
     [ELoad 0 (load_of 10), ERelease (Loading 0), ELoad 0 (load_of 10), EFinish 0 False, ELoad 0 (load_of 10),
      EFinish 1 True, EFinish 2 True, ERelease (Loading 1), ERelease (Loading 2), ELoad 1 (load_of 25)]"

text \<open>A load given up by its clients that the loader completes all the same.\<close>

definition race_leak :: "nat event list" where
  "race_leak = [ELoad 0 (load_of 10), ERelease (Loading 0), EFinish 0 True]"


subsection \<open>Examples\<close>

definition history :: "nat event list" where
  "history = [ELoad 0 (load_of 10), EFinish 0 True, EAcquire 0 (load_of 10), ERelease (Loading 0), ERelease (Loaded 0),
     ELoad 1 (load_of 15), EFinish 1 False]"

lemma history_run: "run (start 20) history = Some (the (run (start 20) history))"
proof -
  have "\<not> Option.is_none (run (start 20) history)" by code_simp
  then show ?thesis by (auto simp: Option.is_none_def)
qed

lemma history_orderly: "orderly (start 20) history"
  by code_simp

lemma cache_tokens_conserved_witness:
  "(let c = s_cache (the (run (start 20) history)) in c_available c + c_inLRU c + c_inUse c) = 20"
  using cache_tokens_conserved[OF history_run] by (simp add: Let_def)

lemma cache_orderly_witness:
  "\<exists>s. run (start 20) history = Some s \<and> distinct (c_lru (s_cache s))"
  using cache_orderly[OF history_orderly] by (auto simp: Let_def)

lemma cache_limit_witness:
  "\<exists>r c. tryLoad (s_cache (the (run (start 20) history))) 2 (load_of 20) = Some (r, c)
    \<and> (case r of Inl _ \<Rightarrow> c = s_cache (the (run (start 20) history)) | Inr _ \<Rightarrow> 0 \<le> c_available c)"
proof (rule cache_limit[OF history_orderly history_run])
  show "tidy (the (run (start 20) history)) (ELoad 2 (load_of 20))" by code_simp
  show "\<not> lp_IgnoreLimit (load_of 20)" by (simp add: load_of_def)
  show "c_items (s_cache (the (run (start 20) history))) 2 = None" by code_simp
qed

lemma cache_drains_witness:
  "\<exists>s'. run (the (run (start 20) history)) [ERelease (Loading 1)] = Some s' \<and> work s' + 1 = work (the (run (start 20) history))"
proof -
  have "orderly (the (run (start 20) history)) [ERelease (Loading 1)]" by code_simp
  from cache_drains[OF history_orderly history_run this] show ?thesis by (auto simp: drains_def)
qed

end
