(* ===== verification/Repo.thy ===== *)
theory Repo
  imports Prelude
begin

text \<open>
  \<^verbatim>\<open>repo/repo.go\<close>: the manifest of the search service, which says which shards exist, in which state each
  is, and which shard each reference of a repository is searched in; and the directory that keeps the
  revisions of the manifest.

  Maps that the code iterates over are association lists; the order of the list is the order of the
  iteration, which Go leaves open. The time is an argument. The value \<open>None\<close> of \<open>CreateShard\<close> means that
  the random numbers given were not enough.
\<close>

subsection \<open>Hexadecimal\<close>

definition hex_char :: "nat \<Rightarrow> char" where
  "hex_char n = ''0123456789abcdef'' ! n"

definition hex_byte :: "byte \<Rightarrow> string" where
  "hex_byte b = [hex_char (unat b div 16), hex_char (unat b mod 16)]"

definition hex_encode :: "byte list \<Rightarrow> string" where
  "hex_encode bs = concat (map hex_byte bs)"

definition from_hex :: "char \<Rightarrow> nat option" where
  "from_hex c = (let n = of_char c :: nat in
     if 48 \<le> n \<and> n \<le> 57 then Some (n - 48)
     else if 97 \<le> n \<and> n \<le> 102 then Some (n - 97 + 10)
     else if 65 \<le> n \<and> n \<le> 70 then Some (n - 65 + 10)
     else None)"

fun hex_decode :: "string \<Rightarrow> byte list option" where
  "hex_decode [] = Some []"
| "hex_decode [c] = None"
| "hex_decode (c # d # s) = (case (from_hex c, from_hex d) of
     (Some a, Some b) \<Rightarrow> map_option (\<lambda>bs. word_of_nat (a * 16 + b) # bs) (hex_decode s)
   | _ \<Rightarrow> None)"

type_synonym ShardID = "byte list"

definition shardid_len :: nat where "shardid_len = 8"

definition ZeroShardID :: ShardID where "ZeroShardID = replicate shardid_len 0"

definition MarshalText :: "ShardID \<Rightarrow> string" where
  "MarshalText s = hex_encode s"

definition UnmarshalText :: "string \<Rightarrow> ShardID option" where
  "UnmarshalText text = (if length text \<noteq> 2 * shardid_len then None else hex_decode text)"

subsection \<open>Shards\<close>

type_synonym State = string

definition CreatingState :: State where "CreatingState = ''CREATING''"
definition UnreferencedState :: State where "UnreferencedState = ''UNREFERENCED''"
definition ReferencedState :: State where "ReferencedState = ''REFERENCED''"
definition DeletingState :: State where "DeletingState = ''DELETING''"

lemmas state_defs = CreatingState_def UnreferencedState_def ReferencedState_def DeletingState_def

datatype action = allocate | deleted | created | referenced | unreferenced | tombstone

definition allowed_actions :: "State \<times> action \<Rightarrow> State option" where
  "allowed_actions = map_of
     [(('''', allocate), CreatingState),
      ((CreatingState, created), UnreferencedState),
      ((CreatingState, unreferenced), CreatingState),
      ((CreatingState, tombstone), DeletingState),
      ((UnreferencedState, unreferenced), UnreferencedState),
      ((UnreferencedState, referenced), ReferencedState),
      ((UnreferencedState, tombstone), DeletingState),
      ((ReferencedState, referenced), ReferencedState),
      ((ReferencedState, unreferenced), UnreferencedState),
      ((DeletingState, deleted), '''')]"

record Shard =
  sh_AllocatedAt :: int
  sh_CreatedAt :: "int option"
  sh_TreeHash :: string
  sh_Size :: u64
  sh_SHA256 :: "byte list option"
  sh_State :: State
  sh_StateWhen :: int
  sh_TombstoneAt :: "int option"

definition transition :: "int \<Rightarrow> action \<Rightarrow> Shard \<Rightarrow> bool \<times> Shard" where
  "transition now a s = (case allowed_actions (sh_State s, a) of
     Some r \<Rightarrow> (True, s\<lparr>sh_State := r, sh_StateWhen := now\<rparr>)
   | None \<Rightarrow> (False, s))"

definition Created :: "int \<Rightarrow> string \<Rightarrow> u64 \<Rightarrow> byte list \<Rightarrow> Shard \<Rightarrow> bool \<times> Shard" where
  "Created now hash sz sha s =
     (let (ok, s) = transition now created s in
      if ok \<and> sh_CreatedAt s = None
      then (ok, s\<lparr>sh_CreatedAt := Some now, sh_TreeHash := hash, sh_Size := sz, sh_SHA256 := Some sha\<rparr>)
      else (ok, s))"

definition Referenced :: "int \<Rightarrow> Shard \<Rightarrow> bool \<times> Shard" where
  "Referenced now s = transition now referenced s"

definition Unreferenced :: "int \<Rightarrow> Shard \<Rightarrow> bool \<times> Shard" where
  "Unreferenced now s = transition now unreferenced s"

definition Tombstone :: "int \<Rightarrow> Shard \<Rightarrow> bool \<times> Shard" where
  "Tombstone now s =
     (let (ok, s) = transition now tombstone s
      in if ok \<and> sh_TombstoneAt s = None then (ok, s\<lparr>sh_TombstoneAt := Some now\<rparr>) else (ok, s))"

subsection \<open>Manifests\<close>

record RepoRef =
  rr_CommitHash :: string
  rr_ShardID :: ShardID

record Repo =
  rp_DefaultRef :: string
  rp_Refs :: "(string \<times> RepoRef) list"

record Manifest =
  mf_Repos :: "(string \<times> Repo) list"
  mf_Shards :: "(ShardID \<times> Shard) list"
  mf_Revision :: u64

definition empty_manifest :: Manifest where
  "empty_manifest = \<lparr>mf_Repos = [], mf_Shards = [], mf_Revision = 0\<rparr>"

text \<open>\<^verbatim>\<open>m[k] = v\<close>.\<close>

fun put_assoc :: "'k \<Rightarrow> 'v \<Rightarrow> ('k \<times> 'v) list \<Rightarrow> ('k \<times> 'v) list" where
  "put_assoc k v [] = [(k, v)]"
| "put_assoc k v ((k', v') # l) = (if k' = k then (k, v) # l else (k', v') # put_assoc k v l)"

text \<open>The pointers that \<^verbatim>\<open>GetOrCreateRepo\<close> and \<^verbatim>\<open>GetOrCreateRef\<close> return are to values in the maps: what the
  caller then does to them is the argument \<open>f\<close>.\<close>

definition GetOrCreateRepo :: "string \<Rightarrow> (Repo \<Rightarrow> Repo) \<Rightarrow> Manifest \<Rightarrow> Manifest" where
  "GetOrCreateRepo name f m =
     (let r = (case map_of (mf_Repos m) name of Some r \<Rightarrow> r | None \<Rightarrow> \<lparr>rp_DefaultRef = [], rp_Refs = []\<rparr>)
      in m\<lparr>mf_Repos := put_assoc name (f r) (mf_Repos m)\<rparr>)"

definition GetOrCreateRef :: "string \<Rightarrow> (RepoRef \<Rightarrow> RepoRef) \<Rightarrow> Repo \<Rightarrow> Repo" where
  "GetOrCreateRef name f r =
     (let ref = (case map_of (rp_Refs r) name of Some ref \<Rightarrow> ref | None \<Rightarrow> \<lparr>rr_CommitHash = [], rr_ShardID = ZeroShardID\<rparr>)
      in r\<lparr>rp_Refs := put_assoc name (f ref) (rp_Refs r)\<rparr>)"

definition GetRef :: "string \<Rightarrow> Repo option \<Rightarrow> RepoRef option" where
  "GetRef name r = (case r of None \<Rightarrow> None | Some r \<Rightarrow> map_of (rp_Refs r) name)"

definition GetShardID :: "RepoRef option \<Rightarrow> ShardID" where
  "GetShardID r = (case r of None \<Rightarrow> ZeroShardID | Some r \<Rightarrow> rr_ShardID r)"

fun referencable_loop :: "string \<Rightarrow> (ShardID \<times> Shard) list \<Rightarrow> ShardID \<times> bool" where
  "referencable_loop hash [] = (ZeroShardID, False)"
| "referencable_loop hash ((i, s) # l) =
     (if sh_TreeHash s \<noteq> hash then referencable_loop hash l
      else if allowed_actions (sh_State s, referenced) \<noteq> None then (i, True)
      else referencable_loop hash l)"

definition ReferencableShard :: "string \<Rightarrow> Manifest \<Rightarrow> ShardID \<times> bool" where
  "ReferencableShard hash m = referencable_loop hash (mf_Shards m)"

fun fresh_id :: "(ShardID \<times> Shard) list \<Rightarrow> ShardID list \<Rightarrow> ShardID option" where
  "fresh_id shards [] = None"
| "fresh_id shards (r # rids) =
     (if map_of shards r = None \<and> r \<noteq> ZeroShardID then Some r else fresh_id shards rids)"

definition new_shard :: "int \<Rightarrow> Shard" where
  "new_shard now =
     \<lparr>sh_AllocatedAt = now, sh_CreatedAt = None, sh_TreeHash = [], sh_Size = 0, sh_SHA256 = None,
      sh_State = [], sh_StateWhen = 0, sh_TombstoneAt = None\<rparr>"

text \<open>The transition cannot fail (\<open>allocate_new\<close>), so the panic is left out.\<close>

definition CreateShard :: "int \<Rightarrow> ShardID list \<Rightarrow> Manifest \<Rightarrow> (ShardID \<times> Manifest) option" where
  "CreateShard now rids m =
     map_option (\<lambda>i. (i, m\<lparr>mf_Shards := put_assoc i (snd (transition now allocate (new_shard now))) (mf_Shards m)\<rparr>))
       (fresh_id (mf_Shards m) rids)"

lemma allocate_new: "transition now allocate (new_shard now) =
    (True, (new_shard now)\<lparr>sh_State := CreatingState, sh_StateWhen := now\<rparr>)"
  by (simp add: transition_def new_shard_def allowed_actions_def)

text \<open>\<^verbatim>\<open>ReconcileShardStates\<close>: once a transition has failed, the others are not tried.\<close>

definition in_use :: "Manifest \<Rightarrow> ShardID \<Rightarrow> bool" where
  "in_use m i \<longleftrightarrow> list_ex (\<lambda>(_, r). list_ex (\<lambda>(_, ref). rr_ShardID ref = i) (rp_Refs r)) (mf_Repos m)"

fun reconcile_loop :: "int \<Rightarrow> (ShardID \<Rightarrow> bool) \<Rightarrow> bool \<Rightarrow> (ShardID \<times> Shard) list \<Rightarrow> bool \<times> (ShardID \<times> Shard) list" where
  "reconcile_loop now used success [] = (success, [])"
| "reconcile_loop now used success ((i, s) # l) =
     (let (success, s) = (if \<not> success then (False, s)
                          else if used i then Referenced now s else Unreferenced now s);
          (success, l) = reconcile_loop now used success l
      in (success, (i, s) # l))"

definition ReconcileShardStates :: "int \<Rightarrow> Manifest \<Rightarrow> bool \<times> Manifest" where
  "ReconcileShardStates now m =
     (let (success, shards) = reconcile_loop now (in_use m) True (mf_Shards m)
      in (success, m\<lparr>mf_Shards := shards\<rparr>))"

subsection \<open>Revisions\<close>

text \<open>A directory is the list of its entries, each a directory that may have a file
  \<^verbatim>\<open>manifest.json\<close>. \<open>unjson\<close> is the decoder of \<^verbatim>\<open>encoding/json\<close>, \<open>oc\<close> is \<^verbatim>\<open>orderedcode.Append(nil, r)\<close>.\<close>

record 'f dirent =
  de_ModTime :: int
  de_file :: "'f option"

type_synonym 'f dir = "(string \<times> 'f dirent) list"

definition newest :: "'f dir \<Rightarrow> string" where
  "newest d = fold (\<lambda>(name, _) mx. if CHR ''.'' \<notin> set name \<and> name > mx then name else mx) d []"

definition too_old :: "int \<Rightarrow> 'f dirent \<Rightarrow> bool" where
  "too_old now e \<longleftrightarrow> \<not> now - de_ModTime e < 24 * 60 * 60 * 10 ^ 9"

definition CleanupManifests :: "int \<Rightarrow> 'f dir \<Rightarrow> 'f dir" where
  "CleanupManifests now d =
     (let mx = newest d in
      if mx = [] then d
      else filter (\<lambda>(name, e). \<not> (too_old now e \<and>
             (let v = takeWhile (\<lambda>c. c \<noteq> CHR ''.'') name in v < mx \<or> v = mx \<and> v \<noteq> name))) d)"

datatype repo_err = NoFile | BadJson | ErrExist | OSError

definition LoadManifest :: "('f \<Rightarrow> Manifest option) \<Rightarrow> 'f dir \<Rightarrow> repo_err + Manifest" where
  "LoadManifest unjson d =
     (let mx = newest d in
      if mx = [] then Inr empty_manifest
      else case map_of d mx of
        None \<Rightarrow> Inl NoFile
      | Some e \<Rightarrow> (case de_file e of
            None \<Rightarrow> Inl NoFile
          | Some f \<Rightarrow> (case unjson f of None \<Rightarrow> Inl BadJson | Some m \<Rightarrow> Inr m)))"

definition rev_id :: "(u64 \<Rightarrow> byte list) \<Rightarrow> u64 \<Rightarrow> string" where
  "rev_id oc r = hex_encode (oc r)"

text \<open>The steps of \<^verbatim>\<open>WriteManifest\<close>, between which others may run: the test for the revision, the staging of the
  new directory, and its renaming, which fails when the target exists.\<close>

definition write_check :: "(u64 \<Rightarrow> byte list) \<Rightarrow> Manifest \<Rightarrow> 'f dir \<Rightarrow> repo_err + unit" where
  "write_check oc m d = (if map_of d (rev_id oc (mf_Revision m)) \<noteq> None then Inl ErrExist else Inr ())"

definition tmp_id :: "(u64 \<Rightarrow> byte list) \<Rightarrow> Manifest \<Rightarrow> byte list \<Rightarrow> string" where
  "tmp_id oc m rid = rev_id oc (mf_Revision m) @ ''.'' @ hex_encode rid"

definition write_stage :: "(Manifest \<Rightarrow> 'f) \<Rightarrow> string \<Rightarrow> int \<Rightarrow> Manifest \<Rightarrow> 'f dir \<Rightarrow> repo_err + 'f dir" where
  "write_stage json tmp now m d =
     (if map_of d tmp \<noteq> None then Inl OSError
      else Inr (put_assoc tmp \<lparr>de_ModTime = now, de_file = Some (json m)\<rparr> d))"

definition remove_all :: "string \<Rightarrow> 'f dir \<Rightarrow> 'f dir" where
  "remove_all name d = filter (\<lambda>(n, _). n \<noteq> name) d"

definition write_rename :: "(u64 \<Rightarrow> byte list) \<Rightarrow> string \<Rightarrow> Manifest \<Rightarrow> 'f dir \<Rightarrow> (repo_err + unit) \<times> 'f dir" where
  "write_rename oc tmp m d =
     (let end = rev_id oc (mf_Revision m);
          (res, d) = (case map_of d tmp of
             None \<Rightarrow> (Inl OSError, d)
           | Some e \<Rightarrow> if map_of d end \<noteq> None then (Inl OSError, d)
                       else (Inr (), put_assoc end e (remove_all tmp d)))
      in (res, remove_all tmp d))"

definition WriteManifest :: "(u64 \<Rightarrow> byte list) \<Rightarrow> (Manifest \<Rightarrow> 'f) \<Rightarrow> byte list \<Rightarrow> int \<Rightarrow> Manifest \<Rightarrow> 'f dir \<Rightarrow> (repo_err + unit) \<times> 'f dir" where
  "WriteManifest oc json rid now m d =
     (let m = m\<lparr>mf_Revision := mf_Revision m + 1\<rparr> in
      case write_check oc m d of
        Inl e \<Rightarrow> (Inl e, d)
      | Inr _ \<Rightarrow> (case write_stage json (tmp_id oc m rid) now m d of
            Inl e \<Rightarrow> (Inl e, d)
          | Inr d \<Rightarrow> write_rename oc (tmp_id oc m rid) m d))"

end
