(* ===== verification/Manifest_Server.thy ===== *)
theory Manifest_Server
  imports Repo
begin

text \<open>
  The metadata service of \<^verbatim>\<open>cmd/cindex-serve/main.go\<close>: the handlers that read and change the manifest, and
  the transactions that store it. A handler that changes the manifest is given by what it does to the
  manifest it has loaded; a transaction of several clients at once is a sequence of their steps.

  The value \<open>None\<close> of a handler is a run-time panic, or random numbers that were not enough.
  \<open>nh\<close> is \<^verbatim>\<open>plumbing.NewHash(s).String()\<close>.
\<close>

subsection \<open>Answers\<close>

datatype Shard_State = Shard_UNKNOWN | Shard_CREATING | Shard_UNREFERENCED | Shard_REFERENCED | Shard_DELETING

record service_Shard =
  ss_Id :: string
  ss_TreeHash :: string
  ss_State :: Shard_State
  ss_Size :: u64
  ss_Sha256 :: "byte list"

record service_RepoRef =
  sr_RepoName :: string
  sr_Ref :: string
  sr_CommitHash :: string
  sr_Shard :: service_Shard

datatype rpc_err = BadShardID | InvalidArgument | NotFound | FailedPrecondition

definition sha_len :: nat where "sha_len = 32"

definition convertShard :: "ShardID \<Rightarrow> Shard option \<Rightarrow> service_Shard option" where
  "convertShard i s = map_option (\<lambda>s.
     \<lparr>ss_Id = MarshalText i, ss_TreeHash = sh_TreeHash s,
      ss_State = (if sh_State s = CreatingState then Shard_CREATING
                  else if sh_State s = UnreferencedState then Shard_UNREFERENCED
                  else if sh_State s = ReferencedState then Shard_REFERENCED
                  else if sh_State s = DeletingState then Shard_DELETING
                  else Shard_UNKNOWN),
      ss_Size = sh_Size s,
      ss_Sha256 = (case sh_SHA256 s of None \<Rightarrow> [] | Some h \<Rightarrow> h)\<rparr>) s"

definition convertRepoRef :: "string \<Rightarrow> string \<Rightarrow> RepoRef option \<Rightarrow> Manifest \<Rightarrow> service_RepoRef option" where
  "convertRepoRef name ref v m =
     Option.bind v (\<lambda>v.
       map_option (\<lambda>s. \<lparr>sr_RepoName = name, sr_Ref = ref, sr_CommitHash = rr_CommitHash v, sr_Shard = s\<rparr>)
         (convertShard (rr_ShardID v) (map_of (mf_Shards m) (rr_ShardID v))))"

subsection \<open>Handlers that change the manifest\<close>

definition AllocateShard :: "int \<Rightarrow> ShardID list \<Rightarrow> Manifest \<Rightarrow> (rpc_err + Manifest \<times> service_Shard) option" where
  "AllocateShard now rids m =
     Option.bind (CreateShard now rids m) (\<lambda>(i, m).
       map_option (\<lambda>s. Inr (m, s)) (convertShard i (map_of (mf_Shards m) i)))"

definition CompleteShard ::
  "(string \<Rightarrow> string) \<Rightarrow> int \<Rightarrow> string \<Rightarrow> string \<Rightarrow> u64 \<Rightarrow> byte list \<Rightarrow> Manifest \<Rightarrow> (rpc_err + Manifest) option"
where
  "CompleteShard nh now shard_id tree_hash sz sha m =
     (case UnmarshalText shard_id of
        None \<Rightarrow> Some (Inl BadShardID)
      | Some sID \<Rightarrow>
          if length sha \<noteq> sha_len then Some (Inl InvalidArgument)
          else case map_of (mf_Shards m) sID of
            None \<Rightarrow> Some (Inl NotFound)
          | Some s \<Rightarrow>
              let (ok, s) = Created now (nh tree_hash) sz sha s
              in if \<not> ok then Some (Inl FailedPrecondition)
                 else Some (Inr (m\<lparr>mf_Shards := put_assoc sID s (mf_Shards m)\<rparr>)))"

definition SetDefaultRepoRef :: "string \<Rightarrow> string \<Rightarrow> Manifest \<Rightarrow> (rpc_err + Manifest) option" where
  "SetDefaultRepoRef name ref m =
     (case map_of (mf_Repos m) name of
        None \<Rightarrow> Some (Inl NotFound)
      | Some r \<Rightarrow> (case map_of (rp_Refs r) ref of
            None \<Rightarrow> Some (Inl NotFound)
          | Some _ \<Rightarrow> Some (Inr (m\<lparr>mf_Repos := put_assoc name (r\<lparr>rp_DefaultRef := ref\<rparr>) (mf_Repos m)\<rparr>))))"

definition UpdateRepoShard ::
  "int \<Rightarrow> string \<Rightarrow> string \<Rightarrow> string \<Rightarrow> string \<Rightarrow> Manifest \<Rightarrow> (rpc_err + Manifest) option"
where
  "UpdateRepoShard now name ref commit_hash shard_id m =
     (case UnmarshalText shard_id of
        None \<Rightarrow> Some (Inl BadShardID)
      | Some sID \<Rightarrow>
          if map_of (mf_Shards m) sID = None then Some (Inl NotFound)
          else
            let m = GetOrCreateRepo name (\<lambda>r.
                  let r = (if rp_DefaultRef r = [] then r\<lparr>rp_DefaultRef := ref\<rparr> else r)
                  in GetOrCreateRef ref (\<lambda>v. v\<lparr>rr_CommitHash := commit_hash, rr_ShardID := sID\<rparr>) r) m;
                (ok, m) = ReconcileShardStates now m
            in if \<not> ok then Some (Inl FailedPrecondition) else Some (Inr m))"

subsection \<open>Handlers that read the manifest\<close>

definition GetShard :: "string \<Rightarrow> Manifest \<Rightarrow> (rpc_err + service_Shard) option" where
  "GetShard shard_id m =
     (case UnmarshalText shard_id of
        None \<Rightarrow> Some (Inl BadShardID)
      | Some sID \<Rightarrow> (case map_of (mf_Shards m) sID of
            None \<Rightarrow> Some (Inl NotFound)
          | Some s \<Rightarrow> map_option Inr (convertShard sID (Some s))))"

definition repo_state :: "Shard_State \<Rightarrow> State" where
  "repo_state s = (case s of
     Shard_CREATING \<Rightarrow> CreatingState
   | Shard_UNREFERENCED \<Rightarrow> UnreferencedState
   | Shard_REFERENCED \<Rightarrow> ReferencedState
   | Shard_DELETING \<Rightarrow> DeletingState
   | Shard_UNKNOWN \<Rightarrow> [])"

definition SearchShards :: "string \<Rightarrow> Shard_State list \<Rightarrow> Manifest \<Rightarrow> string list" where
  "SearchShards tree_hash states m =
     map (\<lambda>(i, _). MarshalText i)
       (filter (\<lambda>(_, s). (tree_hash \<noteq> [] \<longrightarrow> sh_TreeHash s = tree_hash)
          \<and> (length states > 0 \<longrightarrow> list_ex (\<lambda>st. sh_State s = repo_state st) states)) (mf_Shards m))"

definition GetRepo :: "string \<Rightarrow> Manifest \<Rightarrow> (rpc_err + service_RepoRef \<times> string list) option" where
  "GetRepo name m =
     (case map_of (mf_Repos m) name of
        None \<Rightarrow> Some (Inl NotFound)
      | Some r \<Rightarrow>
          map_option (\<lambda>d. Inr (d, sort (map fst (rp_Refs r))))
            (convertRepoRef name (rp_DefaultRef r) (map_of (rp_Refs r) (rp_DefaultRef r)) m))"

definition GetRepoRef :: "string \<Rightarrow> string \<Rightarrow> Manifest \<Rightarrow> (rpc_err + service_RepoRef) option" where
  "GetRepoRef name ref m =
     (case map_of (mf_Repos m) name of
        None \<Rightarrow> Some (Inl NotFound)
      | Some r \<Rightarrow> (case map_of (rp_Refs r) ref of
            None \<Rightarrow> Some (Inl NotFound)
          | Some v \<Rightarrow> map_option Inr (convertRepoRef name ref (Some v) m)))"

fun list_refs :: "Manifest \<Rightarrow> string list \<Rightarrow> service_RepoRef list option" where
  "list_refs m [] = Some []"
| "list_refs m (name # names) =
     Option.bind (map_of (mf_Repos m) name) (\<lambda>r.
     Option.bind (convertRepoRef name (rp_DefaultRef r) (map_of (rp_Refs r) (rp_DefaultRef r)) m) (\<lambda>d.
     map_option (\<lambda>l. d # l) (list_refs m names)))"

definition ListRepoRefs :: "Manifest \<Rightarrow> service_RepoRef list option" where
  "ListRepoRefs m = list_refs m (sort (map fst (mf_Repos m)))"

subsection \<open>Transactions\<close>

text \<open>A transaction as the change of the manifest, \<open>None\<close> if the handler returns an error. \<^verbatim>\<open>manifestTxn\<close> loads
  the manifest and changes it, then runs the steps of \<^verbatim>\<open>WriteManifest\<close>; when the revision exists, it starts
  again.\<close>

type_synonym txn = "Manifest \<Rightarrow> Manifest option"

datatype phase = Idle | Changed txn Manifest | Checked txn Manifest | Staged txn Manifest string

record 'f store =
  st_dir :: "'f dir"
  st_phase :: "nat \<Rightarrow> phase"
  st_log :: "txn list"  \<comment> \<open>the transactions that were stored, in this order\<close>

definition open_store :: "'f store" where
  "open_store = \<lparr>st_dir = [], st_phase = (\<lambda>_. Idle), st_log = []\<rparr>"

datatype txn_step = Load nat txn | Check nat | Stage nat "byte list" int | Rename nat

definition set_phase :: "nat \<Rightarrow> phase \<Rightarrow> 'f store \<Rightarrow> 'f store" where
  "set_phase c p s = s\<lparr>st_phase := (st_phase s)(c := p)\<rparr>"

definition txn_load :: "('f \<Rightarrow> Manifest option) \<Rightarrow> nat \<Rightarrow> txn \<Rightarrow> 'f store \<Rightarrow> 'f store" where
  "txn_load unjson c f s =
     (case LoadManifest unjson (st_dir s) of
        Inl _ \<Rightarrow> s
      | Inr m \<Rightarrow> (case f m of
            None \<Rightarrow> s
          | Some m \<Rightarrow> set_phase c (Changed f (m\<lparr>mf_Revision := mf_Revision m + 1\<rparr>)) s))"

text \<open>The steps of client \<open>c\<close>; \<open>None\<close> when it is not at this step.\<close>

definition do_step ::
  "(u64 \<Rightarrow> byte list) \<Rightarrow> (Manifest \<Rightarrow> 'f) \<Rightarrow> ('f \<Rightarrow> Manifest option) \<Rightarrow> 'f store \<Rightarrow> txn_step \<Rightarrow> 'f store option"
where
  "do_step oc json unjson s e = (case e of
     Load c f \<Rightarrow> (case st_phase s c of Idle \<Rightarrow> Some (txn_load unjson c f s) | _ \<Rightarrow> None)
   | Check c \<Rightarrow> (case st_phase s c of
       Changed f m \<Rightarrow> Some (case write_check oc m (st_dir s) of
           Inl _ \<Rightarrow> set_phase c Idle s
         | Inr _ \<Rightarrow> set_phase c (Checked f m) s)
     | _ \<Rightarrow> None)
   | Stage c rid now \<Rightarrow> (case st_phase s c of
       Checked f m \<Rightarrow> Some (case write_stage json (tmp_id oc m rid) now m (st_dir s) of
           Inl _ \<Rightarrow> set_phase c Idle s
         | Inr d \<Rightarrow> set_phase c (Staged f m (tmp_id oc m rid)) (s\<lparr>st_dir := d\<rparr>))
     | _ \<Rightarrow> None)
   | Rename c \<Rightarrow> (case st_phase s c of
       Staged f m tmp \<Rightarrow> (case write_rename oc tmp m (st_dir s) of
           (res, d) \<Rightarrow> Some (set_phase c Idle
             (s\<lparr>st_dir := d, st_log := st_log s @ (case res of Inl _ \<Rightarrow> [] | Inr _ \<Rightarrow> [f])\<rparr>)))
     | _ \<Rightarrow> None))"

fun do_steps ::
  "(u64 \<Rightarrow> byte list) \<Rightarrow> (Manifest \<Rightarrow> 'f) \<Rightarrow> ('f \<Rightarrow> Manifest option) \<Rightarrow> 'f store \<Rightarrow> txn_step list \<Rightarrow> 'f store option"
where
  "do_steps oc json unjson s [] = Some s"
| "do_steps oc json unjson s (e # es) =
     Option.bind (do_step oc json unjson s e) (\<lambda>s. do_steps oc json unjson s es)"

text \<open>The transactions one after another.\<close>

fun serial :: "txn list \<Rightarrow> Manifest \<Rightarrow> Manifest option" where
  "serial [] m = Some m"
| "serial (f # fs) m =
     Option.bind (f m) (\<lambda>m. serial fs (m\<lparr>mf_Revision := mf_Revision m + 1\<rparr>))"

end
