(* ===== verification/Manifest_Store.thy ===== *)
theory Manifest_Store
  imports Manifest_Server
begin

text \<open>
  Transactions on the manifest are serialisable: whatever the order of the steps of concurrent clients,
  the newest manifest is the result of running the stored transactions one after another. The revisions of
  the directory are a chain in which each is one transaction after the one before.
\<close>

subsection \<open>Hexadecimal text\<close>

lemma less_16: "n < 16 \<longleftrightarrow> n \<in> set [0..<16]" for n :: nat
  by simp

lemma hex_char_nth: "n < 16 \<Longrightarrow> of_char (hex_char n) = (if n < 10 then 48 + n else 87 + n)"
  unfolding less_16 by (auto simp: hex_char_def upt_rec eval_nat_numeral)

lemma from_hex_char: "n < 16 \<Longrightarrow> from_hex (hex_char n) = Some n"
  by (auto simp: from_hex_def hex_char_nth)

lemma hex_char_less: "m < n \<Longrightarrow> n < 16 \<Longrightarrow> hex_char m < hex_char n"
  unfolding less_char_def hex_char_nth by (auto simp: hex_char_nth)

lemma hex_char_not_dot: "n < 16 \<Longrightarrow> hex_char n \<noteq> CHR ''.''"
  using hex_char_nth[of n] by (auto split: if_splits)

lemma unat_lt2p_byte: "unat (b :: byte) < 256"
  using unsigned_less[of b, where ?'a = nat] by simp

lemma byte_halves: "unat (b :: byte) div 16 < 16" "unat b mod 16 < 16"
  using unat_lt2p_byte[of b] by simp_all

lemma hex_encode_simps [simp]:
  "hex_encode [] = []"
  "hex_encode (b # bs) = hex_char (unat b div 16) # hex_char (unat b mod 16) # hex_encode bs"
  by (simp_all add: hex_encode_def hex_byte_def)

lemma hex_decode_encode [simp]: "hex_decode (hex_encode bs) = Some bs"
  by (induction bs) (simp_all add: from_hex_char byte_halves)

lemma length_hex_encode [simp]: "length (hex_encode bs) = 2 * length bs"
  by (induction bs) simp_all

lemma hex_encode_not_dot: "CHR ''.'' \<notin> set (hex_encode bs)"
  by (induction bs) (use hex_char_not_dot[OF byte_halves(1)] hex_char_not_dot[OF byte_halves(2)] in \<open>simp_all add: eq_commute[of "CHR ''.''"]\<close>)

lemma Unmarshal_Marshal: "length s = shardid_len \<Longrightarrow> UnmarshalText (MarshalText s) = Some s"
  by (simp add: UnmarshalText_def MarshalText_def)

lemma hex_byte_less:
  assumes "a < (b :: byte)"
  shows "hex_char (unat a div 16) < hex_char (unat b div 16)
    \<or> unat a div 16 = unat b div 16 \<and> hex_char (unat a mod 16) < hex_char (unat b mod 16)"
proof -
  define x y where "x = unat a" and "y = unat b"
  have "x < y" using assms unfolding x_def y_def word_less_nat_alt .
  moreover have "x div 16 * 16 + x mod 16 = x" "y div 16 * 16 + y mod 16 = y" "x mod 16 < 16" "y mod 16 < 16" by simp_all
  ultimately consider "x div 16 < y div 16" | "x div 16 = y div 16" "x mod 16 < y mod 16" by linarith
  then show ?thesis
  proof cases
    case 1
    then show ?thesis using hex_char_less byte_halves(1) unfolding x_def y_def by blast
  next
    case 2
    then show ?thesis using hex_char_less byte_halves(2) unfolding x_def y_def by blast
  qed
qed

lemma hex_encode_mono: "bs < cs \<Longrightarrow> hex_encode bs < hex_encode cs"
proof (induction bs arbitrary: cs)
  case Nil
  then show ?case by (cases cs) simp_all
next
  case (Cons a bs)
  then obtain b cs' where cs: "cs = b # cs'" by (cases cs) auto
  with Cons.prems have "a < b \<or> a = b \<and> bs < cs'" by simp
  then show ?case using hex_byte_less[of a b] Cons.IH[of cs'] unfolding cs by auto
qed

subsection \<open>Entries of a directory\<close>

lemma map_of_put_assoc [simp]: "map_of (put_assoc k v l) = (map_of l)(k \<mapsto> v)"
  by (induction l) (auto simp: fun_eq_iff)

lemma map_of_remove_all [simp]: "map_of (remove_all n d) = (map_of d)(n := None)"
  by (induction d) (auto simp: remove_all_def fun_eq_iff)

lemma keys_put_assoc: "map fst (put_assoc k v l) = (if k \<in> set (map fst l) then map fst l else map fst l @ [k])"
proof (induction l)
  case (Cons x l)
  then show ?case by (cases x) (simp del: set_map)
qed simp

lemma distinct_put_assoc: "distinct (map fst l) \<Longrightarrow> distinct (map fst (put_assoc k v l))"
  by (simp add: keys_put_assoc)

definition revisions :: "'f dir \<Rightarrow> string set" where
  "revisions d = {n. map_of d n \<noteq> None \<and> CHR ''.'' \<notin> set n}"

lemma newest_fold:
  "let r = fold (\<lambda>(name, _) mx. if CHR ''.'' \<notin> set name \<and> name > mx then name else mx) d mx in
    mx \<le> r \<and> (\<forall>n \<in> revisions d. n \<le> r) \<and> (r = mx \<or> r \<in> revisions d)"
proof (induction d arbitrary: mx)
  case (Cons x d)
  obtain name e where x: "x = (name, e)" by (cases x)
  define mx' where "mx' = (if CHR ''.'' \<notin> set name \<and> name > mx then name else mx)"
  have rs: "revisions (x # d) = (if CHR ''.'' \<notin> set name then insert name (revisions d) else revisions d)"
    by (auto simp: revisions_def x)
  define r where "r = fold (\<lambda>(name, _) mx. if CHR ''.'' \<notin> set name \<and> name > mx then name else mx) d mx'"
  have IH: "mx' \<le> r" "\<forall>n \<in> revisions d. n \<le> r" "r = mx' \<or> r \<in> revisions d"
    using Cons.IH[of mx'] unfolding Let_def r_def[symmetric] by blast+
  have mx': "mx \<le> mx'" "CHR ''.'' \<notin> set name \<Longrightarrow> name \<le> mx'" "mx' = mx \<or> mx' \<in> revisions (x # d)"
    unfolding mx'_def rs by auto
  have "mx \<le> r" using mx'(1) IH(1) by (rule order_trans)
  moreover have "n \<le> r" if "n \<in> revisions (x # d)" for n
    using that IH(1,2) mx'(2) unfolding rs by (auto split: if_splits intro: order_trans)
  moreover have "r = mx \<or> r \<in> revisions (x # d)" using IH(3) mx'(3) unfolding rs by auto
  ultimately show ?case unfolding Let_def fold_Cons x o_apply prod.case mx'_def[symmetric] r_def[symmetric] by blast
qed (simp add: revisions_def)

lemma newest_le: "n \<in> revisions d \<Longrightarrow> n \<le> newest d"
  and newest_in: "newest d \<noteq> [] \<Longrightarrow> newest d \<in> revisions d"
  using newest_fold[of d "[]"] unfolding newest_def Let_def by blast+

text \<open>\<^verbatim>\<open>CleanupManifests\<close> removes neither the newest revision nor anything above it.\<close>

lemma map_of_filter_key: "(\<And>e. P (k, e)) \<Longrightarrow> map_of (filter P d) k = map_of d k"
  by (induction d) auto

lemma cleanup_keeps_newest:
  fixes d :: "'f dir"
  shows "LoadManifest unjson (CleanupManifests now d) = LoadManifest unjson d"
proof (cases "newest d = []")
  case False
  define keep where "keep = (\<lambda>(name, e :: 'f dirent). \<not> (too_old now e \<and> (let v = takeWhile (\<lambda>c. c \<noteq> CHR ''.'') name
    in v < newest d \<or> v = newest d \<and> v \<noteq> name)))"
  have clean: "CleanupManifests now d = filter keep d" using False by (simp add: CleanupManifests_def keep_def Let_def)
  have dotless: "CHR ''.'' \<notin> set (newest d)" using newest_in[OF False] by (simp add: revisions_def)
  then have whole: "takeWhile (\<lambda>c. c \<noteq> CHR ''.'') (newest d) = newest d" unfolding takeWhile_eq_all_conv by blast
  have same: "map_of (filter keep d) (newest d) = map_of d (newest d)"
    by (intro map_of_filter_key) (simp only: keep_def prod.case whole Let_def less_irrefl simp_thms)
  then have new: "newest d \<in> revisions (filter keep d)" using newest_in[OF False] by (simp add: revisions_def)
  moreover have "revisions (filter keep d) \<subseteq> revisions d" by (auto simp: revisions_def map_of_eq_None_iff dest: map_of_SomeD)
  moreover have "newest (filter keep d) \<noteq> []" using newest_le[OF new] False by auto
  ultimately have "newest (filter keep d) = newest d"
    using newest_in[of "filter keep d"] newest_le by (meson antisym subsetD)
  then show ?thesis unfolding clean LoadManifest_def by (simp add: same Let_def)
qed (simp add: CleanupManifests_def)

subsection \<open>The chain of revisions\<close>

definition ordered_revs :: "(u64 \<Rightarrow> byte list) \<Rightarrow> bool" where
  "ordered_revs oc \<longleftrightarrow> (\<forall>r s. r < s \<longrightarrow> oc r < oc s)"

lemma rev_id_less: "ordered_revs oc \<Longrightarrow> r < s \<Longrightarrow> rev_id oc r < rev_id oc s"
  by (simp add: ordered_revs_def rev_id_def hex_encode_mono)

lemma rev_id_inj: "ordered_revs oc \<Longrightarrow> rev_id oc r = rev_id oc s \<longleftrightarrow> r = s"
  using rev_id_less[of oc r s] rev_id_less[of oc s r] by (cases r s rule: linorder_cases) auto

lemma rev_id_nonempty: "ordered_revs oc \<Longrightarrow> 0 < r \<Longrightarrow> rev_id oc r \<noteq> []"
  using rev_id_less[of oc 0 r] by auto

lemma rev_id_not_dot: "CHR ''.'' \<notin> set (rev_id oc r)"
  by (simp add: rev_id_def hex_encode_not_dot)

lemma tmp_id_dot: "CHR ''.'' \<in> set (tmp_id oc m rid)"
  by (simp add: tmp_id_def)

text \<open>The manifest after \<open>n\<close> transactions of the log.\<close>

definition keeps_revision :: "txn \<Rightarrow> bool" where
  "keeps_revision f \<longleftrightarrow> (\<forall>m m'. f m = Some m' \<longrightarrow> mf_Revision m' = mf_Revision m)"

definition after :: "txn list \<Rightarrow> nat \<Rightarrow> Manifest option" where
  "after fs n = serial (take n fs) empty_manifest"

lemma serial_append: "serial (fs @ gs) m = Option.bind (serial fs m) (serial gs)"
  by (induction fs arbitrary: m) (auto split: Option.bind_split)

lemma after_append [simp]: "n \<le> length fs \<Longrightarrow> after (fs @ gs) n = after fs n"
  by (simp add: after_def)

lemma after_Suc:
  "after (fs @ [f]) (Suc (length fs)) =
     Option.bind (after fs (length fs)) (\<lambda>m. map_option (\<lambda>m. m\<lparr>mf_Revision := mf_Revision m + 1\<rparr>) (f m))"
  by (auto simp: after_def serial_append split: Option.bind_split option.splits)

lemma serial_revision:
  "serial fs m = Some m' \<Longrightarrow> list_all keeps_revision fs \<Longrightarrow> mf_Revision m' = mf_Revision m + of_nat (length fs)"
proof (induction fs arbitrary: m)
  case (Cons f fs)
  then obtain m1 where "f m = Some m1" "serial fs (m1\<lparr>mf_Revision := mf_Revision m1 + 1\<rparr>) = Some m'"
    by (auto simp: bind_eq_Some_conv)
  with Cons show ?case by (auto simp: keeps_revision_def)
qed simp

text \<open>A manifest a client has made is one transaction after one of the chain.\<close>

definition proposed :: "txn list \<Rightarrow> txn \<Rightarrow> Manifest \<Rightarrow> bool" where
  "proposed fs f m \<longleftrightarrow> keeps_revision f \<and> (\<exists>n m0 m1. n \<le> length fs \<and> after fs n = Some m0 \<and> f m0 = Some m1
    \<and> m = m1\<lparr>mf_Revision := mf_Revision m1 + 1\<rparr> \<and> mf_Revision m = of_nat (Suc n))"

lemma proposed_append: "proposed fs f m \<Longrightarrow> proposed (fs @ gs) f m"
proof -
  assume "proposed fs f m"
  then obtain n m0 m1 where n: "keeps_revision f" "n \<le> length fs" "after fs n = Some m0" "f m0 = Some m1"
    "m = m1\<lparr>mf_Revision := mf_Revision m1 + 1\<rparr>" "mf_Revision m = of_nat (Suc n)" unfolding proposed_def by blast
  show ?thesis unfolding proposed_def
    by (rule conjI[OF n(1)], intro exI[of _ n] exI[of _ m0] exI[of _ m1] conjI) (use n in simp_all)
qed

definition dir_inv :: "(u64 \<Rightarrow> byte list) \<Rightarrow> (Manifest \<Rightarrow> 'f) \<Rightarrow> 'f dir \<Rightarrow> txn list \<Rightarrow> bool" where
  "dir_inv oc json d fs \<longleftrightarrow> list_all keeps_revision fs \<and> length fs < 2 ^ 64 - 1
    \<and> revisions d = (\<lambda>n. rev_id oc (of_nat n)) ` {1..length fs}
    \<and> (\<forall>n \<le> length fs. \<exists>m. after fs n = Some m
        \<and> (n > 0 \<longrightarrow> map_option de_file (map_of d (rev_id oc (of_nat n))) = Some (Some (json m))))"

definition phase_inv :: "(Manifest \<Rightarrow> 'f) \<Rightarrow> 'f dir \<Rightarrow> txn list \<Rightarrow> phase \<Rightarrow> bool" where
  "phase_inv json d fs p = (case p of
     Idle \<Rightarrow> True
   | Changed f m \<Rightarrow> proposed fs f m
   | Checked f m \<Rightarrow> proposed fs f m
   | Staged f m tmp \<Rightarrow> proposed fs f m \<and> CHR ''.'' \<in> set tmp \<and> map_option de_file (map_of d tmp) = Some (Some (json m)))"

definition tmp_of :: "phase \<Rightarrow> string option" where
  "tmp_of p = (case p of Staged f m tmp \<Rightarrow> Some tmp | _ \<Rightarrow> None)"

definition store_inv :: "(u64 \<Rightarrow> byte list) \<Rightarrow> (Manifest \<Rightarrow> 'f) \<Rightarrow> 'f store \<Rightarrow> bool" where
  "store_inv oc json s \<longleftrightarrow> dir_inv oc json (st_dir s) (st_log s)
    \<and> (\<forall>c. phase_inv json (st_dir s) (st_log s) (st_phase s c))
    \<and> (\<forall>c c' tmp. tmp_of (st_phase s c) = Some tmp \<and> tmp_of (st_phase s c') = Some tmp \<longrightarrow> c = c')"

lemma open_store_inv: "store_inv oc json open_store"
  by (simp add: store_inv_def open_store_def dir_inv_def phase_inv_def tmp_of_def revisions_def after_def)

lemma nat_less_word: "n < 2 ^ 64 - 1 \<Longrightarrow> m \<le> n \<Longrightarrow> unat (of_nat m :: u64) = m"
  by (simp add: unat_of_nat take_bit_eq_mod)

lemma load_newest:
  assumes inv: "dir_inv oc json d fs" and oc: "ordered_revs oc" and js: "\<And>m. unjson (json m) = Some m"
  shows "\<exists>m. after fs (length fs) = Some m \<and> LoadManifest unjson d = Inr m"
proof (cases "fs = []")
  case True
  then have "revisions d = {}" using inv by (simp add: dir_inv_def)
  then have "newest d = []" using newest_in[of d] by blast
  then show ?thesis using True by (simp add: LoadManifest_def after_def)
next
  case False
  define n where "n = length fs"
  have n: "0 < n" "n < 2 ^ 64 - 1" using False inv by (auto simp: n_def dir_inv_def)
  have revs: "revisions d = (\<lambda>n. rev_id oc (of_nat n)) ` {1..n}" using inv by (simp add: dir_inv_def n_def)
  obtain m where m: "after fs n = Some m" "map_option de_file (map_of d (rev_id oc (of_nat n))) = Some (Some (json m))"
    using inv n(1) unfolding dir_inv_def n_def by blast
  have "rev_id oc (of_nat n) \<in> revisions d" using revs n(1) by auto
  then have le: "rev_id oc (of_nat n) \<le> newest d" by (rule newest_le)
  have "0 < (of_nat n :: u64)" using nat_less_word[OF n(2) order_refl] n(1) by (simp add: word_less_nat_alt)
  then have "rev_id oc (of_nat n) \<noteq> []" using rev_id_nonempty[OF oc] by blast
  with le have ne: "newest d \<noteq> []" by auto
  then have "newest d \<in> revisions d" by (rule newest_in)
  then obtain k where k: "newest d = rev_id oc (of_nat k)" "1 \<le> k" "k \<le> n" using revs by auto
  have "k = n"
  proof (rule ccontr)
    assume "k \<noteq> n"
    then have "(of_nat k :: u64) < of_nat n" using k nat_less_word[OF n(2)] by (simp add: word_less_nat_alt)
    with rev_id_less[OF oc] le k(1) show False by fastforce
  qed
  with k m ne show ?thesis unfolding n_def[symmetric] LoadManifest_def
    by (auto simp: Let_def js split: option.splits)
qed

subsection \<open>The steps keep the chain\<close>

lemma revisions_tmp [simp]: "CHR ''.'' \<in> set tmp \<Longrightarrow> revisions (put_assoc tmp e d) = revisions d"
  "CHR ''.'' \<in> set tmp \<Longrightarrow> revisions (remove_all tmp d) = revisions d"
  by (auto simp: revisions_def)

lemma dir_inv_cong:
  assumes "dir_inv oc json d fs" and "\<And>n. CHR ''.'' \<notin> set n \<Longrightarrow> map_of d' n = map_of d n"
  shows "dir_inv oc json d' fs"
proof -
  have "revisions d' = revisions d" using assms(2) by (auto simp: revisions_def)
  then show ?thesis using assms(1) assms(2)[OF rev_id_not_dot] by (simp add: dir_inv_def)
qed

lemma phase_inv_cong:
  "phase_inv json d fs p \<Longrightarrow> (\<And>tmp. tmp_of p = Some tmp \<Longrightarrow> map_of d' tmp = map_of d tmp) \<Longrightarrow> phase_inv json d' fs p"
  by (cases p) (simp_all add: phase_inv_def tmp_of_def)

lemma phase_inv_log: "phase_inv json d fs p \<Longrightarrow> phase_inv json d (fs @ gs) p"
  by (cases p) (simp_all add: phase_inv_def proposed_append)

lemma set_phase_inv:
  assumes "store_inv oc json s" and "phase_inv json (st_dir s) (st_log s) p"
    and "\<And>tmp c'. tmp_of p = Some tmp \<Longrightarrow> c' \<noteq> c \<Longrightarrow> tmp_of (st_phase s c') \<noteq> Some tmp"
  shows "store_inv oc json (set_phase c p s)"
  using assms unfolding store_inv_def set_phase_def by (auto split: if_splits)

lemma load_inv:
  assumes inv: "store_inv oc json s" and oc: "ordered_revs oc" and js: "\<And>m. unjson (json m) = Some m"
    and f: "keeps_revision f"
  shows "store_inv oc json (txn_load unjson c f s)"
proof -
  have dir: "dir_inv oc json (st_dir s) (st_log s)" using inv by (simp add: store_inv_def)
  from load_newest[of oc json, OF dir oc js] obtain m where m: "after (st_log s) (length (st_log s)) = Some m"
    and load: "LoadManifest unjson (st_dir s) = Inr m" by blast
  show ?thesis
  proof (cases "f m")
    case None
    then show ?thesis using inv load by (simp add: txn_load_def)
  next
    case (Some m1)
    have "mf_Revision m = of_nat (length (st_log s))"
      using serial_revision[of "st_log s" empty_manifest m] m dir by (simp add: after_def dir_inv_def empty_manifest_def)
    then have "proposed (st_log s) f (m1\<lparr>mf_Revision := mf_Revision m1 + 1\<rparr>)"
      using m Some f unfolding proposed_def keeps_revision_def by (intro conjI exI[of _ "length (st_log s)"] exI[of _ m] exI[of _ m1]) auto
    then show ?thesis unfolding txn_load_def load sum.case Some option.case
      by (intro set_phase_inv[OF inv]) (simp_all add: phase_inv_def tmp_of_def)
  qed
qed

lemma stage_inv:
  assumes inv: "store_inv oc json s" and p: "phase_inv json (st_dir s) (st_log s) (Checked f m)"
    and d: "write_stage json (tmp_id oc m rid) now m (st_dir s) = Inr d"
  shows "store_inv oc json (set_phase c (Staged f m (tmp_id oc m rid)) (s\<lparr>st_dir := d\<rparr>))"
proof (rule set_phase_inv)
  define tmp where "tmp = tmp_id oc m rid"
  have new: "map_of (st_dir s) tmp = None" and d': "d = put_assoc tmp \<lparr>de_ModTime = now, de_file = Some (json m)\<rparr> (st_dir s)"
    using d by (auto simp: write_stage_def tmp_def[symmetric] split: if_splits)
  have dot: "CHR ''.'' \<in> set tmp" by (simp add: tmp_def tmp_id_dot)
  have others: "tmp_of (st_phase s c') \<noteq> Some tmp" for c'
  proof
    assume "tmp_of (st_phase s c') = Some tmp"
    then obtain f' m' where "st_phase s c' = Staged f' m' tmp" by (cases "st_phase s c'") (simp_all add: tmp_of_def)
    moreover have "phase_inv json (st_dir s) (st_log s) (st_phase s c')" using inv by (simp add: store_inv_def)
    ultimately show False using new by (simp add: phase_inv_def)
  qed
  show "store_inv oc json (s\<lparr>st_dir := d\<rparr>)" unfolding store_inv_def
  proof (intro conjI allI)
    show "dir_inv oc json (st_dir (s\<lparr>st_dir := d\<rparr>)) (st_log (s\<lparr>st_dir := d\<rparr>))"
      using inv dot by (auto simp: store_inv_def d' intro: dir_inv_cong[of oc json "st_dir s"])
    fix c'
    have "map_of d t = map_of (st_dir s) t" if "tmp_of (st_phase s c') = Some t" for t
      using others[of c'] that by (auto simp: d')
    then show "phase_inv json (st_dir (s\<lparr>st_dir := d\<rparr>)) (st_log (s\<lparr>st_dir := d\<rparr>)) (st_phase (s\<lparr>st_dir := d\<rparr>) c')"
      using inv phase_inv_cong[of json "st_dir s" "st_log s" "st_phase s c'" d] by (simp add: store_inv_def)
  qed (use inv in \<open>simp add: store_inv_def\<close>)
  show "phase_inv json (st_dir (s\<lparr>st_dir := d\<rparr>)) (st_log (s\<lparr>st_dir := d\<rparr>)) (Staged f m (tmp_id oc m rid))"
    using p dot by (simp add: phase_inv_def d' tmp_def[symmetric])
  show "tmp_of (st_phase (s\<lparr>st_dir := d\<rparr>) c') \<noteq> Some t" if "tmp_of (Staged f m (tmp_id oc m rid)) = Some t" for t c'
    using that others[of c'] by (simp add: tmp_of_def tmp_def[symmetric])
qed

text \<open>When a revision is published, it is the one after the newest.\<close>

lemma publish_chain:
  assumes dir: "dir_inv oc json d fs" and oc: "ordered_revs oc" and p: "proposed fs f m"
    and free: "map_of d (rev_id oc (mf_Revision m)) = None" and room: "length fs + 1 < 2 ^ 64 - 1"
    and d': "\<And>n. CHR ''.'' \<notin> set n \<Longrightarrow> map_of d' n = ((map_of d)(rev_id oc (mf_Revision m) \<mapsto> e)) n"
    and e: "de_file e = Some (json m)"
  shows "dir_inv oc json d' (fs @ [f])"
proof -
  obtain n m0 m1 where n: "n \<le> length fs" and m0: "after fs n = Some m0" "f m0 = Some m1"
    and m: "m = m1\<lparr>mf_Revision := mf_Revision m1 + 1\<rparr>" and r: "mf_Revision m = of_nat (Suc n)"
    and kr: "keeps_revision f" using p by (auto simp: proposed_def)
  have "n = length fs"
  proof (rule ccontr)
    assume "n \<noteq> length fs"
    then have "rev_id oc (mf_Revision m) \<in> revisions d"
    proof -
      have "revisions d = (\<lambda>n. rev_id oc (of_nat n)) ` {1..length fs}" using dir by (simp add: dir_inv_def)
      moreover have "Suc n \<in> {1..length fs}" using n \<open>n \<noteq> length fs\<close> by simp
      ultimately show ?thesis unfolding r by blast
    qed
    then show False using free by (simp add: revisions_def)
  qed
  note n = this
  have last: "after (fs @ [f]) (Suc (length fs)) = Some m" using m0 m by (simp add: after_Suc n)
  have revs: "revisions d' = insert (rev_id oc (mf_Revision m)) (revisions d)"
    using d' rev_id_not_dot[of oc "mf_Revision m"] by (auto simp: revisions_def)
  have "\<exists>m. after (fs @ [f]) k = Some m
      \<and> (k > 0 \<longrightarrow> map_option de_file (map_of d' (rev_id oc (of_nat k))) = Some (Some (json m)))"
    if k: "k \<le> Suc (length fs)" for k
  proof (cases "k = Suc (length fs)")
    case True
    then show ?thesis using last d'[OF rev_id_not_dot] r n e by simp
  next
    case False
    with k have le: "k \<le> length fs" by simp
    have "(of_nat k :: u64) \<noteq> of_nat (Suc (length fs))"
      using nat_less_word[of "length fs + 1" k] nat_less_word[of "length fs + 1" "Suc (length fs)"] room le
      by (metis Suc_eq_plus1 Suc_n_not_le_n le_SucI order_refl)
    then have "map_of d' (rev_id oc (of_nat k)) = map_of d (rev_id oc (of_nat k))"
      using d'[OF rev_id_not_dot] unfolding r n by (simp add: rev_id_inj[OF oc])
    moreover have "\<exists>m. after fs k = Some m
      \<and> (k > 0 \<longrightarrow> map_option de_file (map_of d (rev_id oc (of_nat k))) = Some (Some (json m)))"
      using dir le by (simp add: dir_inv_def)
    ultimately show ?thesis using le by simp
  qed
  moreover have "revisions d' = (\<lambda>n. rev_id oc (of_nat n)) ` {1..length (fs @ [f])}"
    using dir by (simp add: revs r n dir_inv_def atLeastAtMostSuc_conv)
  ultimately show ?thesis using dir room kr unfolding dir_inv_def by simp
qed

lemma rename_inv:
  assumes inv: "store_inv oc json s" and oc: "ordered_revs oc" and room: "length (st_log s) + 1 < 2 ^ 64 - 1"
    and p: "st_phase s c = Staged f m tmp" and w: "write_rename oc tmp m (st_dir s) = (res, d)"
  shows "store_inv oc json (set_phase c Idle (s\<lparr>st_dir := d, st_log := st_log s @ (case res of Inl _ \<Rightarrow> [] | Inr _ \<Rightarrow> [f])\<rparr>))"
proof -
  define fs where "fs = st_log s @ (case res of Inl _ \<Rightarrow> [] | Inr _ \<Rightarrow> [f])"
  have dir: "dir_inv oc json (st_dir s) (st_log s)" and phases: "\<And>c. phase_inv json (st_dir s) (st_log s) (st_phase s c)"
    and single: "\<And>c c' tmp. tmp_of (st_phase s c) = Some tmp \<Longrightarrow> tmp_of (st_phase s c') = Some tmp \<Longrightarrow> c = c'"
    using inv unfolding store_inv_def by blast+
  from phases[of c] have pr: "proposed (st_log s) f m" and dot: "CHR ''.'' \<in> set tmp"
    and "map_option de_file (map_of (st_dir s) tmp) = Some (Some (json m))" by (simp_all add: p phase_inv_def)
  then obtain e where e: "map_of (st_dir s) tmp = Some e" "de_file e = Some (json m)" by auto
  define end' where "end' = rev_id oc (mf_Revision m)"
  have res: "res = (if map_of (st_dir s) end' \<noteq> None then Inl OSError else Inr ())"
    and d: "\<And>n. n \<noteq> tmp \<Longrightarrow> map_of d n = (if map_of (st_dir s) end' \<noteq> None then map_of (st_dir s) n else ((map_of (st_dir s))(end' \<mapsto> e)) n)"
    using w e(1) by (auto simp: write_rename_def end'_def Let_def split: if_splits)
  have dotless: "n \<noteq> tmp" if "CHR ''.'' \<notin> set n" for n using that dot by blast
  have dir': "dir_inv oc json d fs"
  proof (cases "map_of (st_dir s) end' = None")
    case True
    have "dir_inv oc json d (st_log s @ [f])"
      using publish_chain[OF dir oc pr True[unfolded end'_def] room _ e(2), of d] d[OF dotless] True by (simp add: end'_def)
    then show ?thesis using True by (simp add: fs_def res)
  next
    case False
    then show ?thesis using dir_inv_cong[OF dir, of d] d[OF dotless] by (simp add: fs_def res)
  qed
  have others: "phase_inv json d fs (st_phase s c')" if "c' \<noteq> c" for c'
    unfolding fs_def
  proof (intro phase_inv_log phase_inv_cong[OF phases])
    fix t assume t: "tmp_of (st_phase s c') = Some t"
    have "t \<noteq> tmp" using single[of c tmp c'] t that p by (auto simp: tmp_of_def)
    moreover have "CHR ''.'' \<in> set t" using t phases[of c'] by (cases "st_phase s c'") (auto simp: tmp_of_def phase_inv_def)
    then have "t \<noteq> end'" using rev_id_not_dot[of oc "mf_Revision m"] unfolding end'_def by blast
    ultimately show "map_of d t = map_of (st_dir s) t" using d[of t] by simp
  qed
  have "phase_inv json d fs (if c' = c then Idle else st_phase s c')" for c'
    using others[of c'] by (simp add: phase_inv_def)
  moreover have "tmp_of (if c1 = c then Idle else st_phase s c1) = Some t
      \<and> tmp_of (if c2 = c then Idle else st_phase s c2) = Some t \<longrightarrow> c1 = c2" for c1 c2 t
    using single[of c1 t c2] by (auto simp: tmp_of_def)
  ultimately have "store_inv oc json \<lparr>st_dir = d, st_phase = (st_phase s)(c := Idle), st_log = fs\<rparr>"
    unfolding store_inv_def store.select_convs fun_upd_apply using dir' by blast
  then show ?thesis by (cases s) (simp add: set_phase_def fs_def)
qed

definition step_keeps :: "txn_step \<Rightarrow> bool" where
  "step_keeps e \<longleftrightarrow> (case e of Load c f \<Rightarrow> keeps_revision f | _ \<Rightarrow> True)"

lemma do_step_inv:
  assumes inv: "store_inv oc json s" and oc: "ordered_revs oc" and js: "\<And>m. unjson (json m) = Some m"
    and room: "length (st_log s) + 1 < 2 ^ 64 - 1" and keeps: "step_keeps e" and run: "do_step oc json unjson s e = Some s'"
  shows "store_inv oc json s' \<and> length (st_log s') \<le> length (st_log s) + 1"
proof (cases e)
  case (Load c f)
  then have "s' = txn_load unjson c f s" using run by (simp add: do_step_def split: phase.splits)
  moreover have "st_log (txn_load unjson c f s) = st_log s" by (simp add: txn_load_def set_phase_def split: sum.splits option.splits)
  ultimately show ?thesis using load_inv[OF inv oc js] keeps Load by (simp add: step_keeps_def)
next
  case (Check c)
  then obtain f m where p: "st_phase s c = Changed f m" using run by (simp add: do_step_def split: phase.splits)
  have "phase_inv json (st_dir s) (st_log s) (st_phase s c)" using inv by (simp add: store_inv_def)
  then have "phase_inv json (st_dir s) (st_log s) q" if "q = Idle \<or> q = Checked f m" for q
    using that unfolding p by (auto simp: phase_inv_def)
  then have "store_inv oc json (set_phase c q s)" if "q = Idle \<or> q = Checked f m" for q
    using that by (intro set_phase_inv[OF inv]) (auto simp: tmp_of_def)
  moreover have "s' = set_phase c Idle s \<or> s' = set_phase c (Checked f m) s"
    using run p by (auto simp: do_step_def Check split: sum.splits)
  moreover have "st_log (set_phase c q s) = st_log s" for q by (simp add: set_phase_def)
  ultimately show ?thesis by auto
next
  case (Stage c rid now)
  then obtain f m where p: "st_phase s c = Checked f m" using run by (simp add: do_step_def split: phase.splits)
  have ph: "phase_inv json (st_dir s) (st_log s) (Checked f m)" using inv p unfolding store_inv_def by metis
  show ?thesis
  proof (cases "write_stage json (tmp_id oc m rid) now m (st_dir s)")
    case (Inl err)
    then have "s' = set_phase c Idle s" using run p by (simp add: do_step_def Stage)
    then show ?thesis using set_phase_inv[OF inv, of Idle c] by (simp add: phase_inv_def tmp_of_def) (simp add: set_phase_def)
  next
    case (Inr d)
    then have "s' = set_phase c (Staged f m (tmp_id oc m rid)) (s\<lparr>st_dir := d\<rparr>)" using run p by (simp add: do_step_def Stage)
    then show ?thesis using stage_inv[OF inv ph Inr, of c] by simp (simp add: set_phase_def)
  qed
next
  case (Rename c)
  then obtain f m tmp where p: "st_phase s c = Staged f m tmp" using run by (simp add: do_step_def split: phase.splits)
  obtain res d where w: "write_rename oc tmp m (st_dir s) = (res, d)" by fastforce
  have s': "s' = set_phase c Idle (s\<lparr>st_dir := d, st_log := st_log s @ (case res of Inl _ \<Rightarrow> [] | Inr _ \<Rightarrow> [f])\<rparr>)"
    using run p w by (simp add: do_step_def Rename)
  have "length (st_log s') \<le> length (st_log s) + 1" unfolding s' set_phase_def by (simp split: sum.splits)
  then show ?thesis using rename_inv[OF inv oc room p w] s' by simp
qed

lemma do_steps_inv:
  assumes oc: "ordered_revs oc" and js: "\<And>m. unjson (json m) = Some m"
  shows "store_inv oc json s \<Longrightarrow> length (st_log s) + length es < 2 ^ 64 - 1 \<Longrightarrow> list_all step_keeps es \<Longrightarrow>
    do_steps oc json unjson s es = Some s' \<Longrightarrow> store_inv oc json s'"
proof (induction es arbitrary: s)
  case (Cons e es)
  then obtain s1 where s1: "do_step oc json unjson s e = Some s1" "do_steps oc json unjson s1 es = Some s'"
    by (auto simp: bind_eq_Some_conv)
  from Cons.prems have "store_inv oc json s1 \<and> length (st_log s1) \<le> length (st_log s) + 1"
    by (intro do_step_inv[OF _ oc js _ _ s1(1)]) auto
  with Cons s1(2) show ?case by auto
qed simp

subsection \<open>Serialisability\<close>

text \<open>C36. Concurrent transactions on the manifest are serialisable: after any sequence of the steps of any
  clients, the manifest that is loaded is the result of running the transactions that were stored, in the
  order in which they were stored, one after another on the empty manifest. No stored update is lost.\<close>

theorem manifest_serialisable:
  assumes "ordered_revs oc" and "\<And>m. unjson (json m) = Some m"
    and "do_steps oc json unjson open_store es = Some s" and "list_all step_keeps es" and "length es < 2 ^ 64 - 1"
  shows "\<exists>m. serial (st_log s) empty_manifest = Some m \<and> LoadManifest unjson (st_dir s) = Inr m"
proof -
  have "store_inv oc json s"
    using do_steps_inv[OF assms(1,2) open_store_inv _ assms(4,3)] assms(5) by (simp add: open_store_def)
  then show ?thesis using load_newest[of oc json, OF _ assms(1,2)] by (auto simp: store_inv_def after_def)
qed

subsection \<open>A race\<close>

text \<open>Revisions as unary numbers.\<close>

definition rev_bytes :: "u64 \<Rightarrow> byte list" where
  "rev_bytes r = replicate (unat r) 1"

lemma replicate_less: "m < n \<Longrightarrow> replicate m x < replicate n (x :: byte)"
  by (induction m arbitrary: n) (auto simp: gr0_conv_Suc less_Suc_eq_0_disj Suc_less_eq2)

lemma ordered_rev_bytes: "ordered_revs rev_bytes"
  by (simp add: ordered_revs_def rev_bytes_def replicate_less word_less_nat_alt)

definition allocate_txn :: "byte \<Rightarrow> txn" where
  "allocate_txn b m = map_option snd (CreateShard 7 [ZeroShardID, replicate shardid_len b] m)"

lemma allocate_txn_keeps: "keeps_revision (allocate_txn b)"
  by (auto simp: keeps_revision_def allocate_txn_def CreateShard_def)

text \<open>Two clients load the same revision; the second one fails to publish its change and starts again.\<close>

definition race :: "txn_step list" where
  "race = [Load 0 (allocate_txn 1), Load 1 (allocate_txn 2), Check 0, Check 1, Stage 1 [9] 0, Stage 0 [8] 0,
     Rename 0, Rename 1, Load 1 (allocate_txn 2), Check 1, Stage 1 [9] 0, Rename 1]"

theorem manifest_serialisable_witness:
  "\<exists>s m. do_steps rev_bytes id Some open_store race = Some s \<and> length (st_log s) = 2
    \<and> serial (st_log s) empty_manifest = Some m \<and> LoadManifest Some (st_dir s) = Inr m"
proof -
  have "case do_steps rev_bytes id Some open_store race of None \<Rightarrow> False | Some s \<Rightarrow> length (st_log s) = 2"
    by code_simp
  then obtain s where s: "do_steps rev_bytes id Some open_store race = Some s" "length (st_log s) = 2"
    by (auto split: option.splits)
  have "list_all step_keeps race" "length race < 2 ^ 64 - 1" by (simp_all add: race_def step_keeps_def allocate_txn_keeps)
  from manifest_serialisable[OF ordered_rev_bytes _ s(1) this] s show ?thesis by auto
qed

end
