(* ===== verification/Manifest_Correct.thy ===== *)
theory Manifest_Correct
  imports Manifest_Store
begin

text \<open>
  Well-formed manifests: every handler keeps them, and no handler panics on one. A reference of a repository
  always leads to a complete shard, and a shard is in the state \<^verbatim>\<open>REFERENCED\<close> exactly when some
  repository refers to it.
\<close>

subsection \<open>Well-formed manifests\<close>

definition shard_wf :: "Shard \<Rightarrow> bool" where
  "shard_wf s \<longleftrightarrow> sh_State s \<in> {CreatingState, UnreferencedState, ReferencedState, DeletingState}
    \<and> (sh_State s = CreatingState \<longrightarrow> sh_CreatedAt s = None)
    \<and> (sh_State s \<in> {UnreferencedState, ReferencedState} \<longrightarrow>
         sh_CreatedAt s \<noteq> None \<and> (\<exists>h. sh_SHA256 s = Some h \<and> length h = sha_len))"

definition shards_wf :: "(ShardID \<times> Shard) list \<Rightarrow> bool" where
  "shards_wf l \<longleftrightarrow> distinct (map fst l)
    \<and> (\<forall>i s. map_of l i = Some s \<longrightarrow> length i = shardid_len \<and> i \<noteq> ZeroShardID \<and> shard_wf s)"

definition repos_wf :: "(string \<times> Repo) list \<Rightarrow> bool" where
  "repos_wf l \<longleftrightarrow> distinct (map fst l)
    \<and> (\<forall>n r. map_of l n = Some r \<longrightarrow> distinct (map fst (rp_Refs r)) \<and> map_of (rp_Refs r) (rp_DefaultRef r) \<noteq> None)"

definition states_wf :: "Manifest \<Rightarrow> bool" where
  "states_wf m \<longleftrightarrow> (\<forall>i. in_use m i \<longleftrightarrow> (\<exists>s. map_of (mf_Shards m) i = Some s \<and> sh_State s = ReferencedState))"

definition manifest_wf :: "Manifest \<Rightarrow> bool" where
  "manifest_wf m \<longleftrightarrow> shards_wf (mf_Shards m) \<and> repos_wf (mf_Repos m) \<and> states_wf m"

lemma empty_manifest_wf: "manifest_wf empty_manifest"
  by (simp add: manifest_wf_def empty_manifest_def shards_wf_def repos_wf_def states_wf_def in_use_def)

text \<open>With distinct names, the references in use are those found by looking names up.\<close>

lemma in_use_iff:
  assumes "repos_wf (mf_Repos m)"
  shows "in_use m i \<longleftrightarrow> (\<exists>n r k v. map_of (mf_Repos m) n = Some r \<and> map_of (rp_Refs r) k = Some v \<and> rr_ShardID v = i)"
proof -
  have "in_use m i \<longleftrightarrow> (\<exists>n r. (n, r) \<in> set (mf_Repos m) \<and> (\<exists>k v. (k, v) \<in> set (rp_Refs r) \<and> rr_ShardID v = i))"
    unfolding in_use_def list_ex_iff by fastforce
  also have "\<dots> \<longleftrightarrow> (\<exists>n r. map_of (mf_Repos m) n = Some r \<and> (\<exists>k v. (k, v) \<in> set (rp_Refs r) \<and> rr_ShardID v = i))"
    using assms by (auto simp: repos_wf_def)
  also have "\<dots> \<longleftrightarrow> (\<exists>n r k v. map_of (mf_Repos m) n = Some r \<and> map_of (rp_Refs r) k = Some v \<and> rr_ShardID v = i)"
    using assms unfolding repos_wf_def by (metis map_of_eq_Some_iff)
  finally show ?thesis .
qed

subsection \<open>Transitions\<close>

lemmas action_table = allowed_actions_def state_defs

lemma shard_wf_states: "shard_wf s \<Longrightarrow> P CreatingState \<Longrightarrow> P UnreferencedState \<Longrightarrow> P ReferencedState \<Longrightarrow> P DeletingState \<Longrightarrow> P (sh_State s)"
  by (auto simp: shard_wf_def)

lemma allowed_from:
  "allowed_actions (CreatingState, referenced) = None" "allowed_actions (DeletingState, referenced) = None"
  "allowed_actions (UnreferencedState, referenced) = Some ReferencedState" "allowed_actions (ReferencedState, referenced) = Some ReferencedState"
  "allowed_actions (CreatingState, unreferenced) = Some CreatingState" "allowed_actions (DeletingState, unreferenced) = None"
  "allowed_actions (UnreferencedState, unreferenced) = Some UnreferencedState" "allowed_actions (ReferencedState, unreferenced) = Some UnreferencedState"
  "allowed_actions (CreatingState, created) = Some UnreferencedState" "allowed_actions (UnreferencedState, created) = None"
  "allowed_actions (ReferencedState, created) = None" "allowed_actions (DeletingState, created) = None"
  by (simp_all add: action_table)

lemma states_distinct [simp]:
  "CreatingState \<noteq> UnreferencedState" "CreatingState \<noteq> ReferencedState" "CreatingState \<noteq> DeletingState"
  "UnreferencedState \<noteq> ReferencedState" "UnreferencedState \<noteq> DeletingState" "ReferencedState \<noteq> DeletingState"
  "UnreferencedState \<noteq> CreatingState" "ReferencedState \<noteq> CreatingState" "DeletingState \<noteq> CreatingState"
  "ReferencedState \<noteq> UnreferencedState" "DeletingState \<noteq> UnreferencedState" "DeletingState \<noteq> ReferencedState"
  by (simp_all add: state_defs)

lemma Referenced_wf:
  "shard_wf s \<Longrightarrow> Referenced now s = (True, s') \<Longrightarrow> shard_wf s' \<and> sh_State s' = ReferencedState"
  by (auto simp: shard_wf_def Referenced_def transition_def allowed_from split: option.splits)

lemma Unreferenced_wf:
  "shard_wf s \<Longrightarrow> Unreferenced now s = (True, s') \<Longrightarrow> shard_wf s' \<and> sh_State s' \<noteq> ReferencedState"
  by (auto simp: shard_wf_def Unreferenced_def transition_def allowed_from split: option.splits)

lemma Created_wf:
  assumes "shard_wf s" and "Created now h n sha s = (True, s')" and "length sha = sha_len"
  shows "shard_wf s' \<and> sh_State s = CreatingState \<and> sh_State s' = UnreferencedState"
proof -
  have "sh_State s = CreatingState"
    using assms(1,2) by (auto simp: shard_wf_def Created_def transition_def allowed_from)
  then show ?thesis using assms by (auto simp: shard_wf_def Created_def transition_def allowed_from)
qed

lemma reconcile_keys: "reconcile_loop now used ok l = (ok', l') \<Longrightarrow> map fst l' = map fst l"
  by (induction now used ok l arbitrary: ok' l' rule: reconcile_loop.induct) (auto simp: Let_def split: prod.splits)

lemma reconcile_failed: "reconcile_loop now used False l = (ok, l') \<Longrightarrow> \<not> ok"
  by (induction l arbitrary: ok l') (auto simp: Let_def split: prod.splits)

lemma reconcile_spec:
  assumes "reconcile_loop now used True l = (True, l')" and "map_of l' i = Some s'"
  shows "\<exists>s. map_of l i = Some s \<and> (if used i then Referenced now s else Unreferenced now s) = (True, s')"
  using assms
proof (induction l arbitrary: l')
  case (Cons x l)
  obtain j s where x: "x = (j, s)" by (cases x)
  obtain ok s1 where s1: "(if used j then Referenced now s else Unreferenced now s) = (ok, s1)" by fastforce
  obtain ok2 l2 where l2: "reconcile_loop now used ok l = (ok2, l2)" by fastforce
  have loop: "reconcile_loop now used True (x # l) = (ok2, (j, s1) # l2)"
    using s1 l2 by (simp add: x Let_def split: prod.splits if_splits)
  with Cons.prems(1) have ok2: "ok2" "l' = (j, s1) # l2" by simp_all
  then have ok: "ok" using reconcile_failed[of now used l ok2 l2] l2 by (cases ok) auto
  show ?case
  proof (cases "i = j")
    case True
    then show ?thesis using Cons.prems(2) ok2 s1 ok by (simp add: x)
  next
    case False
    then show ?thesis using Cons.IH[of l2] Cons.prems(2) ok2 l2 ok by (simp add: x)
  qed
qed simp

lemma map_of_keys: "map fst l = map fst l' \<Longrightarrow> map_of l i = None \<longleftrightarrow> map_of l' i = None"
  by (simp add: map_of_eq_None_iff flip: set_map)

lemma reconcile_wf:
  assumes m: "shards_wf (mf_Shards m)" "repos_wf (mf_Repos m)" and used: "\<And>i. in_use m i \<Longrightarrow> map_of (mf_Shards m) i \<noteq> None"
    and ok: "ReconcileShardStates now m = (True, m')"
  shows "manifest_wf m' \<and> mf_Repos m' = mf_Repos m \<and> mf_Revision m' = mf_Revision m"
proof -
  obtain l where l: "reconcile_loop now (in_use m) True (mf_Shards m) = (True, l)" and m': "m' = m\<lparr>mf_Shards := l\<rparr>"
    using ok by (auto simp: ReconcileShardStates_def Let_def split: prod.splits)
  note keys = reconcile_keys[OF l]
  have shard: "shard_wf s' \<and> (sh_State s' = ReferencedState \<longleftrightarrow> in_use m i) \<and> (\<exists>s. map_of (mf_Shards m) i = Some s)"
    if s': "map_of l i = Some s'" for i s'
  proof -
    from reconcile_spec[OF l s'] obtain s where s: "map_of (mf_Shards m) i = Some s"
      "(if in_use m i then Referenced now s else Unreferenced now s) = (True, s')" by blast
    moreover have "shard_wf s" using m(1) s(1) unfolding shards_wf_def by blast
    ultimately show ?thesis using Referenced_wf[of s now s'] Unreferenced_wf[of s now s'] by (auto split: if_splits)
  qed
  have "shards_wf l" using m(1) shard keys unfolding shards_wf_def by metis
  moreover have "states_wf m'"
  proof -
    have use: "in_use m' i = in_use m i" for i by (simp add: in_use_def m')
    have "in_use m i \<longleftrightarrow> (\<exists>s. map_of l i = Some s \<and> sh_State s = ReferencedState)" for i
      using shard[of i] used[of i] map_of_keys[OF keys, of i] by (cases "map_of l i") auto
    then show ?thesis unfolding states_wf_def use by (simp add: m')
  qed
  ultimately show ?thesis using m(2) by (simp add: manifest_wf_def m')
qed

subsection \<open>The handlers keep manifests well formed\<close>

lemma shards_wf_put:
  "shards_wf l \<Longrightarrow> length i = shardid_len \<Longrightarrow> i \<noteq> ZeroShardID \<Longrightarrow> shard_wf s \<Longrightarrow> shards_wf (put_assoc i s l)"
  by (auto simp: shards_wf_def distinct_put_assoc split: if_splits)

lemma repos_wf_put:
  "repos_wf l \<Longrightarrow> distinct (map fst (rp_Refs r)) \<Longrightarrow> map_of (rp_Refs r) (rp_DefaultRef r) \<noteq> None \<Longrightarrow> repos_wf (put_assoc n r l)"
proof -
  assume wf: "repos_wf l" and r: "distinct (map fst (rp_Refs r))" "map_of (rp_Refs r) (rp_DefaultRef r) \<noteq> None"
  have "distinct (map fst (rp_Refs r')) \<and> map_of (rp_Refs r') (rp_DefaultRef r') \<noteq> None"
    if "map_of (put_assoc n r l) k = Some r'" for k r'
  proof (cases "k = n")
    case True
    then show ?thesis using r that by simp
  next
    case False
    then have "map_of l k = Some r'" using that by simp
    then show ?thesis using wf unfolding repos_wf_def by blast
  qed
  moreover have "distinct (map fst (put_assoc n r l))" using wf by (simp add: repos_wf_def distinct_put_assoc)
  ultimately show ?thesis unfolding repos_wf_def by blast
qed

lemma states_wf_shard:
  assumes "states_wf m" and "map_of (mf_Shards m) i = None \<or> (\<exists>s0. map_of (mf_Shards m) i = Some s0 \<and> sh_State s0 \<noteq> ReferencedState)"
    and "sh_State s \<noteq> ReferencedState"
  shows "states_wf (m\<lparr>mf_Shards := put_assoc i s (mf_Shards m)\<rparr>)"
proof -
  have "\<not> in_use m i" using assms(1,2) by (auto simp: states_wf_def)
  moreover have "in_use (m\<lparr>mf_Shards := l\<rparr>) j = in_use m j" for l j by (simp add: in_use_def)
  ultimately show ?thesis using assms(1,3) by (auto simp: states_wf_def)
qed

lemma fresh_id_spec: "fresh_id l rids = Some i \<Longrightarrow> map_of l i = None \<and> i \<noteq> ZeroShardID \<and> i \<in> set rids"
  by (induction l rids rule: fresh_id.induct) (auto split: if_splits)

lemma AllocateShard_wf:
  assumes "manifest_wf m" and "list_all (\<lambda>r. length r = shardid_len) rids" and "AllocateShard now rids m = Some (Inr (m', s))"
  shows "manifest_wf m'"
proof -
  obtain i where i: "fresh_id (mf_Shards m) rids = Some i"
    "m' = m\<lparr>mf_Shards := put_assoc i ((new_shard now)\<lparr>sh_State := CreatingState, sh_StateWhen := now\<rparr>) (mf_Shards m)\<rparr>"
    using assms(3) by (auto simp: AllocateShard_def CreateShard_def allocate_new bind_eq_Some_conv)
  note fresh = fresh_id_spec[OF i(1)]
  then have "length i = shardid_len" using assms(2) by (auto simp: list_all_iff)
  with fresh assms(1) show ?thesis unfolding i(2) manifest_wf_def
    by (auto intro!: shards_wf_put states_wf_shard simp: shard_wf_def new_shard_def)
qed

lemma AllocateShard_total: "AllocateShard now rids m = None \<longleftrightarrow> fresh_id (mf_Shards m) rids = None"
  by (cases "fresh_id (mf_Shards m) rids") (simp_all add: AllocateShard_def CreateShard_def convertShard_def)

lemma CompleteShard_wf:
  assumes wf: "manifest_wf m" and run: "CompleteShard nh now sid th n sha m = Some (Inr m')"
  shows "manifest_wf m'"
proof -
  obtain i s s' where i: "map_of (mf_Shards m) i = Some s" "Created now (nh th) n sha s = (True, s')" "length sha = sha_len"
    "m' = m\<lparr>mf_Shards := put_assoc i s' (mf_Shards m)\<rparr>"
    using run by (auto simp: CompleteShard_def Let_def split: option.splits if_splits prod.splits)
  have s: "length i = shardid_len" "i \<noteq> ZeroShardID" "shard_wf s"
    using wf i(1) unfolding manifest_wf_def shards_wf_def by blast+
  with Created_wf[OF s(3) i(2,3)] i(1) wf show ?thesis unfolding i(4) manifest_wf_def
    by (auto intro!: shards_wf_put states_wf_shard)
qed

lemma SetDefaultRepoRef_wf:
  assumes wf: "manifest_wf m" and run: "SetDefaultRepoRef name ref m = Some (Inr m')"
  shows "manifest_wf m'"
proof -
  obtain r v where r: "map_of (mf_Repos m) name = Some r" "map_of (rp_Refs r) ref = Some v"
    and m': "m' = m\<lparr>mf_Repos := put_assoc name (r\<lparr>rp_DefaultRef := ref\<rparr>) (mf_Repos m)\<rparr>"
    using run by (auto simp: SetDefaultRepoRef_def split: option.splits)
  have repos: "repos_wf (mf_Repos m)" using wf by (simp add: manifest_wf_def)
  then have dist: "distinct (map fst (rp_Refs r))" using r(1) unfolding repos_wf_def by blast
  have repos': "repos_wf (mf_Repos m')" using repos dist r(2) by (simp add: m' repos_wf_put)
  have "in_use m' i \<longleftrightarrow> in_use m i" for i
    unfolding in_use_iff[OF repos] in_use_iff[OF repos'] using r(1) by (auto simp: m' split: if_splits) (metis Repo.select_convs(2) Repo.surjective Repo.update_convs(1) option.inject)+
  then show ?thesis using wf repos' unfolding manifest_wf_def states_wf_def by (simp add: m')
qed

lemma UpdateRepoShard_wf:
  assumes wf: "manifest_wf m" and run: "UpdateRepoShard now name ref ch sid m = Some (Inr m')"
  shows "manifest_wf m'"
proof -
  define old where "old = (case map_of (mf_Repos m) name of Some r \<Rightarrow> r | None \<Rightarrow> \<lparr>rp_DefaultRef = [], rp_Refs = []\<rparr>)"
  obtain sID where sID: "UnmarshalText sid = Some sID" "map_of (mf_Shards m) sID \<noteq> None"
    using run by (auto simp: UpdateRepoShard_def split: option.splits if_splits)
  define v where "v = (case map_of (rp_Refs old) ref of Some v \<Rightarrow> v | None \<Rightarrow> \<lparr>rr_CommitHash = [], rr_ShardID = ZeroShardID\<rparr>)
    \<lparr>rr_CommitHash := ch, rr_ShardID := sID\<rparr>"
  define new where "new = (if rp_DefaultRef old = [] then old\<lparr>rp_DefaultRef := ref\<rparr> else old)
    \<lparr>rp_Refs := put_assoc ref v (rp_Refs old)\<rparr>"
  have new: "rp_Refs new = put_assoc ref v (rp_Refs old)" "rr_ShardID v = sID"
    "rp_DefaultRef new = (if rp_DefaultRef old = [] then ref else rp_DefaultRef old)" by (simp_all add: new_def v_def)
  define m1 where "m1 = m\<lparr>mf_Repos := put_assoc name new (mf_Repos m)\<rparr>"
  have m1: "GetOrCreateRepo name (\<lambda>r.
        let r = (if rp_DefaultRef r = [] then r\<lparr>rp_DefaultRef := ref\<rparr> else r)
        in GetOrCreateRef ref (\<lambda>v. v\<lparr>rr_CommitHash := ch, rr_ShardID := sID\<rparr>) r) m = m1"
    unfolding GetOrCreateRepo_def GetOrCreateRef_def m1_def old_def[symmetric]
    by (cases "rp_DefaultRef old = []") (simp_all add: new_def v_def Let_def)
  have rec: "ReconcileShardStates now m1 = (True, m')"
    using run sID unfolding UpdateRepoShard_def sID(1) option.case m1 by (simp add: Let_def split: prod.splits if_splits)
  have repos: "repos_wf (mf_Repos m)" using wf by (simp add: manifest_wf_def)
  have old: "distinct (map fst (rp_Refs old))" "map_of (mf_Repos m) name = Some old \<or> rp_Refs old = [] \<and> rp_DefaultRef old = []"
    "rp_DefaultRef old = [] \<or> map_of (rp_Refs old) (rp_DefaultRef old) \<noteq> None"
  proof -
    have "map_of (mf_Repos m) name = Some old \<or> rp_Refs old = [] \<and> rp_DefaultRef old = []"
      by (auto simp: old_def split: option.splits)
    moreover from this have "distinct (map fst (rp_Refs old)) \<and> (rp_DefaultRef old = [] \<or> map_of (rp_Refs old) (rp_DefaultRef old) \<noteq> None)"
      using repos unfolding repos_wf_def by (metis distinct.simps(1) list.simps(8))
    ultimately show "distinct (map fst (rp_Refs old))" "map_of (mf_Repos m) name = Some old \<or> rp_Refs old = [] \<and> rp_DefaultRef old = []"
      "rp_DefaultRef old = [] \<or> map_of (rp_Refs old) (rp_DefaultRef old) \<noteq> None" by blast+
  qed
  have repos1: "repos_wf (mf_Repos m1)"
    unfolding m1_def by (simp, rule repos_wf_put[OF repos]) (use old in \<open>auto simp: new distinct_put_assoc\<close>)
  have "map_of (mf_Shards m1) i \<noteq> None" if use: "in_use m1 i" for i
  proof -
    obtain n r k u where u: "map_of (mf_Repos m1) n = Some r" "map_of (rp_Refs r) k = Some u" "rr_ShardID u = i"
      using use in_use_iff[OF repos1] by blast
    show ?thesis
    proof (cases "i = sID")
      case False
      then have "\<exists>r. map_of (mf_Repos m) n = Some r \<and> map_of (rp_Refs r) k = Some u"
      proof (cases "n = name")
        case True
        then have "r = new" using u(1) by (simp add: m1_def)
        then have upd: "((map_of (rp_Refs old))(ref \<mapsto> v)) k = Some u" using u(2) new(1) by simp
        moreover have "k \<noteq> ref" using upd u(3) new(2) False by (metis fun_upd_same option.inject)
        ultimately have "map_of (rp_Refs old) k = Some u" by simp
        then show ?thesis using old(2) True by auto
      qed (use u in \<open>simp add: m1_def\<close>)
      then have "in_use m i" using u(3) in_use_iff[OF repos] by blast
      then show ?thesis using wf by (auto simp: manifest_wf_def states_wf_def m1_def)
    qed (use sID(2) in \<open>simp add: m1_def\<close>)
  qed
  moreover have "shards_wf (mf_Shards m1)" using wf by (simp add: manifest_wf_def m1_def)
  ultimately show ?thesis using reconcile_wf[OF _ repos1 _ rec] by blast
qed

subsection \<open>Reading a well-formed manifest\<close>

lemma convertRepoRef_wf:
  assumes wf: "manifest_wf m" and r: "map_of (mf_Repos m) name = Some r" "map_of (rp_Refs r) k = Some v"
  shows "\<exists>d. convertRepoRef n k' (Some v) m = Some d \<and> ss_State (sr_Shard d) = Shard_REFERENCED \<and> length (ss_Sha256 (sr_Shard d)) = sha_len"
proof -
  have "in_use m (rr_ShardID v)" using wf r in_use_iff[of m] by (auto simp: manifest_wf_def)
  then obtain s where s: "map_of (mf_Shards m) (rr_ShardID v) = Some s" "sh_State s = ReferencedState"
    using wf by (auto simp: manifest_wf_def states_wf_def)
  have "shard_wf s" using wf s(1) unfolding manifest_wf_def shards_wf_def by blast
  then show ?thesis using s by (auto simp: convertRepoRef_def convertShard_def shard_wf_def)
qed

lemma default_ref:
  assumes "manifest_wf m" and "map_of (mf_Repos m) name = Some r"
  shows "\<exists>v. map_of (rp_Refs r) (rp_DefaultRef r) = Some v"
  using assms unfolding manifest_wf_def repos_wf_def by (meson option.exhaust)

lemma GetRepo_total: "manifest_wf m \<Longrightarrow> GetRepo name m \<noteq> None"
  using convertRepoRef_wf[of m name] default_ref[of m name] by (fastforce simp: GetRepo_def split: option.splits)

lemma GetRepoRef_total: "manifest_wf m \<Longrightarrow> GetRepoRef name ref m \<noteq> None"
  using convertRepoRef_wf[of m name] by (fastforce simp: GetRepoRef_def split: option.splits)

lemma GetRepoRef_complete:
  "manifest_wf m \<Longrightarrow> GetRepoRef name ref m = Some (Inr d) \<Longrightarrow>
    ss_State (sr_Shard d) = Shard_REFERENCED \<and> length (ss_Sha256 (sr_Shard d)) = sha_len"
proof -
  assume wf: "manifest_wf m" and run: "GetRepoRef name ref m = Some (Inr d)"
  from run obtain r v where r: "map_of (mf_Repos m) name = Some r" "map_of (rp_Refs r) ref = Some v"
    "convertRepoRef name ref (Some v) m = Some d" by (auto simp: GetRepoRef_def split: option.splits)
  show ?thesis using convertRepoRef_wf[OF wf r(1,2), of name ref] r(3) by simp
qed

lemma GetShard_total: "GetShard sid m \<noteq> None"
  by (simp add: GetShard_def convertShard_def split: option.splits)

lemma list_refs_total: "manifest_wf m \<Longrightarrow> set names \<subseteq> fst ` set (mf_Repos m) \<Longrightarrow> list_refs m names \<noteq> None"
proof (induction names)
  case (Cons n names)
  then obtain r where r: "map_of (mf_Repos m) n = Some r" using map_of_eq_None_iff[of "mf_Repos m" n] by fastforce
  obtain v where v: "map_of (rp_Refs r) (rp_DefaultRef r) = Some v" using default_ref[OF Cons.prems(1) r] by blast
  from convertRepoRef_wf[OF Cons.prems(1) r v, of n "rp_DefaultRef r"] obtain d where
    "convertRepoRef n (rp_DefaultRef r) (Some v) m = Some d" by blast
  then show ?case using Cons r v by simp
qed simp

lemma ListRepoRefs_total: "manifest_wf m \<Longrightarrow> ListRepoRefs m \<noteq> None"
  unfolding ListRepoRefs_def by (rule list_refs_total) simp_all

subsection \<open>The service\<close>

datatype request =
    ReqAllocate "ShardID list"
  | ReqComplete string string u64 "byte list"
  | ReqSetDefault string string
  | ReqUpdate string string string string

definition handle_request :: "(string \<Rightarrow> string) \<Rightarrow> int \<Rightarrow> request \<Rightarrow> txn" where
  "handle_request nh now rq m =
     Option.bind
       (case rq of
          ReqAllocate rids \<Rightarrow> map_option (map_sum id fst) (AllocateShard now rids m)
        | ReqComplete sid th n sha \<Rightarrow> CompleteShard nh now sid th n sha m
        | ReqSetDefault name ref \<Rightarrow> SetDefaultRepoRef name ref m
        | ReqUpdate name ref ch sid \<Rightarrow> UpdateRepoShard now name ref ch sid m)
       (\<lambda>res. case res of Inl _ \<Rightarrow> None | Inr m \<Rightarrow> Some m)"

text \<open>The identifiers the random numbers make have eight bytes.\<close>

definition request_ok :: "request \<Rightarrow> bool" where
  "request_ok rq \<longleftrightarrow> (case rq of ReqAllocate rids \<Rightarrow> list_all (\<lambda>r. length r = shardid_len) rids | _ \<Rightarrow> True)"

definition service_txn :: "(string \<Rightarrow> string) \<Rightarrow> txn \<Rightarrow> bool" where
  "service_txn nh f \<longleftrightarrow> (\<exists>now rq. request_ok rq \<and> f = handle_request nh now rq)"

lemma map_sum_fst: "map_sum id fst a = Inr x \<longleftrightarrow> (\<exists>s. a = Inr (x, s))"
  by (cases a) auto

lemma bind_result: "Option.bind x (\<lambda>res. case res of Inl _ \<Rightarrow> None | Inr m \<Rightarrow> Some m) = Some m' \<longleftrightarrow> x = Some (Inr m')"
  by (cases x) (auto split: sum.splits)

lemma handle_request_iff:
  "handle_request nh now (ReqAllocate rids) m = Some m' \<longleftrightarrow> (\<exists>s. AllocateShard now rids m = Some (Inr (m', s)))"
  "handle_request nh now (ReqComplete sid th n sha) m = Some m' \<longleftrightarrow> CompleteShard nh now sid th n sha m = Some (Inr m')"
  "handle_request nh now (ReqSetDefault name ref) m = Some m' \<longleftrightarrow> SetDefaultRepoRef name ref m = Some (Inr m')"
  "handle_request nh now (ReqUpdate name ref ch sid) m = Some m' \<longleftrightarrow> UpdateRepoShard now name ref ch sid m = Some (Inr m')"
proof -
  show "handle_request nh now (ReqAllocate rids) m = Some m' \<longleftrightarrow> (\<exists>s. AllocateShard now rids m = Some (Inr (m', s)))"
    by (auto simp: handle_request_def bind_result map_sum_fst)
qed (simp_all add: handle_request_def bind_result)

lemma service_txn_wf:
  assumes "service_txn nh f" and "f m = Some m'" and "manifest_wf m"
  shows "manifest_wf m'"
proof -
  obtain now rq where rq: "request_ok rq" "handle_request nh now rq m = Some m'" using assms(1,2) unfolding service_txn_def by blast
  show ?thesis
  proof (cases rq)
    case (ReqAllocate rids)
    then show ?thesis using rq AllocateShard_wf[OF assms(3), of rids now m'] by (auto simp: handle_request_iff request_ok_def)
  next
    case (ReqComplete sid th n sha)
    then show ?thesis using rq CompleteShard_wf[OF assms(3)] by (simp add: handle_request_iff)
  next
    case (ReqSetDefault name ref)
    then show ?thesis using rq SetDefaultRepoRef_wf[OF assms(3)] by (simp add: handle_request_iff)
  next
    case (ReqUpdate name ref ch sid)
    then show ?thesis using rq UpdateRepoShard_wf[OF assms(3)] by (simp add: handle_request_iff)
  qed
qed

lemma handler_revision:
  "AllocateShard now rids m = Some (Inr (m', s)) \<Longrightarrow> mf_Revision m' = mf_Revision m"
  "CompleteShard nh now sid th n sha m = Some (Inr m') \<Longrightarrow> mf_Revision m' = mf_Revision m"
  "SetDefaultRepoRef name ref m = Some (Inr m') \<Longrightarrow> mf_Revision m' = mf_Revision m"
  "UpdateRepoShard now name ref ch sid m = Some (Inr m') \<Longrightarrow> mf_Revision m' = mf_Revision m"
  by (auto simp: AllocateShard_def CreateShard_def CompleteShard_def SetDefaultRepoRef_def UpdateRepoShard_def
      ReconcileShardStates_def GetOrCreateRepo_def Let_def bind_eq_Some_conv split: option.splits if_splits prod.splits)

lemma handle_request_revision: "handle_request nh now rq m = Some m' \<Longrightarrow> mf_Revision m' = mf_Revision m"
  by (cases rq) (auto simp: handle_request_iff dest: handler_revision)

lemma service_txn_keeps: "service_txn nh f \<Longrightarrow> keeps_revision f"
  unfolding service_txn_def keeps_revision_def by (auto dest: handle_request_revision)

definition service_step :: "(string \<Rightarrow> string) \<Rightarrow> txn_step \<Rightarrow> bool" where
  "service_step nh e \<longleftrightarrow> (case e of Load c f \<Rightarrow> service_txn nh f | _ \<Rightarrow> True)"

text \<open>What is stored comes from the steps.\<close>

definition txn_of :: "phase \<Rightarrow> txn option" where
  "txn_of p = (case p of Idle \<Rightarrow> None | Changed f _ \<Rightarrow> Some f | Checked f _ \<Rightarrow> Some f | Staged f _ _ \<Rightarrow> Some f)"

definition store_txns :: "(string \<Rightarrow> string) \<Rightarrow> 'f store \<Rightarrow> bool" where
  "store_txns nh s \<longleftrightarrow> list_all (service_txn nh) (st_log s) \<and> (\<forall>c. pred_option (service_txn nh) (txn_of (st_phase s c)))"

lemma store_txns_set:
  "store_txns nh s \<Longrightarrow> st_phase t = st_phase s \<Longrightarrow> list_all (service_txn nh) (st_log t) \<Longrightarrow>
    pred_option (service_txn nh) (txn_of p) \<Longrightarrow> store_txns nh (set_phase c p t)"
  by (simp add: store_txns_def set_phase_def)

lemma do_step_txns:
  assumes run: "do_step oc json unjson s e = Some s1" and e: "service_step nh e" and s: "store_txns nh s"
  shows "store_txns nh s1"
proof -
  have log: "list_all (service_txn nh) (st_log s)" using s by (simp add: store_txns_def)
  have at: "st_phase s c = p \<Longrightarrow> pred_option (service_txn nh) (txn_of p)" for c p using s unfolding store_txns_def by blast
  have idle: "pred_option (service_txn nh) (txn_of Idle)" by (simp add: txn_of_def)
  show ?thesis
  proof (cases e)
    case (Load c f)
    then have f: "service_txn nh f" and s1: "s1 = txn_load unjson c f s"
      using run e by (simp_all add: do_step_def service_step_def split: phase.splits)
    have "s1 = s \<or> (\<exists>m. s1 = set_phase c (Changed f m) s)"
      using s1 by (auto simp: txn_load_def split: sum.splits option.splits)
    moreover have "store_txns nh (set_phase c (Changed f m) s)" for m
      by (rule store_txns_set[OF s refl log]) (simp add: txn_of_def f)
    ultimately show ?thesis using s by blast
  next
    case (Check c)
    then obtain f m where ph: "st_phase s c = Changed f m" using run by (simp add: do_step_def split: phase.splits)
    have "s1 = set_phase c Idle s \<or> s1 = set_phase c (Checked f m) s"
      using run ph by (auto simp: do_step_def Check split: sum.splits)
    moreover have "pred_option (service_txn nh) (txn_of (Checked f m))" using at[OF ph] by (simp add: txn_of_def)
    ultimately show ?thesis using store_txns_set[OF s refl log] idle by blast
  next
    case (Stage c rid now)
    then obtain f m where ph: "st_phase s c = Checked f m" using run by (simp add: do_step_def split: phase.splits)
    have "s1 = set_phase c Idle s \<or> (\<exists>d t. s1 = set_phase c (Staged f m t) (s\<lparr>st_dir := d\<rparr>))"
      using run ph by (auto simp: do_step_def Stage split: sum.splits)
    moreover have "store_txns nh (set_phase c (Staged f m t) (s\<lparr>st_dir := d\<rparr>))" for t d
      by (rule store_txns_set[OF s]) (use at[OF ph] log in \<open>simp_all add: txn_of_def\<close>)
    ultimately show ?thesis using store_txns_set[OF s refl log idle] by blast
  next
    case (Rename c)
    then obtain f m tmp where ph: "st_phase s c = Staged f m tmp" using run by (simp add: do_step_def split: phase.splits)
    obtain res d where "write_rename oc tmp m (st_dir s) = (res, d)" by fastforce
    then have s1: "s1 = set_phase c Idle (s\<lparr>st_dir := d, st_log := st_log s @ (case res of Inl _ \<Rightarrow> [] | Inr _ \<Rightarrow> [f])\<rparr>)"
      using run ph by (simp add: do_step_def Rename)
    show ?thesis unfolding s1
      by (rule store_txns_set[OF s]) (use at[OF ph] log idle in \<open>simp_all add: txn_of_def split: sum.splits\<close>)
  qed
qed

lemma do_steps_txns:
  "do_steps oc json unjson s es = Some s' \<Longrightarrow> list_all (service_step nh) es \<Longrightarrow> store_txns nh s \<Longrightarrow> store_txns nh s'"
proof (induction es arbitrary: s)
  case (Cons e es)
  then obtain s1 where s1: "do_step oc json unjson s e = Some s1" "do_steps oc json unjson s1 es = Some s'"
    by (auto simp: bind_eq_Some_conv)
  have "store_txns nh s1" using do_step_txns[OF s1(1) _ Cons.prems(3)] Cons.prems(2) by simp
  with Cons s1(2) show ?case by simp
qed simp

lemma serial_wf: "serial fs m = Some m' \<Longrightarrow> list_all (service_txn nh) fs \<Longrightarrow> manifest_wf m \<Longrightarrow> manifest_wf m'"
proof (induction fs arbitrary: m)
  case (Cons f fs)
  then obtain m1 where m1: "f m = Some m1" "serial fs (m1\<lparr>mf_Revision := mf_Revision m1 + 1\<rparr>) = Some m'"
    by (auto simp: bind_eq_Some_conv)
  have "manifest_wf m1" using service_txn_wf[of nh f m m1] m1(1) Cons.prems by simp
  then have "manifest_wf (m1\<lparr>mf_Revision := mf_Revision m1 + 1\<rparr>)" by (simp add: manifest_wf_def states_wf_def in_use_def)
  with Cons m1(2) show ?case by simp
qed simp

text \<open>C37. Whatever requests clients of the metadata service make and however their transactions interleave, the
  manifest that is loaded is well formed: identifiers and names are unique, default references exist, and a
  shard is in the state \<^verbatim>\<open>REFERENCED\<close> exactly when some repository refers to it, and then it is complete. On such
  a manifest no reading handler panics, and every reference served leads to a complete shard.\<close>

theorem manifests_well_formed:
  assumes "ordered_revs oc" and "\<And>m. unjson (json m) = Some m"
    and "do_steps oc json unjson open_store es = Some s" and "list_all (service_step nh) es" and "length es < 2 ^ 64 - 1"
  shows "\<exists>m. LoadManifest unjson (st_dir s) = Inr m \<and> manifest_wf m \<and> ListRepoRefs m \<noteq> None
    \<and> (\<forall>name ref sid. GetShard sid m \<noteq> None \<and> GetRepo name m \<noteq> None \<and> (case GetRepoRef name ref m of
         None \<Rightarrow> False
       | Some (Inl _) \<Rightarrow> True
       | Some (Inr d) \<Rightarrow> ss_State (sr_Shard d) = Shard_REFERENCED \<and> length (ss_Sha256 (sr_Shard d)) = sha_len))"
proof -
  have "service_step nh e \<Longrightarrow> step_keeps e" for e
    by (auto simp: service_step_def step_keeps_def service_txn_keeps split: txn_step.splits)
  then have keeps: "list_all step_keeps es" using assms(4) by (auto simp: list_all_iff)
  have "store_inv oc json s"
    using do_steps_inv[OF assms(1,2) open_store_inv _ keeps assms(3)] assms(5) by (simp add: open_store_def)
  then have dir: "dir_inv oc json (st_dir s) (st_log s)" by (simp add: store_inv_def)
  from load_newest[of oc json, OF dir assms(1,2)]
  obtain m where m: "serial (st_log s) empty_manifest = Some m" "LoadManifest unjson (st_dir s) = Inr m"
    by (auto simp: after_def)
  have "store_txns nh s"
    by (rule do_steps_txns[OF assms(3,4)]) (simp add: store_txns_def open_store_def txn_of_def)
  then have wf: "manifest_wf m" using serial_wf[OF m(1), of nh] empty_manifest_wf by (simp add: store_txns_def)
  have "case GetRepoRef name ref m of None \<Rightarrow> False | Some (Inl _) \<Rightarrow> True
      | Some (Inr d) \<Rightarrow> ss_State (sr_Shard d) = Shard_REFERENCED \<and> length (ss_Sha256 (sr_Shard d)) = sha_len" for name ref
    using GetRepoRef_total[OF wf, of name ref] GetRepoRef_complete[OF wf, of name ref] by (auto split: option.splits sum.splits)
  then show ?thesis using m(2) wf ListRepoRefs_total[OF wf] GetShard_total GetRepo_total[OF wf] by blast
qed

text \<open>A shard is allocated and completed, and a repository is pointed to it.\<close>

definition commit :: "request \<Rightarrow> txn_step list" where
  "commit rq = [Load 0 (handle_request id 7 rq), Check 0, Stage 0 [1] 7, Rename 0]"

definition upload :: "txn_step list" where
  "upload = concat (map commit
     [ReqAllocate [replicate shardid_len 1], ReqComplete ''0101010101010101'' ''f00d'' 9 (replicate sha_len 3),
      ReqUpdate ''code'' ''main'' ''c0de'' ''0101010101010101''])"

theorem manifests_well_formed_witness:
  "\<exists>s m. do_steps rev_bytes id Some open_store upload = Some s \<and> LoadManifest Some (st_dir s) = Inr m \<and> manifest_wf m
    \<and> map_option isl (GetRepoRef ''code'' ''main'' m) = Some False"
proof -
  have "case do_steps rev_bytes id Some open_store upload of None \<Rightarrow> False
      | Some s \<Rightarrow> (case LoadManifest Some (st_dir s) of Inl _ \<Rightarrow> False
        | Inr m \<Rightarrow> map_option isl (GetRepoRef ''code'' ''main'' m) = Some False)"
    by code_simp
  then obtain s m where s: "do_steps rev_bytes id Some open_store upload = Some s" "LoadManifest Some (st_dir s) = Inr m"
    "map_option isl (GetRepoRef ''code'' ''main'' m) = Some False" by (auto split: option.splits sum.splits)
  have "service_txn id (handle_request id 7 rq)" if "request_ok rq" for rq using that unfolding service_txn_def by blast
  then have "list_all (service_step id) upload"
    by (auto simp: upload_def commit_def service_step_def request_ok_def)
  moreover have "length upload < 2 ^ 64 - 1" by (simp add: upload_def commit_def)
  ultimately show ?thesis using manifests_well_formed[OF ordered_rev_bytes _ s(1)] s by auto
qed

end
