(* ===== verification/Index2.thy ===== *)
theory Index2
  imports Sparse_Set Query Utf8 Buf_Writer
begin

text \<open>
  Package \<^verbatim>\<open>index2\<close>: the writer and the reader of index shards. A shard holds the documents, the posting
  lists as compressed bitmaps with a table of their trigrams, and, when they are small enough, the
  contents of the documents; contents that are not small go to a second file.

  Roaring bitmaps and flatbuffers are not part of the repository. The operations on bitmaps are the
  argument \<open>R\<close>, and what is relied on is \<open>roaring_ok\<close>. A shard is the value that its buffer encodes;
  the encoding of a document's contents is the argument \<open>enc\<close>, and \<open>sha\<close> is SHA-256.

  The value \<open>None\<close> is a run-time panic; calling a method of a nil bitmap is one.
\<close>

subsection \<open>Bitmaps\<close>

record 'b bitmap_ops =
  bm_New :: 'b
  bm_Add :: "u32 \<Rightarrow> 'b \<Rightarrow> 'b"
  bm_And :: "'b \<Rightarrow> 'b \<Rightarrow> 'b"
  bm_Or :: "'b \<Rightarrow> 'b \<Rightarrow> 'b"
  bm_AndNot :: "'b \<Rightarrow> 'b \<Rightarrow> 'b"
  bm_Xor :: "'b \<Rightarrow> 'b \<Rightarrow> 'b"
  bm_IsEmpty :: "'b \<Rightarrow> bool"
  bm_ToArray :: "'b \<Rightarrow> u32 list"
  bm_ToBytes :: "'b \<Rightarrow> byte list option"
  bm_FromBuffer :: "byte list \<Rightarrow> 'b option"

subsection \<open>Scanning a document\<close>

definition nl_index :: "byte list \<Rightarrow> nat option" where
  "nl_index d = (if 10 \<in> set d then Some (length (takeWhile (\<lambda>c. c \<noteq> 10) d)) else None)"

text \<open>The split function: how far to advance, and the token if there is one.\<close>

definition scanLines :: "byte list \<Rightarrow> bool \<Rightarrow> nat \<times> byte list option" where
  "scanLines d atEOF = (case nl_index d of
     Some i \<Rightarrow> (i + 1, Some (take (i + 1) d))
   | None \<Rightarrow> if atEOF then (length d, if length d = 0 then None else Some d) else (0, None))"

text \<open>\<^verbatim>\<open>bufio.Scanner\<close>: it asks for a token in what fits its buffer of 64KB, fails when the buffer is full
  without one, and asks again at the end of the data.\<close>

definition maxTokenSize :: nat where "maxTokenSize = 2 ^ 16"

datatype token = Token "byte list" "byte list" | NoToken | TokenTooLong

definition scan_token :: "byte list \<Rightarrow> token" where
  "scan_token d = (case scanLines (take maxTokenSize d) False of
     (n, Some t) \<Rightarrow> Token t (drop n d)
   | (_, None) \<Rightarrow>
       if length d \<ge> maxTokenSize then TokenTooLong
       else case scanLines d True of
         (n, Some t) \<Rightarrow> Token t (drop n d)
       | (_, None) \<Rightarrow> NoToken)"

lemma nl_index_bound: "nl_index d = Some i \<Longrightarrow> i < length d"
proof -
  assume "nl_index d = Some i"
  then have "10 \<in> set d" "i = length (takeWhile (\<lambda>c. c \<noteq> 10) d)" by (auto simp: nl_index_def split: if_splits)
  then show ?thesis by (metis (mono_tags, lifting) length_takeWhile_le order_le_less takeWhile_eq_all_conv takeWhile_eq_take take_all_iff)
qed

lemma scan_token_shorter: "scan_token d = Token t d' \<Longrightarrow> length d' < length d"
  unfolding scan_token_def scanLines_def
  by (cases d) (auto simp: maxTokenSize_def nl_index_def split: option.splits if_splits prod.splits)

text \<open>\<^verbatim>\<open>utf8.Valid\<close>.\<close>

lemma decode_rune_width: "s \<noteq> [] \<Longrightarrow> 0 < snd (decode_rune s)"
  by (auto simp: decode_rune_def Let_def)

function utf8_Valid :: "string \<Rightarrow> bool" where
  "utf8_Valid s =
     (if s = [] then True
      else let (r, w) = decode_rune s in if r = 0xFFFD \<and> w = 1 then False else utf8_Valid (drop w s))"
  by auto
termination
proof (relation "measure length")
  fix s :: string and r w p
  assume "s \<noteq> []" "p = decode_rune s" "(r, w) = p"
  then show "(drop w s, s) \<in> measure length" 
    using decode_rune_width[of s] by (cases s) (auto simp: prod_eq_iff)
qed simp

declare utf8_Valid.simps [simp del]

datatype scan_error = ErrInvalidUTF8 | ErrLineTooLong | ReadErr

text \<open>The loop over the bytes of a token; \<open>i\<close> counts the bytes read.\<close>

record scan_state =
  sc_set :: sparse_set
  sc_tok :: u32
  sc_i :: nat
  sc_line :: u32
  sc_blockToLine :: "u32 list"

definition scan_byte :: "scan_state \<Rightarrow> byte \<Rightarrow> scan_state option" where
  "scan_byte st b =
     (let tok = push_bit 8 (sc_tok st AND 0xFFFF) OR ucast b; i = sc_i st + 1 in
      map_option (\<lambda>s. st\<lparr>sc_set := s, sc_tok := tok, sc_i := i,
          sc_blockToLine := (if i AND 0xFFF = 0 then sc_blockToLine st @ [sc_line st] else sc_blockToLine st)\<rparr>)
        (if i \<ge> 3 then Add (sc_set st) tok else Some (sc_set st)))"

fun scan_bytes :: "scan_state \<Rightarrow> byte list \<Rightarrow> scan_state option" where
  "scan_bytes st [] = Some st"
| "scan_bytes st (b # bs) = Option.bind (scan_byte st b) (\<lambda>st. scan_bytes st bs)"

function scan_lines :: "scan_state \<Rightarrow> byte list \<Rightarrow> (scan_error option \<times> scan_state) option" where
  "scan_lines st d = (case scan_token d of
     NoToken \<Rightarrow> Some (None, st)
   | TokenTooLong \<Rightarrow> Some (Some ErrLineTooLong, st)
   | Token t d' \<Rightarrow>
       let st = st\<lparr>sc_line := sc_line st + 1\<rparr>
       in if \<not> utf8_Valid (map char_of_byte t) then Some (Some ErrInvalidUTF8, st)
          else Option.bind (scan_bytes st t) (\<lambda>st. scan_lines st d'))"
  by auto
termination
  by (relation "measure (\<lambda>(st, d). length d)") (auto dest: scan_token_shorter)

declare scan_lines.simps [simp del]

text \<open>\<open>rerr\<close> says that the reader ends with an error.\<close>

definition computeTrigrams ::
  "sparse_set \<Rightarrow> byte list \<Rightarrow> bool \<Rightarrow> ((scan_error + u32 list) \<times> sparse_set) option"
where
  "computeTrigrams s d rerr =
     map_option (\<lambda>(err, st).
         (case err of
            Some e \<Rightarrow> Inl e
          | None \<Rightarrow> if rerr then Inl ReadErr else Inr (sc_blockToLine st), sc_set st))
       (scan_lines \<lparr>sc_set = s, sc_tok = 0, sc_i = 0, sc_line = 0, sc_blockToLine = []\<rparr> d)"

subsection \<open>The writer\<close>

datatype DocType = DocTypeRegular | DocTypeExecutable | DocTypeSymlink

record innerDocRef =
  ir_sha256 :: "byte list"
  ir_start :: int
  ir_length :: int

record docMeta =
  dm_path :: string
  dm_size :: int
  dm_mod :: int
  dm_typ :: DocType
  dm_ref :: innerDocRef

record docInnerW =
  di_hash :: "byte list"
  di_blockToLine :: "u32 list"
  di_data :: "byte list"

record 'b IndexWriter2 =
  w2_trigram :: "sparse_set option"
  w2_sparseTrigrams :: "u32 \<Rightarrow> u32"
  w2_denseTrigrams :: "u32 list"
  w2_lists :: "'b list"
  w2_docs :: "docMeta list"
  w2_raw :: "byte list list"
  w2_rawLength :: int

definition empty_writer :: "'b IndexWriter2" where
  "empty_writer =
     \<lparr>w2_trigram = None, w2_sparseTrigrams = (\<lambda>_. 0), w2_denseTrigrams = [], w2_lists = [], w2_docs = [],
      w2_raw = [], w2_rawLength = 0\<rparr>"

definition Clear :: "'b IndexWriter2 \<Rightarrow> 'b IndexWriter2" where
  "Clear i = empty_writer"

definition DocCount :: "'b IndexWriter2 \<Rightarrow> nat" where
  "DocCount i = length (w2_docs i)"

definition to_int32 :: "int \<Rightarrow> int" where
  "to_int32 n = sint (word_of_int n :: 32 word)"

text \<open>\<^verbatim>\<open>addTrigrams\<close>, with its check that an entry of the array is not stale.\<close>

definition addTrigram :: "'b bitmap_ops \<Rightarrow> u32 \<Rightarrow> u32 \<Rightarrow> 'b IndexWriter2 \<Rightarrow> 'b IndexWriter2 option" where
  "addTrigram R doc t i =
     (if \<not> t < 2 ^ 24 then None
      else
        let idx = w2_sparseTrigrams i t; n = word_of_nat (length (w2_denseTrigrams i));
            (idx, i) =
              (if n \<le> idx \<or> w2_denseTrigrams i ! unat idx \<noteq> t
               then (n, i\<lparr>w2_denseTrigrams := w2_denseTrigrams i @ [t], w2_lists := w2_lists i @ [bm_New R],
                          w2_sparseTrigrams := (w2_sparseTrigrams i)(t := n)\<rparr>)
               else (idx, i))
        in Some (i\<lparr>w2_lists := (w2_lists i)[unat idx := bm_Add R doc (w2_lists i ! unat idx)]\<rparr>))"

fun addTrigrams_loop :: "'b bitmap_ops \<Rightarrow> u32 \<Rightarrow> u32 list \<Rightarrow> 'b IndexWriter2 \<Rightarrow> 'b IndexWriter2 option" where
  "addTrigrams_loop R doc [] i = Some i"
| "addTrigrams_loop R doc (t # ts) i = Option.bind (addTrigram R doc t i) (addTrigrams_loop R doc ts)"

definition addTrigrams :: "'b bitmap_ops \<Rightarrow> u32 \<Rightarrow> 'b IndexWriter2 \<Rightarrow> 'b IndexWriter2 option" where
  "addTrigrams R doc i = (case w2_trigram i of
     None \<Rightarrow> None
   | Some s \<Rightarrow> addTrigrams_loop R doc (Dense s) i)"

definition addDocInnerToRaw ::
  "(docInnerW \<Rightarrow> byte list) \<Rightarrow> (byte list \<Rightarrow> byte list) \<Rightarrow> docInnerW \<Rightarrow> 'b IndexWriter2 \<Rightarrow> innerDocRef \<times> 'b IndexWriter2"
where
  "addDocInnerToRaw enc sha d i =
     (let b = enc d; len = to_int32 (int (length b))
      in (\<lparr>ir_sha256 = sha b, ir_start = w2_rawLength i, ir_length = len\<rparr>,
          i\<lparr>w2_raw := w2_raw i @ [b], w2_rawLength := w2_rawLength i + len\<rparr>))"

definition addFile2 :: "docMeta \<Rightarrow> 'b IndexWriter2 \<Rightarrow> u32 \<times> 'b IndexWriter2" where
  "addFile2 m i = (word_of_nat (length (w2_docs i)), i\<lparr>w2_docs := w2_docs i @ [m]\<rparr>)"

datatype add_error = OpenErr | ErrFileTooBig | ScanErr scan_error

text \<open>What \<^verbatim>\<open>Add\<close> and \<^verbatim>\<open>AddObject\<close> do with a text; \<open>meta\<close> makes the entry of the document.\<close>

definition add_text ::
  "'b bitmap_ops \<Rightarrow> (docInnerW \<Rightarrow> byte list) \<Rightarrow> (byte list \<Rightarrow> byte list) \<Rightarrow> byte list \<Rightarrow> byte list \<Rightarrow> bool \<Rightarrow>
     (innerDocRef \<Rightarrow> docMeta) \<Rightarrow> 'b IndexWriter2 \<Rightarrow> (add_error option \<times> 'b IndexWriter2) option"
where
  "add_text R enc sha hash d rerr meta i =
     (let s = (case w2_trigram i of None \<Rightarrow> NewSet (2 ^ 24) | Some s \<Rightarrow> s) in
      Option.bind (computeTrigrams (Reset s) d rerr) (\<lambda>(res, s).
        let i = i\<lparr>w2_trigram := Some s\<rparr> in
        case res of
          Inl e \<Rightarrow> Some (Some (ScanErr e), i)
        | Inr blocks \<Rightarrow>
            let (ref, i) = addDocInnerToRaw enc sha \<lparr>di_hash = hash, di_blockToLine = blocks, di_data = d\<rparr> i;
                (id, i) = addFile2 (meta ref) i
            in map_option (\<lambda>i. (None, i)) (addTrigrams R id i)))"

definition maxDocSize :: int where "maxDocSize = 2 ^ 30"

definition ZeroHash :: "byte list" where "ZeroHash = replicate 20 0"

record file_info =
  fi_size :: int
  fi_mod :: int
  fi_symlink :: bool
  fi_exec :: bool

text \<open>\<open>opened\<close> is what opening the file and asking for its status gives: an error, or the status, the data and
  whether reading fails at its end.\<close>

definition Add2 ::
  "'b bitmap_ops \<Rightarrow> (docInnerW \<Rightarrow> byte list) \<Rightarrow> (byte list \<Rightarrow> byte list) \<Rightarrow> string \<Rightarrow>
     (file_info \<times> byte list \<times> bool) option \<Rightarrow> 'b IndexWriter2 \<Rightarrow> (add_error option \<times> 'b IndexWriter2) option"
where
  "Add2 R enc sha path opened i = (case opened of
     None \<Rightarrow> Some (Some OpenErr, i)
   | Some (fi, d, rerr) \<Rightarrow>
       if fi_size fi > maxDocSize then Some (Some ErrFileTooBig, i)
       else add_text R enc sha ZeroHash d rerr
         (\<lambda>ref. \<lparr>dm_path = path, dm_size = to_int32 (fi_size fi), dm_mod = fi_mod fi,
            dm_typ = (if fi_symlink fi then DocTypeSymlink else if fi_exec fi then DocTypeExecutable else DocTypeRegular),
            dm_ref = ref\<rparr>) i)"

datatype filemode = ModeRegular | ModeExecutable | ModeSymlink | ModeOther

record object_File =
  of_Name :: string
  of_Mode :: filemode
  of_Size :: int
  of_Hash :: "byte list"
  of_Reader :: "(byte list \<times> bool) option"

definition AddObject ::
  "'b bitmap_ops \<Rightarrow> (docInnerW \<Rightarrow> byte list) \<Rightarrow> (byte list \<Rightarrow> byte list) \<Rightarrow> int \<Rightarrow> object_File \<Rightarrow>
     'b IndexWriter2 \<Rightarrow> (add_error option \<times> 'b IndexWriter2) option"
where
  "AddObject R enc sha lastEdit f i =
     (case (case of_Mode f of
              ModeRegular \<Rightarrow> Some DocTypeRegular
            | ModeExecutable \<Rightarrow> Some DocTypeExecutable
            | ModeSymlink \<Rightarrow> Some DocTypeSymlink
            | ModeOther \<Rightarrow> None) of
        None \<Rightarrow> Some (None, i)
      | Some docType \<Rightarrow>
          if of_Size f > maxDocSize then Some (Some ErrFileTooBig, i)
          else case of_Reader f of
            None \<Rightarrow> Some (Some OpenErr, i)
          | Some (d, rerr) \<Rightarrow>
              add_text R enc sha (of_Hash f) d rerr
                (\<lambda>ref. \<lparr>dm_path = of_Name f, dm_size = to_int32 (of_Size f), dm_mod = lastEdit, dm_typ = docType, dm_ref = ref\<rparr>) i)"

subsection \<open>Shards\<close>

record Doc2 =
  dc_path :: string
  dc_start :: int
  dc_length :: int
  dc_size :: int
  dc_modNs :: int
  dc_typ :: DocType
  dc_sha256 :: "byte list option"

record PostingLists =
  pl_trigrams :: "byte list"
  pl_lists :: "byte list list"
  pl_maxDocID :: u32

record IndexShard =
  is_docs :: "Doc2 list"
  is_lists :: PostingLists
  is_raw :: "byte list option"
  is_maxPathLength :: int

text \<open>The table of trigrams is written from the last to the first, four bytes at a time; the fourth is the
  last of the trigram before, which is written next.\<close>

definition put_uint32 :: "byte list \<Rightarrow> nat \<Rightarrow> u32 \<Rightarrow> byte list" where
  "put_uint32 b pos v = take pos b @ uint32_bytes v @ drop (pos + 4) b"

fun put_trigrams :: "byte list \<Rightarrow> int \<Rightarrow> u32 list \<Rightarrow> byte list" where
  "put_trigrams b pos [] = b"
| "put_trigrams b pos (t # ts) = put_trigrams (put_uint32 b (nat pos) t) (pos - 3) ts"

fun lists_to_bytes :: "'b bitmap_ops \<Rightarrow> 'b list \<Rightarrow> byte list list option" where
  "lists_to_bytes R [] = Some []"
| "lists_to_bytes R (l # ls) =
     Option.bind (bm_ToBytes R l) (\<lambda>b. map_option (\<lambda>bs. b # bs) (lists_to_bytes R ls))"

definition flushPostingLists :: "'b bitmap_ops \<Rightarrow> 'b IndexWriter2 \<Rightarrow> PostingLists option" where
  "flushPostingLists R i =
     (let dense = w2_denseTrigrams i;
          trigramIdx = sort_key (\<lambda>k. dense ! k) [0..<length dense];
          tgms = replicate (1 + 3 * length dense) 0;
          tgms = put_trigrams tgms (int (length tgms) - 4) (rev (map (\<lambda>k. dense ! k) trigramIdx))
      in map_option (\<lambda>lists. \<lparr>pl_trigrams = drop 1 tgms, pl_lists = lists, pl_maxDocID = word_of_nat (length (w2_docs i))\<rparr>)
           (lists_to_bytes R (map (\<lambda>k. w2_lists i ! k) trigramIdx)))"

definition flushDocs :: "bool \<Rightarrow> 'b IndexWriter2 \<Rightarrow> Doc2 list \<times> int" where
  "flushDocs inlineRaw i =
     (map (\<lambda>d. \<lparr>dc_path = dm_path d, dc_start = ir_start (dm_ref d), dc_length = ir_length (dm_ref d), dc_size = dm_size d,
        dc_modNs = dm_mod d, dc_typ = dm_typ d, dc_sha256 = (if inlineRaw then None else Some (ir_sha256 (dm_ref d)))\<rparr>) (w2_docs i),
      to_int32 (fold (\<lambda>d mx. if mx < int (length (dm_path d)) then int (length (dm_path d)) else mx) (rev (w2_docs i)) 0))"

definition maxInlineRaw :: int where "maxInlineRaw = 16 * 2 ^ 20"

text \<open>\<^verbatim>\<open>ToBytes\<close> up to the encoding of the shard; \<open>None\<close> is an error of the bitmaps.\<close>

definition ToShard :: "'b bitmap_ops \<Rightarrow> 'b IndexWriter2 \<Rightarrow> (IndexShard \<times> 'b IndexWriter2) option" where
  "ToShard R i =
     map_option (\<lambda>lists.
         let (raw, i) = (if w2_rawLength i < maxInlineRaw then (Some (concat (w2_raw i)), i\<lparr>w2_raw := []\<rparr>) else (None, i));
             (docs, maxPath) = flushDocs (raw \<noteq> None) i
         in (\<lparr>is_docs = docs, is_lists = lists, is_raw = raw, is_maxPathLength = maxPath\<rparr>, i))
       (flushPostingLists R i)"

definition RawBytes :: "'b IndexWriter2 \<Rightarrow> byte list list" where
  "RawBytes i = w2_raw i"

subsection \<open>Queries\<close>

datatype 'b found = Missing | Found 'b | FindErr

text \<open>\<^verbatim>\<open>FindTrigram\<close>; \<open>Missing\<close> leaves the bitmap as it is.\<close>

function find_loop :: "'b bitmap_ops \<Rightarrow> PostingLists \<Rightarrow> u32 \<Rightarrow> nat \<Rightarrow> nat \<Rightarrow> 'b found" where
  "find_loop R p t lower upper =
     (if lower < upper then
        let h = (lower + upper) div 2; v = be24 (drop (h * 3) (pl_trigrams p)) in
        if v = t then
          (if \<not> h < length (pl_lists p) then FindErr
           else case bm_FromBuffer R (pl_lists p ! h) of None \<Rightarrow> FindErr | Some b \<Rightarrow> Found b)
        else if v < t then find_loop R p t (h + 1) upper
        else find_loop R p t lower h
      else Missing)"
  by auto
termination by (relation "measure (\<lambda>(R, p, t, lower, upper). upper - lower)") auto

declare find_loop.simps [simp del]

definition FindTrigram :: "'b bitmap_ops \<Rightarrow> PostingLists \<Rightarrow> u32 \<Rightarrow> 'b found" where
  "FindTrigram R p t = find_loop R p t 0 (length (pl_trigrams p) div 3)"

text \<open>The bitmap of a trigram of a query; an error is a panic.\<close>

definition trigram_bitmap :: "'b bitmap_ops \<Rightarrow> PostingLists \<Rightarrow> string \<Rightarrow> 'b option" where
  "trigram_bitmap R p t =
     (if length t < 3 then None
      else case FindTrigram R p (be24 (bytes_of t)) of
        Missing \<Rightarrow> Some (bm_New R)
      | Found b \<Rightarrow> Some b
      | FindErr \<Rightarrow> None)"

text \<open>The loops over the trigrams of a node. The flag says that the loop has returned from the function.\<close>

fun and_tris :: "'b bitmap_ops \<Rightarrow> PostingLists \<Rightarrow> string list \<Rightarrow> 'b option \<Rightarrow> (bool \<times> 'b option) option" where
  "and_tris R p [] filt = Some (False, filt)"
| "and_tris R p (t # ts) filt =
     Option.bind (trigram_bitmap R p t) (\<lambda>l.
       let l = (case filt of None \<Rightarrow> l | Some f \<Rightarrow> bm_And R l f)
       in if bm_IsEmpty R l then Some (True, Some l) else and_tris R p ts (Some l))"

fun or_tris :: "'b bitmap_ops \<Rightarrow> PostingLists \<Rightarrow> string list \<Rightarrow> 'b option \<Rightarrow> 'b option option" where
  "or_tris R p [] lst = Some lst"
| "or_tris R p (t # ts) lst =
     Option.bind (trigram_bitmap R p t) (\<lambda>l.
       or_tris R p ts (case lst of None \<Rightarrow> Some l | Some b \<Rightarrow> Some (bm_Or R b l)))"

fun not_tris :: "'b bitmap_ops \<Rightarrow> PostingLists \<Rightarrow> string list \<Rightarrow> 'b \<Rightarrow> (bool \<times> 'b) option" where
  "not_tris R p [] notFound = Some (False, notFound)"
| "not_tris R p (t # ts) notFound =
     Option.bind (trigram_bitmap R p t) (\<lambda>l.
       let notFound = bm_AndNot R notFound l
       in if bm_IsEmpty R notFound then Some (True, notFound) else not_tris R p ts notFound)"

text \<open>\<^verbatim>\<open>PostingQuery\<close> with the loops over the sub-queries. The bitmap made for \<^verbatim>\<open>QAll\<close> without a filter is a new
  variable of the inner block, so the result is the filter in any case.\<close>

fun PostingQuery2 :: "'b bitmap_ops \<Rightarrow> PostingLists \<Rightarrow> query \<Rightarrow> 'b option \<Rightarrow> 'b option option"
  and and_subs2 :: "'b bitmap_ops \<Rightarrow> PostingLists \<Rightarrow> query list \<Rightarrow> 'b option \<Rightarrow> 'b option option"
  and or_subs2 :: "'b bitmap_ops \<Rightarrow> PostingLists \<Rightarrow> query list \<Rightarrow> 'b option \<Rightarrow> 'b option option"
  and not_subs2 :: "'b bitmap_ops \<Rightarrow> PostingLists \<Rightarrow> query list \<Rightarrow> 'b \<Rightarrow> 'b \<Rightarrow> (bool \<times> 'b) option"
where
  "PostingQuery2 R p (Query op ts ss) filt = (case op of
     QNone \<Rightarrow> Some (Some (bm_New R))
   | QAll \<Rightarrow> Some filt
   | QAnd \<Rightarrow>
       Option.bind (and_tris R p ts filt) (\<lambda>(ret, filt).
         if ret then Some filt else and_subs2 R p ss filt)
   | QOr \<Rightarrow> (case filt of
       None \<Rightarrow> Option.bind (or_subs2 R p ss None) (\<lambda>lst. or_tris R p ts lst)
     | Some f \<Rightarrow>
         Option.bind (not_subs2 R p ss f f) (\<lambda>(ret, notFound).
           if ret then Some (Some f)
           else Option.bind (not_tris R p ts notFound) (\<lambda>(ret, notFound).
             if ret then Some (Some f) else Some (Some (bm_Xor R notFound f))))))"
| "and_subs2 R p [] filt = Some filt"
| "and_subs2 R p (s # ss) filt =
     Option.bind (PostingQuery2 R p s filt) (\<lambda>filt. case filt of
       None \<Rightarrow> None
     | Some f \<Rightarrow> if bm_IsEmpty R f then Some (Some f) else and_subs2 R p ss (Some f))"
| "or_subs2 R p [] lst = Some lst"
| "or_subs2 R p (s # ss) lst =
     Option.bind (PostingQuery2 R p s None) (\<lambda>l. case lst of
       None \<Rightarrow> or_subs2 R p ss l
     | Some b \<Rightarrow> (case l of None \<Rightarrow> None | Some l \<Rightarrow> or_subs2 R p ss (Some (bm_Or R b l))))"
| "not_subs2 R p [] f notFound = Some (False, notFound)"
| "not_subs2 R p (s # ss) f notFound =
     Option.bind (PostingQuery2 R p s (Some f)) (\<lambda>l. case l of
       None \<Rightarrow> None
     | Some l \<Rightarrow>
         let notFound = bm_AndNot R notFound l
         in if bm_IsEmpty R notFound then Some (True, notFound) else not_subs2 R p ss f notFound)"

end
