(* ===== verification/Search_Server.thy ===== *)
theory Search_Server
  imports Index2 Expression Regexp_Info Shard_Cache
begin

text \<open>
  The search handler of \<^verbatim>\<open>cmd/cindex-serve/main.go\<close>: the filters that an expression asks for, the documents
  that pass them, and the snippets of their matches.

  The argument \<open>E\<close> has what is not in the repository: the compiler, parser and printer of regular
  expressions, what the cache loads, and the reading of flatbuffers. Errors are the left values; the value
  \<open>None\<close> is a run-time panic, or a loop that does not end.
\<close>

subsection \<open>Surroundings\<close>

datatype search_error =
  ShaLength | LanguageUnimplemented | NegatedSnippet | NegatedMatch | BadRegexp string | MemoryPressure | LoadFailed |
  ResourceExhausted

record regex =
  re_Match :: "byte list \<Rightarrow> bool"
  re_FindIndex :: "byte list \<Rightarrow> (nat \<times> nat) option"

record search_env =
  se_Compile :: "string \<Rightarrow> regex option"
  se_Parse :: "string \<Rightarrow> regexp option"
  se_String :: "regexp \<Rightarrow> string"
  se_room :: "string_set \<Rightarrow> nat \<Rightarrow> bool"
  se_fold :: "rune \<Rightarrow> rune"
  se_load :: "byte list \<Rightarrow> string \<Rightarrow> LoadParams \<Rightarrow> search_error + byte list"
  se_shard :: "byte list \<Rightarrow> IndexShard"
  se_inner :: "byte list \<Rightarrow> docInnerW"

text \<open>\<^verbatim>\<open>requestLoader\<close>: what one request has loaded, and the entries it has to release.\<close>

record requestLoader =
  rl_entries :: "(byte list \<times> string \<times> LoadParams) list"
  rl_data :: "byte list \<Rightarrow> byte list option"

definition rl_Get ::
  "search_env \<Rightarrow> byte list \<Rightarrow> string \<Rightarrow> LoadParams \<Rightarrow> requestLoader \<Rightarrow> (search_error + byte list) \<times> requestLoader"
where
  "rl_Get E key name params r = (case rl_data r key of
     Some b \<Rightarrow> (Inr b, r)
   | None \<Rightarrow>
       let r = r\<lparr>rl_entries := rl_entries r @ [(key, name, params)]\<rparr> in
       case se_load E key name params of
         Inl e \<Rightarrow> (Inl e, r)
       | Inr b \<Rightarrow> (Inr b, r\<lparr>rl_data := (rl_data r)(key \<mapsto> b)\<rparr>))"

text \<open>The steps of a request: an error or a value, and the loader.\<close>

type_synonym 'a request_run = "((search_error + 'a) \<times> requestLoader) option"

definition bindL :: "'a request_run \<Rightarrow> ('a \<Rightarrow> requestLoader \<Rightarrow> 'b request_run) \<Rightarrow> 'b request_run" where
  "bindL m f = Option.bind m (\<lambda>(x, r). case x of Inl e \<Rightarrow> Some (Inl e, r) | Inr a \<Rightarrow> f a r)"

lemma bindL_simps [simp]:
  "bindL None f = None" "bindL (Some (Inl e, r)) f = Some (Inl e, r)" "bindL (Some (Inr a, r)) f = f a r"
  by (simp_all add: bindL_def)

definition slice_range :: "byte list \<Rightarrow> int \<Rightarrow> int \<Rightarrow> byte list option" where
  "slice_range b start len =
     (if 0 \<le> start \<and> 0 \<le> len \<and> start + len \<le> int (length b) then Some (take (nat len) (drop (nat start) b)) else None)"

definition Hash :: "Doc2 \<Rightarrow> byte list" where
  "Hash d = (case dc_sha256 d of None \<Rightarrow> replicate 32 0 | Some h \<Rightarrow> h)"

text \<open>The encoded contents of a document: in the shard, or loaded.\<close>

definition docInnerBytes :: "search_env \<Rightarrow> IndexShard \<Rightarrow> string \<Rightarrow> Doc2 \<Rightarrow> requestLoader \<Rightarrow> byte list request_run" where
  "docInnerBytes E shard name d r = (case is_raw shard of
     Some rb \<Rightarrow> map_option (\<lambda>b. (Inr b, r)) (slice_range rb (dc_start d) (dc_length d))
   | None \<Rightarrow> Some (rl_Get E (Hash d) name
       \<lparr>lp_Start = dc_start d, lp_Length = dc_length d, lp_IgnoreLimit = True\<rparr> r))"

definition Docs :: "IndexShard \<Rightarrow> nat \<Rightarrow> Doc2 option" where
  "Docs shard n = (if n < length (is_docs shard) then Some (is_docs shard ! n) else None)"

subsection \<open>Filters\<close>

datatype filterer =
    queryFilterer query
  | fileFilterer string regex bool
  | contentFilterer string "regex list" bool

text \<open>Whether a document is kept by a filter that looks at documents.\<close>

fun all_match :: "regex list \<Rightarrow> bool \<Rightarrow> byte list \<Rightarrow> bool" where
  "all_match [] m b = True"
| "all_match (re # res) m b = (if re_Match re b \<noteq> m then False else all_match res m b)"

definition scan_doc :: "search_env \<Rightarrow> IndexShard \<Rightarrow> string \<Rightarrow> regex list \<Rightarrow> bool \<Rightarrow> Doc2 \<Rightarrow> requestLoader \<Rightarrow> bool request_run" where
  "scan_doc E shard name res m d r = bindL (docInnerBytes E shard name d r) (\<lambda>b r. Some (Inr (all_match res m b), r))"

fun keeps :: "search_env \<Rightarrow> IndexShard \<Rightarrow> filterer \<Rightarrow> u32 \<Rightarrow> requestLoader \<Rightarrow> bool request_run" where
  "keeps E shard (queryFilterer q) n r = None"
| "keeps E shard (fileFilterer pfx re m) n r =
     Option.bind (Docs shard (unat n)) (\<lambda>d. Some (Inr (re_Match re (bytes_of (pfx @ dc_path d)) = m), r))"
| "keeps E shard (contentFilterer name res m) n r =
     Option.bind (Docs shard (unat n)) (\<lambda>d. scan_doc E shard name res m d r)"

definition AddMany :: "'b bitmap_ops \<Rightarrow> u32 list \<Rightarrow> 'b \<Rightarrow> 'b" where
  "AddMany R xs b = fold (bm_Add R) xs b"

text \<open>With a universe the documents come in blocks of 256; those that are kept are moved to the front.\<close>

fun keep_block :: "(u32 \<Rightarrow> requestLoader \<Rightarrow> bool request_run) \<Rightarrow> u32 list \<Rightarrow> u32 list \<Rightarrow> requestLoader \<Rightarrow> u32 list request_run" where
  "keep_block k kept [] r = Some (Inr kept, r)"
| "keep_block k kept (n # ns) r = bindL (k n r) (\<lambda>keep r. keep_block k (if keep then kept @ [n] else kept) ns r)"

function filter_blocks ::
  "'b bitmap_ops \<Rightarrow> (u32 \<Rightarrow> requestLoader \<Rightarrow> bool request_run) \<Rightarrow> u32 list \<Rightarrow> 'b \<Rightarrow> requestLoader \<Rightarrow> 'b request_run"
where
  "filter_blocks R k ns ret r =
     (if ns = [] then Some (Inr ret, r)
      else bindL (keep_block k [] (take 256 ns) r) (\<lambda>block r. filter_blocks R k (drop 256 ns) (AddMany R block ret) r))"
  by auto
termination by (relation "measure (\<lambda>(R, k, ns, ret, r). length ns)") auto

declare filter_blocks.simps [simp del]

text \<open>Without one all documents are looked at; what is kept is added 256 at a time.\<close>

fun scanAll ::
  "'b bitmap_ops \<Rightarrow> (u32 \<Rightarrow> requestLoader \<Rightarrow> bool request_run) \<Rightarrow> u32 list \<Rightarrow> u32 list \<Rightarrow> 'b \<Rightarrow> requestLoader \<Rightarrow> 'b request_run"
where
  "scanAll R k [] block ret r = Some (Inr (AddMany R block ret), r)"
| "scanAll R k (n # ns) block ret r = bindL (k n r) (\<lambda>keep r.
     if keep then
       (if length (block @ [n]) = 256 then scanAll R k ns [] (AddMany R (block @ [n]) ret) r
        else scanAll R k ns (block @ [n]) ret r)
     else scanAll R k ns block ret r)"

definition filter_docs ::
  "'b bitmap_ops \<Rightarrow> search_env \<Rightarrow> IndexShard \<Rightarrow> filterer \<Rightarrow> 'b option \<Rightarrow> requestLoader \<Rightarrow> 'b request_run"
where
  "filter_docs R E shard f universe r = (case universe of
     None \<Rightarrow> scanAll R (keeps E shard f) (map word_of_nat [0..<length (is_docs shard)]) [] (bm_New R) r
   | Some u \<Rightarrow> filter_blocks R (keeps E shard f) (bm_ToArray R u) (bm_New R) r)"

fun Filter :: "'b bitmap_ops \<Rightarrow> search_env \<Rightarrow> IndexShard \<Rightarrow> filterer \<Rightarrow> 'b option \<Rightarrow> requestLoader \<Rightarrow> 'b option request_run" where
  "Filter R E shard (queryFilterer q) universe r =
     map_option (\<lambda>b. (Inr b, r)) (PostingQuery2 R (is_lists shard) q universe)"
| "Filter R E shard f universe r = bindL (filter_docs R E shard f universe r) (\<lambda>b r. Some (Inr (Some b), r))"

fun run_filters :: "'b bitmap_ops \<Rightarrow> search_env \<Rightarrow> IndexShard \<Rightarrow> filterer list \<Rightarrow> 'b option \<Rightarrow> requestLoader \<Rightarrow> 'b option request_run" where
  "run_filters R E shard [] post r = Some (Inr post, r)"
| "run_filters R E shard (f # fs) post r = bindL (Filter R E shard f post r) (run_filters R E shard fs)"

subsection \<open>The filters of an expression\<close>

record SearchShardRequest =
  rq_ShardId :: string
  rq_ShardSha256 :: "byte list"
  rq_Parts :: "ExpressionPart list"
  rq_PathPrefix :: string

definition by_code :: "part_code \<Rightarrow> ExpressionPart list \<Rightarrow> ExpressionPart list" where
  "by_code c parts = filter (\<lambda>p. ep_code p = c) parts"

text \<open>The chain under construction: filters, expressions for the contents, and those for the snippets.\<close>

record filter_chain =
  ch_filters :: "filterer list"
  ch_exprs :: "regex list"
  ch_snippets :: "regexp list"

text \<open>Compiling a content part and parsing it for its query.\<close>

definition content_part :: "search_env \<Rightarrow> string \<Rightarrow> (search_error + regex \<times> regexp \<times> query) option" where
  "content_part E s = (case se_Compile E s of
     None \<Rightarrow> Some (Inl (BadRegexp s))
   | Some re \<Rightarrow> (case se_Parse E s of
       None \<Rightarrow> Some (Inl (BadRegexp s))
     | Some syn \<Rightarrow> map_option (\<lambda>q. Inr (re, syn, q)) (RegexpQuery (se_room E) (se_fold E) syn)))"

fun snippet_parts :: "search_env \<Rightarrow> ExpressionPart list \<Rightarrow> filter_chain \<Rightarrow> (search_error + filter_chain) option" where
  "snippet_parts E [] c = Some (Inr c)"
| "snippet_parts E (p # ps) c =
     (if ep_negated p then Some (Inl NegatedSnippet)
      else Option.bind (content_part E (ep_expression p)) (\<lambda>x. case x of
        Inl e \<Rightarrow> Some (Inl e)
      | Inr (re, syn, q) \<Rightarrow> snippet_parts E ps
          (c\<lparr>ch_exprs := ch_exprs c @ [re], ch_snippets := ch_snippets c @ [syn], ch_filters := ch_filters c @ [queryFilterer q]\<rparr>)))"

fun match_parts :: "search_env \<Rightarrow> ExpressionPart list \<Rightarrow> filter_chain \<Rightarrow> (search_error + filter_chain) option" where
  "match_parts E [] c = Some (Inr c)"
| "match_parts E (p # ps) c =
     (if ep_negated p then match_parts E ps c
      else Option.bind (content_part E (ep_expression p)) (\<lambda>x. case x of
        Inl e \<Rightarrow> Some (Inl e)
      | Inr (re, syn, q) \<Rightarrow> match_parts E ps
          (c\<lparr>ch_exprs := ch_exprs c @ [re], ch_filters := ch_filters c @ [queryFilterer q]\<rparr>)))"

fun file_parts :: "search_env \<Rightarrow> string \<Rightarrow> ExpressionPart list \<Rightarrow> filter_chain \<Rightarrow> search_error + filter_chain" where
  "file_parts E pfx [] c = Inr c"
| "file_parts E pfx (p # ps) c = (case se_Compile E (ep_expression p) of
     None \<Rightarrow> Inl (BadRegexp (ep_expression p))
   | Some re \<Rightarrow> file_parts E pfx ps (c\<lparr>ch_filters := ch_filters c @ [fileFilterer pfx re (\<not> ep_negated p)]\<rparr>))"

definition suffixSeparator :: string where "suffixSeparator = ''||''"

definition toFilterChain :: "search_env \<Rightarrow> SearchShardRequest \<Rightarrow> (search_error + filterer list \<times> string) option" where
  "toFilterChain E req =
     (let parts = rq_Parts req in
      if by_code LANGUAGE parts \<noteq> [] then Some (Inl LanguageUnimplemented)
      else Option.bind (snippet_parts E (by_code SNIPPET parts) \<lparr>ch_filters = [], ch_exprs = [], ch_snippets = []\<rparr>) (\<lambda>x. case x of
        Inl e \<Rightarrow> Some (Inl e)
      | Inr c \<Rightarrow> Option.bind (match_parts E (by_code MATCH parts) c) (\<lambda>x. case x of
        Inl e \<Rightarrow> Some (Inl e)
      | Inr c \<Rightarrow> Some (case file_parts E (rq_PathPrefix req) (by_code FILE parts) c of
        Inl e \<Rightarrow> Inl e
      | Inr c \<Rightarrow>
          if list_ex ep_negated (by_code MATCH parts) then Inl NegatedMatch
          else Inr (if ch_exprs c \<noteq> []
               then ch_filters c @ [contentFilterer (rq_ShardId req @ suffixSeparator @ ''raw'') (ch_exprs c) True]
               else ch_filters c,
             se_String E (OpAlternate (ch_snippets c)))))))"

subsection \<open>Snippets\<close>

record Snippet =
  sn_Lines :: "byte list"
  sn_FirstLine :: u32
  sn_Matches :: "u32 list"

text \<open>The position of the last newline before \<open>n\<close>, plus one.\<close>

definition line_from :: "byte list \<Rightarrow> nat \<Rightarrow> nat" where
  "line_from b n = n - length (takeWhile (\<lambda>c. c \<noteq> 10) (rev (take n b)))"

definition line_end :: "byte list \<Rightarrow> nat \<Rightarrow> nat" where
  "line_end b n = (case nl_index (drop n b) of None \<Rightarrow> length b | Some i \<Rightarrow> i + n + 1)"

definition BlockToLine :: "docInnerW \<Rightarrow> nat \<Rightarrow> u32 option" where
  "BlockToLine d j =
     (if di_blockToLine d = [] then Some 0
      else if j < length (di_blockToLine d) then Some (di_blockToLine d ! j) else None)"

definition buildSnippet :: "docInnerW \<Rightarrow> nat \<times> nat \<Rightarrow> Snippet option" where
  "buildSnippet doc pos =
     (let b = di_data doc; (from, to) = pos; block = from div 2 ^ 12;
          lNum = word_of_nat (count_list (take (from - block * 2 ^ 12) (drop (block * 2 ^ 12) b)) 10)
      in if from > to \<or> to > length b then None
         else map_option (\<lambda>l. \<lparr>sn_Lines = take (line_end b to - line_from b from) (drop (line_from b from) b), sn_FirstLine = lNum + l,
             sn_Matches = [word_of_nat (from - line_from b from), word_of_nat (to - line_from b from)]\<rparr>)
           (if block = 0 then Some 1 else BlockToLine doc (block - 1)))"

fun buildSnippets :: "docInnerW \<Rightarrow> (nat \<times> nat) list \<Rightarrow> Snippet list option" where
  "buildSnippets doc [] = Some []"
| "buildSnippets doc (pos # ps) = Option.bind (buildSnippet doc pos) (\<lambda>s. map_option (\<lambda>ss. s # ss) (buildSnippets doc ps))"

subsection \<open>The handler\<close>

record service_Doc =
  sd_Id :: u32
  sd_Path :: string
  sd_Snippets :: "Snippet list"

record SearchShardResponse =
  rs_Docs :: "service_Doc list"
  rs_Matches :: u32
  rs_DocsInspected :: u32

text \<open>The loop over the matches continues where the last one ends.\<close>

partial_function (option) find_matches :: "regex \<Rightarrow> byte list \<Rightarrow> nat \<Rightarrow> (nat \<times> nat) list option" where
  "find_matches re b off =
     (if off > length b then None
      else case re_FindIndex re (drop off b) of
        None \<Rightarrow> Some []
      | Some (p, q) \<Rightarrow> Option.bind (find_matches re b (q + off)) (\<lambda>ms. Some ((p + off, q + off) # ms)))"

text \<open>\<^verbatim>\<open>Iterate\<close>: an error of the loader is a panic; the iteration ends with 100 documents.\<close>

fun inspect :: "search_env \<Rightarrow> IndexShard \<Rightarrow> string \<Rightarrow> regex \<Rightarrow> u32 list \<Rightarrow> SearchShardResponse \<Rightarrow> requestLoader \<Rightarrow>
     (SearchShardResponse \<times> requestLoader) option"
where
  "inspect E shard name re [] resp r = Some (resp, r)"
| "inspect E shard name re (fileid # ids) resp r =
     (let resp = resp\<lparr>rs_DocsInspected := rs_DocsInspected resp + 1\<rparr> in
      Option.bind (Docs shard (unat fileid)) (\<lambda>d.
      Option.bind (docInnerBytes E shard name d r) (\<lambda>(x, r). case x of
        Inl e \<Rightarrow> None
      | Inr bytes \<Rightarrow>
          let inn = se_inner E bytes in
          Option.bind (find_matches re (di_data inn) 0) (\<lambda>ms.
          if ms = [] then inspect E shard name re ids (resp\<lparr>rs_Matches := rs_Matches resp - 1\<rparr>) r
          else Option.bind (buildSnippets inn ms) (\<lambda>snippets.
            let resp = resp\<lparr>rs_Docs := rs_Docs resp @ [\<lparr>sd_Id = fileid, sd_Path = dc_path d, sd_Snippets = snippets\<rparr>]\<rparr> in
            if length (rs_Docs resp) < 100 then inspect E shard name re ids resp r else Some (resp, r))))))"

definition SearchShard ::
  "'b bitmap_ops \<Rightarrow> search_env \<Rightarrow> SearchShardRequest \<Rightarrow> (search_error + SearchShardResponse) option"
where
  "SearchShard R E req =
     (if length (rq_ShardSha256 req) \<noteq> 32 then Some (Inl ShaLength)
      else case rl_Get E (rq_ShardSha256 req) (rq_ShardId req) \<lparr>lp_Start = 0, lp_Length = 0, lp_IgnoreLimit = False\<rparr>
          \<lparr>rl_entries = [], rl_data = (\<lambda>_. None)\<rparr> of
        (Inl e, r) \<Rightarrow> Some (Inl (if e = MemoryPressure then ResourceExhausted else e))
      | (Inr v, r) \<Rightarrow>
          let shard = se_shard E v in
          Option.bind (toFilterChain E req) (\<lambda>x. case x of
            Inl e \<Rightarrow> Some (Inl e)
          | Inr (filters, snippetRE) \<Rightarrow> (case se_Compile E snippetRE of
              None \<Rightarrow> Some (Inl (BadRegexp snippetRE))
            | Some re \<Rightarrow>
                map_option fst (bindL (run_filters R E shard filters None r) (\<lambda>post r. case post of
                  None \<Rightarrow> None
                | Some post \<Rightarrow> map_option (\<lambda>(resp, r). (Inr resp, r))
                    (inspect E shard (rq_ShardId req @ ''.raw'') re (bm_ToArray R post)
                      \<lparr>rs_Docs = [], rs_Matches = word_of_nat (length (bm_ToArray R post)), rs_DocsInspected = 0\<rparr> r))))))"

end
