(* ===== verification/Index2_Scan.thy ===== *)
theory Index2_Scan
  imports Index2 Index_Scan
begin

text \<open>
  What \<^verbatim>\<open>computeTrigrams\<close> of \<^verbatim>\<open>index2\<close> computes: for a text, that is, when every line is valid and short, all
  trigrams of the text, and for every full block of 4096 bytes the number of the line with its last byte.
\<close>

subsection \<open>Texts\<close>

text \<open>The lines of a text as the scanner cuts it; \<open>None\<close> when a line does not fit its buffer.\<close>

function cut_lines :: "byte list \<Rightarrow> byte list list option" where
  "cut_lines d = (case scan_token d of
     NoToken \<Rightarrow> Some []
   | TokenTooLong \<Rightarrow> None
   | Token t d' \<Rightarrow> map_option (\<lambda>ts. t # ts) (cut_lines d'))"
  by auto
termination by (relation "measure length") (auto dest: scan_token_shorter)

declare cut_lines.simps [simp del]

definition text2 :: "byte list \<Rightarrow> bool" where
  "text2 d \<longleftrightarrow> (case cut_lines d of None \<Rightarrow> False | Some ts \<Rightarrow> list_all (\<lambda>t. utf8_Valid (map char_of_byte t)) ts)"

definition line_at :: "byte list \<Rightarrow> nat \<Rightarrow> nat" where
  "line_at d j = 1 + count_list (take j d) 10"

definition block_lines :: "byte list \<Rightarrow> u32 list" where
  "block_lines d = map (\<lambda>i. word_of_nat (line_at d (i - 1))) (filter (\<lambda>i. i AND 0xFFF = 0) [1..<Suc (length d)])"

lemma block_lines_snoc:
  "block_lines (d @ [b]) =
     block_lines d @ (if Suc (length d) AND 0xFFF = 0 then [word_of_nat (line_at d (length d))] else [])"
proof -
  have "map (\<lambda>i. word_of_nat (line_at (d @ [b]) (i - 1)) :: u32) (filter (\<lambda>i. i AND 0xFFF = 0) [1..<Suc (length d)])
      = map (\<lambda>i. word_of_nat (line_at d (i - 1))) (filter (\<lambda>i. i AND 0xFFF = 0) [1..<Suc (length d)])"
    by (auto simp: line_at_def)
  then show ?thesis by (simp add: block_lines_def line_at_def)
qed

subsection \<open>Tokens\<close>

lemma takeWhile_line: "10 \<notin> set u \<Longrightarrow> takeWhile (\<lambda>c. c \<noteq> 10) (u @ 10 # v) = (u :: byte list)"
  by (induction u) auto

lemma nl_index_Some: "nl_index d = Some i \<longleftrightarrow> (\<exists>u v. d = u @ 10 # v \<and> 10 \<notin> set u \<and> i = length u)"
proof
  assume i: "nl_index d = Some i"
  then have "10 \<in> set d" by (simp add: nl_index_def split: if_splits)
  then obtain u v where "d = u @ 10 # v" "10 \<notin> set u" by (metis split_list_first)
  with i show "\<exists>u v. d = u @ 10 # v \<and> 10 \<notin> set u \<and> i = length u"
    using takeWhile_line[of u v] by (auto simp: nl_index_def)
next
  assume "\<exists>u v. d = u @ 10 # v \<and> 10 \<notin> set u \<and> i = length u"
  then obtain u v where d: "d = u @ 10 # v" "10 \<notin> set u" "i = length u" by blast
  then show "nl_index d = Some i" using takeWhile_line[of u v] by (simp add: nl_index_def)
qed

text \<open>A token is a line with its newline, or what is left after the last one.\<close>

lemma scan_token_Token:
  assumes "scan_token d = Token t d'"
  shows "d = t @ d'" "10 \<notin> set (butlast t)" "t \<noteq> []" "d' = [] \<or> last t = 10"
proof -
  have cases: "(\<exists>u v. d = u @ 10 # v \<and> 10 \<notin> set u \<and> t = u @ [10] \<and> d' = v) \<or> (10 \<notin> set d \<and> d \<noteq> [] \<and> t = d \<and> d' = [])"
  proof (cases "nl_index (take maxTokenSize d)")
    case (Some i)
    then obtain u v where uv: "take maxTokenSize d = u @ 10 # v" "10 \<notin> set u" "i = length u" unfolding nl_index_Some by blast
    have d: "d = u @ 10 # v @ drop maxTokenSize d" using uv(1) by (metis append.assoc append_Cons append_take_drop_id)
    have "t = u @ [10]" "d' = drop (i + 1) d" using assms Some uv by (simp_all add: scan_token_def scanLines_def)
    then show ?thesis using d uv(2,3) by (metis append.assoc append_Cons append_eq_conv_conj append_self_conv2 length_append_singleton Suc_eq_plus1)
  next
    case None
    then have "10 \<notin> set (take maxTokenSize d)" by (simp add: nl_index_def split: if_splits)
    moreover have "length d < maxTokenSize" using assms None by (auto simp: scan_token_def scanLines_def split: if_splits)
    ultimately have "10 \<notin> set d" by simp
    then show ?thesis using assms None by (auto simp: scan_token_def scanLines_def nl_index_def split: if_splits)
  qed
  show "d = t @ d'" "10 \<notin> set (butlast t)" "t \<noteq> []" "d' = [] \<or> last t = 10"
    using cases by (auto simp: in_set_butlastD dest: in_set_butlastD)
qed

lemma scan_token_NoToken: "scan_token d = NoToken \<Longrightarrow> d = []"
  unfolding scan_token_def scanLines_def by (auto split: option.splits if_splits)

subsection \<open>The scan\<close>

lemma tok_roll: "push_bit 8 (tok AND 0xFFFF) OR ucast b = roll tok b"
proof -
  have m: "(0xFFFF :: u32) = mask 16" by (simp add: mask_eq_exp_minus_1)
  show ?thesis unfolding m by (rule bit_word_eqI) (auto simp: bit_roll bit_simps dest: bit_imp_le_length)
qed

lemma file_trigrams_snoc:
  "file_trigrams (p @ [b]) = file_trigrams p @ (if 3 \<le> Suc (length p) then [rolled (p @ [b])] else [])"
proof -
  have old: "map (\<lambda>k. rolled (take k (p @ [b]))) (filter (\<lambda>k. 3 \<le> k) [Suc 0..<Suc (length p)])
      = map (\<lambda>k. rolled (take k p)) (filter (\<lambda>k. 3 \<le> k) [Suc 0..<Suc (length p)])"
    by (rule map_cong) (auto simp del: upt_Suc)
  have upt: "filter (\<lambda>k. 3 \<le> k) [Suc 0..<Suc (Suc (length p))]
      = filter (\<lambda>k. 3 \<le> k) [Suc 0..<Suc (length p)] @ (if 3 \<le> Suc (length p) then [Suc (length p)] else [])" by simp
  have "file_trigrams (p @ [b]) = map (\<lambda>k. rolled (take k (p @ [b]))) (filter (\<lambda>k. 3 \<le> k) [Suc 0..<Suc (Suc (length p))])"
    unfolding scan_trigrams_all[symmetric] scan_trigrams_def by (simp del: upt_Suc)
  also have "\<dots> = file_trigrams p @ (if 3 \<le> Suc (length p) then [rolled (p @ [b])] else [])"
    unfolding upt map_append old scan_trigrams_all[symmetric] by (simp add: scan_trigrams_def del: upt_Suc)
  finally show ?thesis .
qed

definition scanned :: "byte list \<Rightarrow> scan_state \<Rightarrow> bool" where
  "scanned p st \<longleftrightarrow> sparse_inv (sc_set st) \<and> sparse_len (sc_set st) = 2 ^ 24
    \<and> set (dense (sc_set st)) = set (file_trigrams p) \<and> sc_tok st = rolled p \<and> sc_i st = length p
    \<and> sc_blockToLine st = block_lines p"

lemma scan_byte_step:
  assumes st: "scanned p st" and line: "sc_line st = word_of_nat (line_at p (length p))"
  shows "\<exists>st'. scan_byte st b = Some st' \<and> scanned (p @ [b]) st' \<and> sc_line st' = sc_line st"
proof -
  have tok: "push_bit 8 (sc_tok st AND 0xFFFF) OR ucast b = rolled (p @ [b])"
    using st unfolding tok_roll rolled_snoc by (simp add: scanned_def)
  have blocks: "(if sc_i st + 1 AND 0xFFF = 0 then sc_blockToLine st @ [sc_line st] else sc_blockToLine st) = block_lines (p @ [b])"
    using st line by (simp add: block_lines_snoc scanned_def)
  show ?thesis
  proof (cases "3 \<le> Suc (length p)")
    case True
    obtain s where s: "Add (sc_set st) (rolled (p @ [b])) = Some s" "sparse_inv s" "sparse_len s = 2 ^ 24"
      using Add_total[of "sc_set st" "rolled (p @ [b])"] rolled_less[of "p @ [b]"] st by (auto simp: scanned_def)
    have "set (dense s) = insert (rolled (p @ [b])) (set (dense (sc_set st)))"
      using Add_dense[OF _ s(1)] st by (auto simp: scanned_def)
    then show ?thesis using s st True unfolding scan_byte_def Let_def tok blocks
      by (simp add: scanned_def file_trigrams_snoc)
  next
    case False
    then show ?thesis using st unfolding scan_byte_def Let_def tok blocks
      by (simp add: scanned_def file_trigrams_snoc)
  qed
qed

lemma line_at_end: "line_at p (length p) = 1 + count_list p 10"
  by (simp add: line_at_def)

lemma scan_bytes_step:
  "scanned p st \<Longrightarrow> 10 \<notin> set (butlast bs) \<Longrightarrow> sc_line st = word_of_nat (1 + count_list p 10) \<Longrightarrow>
    \<exists>st'. scan_bytes st bs = Some st' \<and> scanned (p @ bs) st' \<and> sc_line st' = sc_line st"
proof (induction bs arbitrary: p st)
  case (Cons b bs)
  obtain st1 where st1: "scan_byte st b = Some st1" "scanned (p @ [b]) st1" "sc_line st1 = sc_line st"
    using scan_byte_step[OF Cons.prems(1), of b] Cons.prems(3) by (auto simp: line_at_end)
  show ?case
  proof (cases "bs = []")
    case True
    then show ?thesis using st1 by simp
  next
    case False
    then have "b \<noteq> 10" "10 \<notin> set (butlast bs)" using Cons.prems(2) by auto
    with Cons.IH[OF st1(2)] st1 Cons.prems(3) show ?thesis by simp
  qed
qed simp

lemma count_token: "10 \<notin> set (butlast t) \<Longrightarrow> t \<noteq> [] \<Longrightarrow> last t = 10 \<Longrightarrow> count_list t 10 = (1 :: nat)" for t :: "byte list"
  by (cases t rule: rev_cases) (auto simp: count_list_0_iff)

lemma scan_lines_spec:
  "scanned p st \<Longrightarrow> sc_line st = word_of_nat (count_list p 10) \<Longrightarrow>
    \<exists>err st'. scan_lines st d = Some (err, st') \<and> sparse_inv (sc_set st') \<and> sparse_len (sc_set st') = 2 ^ 24
      \<and> (err = None \<longleftrightarrow> text2 d) \<and> (err = None \<longrightarrow> scanned (p @ d) st')"
proof (induction d arbitrary: p st rule: length_induct)
  case (1 d)
  note IH = 1(1)[rule_format]
  show ?case
  proof (cases "scan_token d")
    case NoToken
    then have "d = []" by (rule scan_token_NoToken)
    then show ?thesis using NoToken 1(2)
      by (auto simp: scan_lines.simps[of st] text2_def cut_lines.simps scanned_def)
  next
    case TokenTooLong
    then show ?thesis using 1(2) by (simp add: scan_lines.simps[of st d] text2_def cut_lines.simps[of d] scanned_def)
  next
    case (Token t d')
    note tok = scan_token_Token[OF Token]
    define st0 where "st0 = st\<lparr>sc_line := sc_line st + 1\<rparr>"
    have st0: "scanned p st0" "sc_line st0 = word_of_nat (1 + count_list p 10)" using 1(2,3) by (simp_all add: st0_def scanned_def)
    have run: "scan_lines st d = (if \<not> utf8_Valid (map char_of_byte t) then Some (Some ErrInvalidUTF8, st0)
        else Option.bind (scan_bytes st0 t) (\<lambda>st. scan_lines st d'))"
      by (simp add: scan_lines.simps[of st d] Token st0_def Let_def)
    have valid: "text2 d \<longleftrightarrow> utf8_Valid (map char_of_byte t) \<and> text2 d'"
      by (auto simp: text2_def cut_lines.simps[of d] Token split: option.splits)
    show ?thesis
    proof (cases "utf8_Valid (map char_of_byte t)")
      case False
      then show ?thesis using st0(1) by (simp add: run valid scanned_def)
    next
      case True
      obtain st1 where st1: "scan_bytes st0 t = Some st1" "scanned (p @ t) st1" "sc_line st1 = sc_line st0"
        using scan_bytes_step[OF st0(1) tok(2) st0(2)] by blast
      show ?thesis
      proof (cases "d' = []")
        case d': True
        have "scan_lines st1 [] = Some (None, st1)" "text2 []"
          by (simp_all add: scan_lines.simps text2_def cut_lines.simps scan_token_def scanLines_def nl_index_def maxTokenSize_def)
        moreover from this have "text2 d" using valid True d' by simp
        moreover have "scan_lines st d = Some (None, st1)" using run True st1 d' calculation(1) by simp
        ultimately show ?thesis using st1(2) tok(1) d' by (simp add: scanned_def)
      next
        case False
        then have "count_list (p @ t) 10 = count_list p 10 + 1" using tok(2-4) count_token[of t] by simp
        then have "sc_line st1 = word_of_nat (count_list (p @ t) 10)" using st1(3) st0(2) by simp
        moreover have "length d' < length d" using Token by (rule scan_token_shorter)
        ultimately have "\<exists>err st'. scan_lines st1 d' = Some (err, st') \<and> sparse_inv (sc_set st') \<and> sparse_len (sc_set st') = 2 ^ 24
            \<and> (err = None \<longleftrightarrow> text2 d') \<and> (err = None \<longrightarrow> scanned ((p @ t) @ d') st')" using IH st1(2) by blast
        moreover have "text2 d \<longleftrightarrow> text2 d'" "(p @ t) @ d' = p @ d" "scan_lines st d = scan_lines st1 d'"
          using valid True tok(1) run st1(1) by simp_all
        ultimately show ?thesis by simp
      qed
    qed
  qed
qed

text \<open>The set is left with the trigrams of the text; on an error it can still be reset.\<close>

lemma computeTrigrams_spec:
  assumes "sparse_inv s" and "sparse_len s = 2 ^ 24" and "dense s = []"
  shows "\<exists>res s'. computeTrigrams s d rerr = Some (res, s') \<and> sparse_inv s' \<and> sparse_len s' = 2 ^ 24
    \<and> (if text2 d \<and> \<not> rerr then res = Inr (block_lines d) \<and> set (dense s') = set (file_trigrams d) else (\<exists>e. res = Inl e))"
proof -
  define st where "st = \<lparr>sc_set = s, sc_tok = 0, sc_i = 0, sc_line = 0, sc_blockToLine = []\<rparr>"
  have "scanned [] st" using assms by (simp add: scanned_def st_def rolled_def file_trigrams_def windows3_def block_lines_def)
  from scan_lines_spec[OF this, of d] obtain err st' where
    "scan_lines st d = Some (err, st')" "sparse_inv (sc_set st')" "sparse_len (sc_set st') = 2 ^ 24"
    "err = None \<longleftrightarrow> text2 d" "err = None \<longrightarrow> scanned d st'" by (auto simp: st_def)
  then show ?thesis unfolding computeTrigrams_def st_def[symmetric] by (auto simp: scanned_def split: option.splits)
qed

end
