(* ===== verification/Index2_Writer.thy ===== *)
theory Index2_Writer
  imports Index2_Scan
begin

text \<open>
  The writer of \<^verbatim>\<open>index2\<close>: what it holds after some documents were added, and that a document is added
  exactly when its text is fit for the index.
\<close>

subsection \<open>What is relied on of the bitmaps\<close>

definition roaring_ok :: "'b bitmap_ops \<Rightarrow> ('b \<Rightarrow> u32 set) \<Rightarrow> bool" where
  "roaring_ok R elems \<longleftrightarrow>
     elems (bm_New R) = {}
     \<and> (\<forall>x b. elems (bm_Add R x b) = insert x (elems b))
     \<and> (\<forall>a b. elems (bm_And R a b) = elems a \<inter> elems b)
     \<and> (\<forall>a b. elems (bm_Or R a b) = elems a \<union> elems b)
     \<and> (\<forall>a b. elems (bm_AndNot R a b) = elems a - elems b)
     \<and> (\<forall>a b. elems (bm_Xor R a b) = (elems a - elems b) \<union> (elems b - elems a))
     \<and> (\<forall>b. bm_IsEmpty R b \<longleftrightarrow> elems b = {})
     \<and> (\<forall>b. set (bm_ToArray R b) = elems b \<and> sorted_wrt (<) (bm_ToArray R b))
     \<and> (\<forall>b. \<exists>bs b'. bm_ToBytes R b = Some bs \<and> bm_FromBuffer R bs = Some b' \<and> elems b' = elems b)"

lemma roaring_simps:
  assumes "roaring_ok R elems"
  shows "elems (bm_New R) = {}" "elems (bm_Add R x b) = insert x (elems b)" "elems (bm_And R a b) = elems a \<inter> elems b"
    "elems (bm_Or R a b) = elems a \<union> elems b" "elems (bm_AndNot R a b) = elems a - elems b"
    "elems (bm_Xor R a b) = (elems a - elems b) \<union> (elems b - elems a)" "bm_IsEmpty R b \<longleftrightarrow> elems b = {}"
    "set (bm_ToArray R b) = elems b" "sorted_wrt (<) (bm_ToArray R b)"
  using assms by (simp_all add: roaring_ok_def)

lemma roaring_bytes:
  "roaring_ok R elems \<Longrightarrow> \<exists>bs b'. bm_ToBytes R b = Some bs \<and> bm_FromBuffer R bs = Some b' \<and> elems b' = elems b"
  by (simp add: roaring_ok_def)

subsection \<open>The posting lists\<close>

text \<open>\<open>F\<close> gives the documents of each trigram.\<close>

definition tri_inv :: "('b \<Rightarrow> u32 set) \<Rightarrow> (u32 \<Rightarrow> u32 set) \<Rightarrow> 'b IndexWriter2 \<Rightarrow> bool" where
  "tri_inv elems F i \<longleftrightarrow> distinct (w2_denseTrigrams i) \<and> length (w2_lists i) = length (w2_denseTrigrams i)
    \<and> (\<forall>k < length (w2_denseTrigrams i). w2_denseTrigrams i ! k < 2 ^ 24
         \<and> w2_sparseTrigrams i (w2_denseTrigrams i ! k) = word_of_nat k
         \<and> elems (w2_lists i ! k) = F (w2_denseTrigrams i ! k))
    \<and> (\<forall>t. F t \<noteq> {} \<longrightarrow> t \<in> set (w2_denseTrigrams i))"

lemma length_trigrams:
  assumes "distinct ts" and "\<forall>t \<in> set ts. t < (2 ^ 24 :: u32)"
  shows "length ts \<le> 2 ^ 24"
proof -
  have "unat ` set ts \<subseteq> {..<2 ^ 24}" using assms(2) by (auto simp: word_less_nat_alt)
  then have "card (unat ` set ts) \<le> 2 ^ 24" using card_mono[of "{..<2 ^ 24 :: nat}"] by simp
  moreover have "card (unat ` set ts) = length ts"
    using assms(1) by (subst card_image) (auto intro: inj_onI simp: word_unat_eq_iff distinct_card)
  ultimately show ?thesis by simp
qed

lemma tri_inv_length: "tri_inv elems F i \<Longrightarrow> length (w2_denseTrigrams i) \<le> 2 ^ 24"
  by (rule length_trigrams) (auto simp: tri_inv_def in_set_conv_nth)

lemma addTrigram_spec:
  assumes R: "roaring_ok R elems" and inv: "tri_inv elems F i" and t: "t < 2 ^ 24"
  shows "\<exists>i'. addTrigram R doc t i = Some i' \<and> tri_inv elems (F(t := insert doc (F t))) i'
    \<and> w2_docs i' = w2_docs i \<and> w2_raw i' = w2_raw i \<and> w2_rawLength i' = w2_rawLength i \<and> w2_trigram i' = w2_trigram i"
proof -
  define dense where "dense = w2_denseTrigrams i"
  define n where "n = length dense"
  have n: "n < 2 ^ 32" using tri_inv_length[OF inv] by (simp add: n_def dense_def)
  have un: "unat (word_of_nat k :: u32) = k" if "k \<le> n" for k using that n by (simp add: unat_of_nat take_bit_eq_mod)
  have dist: "distinct dense" and len: "length (w2_lists i) = n"
    and at: "\<And>k. k < n \<Longrightarrow> dense ! k < 2 ^ 24 \<and> w2_sparseTrigrams i (dense ! k) = word_of_nat k \<and> elems (w2_lists i ! k) = F (dense ! k)"
    and cov: "\<And>t. F t \<noteq> {} \<Longrightarrow> t \<in> set dense"
    using inv by (auto simp: tri_inv_def dense_def n_def)
  show ?thesis
  proof (cases "t \<in> set dense")
    case True
    then obtain k where k: "k < n" "dense ! k = t" by (auto simp: in_set_conv_nth n_def)
    have "\<not> (word_of_nat n \<le> (word_of_nat k :: u32))" using k(1) un by (simp add: word_le_nat_alt)
    moreover have sp: "w2_sparseTrigrams i t = word_of_nat k" using at[OF k(1)] k(2) by simp
    ultimately have add: "addTrigram R doc t i = Some (i\<lparr>w2_lists := (w2_lists i)[k := bm_Add R doc (w2_lists i ! k)]\<rparr>)"
      using t k un[of k] by (simp add: addTrigram_def dense_def[symmetric] n_def[symmetric] Let_def)
    have "elems ((w2_lists i)[k := bm_Add R doc (w2_lists i ! k)] ! j) = (F(t := insert doc (F t))) (dense ! j)" if "j < n" for j
      using at[OF that] at[OF k(1)] that k dist len by (cases "j = k") (auto simp: roaring_simps[OF R] nth_eq_iff_index_eq n_def)
    then have "tri_inv elems (F(t := insert doc (F t))) (i\<lparr>w2_lists := (w2_lists i)[k := bm_Add R doc (w2_lists i ! k)]\<rparr>)"
      using dist at cov len True by (simp add: tri_inv_def dense_def[symmetric] n_def[symmetric])
    with add show ?thesis by simp
  next
    case False
    have fresh: "word_of_nat n \<le> w2_sparseTrigrams i t \<or> dense ! unat (w2_sparseTrigrams i t) \<noteq> t"
    proof (rule ccontr)
      assume a: "\<not> ?thesis"
      then have "unat (w2_sparseTrigrams i t) < n" using un[of n] by (simp add: word_less_nat_alt not_le)
      then show False using a False nth_mem[of "unat (w2_sparseTrigrams i t)" dense] by (simp add: n_def)
    qed
    define i' where "i' = i\<lparr>w2_denseTrigrams := dense @ [t], w2_lists := w2_lists i @ [bm_Add R doc (bm_New R)],
      w2_sparseTrigrams := (w2_sparseTrigrams i)(t := word_of_nat n)\<rparr>"
    have add: "addTrigram R doc t i = Some i'"
      using t fresh len un[of n] unfolding addTrigram_def i'_def
      by (simp add: dense_def[symmetric] n_def[symmetric] Let_def nth_append list_update_append)
    have "F t = {}" using cov[of t] False by blast
    have "(dense @ [t]) ! j < 2 ^ 24 \<and> ((w2_sparseTrigrams i)(t := word_of_nat n)) ((dense @ [t]) ! j) = word_of_nat j
        \<and> elems ((w2_lists i @ [bm_Add R doc (bm_New R)]) ! j) = (F(t := insert doc (F t))) ((dense @ [t]) ! j)"
      if j: "j < Suc n" for j
    proof (cases "j = n")
      case True
      then show ?thesis using t len \<open>F t = {}\<close> by (simp add: nth_append n_def roaring_simps[OF R])
    next
      case jn: False
      then have j: "j < n" using j by simp
      then have "dense ! j \<noteq> t" using False by (auto simp: n_def)
      then show ?thesis using at[OF j] j len by (simp add: nth_append n_def[symmetric])
    qed
    then have "tri_inv elems (F(t := insert doc (F t))) i'"
      using dist cov len False unfolding tri_inv_def i'_def by (auto simp: n_def[symmetric])
    with add show ?thesis by (simp add: i'_def)
  qed
qed

lemma addTrigrams_loop_spec:
  assumes R: "roaring_ok R elems"
  shows "tri_inv elems F i \<Longrightarrow> \<forall>t \<in> set ts. t < 2 ^ 24 \<Longrightarrow>
    \<exists>i'. addTrigrams_loop R doc ts i = Some i' \<and> tri_inv elems (\<lambda>t. if t \<in> set ts then insert doc (F t) else F t) i'
      \<and> w2_docs i' = w2_docs i \<and> w2_raw i' = w2_raw i \<and> w2_rawLength i' = w2_rawLength i \<and> w2_trigram i' = w2_trigram i"
proof (induction ts arbitrary: F i)
  case (Cons t ts)
  obtain i1 where i1: "addTrigram R doc t i = Some i1" "tri_inv elems (F(t := insert doc (F t))) i1"
    "w2_docs i1 = w2_docs i" "w2_raw i1 = w2_raw i" "w2_rawLength i1 = w2_rawLength i" "w2_trigram i1 = w2_trigram i"
    using addTrigram_spec[OF R Cons.prems(1), of t doc] Cons.prems(2) by auto
  have "(\<lambda>u. if u \<in> set ts then insert doc ((F(t := insert doc (F t))) u) else (F(t := insert doc (F t))) u)
      = (\<lambda>u. if u \<in> set (t # ts) then insert doc (F u) else F u)" by (auto simp: fun_eq_iff)
  with Cons.IH[OF i1(2)] Cons.prems(2) i1 show ?case by auto
qed simp

subsection \<open>Documents\<close>

definition doc_trigrams :: "docInnerW \<Rightarrow> u32 set" where
  "doc_trigrams c = set (file_trigrams (di_data c))"

definition ref_of :: "(docInnerW \<Rightarrow> byte list) \<Rightarrow> (byte list \<Rightarrow> byte list) \<Rightarrow> docInnerW list \<Rightarrow> nat \<Rightarrow> innerDocRef" where
  "ref_of enc sha cs j = \<lparr>ir_sha256 = sha (enc (cs ! j)), ir_start = int (length (concat (map enc (take j cs)))),
     ir_length = int (length (enc (cs ! j)))\<rparr>"

text \<open>The writer after documents with the entries \<open>ms\<close>, without their places, and the contents \<open>cs\<close>.\<close>

definition holds2 ::
  "('b \<Rightarrow> u32 set) \<Rightarrow> (docInnerW \<Rightarrow> byte list) \<Rightarrow> (byte list \<Rightarrow> byte list) \<Rightarrow> (innerDocRef \<Rightarrow> docMeta) list \<Rightarrow> docInnerW list \<Rightarrow>
     'b IndexWriter2 \<Rightarrow> bool"
where
  "holds2 elems enc sha ms cs i \<longleftrightarrow> length ms = length cs
    \<and> w2_docs i = map (\<lambda>j. (ms ! j) (ref_of enc sha cs j)) [0..<length cs]
    \<and> tri_inv elems (\<lambda>t. {word_of_nat j | j. j < length cs \<and> t \<in> doc_trigrams (cs ! j)}) i
    \<and> w2_raw i = map enc cs \<and> w2_rawLength i = int (length (concat (map enc cs)))
    \<and> (case w2_trigram i of None \<Rightarrow> True | Some s \<Rightarrow> sparse_inv s \<and> sparse_len s = 2 ^ 24)"

lemma holds2_empty: "holds2 elems enc sha [] [] empty_writer"
  by (simp add: holds2_def empty_writer_def tri_inv_def)

lemma file_trigrams_less: "t \<in> set (file_trigrams d) \<Longrightarrow> t < 2 ^ 24"
proof -
  assume "t \<in> set (file_trigrams d)"
  then obtain k where "t = rolled (take k d)" unfolding scan_trigrams_all[symmetric] by (auto simp: scan_trigrams_def)
  then show ?thesis using rolled_less by simp
qed

lemma to_int32_small: "0 \<le> n \<Longrightarrow> n < 2 ^ 31 \<Longrightarrow> to_int32 n = n"
  by (simp add: to_int32_def sint_word_ariths signed_take_bit_int_eq_self signed_of_int)

text \<open>The contents of a document as they are stored.\<close>

definition content :: "byte list \<Rightarrow> byte list \<Rightarrow> docInnerW" where
  "content hash d = \<lparr>di_hash = hash, di_blockToLine = block_lines d, di_data = d\<rparr>"

lemma add_text_spec:
  assumes R: "roaring_ok R elems" and i: "holds2 elems enc sha ms cs i"
    and small: "text2 d \<Longrightarrow> length (enc (content hash d)) < 2 ^ 31"
  shows "\<exists>err i'. add_text R enc sha hash d rerr m i = Some (err, i')
    \<and> (if text2 d \<and> \<not> rerr then err = None \<and> holds2 elems enc sha (ms @ [m]) (cs @ [content hash d]) i'
       else (\<exists>e. err = Some (ScanErr e)) \<and> holds2 elems enc sha ms cs i')"
proof -
  define s where "s = Reset (case w2_trigram i of None \<Rightarrow> NewSet (2 ^ 24) | Some s \<Rightarrow> s)"
  have s: "sparse_inv s" "sparse_len s = 2 ^ 24" "dense s = []"
    using i sset.reset_inv[of "NewSet (2 ^ 24)"] NewSet_inv[of "2 ^ 24"] unfolding s_def
    by (auto simp: holds2_def Reset_def NewSet_def sparse_inv_def split: option.splits)
  obtain res s' where s': "computeTrigrams s d rerr = Some (res, s')" "sparse_inv s'" "sparse_len s' = 2 ^ 24"
    "if text2 d \<and> \<not> rerr then res = Inr (block_lines d) \<and> set (dense s') = set (file_trigrams d) else (\<exists>e. res = Inl e)"
    using computeTrigrams_spec[OF s, of d rerr] by blast
  have set: "holds2 elems enc sha ms cs (i\<lparr>w2_trigram := Some s'\<rparr>)" using i s'(2,3) by (simp add: holds2_def tri_inv_def)
  show ?thesis
  proof (cases "text2 d \<and> \<not> rerr")
    case False
    then obtain e where "res = Inl e" using s'(4) by auto
    then show ?thesis using False s'(1) set unfolding add_text_def Let_def s_def[symmetric] by auto
  next
    case True
    define c where "c = content hash d"
    define n where "n = length cs"
    define F where "F = (\<lambda>t. {word_of_nat j :: u32 | j. j < n \<and> t \<in> doc_trigrams (cs ! j)})"
    define ref where "ref = ref_of enc sha (cs @ [c]) n"
    define i1 where "i1 = i\<lparr>w2_trigram := Some s', w2_raw := w2_raw i @ [enc c],
      w2_rawLength := w2_rawLength i + int (length (enc c)), w2_docs := w2_docs i @ [m ref]\<rparr>"
    have len: "to_int32 (int (length (enc c))) = int (length (enc c))"
      using small True by (intro to_int32_small) (simp_all add: c_def)
    have docs: "length (w2_docs i) = n" using i by (simp add: holds2_def n_def)
    have ref: "ref = \<lparr>ir_sha256 = sha (enc c), ir_start = w2_rawLength i, ir_length = int (length (enc c))\<rparr>"
      using i by (simp add: ref_def ref_of_def holds2_def n_def nth_append)
    have run: "add_text R enc sha hash d rerr m i = map_option (\<lambda>i. (None, i)) (addTrigrams_loop R (word_of_nat n) (dense s') i1)"
      using s'(1,4) True unfolding add_text_def Let_def s_def[symmetric]
      by (simp add: Let_def addDocInnerToRaw_def content_def[symmetric] c_def[symmetric] len addFile2_def docs addTrigrams_def
          Dense_def i1_def ref)
    have F: "tri_inv elems F i1" using i by (simp add: holds2_def F_def n_def i1_def tri_inv_def)
    have "\<forall>t \<in> set (dense s'). t < 2 ^ 24" using s'(4) True file_trigrams_less by auto
    from addTrigrams_loop_spec[OF R F this] obtain i2 where
      i2: "addTrigrams_loop R (word_of_nat n) (dense s') i1 = Some i2"
        "tri_inv elems (\<lambda>t. if t \<in> set (dense s') then insert (word_of_nat n) (F t) else F t) i2"
        "w2_docs i2 = w2_docs i1" "w2_raw i2 = w2_raw i1" "w2_rawLength i2 = w2_rawLength i1" "w2_trigram i2 = w2_trigram i1" by blast
    have "(\<lambda>t. if t \<in> set (dense s') then insert (word_of_nat n) (F t) else F t)
        = (\<lambda>t. {word_of_nat j | j. j < length (cs @ [c]) \<and> t \<in> doc_trigrams ((cs @ [c]) ! j)})"
      using s'(4) True by (auto simp: F_def n_def fun_eq_iff doc_trigrams_def c_def content_def nth_append less_Suc_eq)
    moreover have "w2_docs i2 = map (\<lambda>j. ((ms @ [m]) ! j) (ref_of enc sha (cs @ [c]) j)) [0..<length (cs @ [c])]"
      using i unfolding i2(3) i1_def by (auto simp: holds2_def ref_def n_def nth_append ref_of_def)
    ultimately have "holds2 elems enc sha (ms @ [m]) (cs @ [c]) i2"
      using i i2 s'(2,3) unfolding holds2_def by (simp add: i1_def)
    then show ?thesis using True run i2(1) by (simp add: c_def)
  qed
qed

end
