(* ===== verification/Index2_Query.thy ===== *)
theory Index2_Query
  imports Index2_Writer
begin

text \<open>
  Reading shards of \<^verbatim>\<open>index2\<close>: the table of trigrams is found again by the binary search, and queries are
  answered exactly. Without a filter the code answers only some queries, those that \<open>answerable\<close> describes.
\<close>

subsection \<open>The table of trigrams\<close>

lemma uint32_top: "uint32_bytes t = ucast (drop_bit 24 t) # trigram_bytes t"
  by (simp add: uint32_bytes_def trigram_bytes_def)

lemma put_trigrams_spec:
  "length P = 1 + 3 * length ss \<Longrightarrow>
    \<exists>x. put_trigrams (P @ T) (3 * int (length ss) - 3) (rev ss) = x # concat (map trigram_bytes ss) @ T"
proof (induction ss arbitrary: P T rule: rev_induct)
  case Nil
  then show ?case by (auto simp: length_Suc_conv)
next
  case (snoc t ss)
  define P' where "P' = take (3 * length ss) P @ [ucast (drop_bit 24 t)]"
  have pos: "nat (3 * int (length (ss @ [t])) - 3) = 3 * length ss" by simp
  have "put_uint32 (P @ T) (3 * length ss) t = P' @ trigram_bytes t @ T"
    using snoc.prems by (simp add: put_uint32_def P'_def uint32_top)
  then have "put_trigrams (P @ T) (3 * int (length (ss @ [t])) - 3) (rev (ss @ [t]))
      = put_trigrams (P' @ trigram_bytes t @ T) (3 * int (length ss) - 3) (rev ss)"
    using pos by simp
  moreover have "length P' = 1 + 3 * length ss" using snoc.prems by (simp add: P'_def)
  ultimately show ?case using snoc.IH[of P' "trigram_bytes t @ T"] by simp
qed

lemma length_trigram_bytes [simp]: "length (trigram_bytes t) = 3"
  by (simp add: trigram_bytes_def)

lemma drop_table: "h < length S \<Longrightarrow> drop (h * 3) (concat (map trigram_bytes S)) = trigram_bytes (S ! h) @ concat (map trigram_bytes (drop (Suc h) S))"
proof (induction S arbitrary: h)
  case (Cons s S)
  then show ?case by (cases h) simp_all
qed simp

lemma length_table: "length (concat (map trigram_bytes S)) = 3 * length S"
  by (induction S) simp_all

text \<open>Posting lists that give the documents \<open>D t\<close> for a trigram \<open>t\<close>.\<close>

definition serves :: "'b bitmap_ops \<Rightarrow> ('b \<Rightarrow> u32 set) \<Rightarrow> PostingLists \<Rightarrow> (u32 \<Rightarrow> u32 set) \<Rightarrow> bool" where
  "serves R elems p D \<longleftrightarrow> (\<forall>t < 2 ^ 24. FindTrigram R p t = Missing \<and> D t = {} \<or> (\<exists>b. FindTrigram R p t = Found b \<and> elems b = D t))"

lemma find_loop_spec:
  assumes tab: "pl_trigrams p = concat (map trigram_bytes S)" and len: "length (pl_lists p) = length S"
    and S: "\<forall>s \<in> set S. s < 2 ^ 24" "sorted_wrt (<) S"
    and lists: "\<And>k. k < length S \<Longrightarrow> \<exists>b. bm_FromBuffer R (pl_lists p ! k) = Some b \<and> elems b = D (S ! k)"
  shows "upper \<le> length S \<Longrightarrow> (\<forall>k < length S. S ! k = t \<longrightarrow> lower \<le> k \<and> k < upper) \<Longrightarrow>
    (if t \<in> set S then \<exists>b. find_loop R p t lower upper = Found b \<and> elems b = D t else find_loop R p t lower upper = Missing)"
proof (induction "upper - lower" arbitrary: lower upper rule: less_induct)
  case less
  show ?case
  proof (cases "lower < upper")
    case False
    then have "t \<notin> set S" using less.prems(2) by (fastforce simp: in_set_conv_nth)
    then show ?thesis using False by (simp add: find_loop.simps)
  next
    case True
    define h where "h = (lower + upper) div 2"
    have h: "lower \<le> h" "h < upper" "h < length S" using True less.prems(1) by (auto simp: h_def)
    have v: "be24 (drop (h * 3) (pl_trigrams p)) = S ! h"
      using S(1) h(3) unfolding tab by (simp add: drop_table be24_trigram_bytes)
    have run: "find_loop R p t lower upper =
        (if S ! h = t then (if \<not> h < length (pl_lists p) then FindErr
           else case bm_FromBuffer R (pl_lists p ! h) of None \<Rightarrow> FindErr | Some b \<Rightarrow> Found b)
         else if S ! h < t then find_loop R p t (h + 1) upper else find_loop R p t lower h)"
      using True by (simp add: find_loop.simps[of R p t lower upper] h_def[symmetric] v Let_def)
    have sorted: "S ! j < S ! k" if "j < k" "k < length S" for j k using S(2) that by (simp add: sorted_wrt_nth_less)
    consider "S ! h = t" | "S ! h < t" | "S ! h > t" by (meson linorder_cases)
    then show ?thesis
    proof cases
      case 1
      then have "t \<in> set S" using h(3) by auto
      then show ?thesis using run 1 h(3) len lists[OF h(3)] by auto
    next
      case 2
      have "h + 1 \<le> k" if "k < length S" "S ! k = t" for k
        using sorted[of k h] that 2 h(3) by (cases k h rule: linorder_cases) auto
      then have "\<forall>k < length S. S ! k = t \<longrightarrow> h + 1 \<le> k \<and> k < upper" using less.prems(2) by blast
      moreover have "find_loop R p t lower upper = find_loop R p t (h + 1) upper" using run 2 by auto
      moreover have "upper - (h + 1) < upper - lower" using h by simp
      ultimately show ?thesis using less.hyps[OF _ less.prems(1), of "h + 1"] by presburger
    next
      case 3
      have "k < h" if "k < length S" "S ! k = t" for k
        using sorted[of h k] that 3 by (cases k h rule: linorder_cases) auto
      then have "\<forall>k < length S. S ! k = t \<longrightarrow> lower \<le> k \<and> k < h" using less.prems(2) by blast
      moreover have "find_loop R p t lower upper = find_loop R p t lower h" using run 3 by auto
      moreover have "h - lower < upper - lower" "h \<le> length S" using h by simp_all
      ultimately show ?thesis using less.hyps[of h lower] by presburger
    qed
  qed
qed

subsection \<open>The shard of a writer\<close>

lemma lists_to_bytes_spec:
  assumes R: "roaring_ok R elems"
  shows "\<exists>bs. lists_to_bytes R ls = Some bs \<and> length bs = length ls
    \<and> (\<forall>k < length ls. \<exists>b. bm_FromBuffer R (bs ! k) = Some b \<and> elems b = elems (ls ! k))"
proof (induction ls)
  case (Cons l ls)
  obtain x b' where x: "bm_ToBytes R l = Some x" "bm_FromBuffer R x = Some b'" "elems b' = elems l"
    using roaring_bytes[OF R] by blast
  obtain bs where bs: "lists_to_bytes R ls = Some bs" "length bs = length ls"
    "\<forall>k < length ls. \<exists>b. bm_FromBuffer R (bs ! k) = Some b \<and> elems b = elems (ls ! k)" using Cons.IH by blast
  have "\<exists>b. bm_FromBuffer R ((x # bs) ! k) = Some b \<and> elems b = elems ((l # ls) ! k)" if "k < length (l # ls)" for k
    using that x bs(3) by (cases k) auto
  then show ?case using x(1) bs(1,2) by simp
qed simp

lemma sorted_keys:
  assumes "distinct tgs"
  defines "idx \<equiv> sort_key (\<lambda>k. tgs ! k) [0..<length tgs]"
  shows "map (\<lambda>k. tgs ! k) idx = sort tgs" "set idx = {..<length tgs}" "sorted_wrt (<) (sort tgs)"
proof -
  have "map (\<lambda>k. tgs ! k) idx = sort (map (\<lambda>k. tgs ! k) [0..<length tgs])"
    unfolding idx_def by (rule properties_for_sort[symmetric]) (simp_all flip: map_map)
  then show "map (\<lambda>k. tgs ! k) idx = sort tgs" by (simp add: map_nth)
  show "set idx = {..<length tgs}" by (auto simp: idx_def)
  show "sorted_wrt (<) (sort tgs)" using assms(1) by (simp add: strict_sorted_iff)
qed

lemma flush_serves:
  assumes R: "roaring_ok R elems" and inv: "tri_inv elems F i"
  shows "\<exists>p. flushPostingLists R i = Some p \<and> serves R elems p F \<and> pl_maxDocID p = word_of_nat (length (w2_docs i))"
proof -
  define tgs where "tgs = w2_denseTrigrams i"
  define S where "S = sort tgs"
  define idx where "idx = sort_key (\<lambda>k. tgs ! k) [0..<length tgs]"
  have dist: "distinct tgs" and small: "\<forall>s \<in> set S. s < 2 ^ 24" and len: "length (w2_lists i) = length tgs"
    using inv by (auto simp: tri_inv_def tgs_def S_def in_set_conv_nth)
  have idx: "map (\<lambda>k. tgs ! k) idx = S" "set idx = {..<length tgs}" "sorted_wrt (<) S"
    using sorted_keys[OF dist] by (simp_all add: S_def idx_def)
  have "length idx = length tgs" "length S = length tgs" by (simp_all add: idx_def S_def)
  obtain bs where bs: "lists_to_bytes R (map (\<lambda>k. w2_lists i ! k) idx) = Some bs" "length bs = length idx"
    "\<forall>k < length idx. \<exists>b. bm_FromBuffer R (bs ! k) = Some b \<and> elems b = elems (map (\<lambda>k. w2_lists i ! k) idx ! k)"
    using lists_to_bytes_spec[OF R, of "map (\<lambda>k. w2_lists i ! k) idx"] by auto
  define tgms where "tgms = put_trigrams (replicate (1 + 3 * length tgs) 0) (int (1 + 3 * length tgs) - 4) (rev S)"
  have "\<exists>x. tgms = x # concat (map trigram_bytes S) @ []"
    using put_trigrams_spec[of "replicate (1 + 3 * length tgs) 0" S "[]"]
    by (simp add: tgms_def \<open>length S = length tgs\<close> algebra_simps)
  then have tab: "drop 1 tgms = concat (map trigram_bytes S)" by auto
  define p where "p = \<lparr>pl_trigrams = concat (map trigram_bytes S), pl_lists = bs, pl_maxDocID = word_of_nat (length (w2_docs i))\<rparr>"
  have flush: "flushPostingLists R i = Some p"
    unfolding flushPostingLists_def Let_def tgs_def[symmetric] idx_def[symmetric] idx(1) length_replicate tgms_def[symmetric] tab
    by (simp add: bs(1) p_def)
  have "\<exists>b. bm_FromBuffer R (pl_lists p ! k) = Some b \<and> elems b = F (S ! k)" if k: "k < length S" for k
  proof -
    have "k < length idx" using k by (simp add: S_def idx_def)
    then obtain b where "bm_FromBuffer R (bs ! k) = Some b" "elems b = elems (w2_lists i ! (idx ! k))" using bs(3) by auto
    moreover have "idx ! k < length tgs" using \<open>k < length idx\<close> idx(2) nth_mem by blast
    then have "elems (w2_lists i ! (idx ! k)) = F (tgs ! (idx ! k))" using inv by (simp add: tri_inv_def tgs_def)
    moreover have "tgs ! (idx ! k) = S ! k" using idx(1) \<open>k < length idx\<close> by (metis nth_map)
    ultimately show ?thesis by (simp add: p_def)
  qed
  then have find: "if t \<in> set S then \<exists>b. find_loop R p t 0 (length S) = Found b \<and> elems b = F t else find_loop R p t 0 (length S) = Missing" for t
    using find_loop_spec[of p S R elems F "length S" t 0] small idx(3) bs(2) \<open>length idx = length tgs\<close> \<open>length S = length tgs\<close>
    by (simp add: p_def)
  have "serves R elems p F" unfolding serves_def
  proof (intro allI impI)
    fix t :: u32
    have run: "FindTrigram R p t = find_loop R p t 0 (length S)" by (simp add: FindTrigram_def p_def length_table)
    show "FindTrigram R p t = Missing \<and> F t = {} \<or> (\<exists>b. FindTrigram R p t = Found b \<and> elems b = F t)"
      using find[of t] inv unfolding run by (auto simp: tri_inv_def S_def tgs_def split: if_splits)
  qed
  then show ?thesis using flush by (simp add: p_def)
qed

end
