(* ===== verification/Index2_Correct.thy ===== *)
theory Index2_Correct
  imports Index2_Query Index_Write_Correct
begin

text \<open>
  Queries of \<^verbatim>\<open>index2\<close> are answered exactly. Without a filter the code answers only some queries, those that
  \<open>answerable\<close> describes; every other one makes a nil bitmap, on which it panics.
\<close>

subsection \<open>The meaning of a query on a shard\<close>

definition sat :: "(u32 \<Rightarrow> u32 set) \<Rightarrow> query \<Rightarrow> u32 set" where
  "sat D q = {x. qeval (\<lambda>t. x \<in> D (be24 (bytes_of t))) q}"

definition tri_docs :: "(u32 \<Rightarrow> u32 set) \<Rightarrow> string \<Rightarrow> u32 set" where
  "tri_docs D t = D (be24 (bytes_of t))"

lemma sat_simps:
  "sat D (Query QAll ts ss) = UNIV"
  "sat D (Query QNone ts ss) = {}"
  "sat D (Query QAnd ts ss) = (\<Inter>t \<in> set ts. tri_docs D t) \<inter> (\<Inter>s \<in> set ss. sat D s)"
  "sat D (Query QOr ts ss) = (\<Union>t \<in> set ts. tri_docs D t) \<union> (\<Union>s \<in> set ss. sat D s)"
  by (auto simp: sat_def tri_docs_def list_all_iff list_ex_iff)

fun tris3 :: "query \<Rightarrow> bool" where
  "tris3 (Query op ts ss) = (list_all (\<lambda>t. length t = 3) ts \<and> list_all tris3 ss)"

text \<open>The queries that are answered without a filter.\<close>

fun answerable :: "query \<Rightarrow> bool" where
  "answerable (Query QNone ts ss) = True"
| "answerable (Query QAll ts ss) = False"
| "answerable (Query QAnd ts ss) = (ts \<noteq> [] \<or> (case ss of [] \<Rightarrow> False | s # ss \<Rightarrow> answerable s))"
| "answerable (Query QOr ts ss) = ((ts \<noteq> [] \<or> ss \<noteq> []) \<and> list_all answerable ss)"

text \<open>The documents that a filter leaves.\<close>

definition left_by :: "('b \<Rightarrow> u32 set) \<Rightarrow> 'b option \<Rightarrow> u32 set" where
  "left_by elems filt = (case filt of None \<Rightarrow> UNIV | Some f \<Rightarrow> elems f)"

lemma left_by_simps [simp]: "left_by elems None = UNIV" "left_by elems (Some f) = elems f"
  by (simp_all add: left_by_def)

subsection \<open>The trigrams of a node\<close>

lemma trigram_bitmap_spec:
  assumes R: "roaring_ok R elems" and p: "serves R elems p D" and t: "length t = 3"
  shows "\<exists>l. trigram_bitmap R p t = Some l \<and> elems l = tri_docs D t"
proof -
  obtain a b c where "t = [a, b, c]" using t by (auto simp: numeral_3_eq_3 length_Suc_conv)
  then have "be24 (bytes_of t) < 2 ^ 24" using be24_less by (simp add: bytes_of_def)
  then show ?thesis using p t roaring_simps(1)[OF R] by (fastforce simp: serves_def trigram_bitmap_def tri_docs_def)
qed

lemma and_tris_spec:
  assumes R: "roaring_ok R elems" and p: "serves R elems p D"
  shows "list_all (\<lambda>t. length t = 3) ts \<Longrightarrow>
    \<exists>ret r. and_tris R p ts filt = Some (ret, r) \<and> left_by elems r = left_by elems filt \<inter> (\<Inter>t \<in> set ts. tri_docs D t)
      \<and> (r = None \<longleftrightarrow> filt = None \<and> ts = []) \<and> (ret \<longrightarrow> left_by elems r = {})"
proof (induction ts arbitrary: filt)
  case (Cons t ts)
  obtain l where l: "trigram_bitmap R p t = Some l" "elems l = tri_docs D t"
    using trigram_bitmap_spec[OF R p] Cons.prems by auto
  define f where "f = (case filt of None \<Rightarrow> l | Some f \<Rightarrow> bm_And R l f)"
  have f: "elems f = left_by elems filt \<inter> tri_docs D t"
    using l(2) by (auto simp: f_def roaring_simps[OF R] split: option.splits)
  have run: "and_tris R p (t # ts) filt = (if bm_IsEmpty R f then Some (True, Some f) else and_tris R p ts (Some f))"
    by (simp add: l(1) f_def[symmetric] Let_def)
  show ?case
  proof (cases "elems f = {}")
    case True
    then show ?thesis using run f by (auto simp: roaring_simps(7)[OF R])
  next
    case False
    obtain ret r where "and_tris R p ts (Some f) = Some (ret, r)" "left_by elems r = elems f \<inter> (\<Inter>t \<in> set ts. tri_docs D t)"
      "r \<noteq> None" "ret \<longrightarrow> left_by elems r = {}"
      using Cons.IH[of "Some f"] Cons.prems by auto
    then show ?thesis using run f False by (auto simp: roaring_simps(7)[OF R])
  qed
qed (simp add: ex_bool_eq)

lemma or_tris_spec:
  assumes R: "roaring_ok R elems" and p: "serves R elems p D"
  shows "list_all (\<lambda>t. length t = 3) ts \<Longrightarrow>
    \<exists>r. or_tris R p ts lst = Some r \<and> (r = None \<longleftrightarrow> lst = None \<and> ts = [])
      \<and> (\<forall>b. r = Some b \<longrightarrow> elems b = (case lst of None \<Rightarrow> {} | Some l \<Rightarrow> elems l) \<union> (\<Union>t \<in> set ts. tri_docs D t))"
proof (induction ts arbitrary: lst)
  case (Cons t ts)
  obtain l where l: "trigram_bitmap R p t = Some l" "elems l = tri_docs D t"
    using trigram_bitmap_spec[OF R p] Cons.prems by auto
  define b where "b = (case lst of None \<Rightarrow> l | Some b \<Rightarrow> bm_Or R b l)"
  have b: "elems b = (case lst of None \<Rightarrow> {} | Some l \<Rightarrow> elems l) \<union> tri_docs D t"
    using l(2) by (auto simp: b_def roaring_simps[OF R] split: option.splits)
  have "or_tris R p (t # ts) lst = or_tris R p ts (Some b)" by (cases lst) (simp_all add: l(1) b_def)
  then show ?case using Cons.IH[of "Some b"] Cons.prems b by auto
qed simp

lemma not_tris_spec:
  assumes R: "roaring_ok R elems" and p: "serves R elems p D"
  shows "list_all (\<lambda>t. length t = 3) ts \<Longrightarrow>
    \<exists>ret b. not_tris R p ts nf = Some (ret, b)
      \<and> (if ret then elems nf \<subseteq> (\<Union>t \<in> set ts. tri_docs D t) else elems b = elems nf - (\<Union>t \<in> set ts. tri_docs D t))"
proof (induction ts arbitrary: nf)
  case (Cons t ts)
  obtain l where l: "trigram_bitmap R p t = Some l" "elems l = tri_docs D t"
    using trigram_bitmap_spec[OF R p] Cons.prems by auto
  have nf: "elems (bm_AndNot R nf l) = elems nf - tri_docs D t" by (simp add: roaring_simps[OF R] l(2))
  show ?case
  proof (cases "elems (bm_AndNot R nf l) = {}")
    case True
    then show ?thesis using nf l(1) by (auto simp: Let_def roaring_simps(7)[OF R])
  next
    case False
    obtain ret b where "not_tris R p ts (bm_AndNot R nf l) = Some (ret, b)"
      "if ret then elems (bm_AndNot R nf l) \<subseteq> (\<Union>t \<in> set ts. tri_docs D t)
       else elems b = elems (bm_AndNot R nf l) - (\<Union>t \<in> set ts. tri_docs D t)"
      using Cons.IH[of "bm_AndNot R nf l"] Cons.prems by auto
    then show ?thesis using nf l(1) False by (auto simp: Let_def roaring_simps(7)[OF R] split: if_splits)
  qed
qed (simp add: ex_bool_eq)

subsection \<open>Queries\<close>

definition exact :: "'b bitmap_ops \<Rightarrow> ('b \<Rightarrow> u32 set) \<Rightarrow> PostingLists \<Rightarrow> (u32 \<Rightarrow> u32 set) \<Rightarrow> query \<Rightarrow> bool" where
  "exact R elems p D q \<longleftrightarrow> (\<forall>filt. (filt = None \<longrightarrow> answerable q) \<longrightarrow>
     (\<exists>b. PostingQuery2 R p q filt = Some (Some b) \<and> elems b = left_by elems filt \<inter> sat D q))"

lemma exactD:
  assumes "exact R elems p D q" and "filt = None \<Longrightarrow> answerable q"
  obtains b where "PostingQuery2 R p q filt = Some (Some b)" "elems b = left_by elems filt \<inter> sat D q"
  using assms unfolding exact_def by blast

lemma and_subs2_spec:
  assumes R: "roaring_ok R elems"
  shows "list_all (exact R elems p D) ss \<Longrightarrow> (filt = None \<Longrightarrow> case ss of [] \<Rightarrow> False | s # ss \<Rightarrow> answerable s) \<Longrightarrow>
    \<exists>b. and_subs2 R p ss filt = Some (Some b) \<and> elems b = left_by elems filt \<inter> (\<Inter>s \<in> set ss. sat D s)"
proof (induction ss arbitrary: filt)
  case Nil
  then show ?case by (cases filt) simp_all
next
  case (Cons s ss)
  obtain f where f: "PostingQuery2 R p s filt = Some (Some f)" "elems f = left_by elems filt \<inter> sat D s"
    using Cons.prems by (auto elim!: exactD[where filt = filt])
  show ?case
  proof (cases "elems f = {}")
    case True
    then show ?thesis using f by (auto simp: roaring_simps(7)[OF R])
  next
    case False
    moreover obtain b where "and_subs2 R p ss (Some f) = Some (Some b)" "elems b = elems f \<inter> (\<Inter>s \<in> set ss. sat D s)"
      using Cons.IH[of "Some f"] Cons.prems(1) by auto
    ultimately show ?thesis using f by (auto simp: roaring_simps(7)[OF R])
  qed
qed

lemma or_subs2_spec:
  assumes R: "roaring_ok R elems"
  shows "list_all (exact R elems p D) ss \<Longrightarrow> list_all answerable ss \<Longrightarrow>
    \<exists>r. or_subs2 R p ss lst = Some r \<and> (r = None \<longleftrightarrow> lst = None \<and> ss = [])
      \<and> (\<forall>b. r = Some b \<longrightarrow> elems b = (case lst of None \<Rightarrow> {} | Some l \<Rightarrow> elems l) \<union> (\<Union>s \<in> set ss. sat D s))"
proof (induction ss arbitrary: lst)
  case (Cons s ss)
  obtain l where l: "PostingQuery2 R p s None = Some (Some l)" "elems l = sat D s"
    using Cons.prems by (auto elim!: exactD[where filt = None])
  define b where "b = (case lst of None \<Rightarrow> l | Some b \<Rightarrow> bm_Or R b l)"
  have b: "elems b = (case lst of None \<Rightarrow> {} | Some l \<Rightarrow> elems l) \<union> sat D s"
    using l(2) by (auto simp: b_def roaring_simps[OF R] split: option.splits)
  have "or_subs2 R p (s # ss) lst = or_subs2 R p ss (Some b)" by (cases lst) (simp_all add: l(1) b_def)
  then show ?case using Cons.IH[of "Some b"] Cons.prems b by auto
qed simp

lemma not_subs2_spec:
  assumes R: "roaring_ok R elems"
  shows "list_all (exact R elems p D) ss \<Longrightarrow>
    \<exists>ret b. not_subs2 R p ss f nf = Some (ret, b)
      \<and> (if ret then elems nf \<inter> elems f \<subseteq> (\<Union>s \<in> set ss. sat D s) \<and> elems nf \<subseteq> elems f
         else elems b = elems nf - (elems f \<inter> (\<Union>s \<in> set ss. sat D s)))"
proof (induction ss arbitrary: nf)
  case (Cons s ss)
  obtain l where l: "PostingQuery2 R p s (Some f) = Some (Some l)" "elems l = elems f \<inter> sat D s"
    using Cons.prems by (auto elim!: exactD[where filt = "Some f"])
  have nf: "elems (bm_AndNot R nf l) = elems nf - (elems f \<inter> sat D s)" by (simp add: roaring_simps[OF R] l(2))
  show ?case
  proof (cases "elems (bm_AndNot R nf l) = {}")
    case True
    then show ?thesis using nf l(1) by (auto simp: Let_def roaring_simps(7)[OF R])
  next
    case False
    obtain ret b where "not_subs2 R p ss f (bm_AndNot R nf l) = Some (ret, b)"
      "if ret then elems (bm_AndNot R nf l) \<inter> elems f \<subseteq> (\<Union>s \<in> set ss. sat D s) \<and> elems (bm_AndNot R nf l) \<subseteq> elems f
       else elems b = elems (bm_AndNot R nf l) - (elems f \<inter> (\<Union>s \<in> set ss. sat D s))"
      using Cons.IH[of "bm_AndNot R nf l"] Cons.prems by auto
    then show ?thesis using nf l(1) False by (auto simp: Let_def roaring_simps(7)[OF R] split: if_splits)
  qed
qed (simp add: ex_bool_eq)

lemma or_filtered:
  assumes R: "roaring_ok R elems" and p: "serves R elems p D" and ts: "list_all (\<lambda>t. length t = 3) ts"
    and ss: "list_all (exact R elems p D) ss"
  shows "\<exists>b. PostingQuery2 R p (Query QOr ts ss) (Some f) = Some (Some b) \<and> elems b = elems f \<inter> sat D (Query QOr ts ss)"
proof -
  obtain ret b where b: "not_subs2 R p ss f f = Some (ret, b)"
    "if ret then elems f \<inter> elems f \<subseteq> (\<Union>s \<in> set ss. sat D s) \<and> elems f \<subseteq> elems f
     else elems b = elems f - (elems f \<inter> (\<Union>s \<in> set ss. sat D s))"
    using not_subs2_spec[OF R ss, of f f] by blast
  show ?thesis
  proof (cases ret)
    case True
    then show ?thesis using b by (auto simp: sat_simps)
  next
    case False
    then have nf: "elems b = elems f - (\<Union>s \<in> set ss. sat D s)" using b(2) by auto
    obtain ret' b' where b': "not_tris R p ts b = Some (ret', b')"
      "if ret' then elems b \<subseteq> (\<Union>t \<in> set ts. tri_docs D t) else elems b' = elems b - (\<Union>t \<in> set ts. tri_docs D t)"
      using not_tris_spec[OF R p ts, of b] by auto
    have "PostingQuery2 R p (Query QOr ts ss) (Some f) = Some (Some (if ret' then f else bm_Xor R b' f))"
      using b(1) b'(1) False by simp
    moreover have "elems (if ret' then f else bm_Xor R b' f) = elems f \<inter> sat D (Query QOr ts ss)"
      using nf b'(2) by (auto simp: sat_simps roaring_simps(6)[OF R] split: if_splits)
    ultimately show ?thesis by blast
  qed
qed

lemma queries_exact:
  assumes R: "roaring_ok R elems" and p: "serves R elems p D"
  shows "tris3 q \<Longrightarrow> exact R elems p D q"
proof (induction q)
  case (Query op ts ss)
  have ts: "list_all (\<lambda>t. length t = 3) ts" and ss: "list_all (exact R elems p D) ss"
    using Query by (auto simp: list_all_iff)
  have "\<exists>b. PostingQuery2 R p (Query op ts ss) filt = Some (Some b) \<and> elems b = left_by elems filt \<inter> sat D (Query op ts ss)"
    if ans: "filt = None \<Longrightarrow> answerable (Query op ts ss)" for filt
  proof (cases op)
    case QAll
    then show ?thesis using ans by (cases filt) (simp_all add: sat_simps)
  next
    case QNone
    then show ?thesis by (simp add: sat_simps roaring_simps(1)[OF R])
  next
    case QAnd
    obtain ret r where r: "and_tris R p ts filt = Some (ret, r)" "left_by elems r = left_by elems filt \<inter> (\<Inter>t \<in> set ts. tri_docs D t)"
      "r = None \<longleftrightarrow> filt = None \<and> ts = []" "ret \<longrightarrow> left_by elems r = {}"
      using and_tris_spec[OF R p ts, of filt] by blast
    show ?thesis
    proof (cases ret)
      case True
      then obtain b where "r = Some b" using r(4) by (cases r) auto
      then show ?thesis using r True QAnd by (auto simp: sat_simps)
    next
      case False
      have "case ss of [] \<Rightarrow> False | s # ss \<Rightarrow> answerable s" if "r = None" using that r(3) ans QAnd by simp
      then obtain b where "and_subs2 R p ss r = Some (Some b)" "elems b = left_by elems r \<inter> (\<Inter>s \<in> set ss. sat D s)"
        using and_subs2_spec[OF R ss] by blast
      then show ?thesis using r(1,2) False QAnd by (simp add: sat_simps Int_assoc)
    qed
  next
    case QOr
    show ?thesis
    proof (cases filt)
      case None
      then have ans: "ts \<noteq> [] \<or> ss \<noteq> []" "list_all answerable ss" using that QOr by simp_all
      obtain l where l: "or_subs2 R p ss None = Some l" "l = None \<longleftrightarrow> ss = []"
        "\<forall>b. l = Some b \<longrightarrow> elems b = (\<Union>s \<in> set ss. sat D s)" using or_subs2_spec[OF R ss ans(2), of None] by auto
      obtain r where r: "or_tris R p ts l = Some r" "r = None \<longleftrightarrow> l = None \<and> ts = []"
        "\<forall>b. r = Some b \<longrightarrow> elems b = (case l of None \<Rightarrow> {} | Some l \<Rightarrow> elems l) \<union> (\<Union>t \<in> set ts. tri_docs D t)"
        using or_tris_spec[OF R p ts, of l] by auto
      then obtain b where "r = Some b" using l(2) ans(1) by (cases r) auto
      moreover have "(case l of None \<Rightarrow> {} | Some l \<Rightarrow> elems l) = (\<Union>s \<in> set ss. sat D s)"
        using l(2,3) by (cases l) simp_all
      ultimately show ?thesis using l(1) r None QOr by (simp add: sat_simps Un_commute)
    next
      case (Some f)
      then show ?thesis using or_filtered[OF R p ts ss, of f] QOr by simp
    qed
  qed
  then show ?case by (simp add: exact_def)
qed

end
