(* ===== verification/Git_Index.thy ===== *)
theory Git_Index
  imports Index2_Correct End_To_End
begin

text \<open>
  Indexing a commit, \<^verbatim>\<open>indexRepo\<close> of \<^verbatim>\<open>cmd/cindex-git\<close>, and what can be found in its shard. The files of the
  commit are a list in the order in which the tree is walked.
\<close>

subsection \<open>The loop over the files\<close>

text \<open>The errors that are a \<^verbatim>\<open>FileContentsError\<close> are logged and the file is left out.\<close>

fun is_FileContentsError :: "add_error \<Rightarrow> bool" where
  "is_FileContentsError OpenErr = False"
| "is_FileContentsError ErrFileTooBig = True"
| "is_FileContentsError (ScanErr e) = (e \<noteq> ReadErr)"

text \<open>\<^verbatim>\<open>time.Time{}\<close> in nanoseconds, as the library computes it.\<close>

definition zero_time :: int where "zero_time = - 6795364578871345152"

fun index_files ::
  "'b bitmap_ops \<Rightarrow> (docInnerW \<Rightarrow> byte list) \<Rightarrow> (byte list \<Rightarrow> byte list) \<Rightarrow> object_File list \<Rightarrow> 'b IndexWriter2 \<Rightarrow>
     (add_error option \<times> 'b IndexWriter2) option"
where
  "index_files R enc sha [] iw = Some (None, iw)"
| "index_files R enc sha (f # fs) iw =
     Option.bind (AddObject R enc sha zero_time f iw) (\<lambda>(err, iw). case err of
       None \<Rightarrow> index_files R enc sha fs iw
     | Some e \<Rightarrow> if is_FileContentsError e then index_files R enc sha fs iw else Some (Some e, iw))"

definition indexRepo ::
  "'b bitmap_ops \<Rightarrow> (docInnerW \<Rightarrow> byte list) \<Rightarrow> (byte list \<Rightarrow> byte list) \<Rightarrow> object_File list \<Rightarrow>
     (add_error option \<times> 'b IndexWriter2) option"
where
  "indexRepo R enc sha fs = index_files R enc sha fs empty_writer"

subsection \<open>The files that are indexed\<close>

fun doc_type :: "filemode \<Rightarrow> DocType option" where
  "doc_type ModeRegular = Some DocTypeRegular"
| "doc_type ModeExecutable = Some DocTypeExecutable"
| "doc_type ModeSymlink = Some DocTypeSymlink"
| "doc_type ModeOther = None"

text \<open>A file whose data is needed can be read.\<close>

definition readable :: "object_File \<Rightarrow> bool" where
  "readable f \<longleftrightarrow> (doc_type (of_Mode f) \<noteq> None \<and> of_Size f \<le> maxDocSize \<longrightarrow> (\<exists>d. of_Reader f = Some (d, False)))"

definition file_data :: "object_File \<Rightarrow> byte list" where
  "file_data f = (case of_Reader f of None \<Rightarrow> [] | Some (d, _) \<Rightarrow> d)"

definition accepted :: "object_File \<Rightarrow> bool" where
  "accepted f \<longleftrightarrow> doc_type (of_Mode f) \<noteq> None \<and> of_Size f \<le> maxDocSize \<and> text2 (file_data f)"

definition file_content :: "object_File \<Rightarrow> docInnerW" where
  "file_content f = content (of_Hash f) (file_data f)"

definition file_meta :: "object_File \<Rightarrow> innerDocRef \<Rightarrow> docMeta" where
  "file_meta f ref = \<lparr>dm_path = of_Name f, dm_size = to_int32 (of_Size f), dm_mod = zero_time,
     dm_typ = the (doc_type (of_Mode f)), dm_ref = ref\<rparr>"

definition holds_files ::
  "('b \<Rightarrow> u32 set) \<Rightarrow> (docInnerW \<Rightarrow> byte list) \<Rightarrow> (byte list \<Rightarrow> byte list) \<Rightarrow> object_File list \<Rightarrow> 'b IndexWriter2 \<Rightarrow> bool"
where
  "holds_files elems enc sha fs i \<longleftrightarrow> holds2 elems enc sha (map file_meta fs) (map file_content fs) i"

lemma AddObject_eq:
  "AddObject R enc sha t f i = (case doc_type (of_Mode f) of
     None \<Rightarrow> Some (None, i)
   | Some dt \<Rightarrow>
       if of_Size f > maxDocSize then Some (Some ErrFileTooBig, i)
       else case of_Reader f of None \<Rightarrow> Some (Some OpenErr, i) | Some (d, rerr) \<Rightarrow>
         add_text R enc sha (of_Hash f) d rerr
           (\<lambda>ref. \<lparr>dm_path = of_Name f, dm_size = to_int32 (of_Size f), dm_mod = t, dm_typ = dt, dm_ref = ref\<rparr>) i)"
  by (cases "of_Mode f") (simp_all add: AddObject_def)

lemma scan_lines_err: "scan_lines st d = Some (Some e, st') \<Longrightarrow> e \<noteq> ReadErr"
proof (induction st d arbitrary: st' rule: scan_lines.induct)
  case (1 st d)
  then show ?case
    by (auto simp: scan_lines.simps[of st d] Let_def Option.bind_eq_Some_conv split: token.splits if_splits)
qed

lemma add_text_err: "add_text R enc sha hash d False m i = Some (Some (ScanErr e), i') \<Longrightarrow> e \<noteq> ReadErr"
  by (auto simp: add_text_def computeTrigrams_def Let_def Option.bind_eq_Some_conv dest: scan_lines_err
      split: option.splits sum.splits prod.splits)

lemma AddObject_spec:
  assumes R: "roaring_ok R elems" and i: "holds_files elems enc sha fs i" and f: "readable f"
    and small: "accepted f \<Longrightarrow> length (enc (file_content f)) < 2 ^ 31"
  shows "\<exists>err i'. AddObject R enc sha zero_time f i = Some (err, i') \<and> (case err of None \<Rightarrow> True | Some e \<Rightarrow> is_FileContentsError e)
    \<and> holds_files elems enc sha (fs @ (if accepted f then [f] else [])) i'"
proof (cases "doc_type (of_Mode f)")
  case None
  then show ?thesis using i by (simp add: AddObject_eq accepted_def)
next
  case (Some dt)
  show ?thesis
  proof (cases "of_Size f > maxDocSize")
    case True
    then show ?thesis using Some i by (simp add: AddObject_eq accepted_def)
  next
    case False
    then obtain d where d: "of_Reader f = Some (d, False)" using f Some by (auto simp: readable_def)
    have run: "AddObject R enc sha zero_time f i = add_text R enc sha (of_Hash f) d False (file_meta f) i"
      using Some False d by (simp add: AddObject_eq file_meta_def[abs_def])
    have acc: "accepted f \<longleftrightarrow> text2 d" using Some False d by (simp add: accepted_def file_data_def)
    have cont: "file_content f = content (of_Hash f) d" by (simp add: file_content_def file_data_def d)
    obtain err i' where add: "add_text R enc sha (of_Hash f) d False (file_meta f) i = Some (err, i')"
      "if text2 d then err = None \<and> holds2 elems enc sha (map file_meta fs @ [file_meta f]) (map file_content fs @ [file_content f]) i'
       else (\<exists>e. err = Some (ScanErr e)) \<and> holds2 elems enc sha (map file_meta fs) (map file_content fs) i'"
      using add_text_spec[OF R i[unfolded holds_files_def], where hash = "of_Hash f" and d = d and rerr = False and m = "file_meta f"] small acc cont by force
    then show ?thesis using run acc add_text_err[of R enc sha "of_Hash f" d "file_meta f" i] by (auto simp: holds_files_def split: if_splits)
  qed
qed

lemma index_files_spec:
  assumes R: "roaring_ok R elems"
  shows "holds_files elems enc sha gs i \<Longrightarrow> \<forall>f \<in> set fs. readable f \<and> (accepted f \<longrightarrow> length (enc (file_content f)) < 2 ^ 31) \<Longrightarrow>
    \<exists>i'. index_files R enc sha fs i = Some (None, i') \<and> holds_files elems enc sha (gs @ filter accepted fs) i'"
proof (induction fs arbitrary: gs i)
  case (Cons f fs)
  obtain err i1 where i1: "AddObject R enc sha zero_time f i = Some (err, i1)"
    "case err of None \<Rightarrow> True | Some e \<Rightarrow> is_FileContentsError e"
    "holds_files elems enc sha (gs @ (if accepted f then [f] else [])) i1"
    using AddObject_spec[OF R Cons.prems(1), of f] Cons.prems(2) by auto
  have "index_files R enc sha (f # fs) i = index_files R enc sha fs i1" using i1(1,2) by (auto split: option.splits)
  with Cons.IH[OF i1(3)] Cons.prems(2) show ?case by (simp split: if_splits)
qed simp

lemma holds_files_empty: "holds_files elems enc sha [] empty_writer"
  by (simp add: holds_files_def holds2_empty)

subsection \<open>The shard\<close>

text \<open>The contents of the documents: in the shard, or what is left for its second file.\<close>

definition shard_raw :: "IndexShard \<Rightarrow> 'b IndexWriter2 \<Rightarrow> byte list" where
  "shard_raw s i = (case is_raw s of Some raw \<Rightarrow> raw | None \<Rightarrow> concat (RawBytes i))"

definition doc_bytes :: "byte list \<Rightarrow> Doc2 \<Rightarrow> byte list" where
  "doc_bytes raw d = take (nat (dc_length d)) (drop (nat (dc_start d)) raw)"

lemma take_drop_concat:
  "k < length xs \<Longrightarrow> take (length (xs ! k)) (drop (length (concat (take k xs))) (concat xs)) = xs ! k"
proof -
  assume "k < length xs"
  then have "concat xs = concat (take k xs) @ xs ! k @ concat (drop (Suc k) xs)"
    by (metis append_take_drop_id concat_append Cons_nth_drop_Suc concat.simps(2))
  then show ?thesis by simp
qed

lemma ToShard_spec:
  assumes R: "roaring_ok R elems" and i: "holds_files elems enc sha fs i"
  shows "\<exists>s i'. ToShard R i = Some (s, i') \<and> map dc_path (is_docs s) = map of_Name fs
    \<and> (\<forall>k < length fs. doc_bytes (shard_raw s i') (is_docs s ! k) = enc (file_content (fs ! k)))
    \<and> serves R elems (is_lists s) (\<lambda>t. {word_of_nat k | k. k < length fs \<and> t \<in> set (file_trigrams (file_data (fs ! k)))})"
proof -
  define F where "F = (\<lambda>t. {word_of_nat k :: u32 | k. k < length fs \<and> t \<in> set (file_trigrams (file_data (fs ! k)))})"
  have docs: "w2_docs i = map (\<lambda>j. file_meta (fs ! j) (ref_of enc sha (map file_content fs) j)) [0..<length fs]"
    and raw: "w2_raw i = map enc (map file_content fs)" and inv: "tri_inv elems F i"
    using i unfolding holds_files_def holds2_def F_def
    by (simp_all add: doc_trigrams_def file_content_def content_def cong: conj_cong Collect_cong)
  obtain p where p: "flushPostingLists R i = Some p" "serves R elems p F" using flush_serves[OF R inv] by blast
  obtain s i' where s: "ToShard R i = Some (s, i')" by (cases "ToShard R i") (auto simp: ToShard_def p(1))
  then have s': "is_lists s = p" "shard_raw s i' = concat (w2_raw i)" "is_docs s = fst (flushDocs (w2_rawLength i < maxInlineRaw) i)"
    by (auto simp: ToShard_def p(1) shard_raw_def RawBytes_def flushDocs_def split: if_splits)
  have names: "map dc_path (is_docs s) = map of_Name fs"
    unfolding s'(3) by (rule nth_equalityI) (simp_all add: flushDocs_def docs file_meta_def)
  have "doc_bytes (shard_raw s i') (is_docs s ! k) = enc (file_content (fs ! k))" if "k < length fs" for k
    using take_drop_concat[of k "map enc (map file_content fs)"] that
    unfolding s'(2,3) by (simp add: flushDocs_def docs raw doc_bytes_def file_meta_def ref_of_def take_map)
  then show ?thesis using s s'(1) p(2) names unfolding F_def by blast
qed

subsection \<open>Finding what was indexed\<close>

lemma be24_inj: "be24 x = be24 y \<Longrightarrow> length x = 3 \<Longrightarrow> length y = 3 \<Longrightarrow> x = y"
proof -
  assume eq: "be24 x = be24 y" and len: "length x = 3" "length y = 3"
  obtain a b c where x: "x = [a, b, c]" using len(1) by (auto simp: numeral_3_eq_3 length_Suc_conv)
  obtain a' b' c' where y: "y = [a', b', c']" using len(2) by (auto simp: numeral_3_eq_3 length_Suc_conv)
  show "x = y" using eq trigram_bytes_be24[of a b c] trigram_bytes_be24[of a' b' c'] unfolding x y by metis
qed

lemma trigram_in_text:
  assumes "length t = 3"
  shows "be24 (bytes_of t) \<in> set (file_trigrams w) \<longleftrightarrow> sublist t (string_of_bytes w)"
proof
  assume "be24 (bytes_of t) \<in> set (file_trigrams w)"
  then obtain x where x: "be24 (bytes_of t) = be24 x" "length x = 3" "sublist x w" by (auto simp: file_trigrams_def in_windows3_iff)
  have "bytes_of t = x" by (rule be24_inj[OF x(1) _ x(2)]) (simp add: assms)
  then have "t = string_of_bytes x" by (metis string_bytes_roundtrip)
  then show "sublist t (string_of_bytes w)" using x(3) by (simp add: string_of_bytes_def sublist_map)
next
  assume "sublist t (string_of_bytes w)"
  then show "be24 (bytes_of t) \<in> set (file_trigrams w)" using assms by (rule text_has_trigram)
qed

lemma qeval_trigrams_cong:
  "tris3 q \<Longrightarrow> (\<And>t. length t = 3 \<Longrightarrow> has t = has' t) \<Longrightarrow> qeval has q = qeval has' q"
  by (induction has q rule: qeval.induct) (auto simp: list_all_iff list_ex_iff)

lemma sat_docs:
  assumes "tris3 q" and "length ws \<le> 2 ^ 32"
  shows "sat (\<lambda>t. {word_of_nat k | k. k < length ws \<and> t \<in> set (file_trigrams (ws ! k))}) q \<inter> {word_of_nat k | k. k < length ws}
    = {word_of_nat k | k. k < length ws \<and> qeval (\<lambda>t. sublist t (string_of_bytes (ws ! k))) q}"
proof -
  have inj: "(word_of_nat j :: u32) = word_of_nat k \<longleftrightarrow> j = k" if "j < length ws" "k < length ws" for j k
    using that assms(2) by (simp add: word_of_nat_eq_iff take_bit_nat_eq_self)
  have "qeval (\<lambda>t. (word_of_nat k :: u32) \<in> {word_of_nat j | j. j < length ws \<and> be24 (bytes_of t) \<in> set (file_trigrams (ws ! j))}) q
      = qeval (\<lambda>t. sublist t (string_of_bytes (ws ! k))) q" if k: "k < length ws" for k
    using inj[OF k] k trigram_in_text by (intro qeval_trigrams_cong[OF assms(1)]) auto
  then show ?thesis unfolding sat_def by auto
qed

text \<open>An answer without a filter has only documents of the shard.\<close>

lemma answerable_docs:
  "answerable q \<Longrightarrow> tris3 q \<Longrightarrow> (\<And>t. D t \<subseteq> U) \<Longrightarrow> sat D q \<subseteq> U"
proof (induction q)
  case (Query op ts ss)
  then have IH: "s \<in> set ss \<Longrightarrow> answerable s \<Longrightarrow> sat D s \<subseteq> U" for s by (auto simp: list_all_iff)
  show ?case
  proof (cases op)
    case QAnd
    then show ?thesis using Query.prems(1,3) IH
      by (cases ts; cases ss) (auto simp: sat_simps tri_docs_def)
  next
    case QOr
    then show ?thesis using Query.prems(1,3) IH by (auto simp: sat_simps tri_docs_def list_all_iff)
  qed (use Query.prems in \<open>simp_all add: sat_simps\<close>)
qed

text \<open>C3. Indexing a commit and asking its shard: when the files can be read and no document is too long for its
  32-bit length, \<^verbatim>\<open>indexRepo\<close> succeeds, leaving out the files that are too big, no text or no files; the shard
  lists the names of the others in order and its ranges give back their contents; and a query that does not
  need the set of all documents is answered, without a panic, with exactly the documents that satisfy it.\<close>

theorem commit_is_searchable:
  fixes elems :: "'b \<Rightarrow> u32 set"
  assumes "roaring_ok R elems" and "length fs \<le> 2 ^ 32"
    and "\<forall>f \<in> set fs. readable f \<and> (accepted f \<longrightarrow> length (enc (file_content f)) < 2 ^ 31)"
  shows "\<exists>iw s iw'. indexRepo R enc sha fs = Some (None, iw) \<and> ToShard R iw = Some (s, iw')
    \<and> map dc_path (is_docs s) = map of_Name (filter accepted fs)
    \<and> (\<forall>k < length (filter accepted fs).
         doc_bytes (shard_raw s iw') (is_docs s ! k) = enc (file_content (filter accepted fs ! k)))
    \<and> (\<forall>q. tris3 q \<and> answerable q \<longrightarrow>
         (\<exists>b. PostingQuery2 R (is_lists s) q None = Some (Some b)
            \<and> elems b = {word_of_nat k | k. k < length (filter accepted fs)
                 \<and> qeval (\<lambda>t. sublist t (string_of_bytes (file_data (filter accepted fs ! k)))) q}))"
proof -
  define gs where "gs = filter accepted fs"
  define D where "D = (\<lambda>t. {word_of_nat k :: u32 | k. k < length gs \<and> t \<in> set (file_trigrams (file_data (gs ! k)))})"
  obtain iw where iw: "indexRepo R enc sha fs = Some (None, iw)" "holds_files elems enc sha gs iw"
    using index_files_spec[OF assms(1) holds_files_empty assms(3)] by (auto simp: indexRepo_def gs_def)
  obtain s iw' where s: "ToShard R iw = Some (s, iw')" "map dc_path (is_docs s) = map of_Name gs"
    "\<forall>k < length gs. doc_bytes (shard_raw s iw') (is_docs s ! k) = enc (file_content (gs ! k))"
    "serves R elems (is_lists s) D" using ToShard_spec[OF assms(1) iw(2)] unfolding D_def by blast
  have len: "length (map file_data gs) \<le> 2 ^ 32" using le_trans[OF length_filter_le assms(2)] by (simp add: gs_def)
  have sat: "sat D q = {word_of_nat k | k. k < length gs \<and> qeval (\<lambda>t. sublist t (string_of_bytes (file_data (gs ! k)))) q}"
    if "tris3 q" "answerable q" for q
  proof -
    have D: "D = (\<lambda>t. {word_of_nat k | k. k < length (map file_data gs) \<and> t \<in> set (file_trigrams (map file_data gs ! k))})"
      unfolding D_def by (simp cong: conj_cong)
    have "sat D q \<subseteq> {word_of_nat k | k. k < length (map file_data gs)}"
      by (rule answerable_docs[OF that(2,1)]) (auto simp: D_def)
    then have "sat D q = {word_of_nat k | k. k < length (map file_data gs) \<and> qeval (\<lambda>t. sublist t (string_of_bytes (map file_data gs ! k))) q}"
      using sat_docs[OF that(1) len] unfolding D by (simp add: inf.absorb1)
    then show ?thesis by (simp cong: conj_cong)
  qed
  have "\<exists>b. PostingQuery2 R (is_lists s) q None = Some (Some b) \<and> elems b = sat D q" if "tris3 q" "answerable q" for q
    using exactD[OF queries_exact[OF assms(1) s(4) that(1)], of None] that(2) by auto
  with iw(1) s(1-3) sat show ?thesis unfolding gs_def by auto
qed

subsection \<open>An instance\<close>

fun be32_list :: "byte list \<Rightarrow> u32 list" where
  "be32_list (a # b # c # d # r) = be32 [a, b, c, d] # be32_list r"
| "be32_list _ = []"

definition list_bitmaps :: "u32 list bitmap_ops" where
  "list_bitmaps = \<lparr>bm_New = [], bm_Add = (#), bm_And = (\<lambda>a b. filter (\<lambda>x. x \<in> set b) a), bm_Or = (@),
     bm_AndNot = (\<lambda>a b. filter (\<lambda>x. x \<notin> set b) a),
     bm_Xor = (\<lambda>a b. filter (\<lambda>x. x \<notin> set b) a @ filter (\<lambda>x. x \<notin> set a) b),
     bm_IsEmpty = (\<lambda>b. b = []), bm_ToArray = (\<lambda>b. sort (remdups b)),
     bm_ToBytes = (\<lambda>b. Some (concat (map uint32_bytes b))), bm_FromBuffer = (\<lambda>bs. Some (be32_list bs))\<rparr>"

lemma be32_list_bytes: "be32_list (concat (map uint32_bytes b)) = b"
proof (induction b)
  case (Cons x b)
  have "be32 (uint32_bytes x) = x" using be32_uint32_bytes[of x "[]"] by simp
  then show ?case using Cons by (simp add: uint32_bytes_def)
qed simp

lemma list_bitmaps_ok: "roaring_ok list_bitmaps set"
  by (auto simp: roaring_ok_def list_bitmaps_def be32_list_bytes strict_sorted_iff)

definition readme :: object_File where
  "readme = \<lparr>of_Name = ''README'', of_Mode = ModeRegular, of_Size = 6, of_Hash = ZeroHash,
     of_Reader = Some (bytes_of ''hello '', False)\<rparr>"

definition blob :: object_File where
  "blob = \<lparr>of_Name = ''blob'', of_Mode = ModeExecutable, of_Size = 1, of_Hash = ZeroHash, of_Reader = Some (bytes_of [CHR 0xFF], False)\<rparr>"

lemma text2_one_line:
  assumes "d \<noteq> []" "length d < 2 ^ 16" "10 \<notin> set d"
  shows "text2 d \<longleftrightarrow> utf8_Valid (string_of_bytes d)"
proof -
  have nl: "nl_index (take n d) = None" for n using assms(3) by (auto simp: nl_index_def dest: in_set_takeD)
  have "nl_index d = None" using nl[of "length d"] by simp
  then have "scan_token d = Token d []"
    using nl[of maxTokenSize] assms(1,2) by (simp add: scan_token_def scanLines_def maxTokenSize_def)
  moreover have "cut_lines [] = Some []"
    by (simp add: cut_lines.simps scan_token_def scanLines_def nl_index_def maxTokenSize_def)
  ultimately show ?thesis by (simp add: text2_def cut_lines.simps[of d] string_of_bytes_def)
qed

lemma text2_string: "s \<noteq> [] \<Longrightarrow> length s < 2 ^ 16 \<Longrightarrow> 10 \<notin> set (bytes_of s) \<Longrightarrow> text2 (bytes_of s) \<longleftrightarrow> utf8_Valid s"
  using text2_one_line[of "bytes_of s", unfolded string_bytes_roundtrip length_bytes_of] by (simp add: bytes_of_def)

lemma utf8_Valid_ascii: "of_char c < (0x80 :: int) \<Longrightarrow> utf8_Valid (c # s) = utf8_Valid s"
  by (simp add: utf8_Valid.simps[of "c # s"] decode_rune_def)

lemma readme_accepted: "accepted readme"
proof -
  have "utf8_Valid ''hello ''" by (simp add: utf8_Valid_ascii utf8_Valid.simps[of "[]"])
  then have "text2 (bytes_of ''hello '')" by (subst text2_string) (simp_all add: bytes_of_def byte_of_def)
  then show ?thesis by (simp add: accepted_def readme_def file_data_def maxDocSize_def)
qed

lemma blob_rejected: "\<not> accepted blob"
proof -
  have "\<not> utf8_Valid [CHR 0xFF]" by (simp add: utf8_Valid.simps[of "[CHR 0xFF]"] decode_rune_def)
  then have "\<not> text2 (bytes_of [CHR 0xFF])" by (subst text2_string) (simp_all add: bytes_of_def byte_of_def)
  then show ?thesis by (simp add: accepted_def blob_def file_data_def)
qed

theorem commit_is_searchable_witness:
  "\<exists>iw s iw'. indexRepo list_bitmaps di_data id [blob, readme] = Some (None, iw) \<and> ToShard list_bitmaps iw = Some (s, iw')
    \<and> map dc_path (is_docs s) = [''README''] \<and> doc_bytes (shard_raw s iw') (is_docs s ! 0) = bytes_of ''hello ''
    \<and> (\<exists>b. PostingQuery2 list_bitmaps (is_lists s) (Query QAnd [''ell'', ''llo''] []) None = Some (Some b) \<and> set b = {0})
    \<and> (\<exists>b. PostingQuery2 list_bitmaps (is_lists s) (Query QOr [''elo''] []) None = Some (Some b) \<and> set b = {})"
proof -
  have fs: "filter accepted [blob, readme] = [readme]" by (simp add: readme_accepted blob_rejected)
  have data: "file_data readme = bytes_of ''hello ''" by (simp add: file_data_def readme_def)
  have ok: "\<forall>f \<in> set [blob, readme]. readable f \<and> (accepted f \<longrightarrow> length (di_data (file_content f)) < 2 ^ 31)"
    using blob_rejected by (simp add: readable_def readme_def blob_def file_content_def content_def file_data_def)
  have "sublist ''ell'' ''hello ''" "sublist ''llo'' ''hello ''" "\<not> sublist ''elo'' ''hello ''" by (simp_all add: sublist_code)
  then have sub: "sublist ''ell'' (string_of_bytes (file_data readme))" "sublist ''llo'' (string_of_bytes (file_data readme))"
    "\<not> sublist ''elo'' (string_of_bytes (file_data readme))" by (simp_all add: data)
  have len: "length [blob, readme] \<le> 2 ^ 32" by simp
  obtain iw s iw' where s: "indexRepo list_bitmaps di_data id [blob, readme] = Some (None, iw)" "ToShard list_bitmaps iw = Some (s, iw')"
    "map dc_path (is_docs s) = map of_Name [readme]" "doc_bytes (shard_raw s iw') (is_docs s ! 0) = di_data (file_content readme)"
    and q: "\<And>q. tris3 q \<Longrightarrow> answerable q \<Longrightarrow> \<exists>b. PostingQuery2 list_bitmaps (is_lists s) q None = Some (Some b)
         \<and> set b = {word_of_nat k | k. k < length [readme] \<and> qeval (\<lambda>t. sublist t (string_of_bytes (file_data ([readme] ! k)))) q}"
    using commit_is_searchable[OF list_bitmaps_ok len ok, of id] unfolding fs by auto
  have "\<exists>b. PostingQuery2 list_bitmaps (is_lists s) (Query QAnd [''ell'', ''llo''] []) None = Some (Some b) \<and> set b = {0}"
    "\<exists>b. PostingQuery2 list_bitmaps (is_lists s) (Query QOr [''elo''] []) None = Some (Some b) \<and> set b = {}"
    using q[of "Query QAnd [''ell'', ''llo''] []"] q[of "Query QOr [''elo''] []"] sub by auto
  moreover have "di_data (file_content readme) = bytes_of ''hello ''" by (simp add: file_content_def content_def data)
  ultimately show ?thesis using s by (simp add: readme_def)
qed

end
