(* ===== verification/Search_Correct.thy ===== *)
theory Search_Correct
  imports Search_Server Git_Index
begin

text \<open>
  The search handler is right on shards that hold the contents of their documents: the documents that pass
  the filters are found exactly. Composed with the indexer, this says what a search of a commit returns.
\<close>

subsection \<open>Filters that look at documents\<close>

text \<open>On the documents \<open>U\<close> the filter decides \<open>Q\<close> and leaves the loader alone.\<close>

definition decides :: "(u32 \<Rightarrow> requestLoader \<Rightarrow> bool request_run) \<Rightarrow> u32 set \<Rightarrow> (u32 \<Rightarrow> bool) \<Rightarrow> bool" where
  "decides k U Q \<longleftrightarrow> (\<forall>n \<in> U. \<forall>r. k n r = Some (Inr (Q n), r))"

lemma elems_AddMany: "roaring_ok R elems \<Longrightarrow> elems (AddMany R ns b) = elems b \<union> set ns"
  unfolding AddMany_def by (induction ns arbitrary: b) (auto simp: roaring_simps)

lemma keep_block_spec: "decides k U Q \<Longrightarrow> set ns \<subseteq> U \<Longrightarrow> keep_block k kept ns r = Some (Inr (kept @ filter Q ns), r)"
  by (induction ns arbitrary: kept) (auto simp: decides_def)

lemma filter_blocks_spec:
  assumes R: "roaring_ok R elems" and k: "decides k U Q"
  shows "set ns \<subseteq> U \<Longrightarrow> \<exists>b. filter_blocks R k ns ret r = Some (Inr b, r) \<and> elems b = elems ret \<union> {n \<in> set ns. Q n}"
proof (induction ns arbitrary: ret rule: length_induct)
  case (1 ns)
  show ?case
  proof (cases "ns = []")
    case True
    then show ?thesis by (simp add: filter_blocks.simps)
  next
    case False
    have sub: "set (take 256 ns) \<subseteq> U" "set (drop 256 ns) \<subseteq> U" using 1(2) by (auto dest: in_set_takeD in_set_dropD)
    have "filter_blocks R k ns ret r = filter_blocks R k (drop 256 ns) (AddMany R (filter Q (take 256 ns)) ret) r"
      using False keep_block_spec[OF k sub(1)] by (simp add: filter_blocks.simps[of R k ns])
    moreover obtain b where "filter_blocks R k (drop 256 ns) (AddMany R (filter Q (take 256 ns)) ret) r = Some (Inr b, r)"
      "elems b = elems (AddMany R (filter Q (take 256 ns)) ret) \<union> {n \<in> set (drop 256 ns). Q n}"
      using 1(1)[rule_format, OF _ sub(2), of "AddMany R (filter Q (take 256 ns)) ret"] False by auto
    moreover have "set ns = set (take 256 ns) \<union> set (drop 256 ns)" by (metis append_take_drop_id set_append)
    ultimately show ?thesis by (auto simp: elems_AddMany[OF R])
  qed
qed

lemma scanAll_spec:
  assumes R: "roaring_ok R elems" and k: "decides k U Q"
  shows "set ns \<subseteq> U \<Longrightarrow>
    \<exists>b. scanAll R k ns block ret r = Some (Inr b, r) \<and> elems b = elems ret \<union> set block \<union> {n \<in> set ns. Q n}"
proof (induction ns arbitrary: block ret)
  case Nil
  then show ?case by (simp add: elems_AddMany[OF R])
next
  case (Cons n ns)
  have "k n r = Some (Inr (Q n), r)" using k Cons.prems by (simp add: decides_def)
  moreover have "\<exists>b. scanAll R k ns block' ret' r = Some (Inr b, r) \<and> elems b = elems ret' \<union> set block' \<union> {n \<in> set ns. Q n}" for block' ret'
    using Cons by simp
  ultimately show ?case
    by (cases "Q n") (fastforce simp: elems_AddMany[OF R])+
qed

subsection \<open>The shard and its documents\<close>

text \<open>A document: its path, its encoded contents and their value.\<close>

type_synonym doc3 = "string \<times> byte list \<times> docInnerW"

abbreviation "d_path d \<equiv> fst (d :: doc3)"
abbreviation "d_bytes d \<equiv> fst (snd (d :: doc3))"
abbreviation "d_inner d \<equiv> snd (snd (d :: doc3))"

definition doc_ids :: "doc3 list \<Rightarrow> u32 set" where
  "doc_ids ds = {word_of_nat k | k. k < length ds}"

definition tri_map :: "doc3 list \<Rightarrow> u32 \<Rightarrow> u32 set" where
  "tri_map ds t = {word_of_nat k | k. k < length ds \<and> t \<in> set (file_trigrams (di_data (d_inner (ds ! k))))}"

definition shard_holds :: "'b bitmap_ops \<Rightarrow> ('b \<Rightarrow> u32 set) \<Rightarrow> search_env \<Rightarrow> IndexShard \<Rightarrow> doc3 list \<Rightarrow> bool" where
  "shard_holds R elems E shard ds \<longleftrightarrow> length ds \<le> 2 ^ 32 \<and> map dc_path (is_docs shard) = map fst ds
    \<and> serves R elems (is_lists shard) (tri_map ds)
    \<and> (\<exists>rb. is_raw shard = Some rb \<and> (\<forall>k < length ds.
         slice_range rb (dc_start (is_docs shard ! k)) (dc_length (is_docs shard ! k)) = Some (d_bytes (ds ! k))))
    \<and> (\<forall>k < length ds. se_inner E (d_bytes (ds ! k)) = d_inner (ds ! k))"

text \<open>Whether a document passes a filter.\<close>

fun passes :: "filterer \<Rightarrow> doc3 \<Rightarrow> bool" where
  "passes (queryFilterer q) d = qeval (\<lambda>t. sublist t (string_of_bytes (di_data (d_inner d)))) q"
| "passes (fileFilterer pfx re m) d = (re_Match re (bytes_of (pfx @ d_path d)) = m)"
| "passes (contentFilterer name res m) d = (\<forall>re \<in> set res. re_Match re (d_bytes d) = m)"

fun good_filter :: "filterer \<Rightarrow> bool" where
  "good_filter (queryFilterer q) = (tris3 q \<and> (answerable q \<or> q_op q = QAll))"
| "good_filter _ = True"

definition doc_at :: "doc3 list \<Rightarrow> u32 \<Rightarrow> doc3" where
  "doc_at ds n = ds ! unat n"

text \<open>What a universe stands for.\<close>

definition universe_docs :: "('b \<Rightarrow> u32 set) \<Rightarrow> doc3 list \<Rightarrow> 'b option \<Rightarrow> u32 set" where
  "universe_docs elems ds u = (case u of None \<Rightarrow> doc_ids ds | Some b \<Rightarrow> elems b)"

lemma unat_doc_id: "length ds \<le> 2 ^ 32 \<Longrightarrow> k < length ds \<Longrightarrow> unat (word_of_nat k :: u32) = k"
  by (simp add: unat_of_nat take_bit_nat_eq_self)

lemma all_match_iff: "all_match res m b \<longleftrightarrow> (\<forall>re \<in> set res. re_Match re b = m)"
  by (induction res) auto

lemma shard_Docs:
  assumes "shard_holds R elems E shard ds" and "k < length ds"
  shows "Docs shard k = Some (is_docs shard ! k)" "dc_path (is_docs shard ! k) = d_path (ds ! k)"
    "docInnerBytes E shard name (is_docs shard ! k) r = Some (Inr (d_bytes (ds ! k)), r)" "se_inner E (d_bytes (ds ! k)) = d_inner (ds ! k)"
proof -
  have names: "map dc_path (is_docs shard) = map fst ds" using assms(1) by (simp add: shard_holds_def)
  then have len: "length (is_docs shard) = length ds" by (metis length_map)
  show "Docs shard k = Some (is_docs shard ! k)" using assms(2) len by (simp add: Docs_def)
  show "dc_path (is_docs shard ! k) = d_path (ds ! k)" using names assms(2) len by (metis nth_map)
  show "docInnerBytes E shard name (is_docs shard ! k) r = Some (Inr (d_bytes (ds ! k)), r)"
    "se_inner E (d_bytes (ds ! k)) = d_inner (ds ! k)"
    using assms by (auto simp: shard_holds_def docInnerBytes_def)
qed

lemma keeps_decides:
  assumes s: "shard_holds R elems E shard ds" and f: "\<forall>q. f \<noteq> queryFilterer q"
  shows "decides (keeps E shard f) (doc_ids ds) (\<lambda>n. passes f (doc_at ds n))"
proof -
  have "keeps E shard f (word_of_nat k) r = Some (Inr (passes f (ds ! k)), r)" if k: "k < length ds" for k r
    using s k shard_Docs[OF s k] unat_doc_id[of ds k] f
    by (cases f) (simp_all add: shard_holds_def scan_doc_def all_match_iff)
  then show ?thesis using s by (auto simp: decides_def doc_ids_def doc_at_def unat_doc_id shard_holds_def)
qed

lemma sat_doc_ids:
  assumes "tris3 q" and "length ds \<le> 2 ^ 32" and "n \<in> doc_ids ds"
  shows "n \<in> sat (tri_map ds) q \<longleftrightarrow> passes (queryFilterer q) (doc_at ds n)"
proof -
  define ws where "ws = map (\<lambda>d. di_data (d_inner d)) ds"
  have D: "tri_map ds = (\<lambda>t. {word_of_nat k | k. k < length ws \<and> t \<in> set (file_trigrams (ws ! k))})"
    unfolding tri_map_def[abs_def] ws_def by (simp cong: conj_cong)
  obtain k where k: "k < length ds" "n = word_of_nat k" using assms(3) by (auto simp: doc_ids_def)
  have un: "unat (word_of_nat j :: u32) = j" if "j < length ds" for j using unat_doc_id[OF assms(2) that] .
  have "n \<in> sat (tri_map ds) q \<longleftrightarrow> n \<in> {word_of_nat k | k. k < length ws \<and> qeval (\<lambda>t. sublist t (string_of_bytes (ws ! k))) q}"
    using sat_docs[OF assms(1), of ws] assms(2) k unfolding D ws_def by auto
  also have "\<dots> \<longleftrightarrow> qeval (\<lambda>t. sublist t (string_of_bytes (ws ! k))) q"
    using k un by (auto simp: ws_def) (metis un)
  finally show ?thesis using k un by (simp add: doc_at_def ws_def)
qed

lemma query_filter:
  assumes R: "roaring_ok R elems" and s: "shard_holds R elems E shard ds" and q: "tris3 q" "answerable q \<or> q_op q = QAll"
    and u: "universe_docs elems ds u \<subseteq> doc_ids ds"
  shows "\<exists>v. PostingQuery2 R (is_lists shard) q u = Some v
    \<and> universe_docs elems ds v = universe_docs elems ds u \<inter> sat (tri_map ds) q \<and> (v = None \<longrightarrow> u = None)"
proof -
  have serves: "serves R elems (is_lists shard) (tri_map ds)" using s by (simp add: shard_holds_def)
  show ?thesis
  proof (cases "u = None \<and> q_op q = QAll")
    case True
    then show ?thesis by (cases q) (simp add: sat_simps)
  next
    case False
    then have "u = None \<Longrightarrow> answerable q" using q(2) by blast
    from exactD[OF queries_exact[OF R serves q(1)] this] obtain b where
      b: "PostingQuery2 R (is_lists shard) q u = Some (Some b)" "elems b = left_by elems u \<inter> sat (tri_map ds) q" by blast
    have "sat (tri_map ds) q \<subseteq> doc_ids ds" if "u = None"
      using that False q by (intro answerable_docs) (auto simp: tri_map_def doc_ids_def)
    then show ?thesis using b by (cases u) (auto simp: universe_docs_def)
  qed
qed

lemma Filter_spec:
  assumes R: "roaring_ok R elems" and s: "shard_holds R elems E shard ds" and f: "good_filter f"
    and u: "universe_docs elems ds u \<subseteq> doc_ids ds"
  shows "\<exists>v. Filter R E shard f u r = Some (Inr v, r) \<and> universe_docs elems ds v = {n \<in> universe_docs elems ds u. passes f (doc_at ds n)}
    \<and> (v = None \<longrightarrow> u = None \<and> (\<exists>q. f = queryFilterer q))"
proof (cases "\<exists>q. f = queryFilterer q")
  case True
  then obtain q where q: "f = queryFilterer q" by blast
  then have good: "tris3 q" "answerable q \<or> q_op q = QAll" using f by simp_all
  obtain v where v: "PostingQuery2 R (is_lists shard) q u = Some v"
    "universe_docs elems ds v = universe_docs elems ds u \<inter> sat (tri_map ds) q" "v = None \<longrightarrow> u = None"
    using query_filter[OF R s good u] by blast
  have "length ds \<le> 2 ^ 32" using s by (simp add: shard_holds_def)
  then have "universe_docs elems ds v = {n \<in> universe_docs elems ds u. passes f (doc_at ds n)}"
    using v(2) u sat_doc_ids[OF good(1)] unfolding q by blast
  then show ?thesis using v(1,3) q by simp
next
  case False
  define k where "k = keeps E shard f"
  have k: "decides k (doc_ids ds) (\<lambda>n. passes f (doc_at ds n))" unfolding k_def using keeps_decides[OF s] False by blast
  have len: "length (is_docs shard) = length ds" using s unfolding shard_holds_def by (metis length_map)
  have all: "set (map word_of_nat [0..<length (is_docs shard)]) = doc_ids ds" by (auto simp: doc_ids_def len)
  have "\<exists>b. filter_docs R E shard f u r = Some (Inr b, r) \<and> elems b = {n \<in> universe_docs elems ds u. passes f (doc_at ds n)}"
  proof (cases u)
    case None
    then show ?thesis using scanAll_spec[OF R k, of "map word_of_nat [0..<length (is_docs shard)]" "[]" "bm_New R" r] all
      by (simp add: filter_docs_def universe_docs_def k_def roaring_simps(1)[OF R])
  next
    case (Some b)
    then show ?thesis using filter_blocks_spec[OF R k, of "bm_ToArray R b" "bm_New R" r] u
      by (simp add: filter_docs_def universe_docs_def k_def roaring_simps(1,8)[OF R])
  qed
  then show ?thesis using False by (cases f) (auto simp: universe_docs_def)
qed

lemma run_filters_spec:
  assumes R: "roaring_ok R elems" and s: "shard_holds R elems E shard ds"
  shows "\<forall>f \<in> set fs. good_filter f \<Longrightarrow> universe_docs elems ds u \<subseteq> doc_ids ds \<Longrightarrow>
    \<exists>v. run_filters R E shard fs u r = Some (Inr v, r)
      \<and> universe_docs elems ds v = {n \<in> universe_docs elems ds u. \<forall>f \<in> set fs. passes f (doc_at ds n)}
      \<and> (v = None \<longrightarrow> u = None \<and> (\<forall>f \<in> set fs. \<exists>q. f = queryFilterer q))"
proof (induction fs arbitrary: u)
  case (Cons f fs)
  obtain v where v: "Filter R E shard f u r = Some (Inr v, r)"
    "universe_docs elems ds v = {n \<in> universe_docs elems ds u. passes f (doc_at ds n)}"
    "v = None \<longrightarrow> u = None \<and> (\<exists>q. f = queryFilterer q)"
    using Filter_spec[OF R s _ Cons.prems(2), of f r] Cons.prems(1) by auto
  then have "universe_docs elems ds v \<subseteq> doc_ids ds" using Cons.prems(2) by blast
  from Cons.IH[OF _ this] Cons.prems(1) obtain w where "run_filters R E shard fs v r = Some (Inr w, r)"
    "universe_docs elems ds w = {n \<in> universe_docs elems ds v. \<forall>f \<in> set fs. passes f (doc_at ds n)}"
    "w = None \<longrightarrow> v = None \<and> (\<forall>f \<in> set fs. \<exists>q. f = queryFilterer q)" by auto
  then show ?case using v by auto
qed simp

subsection \<open>Snippets\<close>

text \<open>A regular expression whose matches are in range and not empty.\<close>

definition proper :: "regex \<Rightarrow> bool" where
  "proper re \<longleftrightarrow> (\<forall>b p q. re_FindIndex re b = Some (p, q) \<longrightarrow> p < q \<and> q \<le> length b)"

lemma find_matches_spec:
  assumes "proper re"
  shows "n \<le> length b \<Longrightarrow> \<exists>ms. find_matches re b n = Some ms \<and> (\<forall>(p, q) \<in> set ms. p < q \<and> q \<le> length b)
    \<and> (ms = [] \<longleftrightarrow> re_FindIndex re (drop n b) = None)"
proof (induction "length b - n" arbitrary: n rule: less_induct)
  case less
  show ?case
  proof (cases "re_FindIndex re (drop n b)")
    case None
    then show ?thesis using less.prems by (simp add: find_matches.simps[of re b n])
  next
    case (Some m)
    then obtain p q where m: "re_FindIndex re (drop n b) = Some (p, q)" "p < q" "q \<le> length b - n"
      using assms by (cases m) (auto simp: proper_def dest: spec[of _ "drop n b"])
    then have "length b - (q + n) < length b - n" "q + n \<le> length b" using less.prems by auto
    then obtain ms where "find_matches re b (q + n) = Some ms" "\<forall>(p, q) \<in> set ms. p < q \<and> q \<le> length b"
      using less.hyps[of "q + n"] by blast
    then show ?thesis using m less.prems by (auto simp: find_matches.simps[of re b n])
  qed
qed

lemma count_multiples: "length (filter (\<lambda>i. 4096 dvd i) [1..<Suc n]) = n div 4096" for n :: nat
  by (induction n) (auto simp: div_Suc dvd_eq_mod_eq_0)

lemma length_block_lines: "length (block_lines d) = length d div 2 ^ 12"
proof -
  have "(i AND 0xFFF = 0) = (4096 dvd i)" for i :: nat
    using take_bit_eq_mask[of 12 i] by (simp add: mask_eq_exp_minus_1 take_bit_eq_mod dvd_eq_mod_eq_0)
  then have "block_lines d = map (\<lambda>i. word_of_nat (line_at d (i - 1))) (filter (\<lambda>i. 4096 dvd i) [1..<Suc (length d)])"
    by (simp only: block_lines_def)
  then show ?thesis by (simp only: length_map count_multiples) simp
qed

definition entry_of :: "regex \<Rightarrow> doc3 list \<Rightarrow> nat \<Rightarrow> service_Doc" where
  "entry_of re ds k = \<lparr>sd_Id = word_of_nat k, sd_Path = d_path (ds ! k),
     sd_Snippets = the (buildSnippets (d_inner (ds ! k)) (the (find_matches re (di_data (d_inner (ds ! k))) 0)))\<rparr>"

definition has_snippet :: "regex \<Rightarrow> doc3 \<Rightarrow> bool" where
  "has_snippet re d \<longleftrightarrow> re_FindIndex re (di_data (d_inner d)) \<noteq> None"

definition blocks_ok :: "docInnerW \<Rightarrow> bool" where
  "blocks_ok c \<longleftrightarrow> di_blockToLine c = block_lines (di_data c)"

lemma buildSnippets_total:
  assumes "blocks_ok c" and "\<forall>(p, q) \<in> set ms. p < q \<and> q \<le> length (di_data c)"
  shows "buildSnippets c ms \<noteq> None"
  using assms(2)
proof (induction ms)
  case (Cons m ms)
  obtain p q where m: "m = (p, q)" "p < q" "q \<le> length (di_data c)" using Cons.prems by (cases m) auto
  have "p div 2 ^ 12 \<le> length (di_data c) div 2 ^ 12" using m by (intro div_le_mono) simp
  then have "p div 2 ^ 12 \<noteq> 0 \<Longrightarrow> p div 2 ^ 12 - 1 < length (di_blockToLine c)"
    using assms(1) by (simp add: blocks_ok_def length_block_lines)
  then have "\<exists>s. buildSnippet c m = Some s" using m by (auto simp: buildSnippet_def BlockToLine_def Let_def)
  then show ?case using Cons by auto
qed simp

lemma inspect_spec:
  assumes s: "shard_holds R elems E shard ds" and re: "proper re" and blocks: "\<forall>d \<in> set ds. blocks_ok (d_inner d)"
  shows "\<forall>k \<in> set ks. k < length ds \<Longrightarrow> length (rs_Docs resp) < 100 \<Longrightarrow>
    \<exists>resp'. inspect E shard name re (map word_of_nat ks) resp r = Some (resp', r)
      \<and> rs_Docs resp' = rs_Docs resp @ map (entry_of re ds) (take (100 - length (rs_Docs resp)) (filter (\<lambda>k. has_snippet re (ds ! k)) ks))
      \<and> (length (rs_Docs resp) + length (filter (\<lambda>k. has_snippet re (ds ! k)) ks) < 100 \<longrightarrow>
           rs_Matches resp' = rs_Matches resp - word_of_nat (length (filter (\<lambda>k. \<not> has_snippet re (ds ! k)) ks))
           \<and> rs_DocsInspected resp' = rs_DocsInspected resp + word_of_nat (length ks))"
proof (induction ks arbitrary: resp)
  case Nil
  then show ?case by simp
next
  case (Cons k ks)
  have k: "k < length ds" using Cons.prems(1) by simp
  have len: "length ds \<le> 2 ^ 32" using s by (simp add: shard_holds_def)
  define resp1 where "resp1 = resp\<lparr>rs_DocsInspected := rs_DocsInspected resp + 1\<rparr>"
  define c where "c = d_inner (ds ! k)"
  obtain ms where ms: "find_matches re (di_data c) 0 = Some ms" "\<forall>(p, q) \<in> set ms. p < q \<and> q \<le> length (di_data c)"
    "ms = [] \<longleftrightarrow> \<not> has_snippet re (ds ! k)"
    using find_matches_spec[OF re, of 0 "di_data c"] by (auto simp: has_snippet_def c_def)
  obtain sn where sn: "buildSnippets c ms = Some sn"
    using buildSnippets_total[OF _ ms(2)] blocks k by (auto simp: c_def)
  show ?case
  proof (cases "has_snippet re (ds ! k)")
    case False
    have "inspect E shard name re (map word_of_nat (k # ks)) resp r
        = inspect E shard name re (map word_of_nat ks) (resp1\<lparr>rs_Matches := rs_Matches resp1 - 1\<rparr>) r"
      using ms False by (simp add: shard_Docs[OF s k] unat_doc_id[OF len k] c_def resp1_def Let_def)
    then show ?thesis using Cons.IH[of "resp1\<lparr>rs_Matches := rs_Matches resp1 - 1\<rparr>"] Cons.prems False
      by (auto simp: resp1_def algebra_simps)
  next
    case True
    define resp2 where "resp2 = resp1\<lparr>rs_Docs := rs_Docs resp1 @ [entry_of re ds k]\<rparr>"
    have run: "inspect E shard name re (map word_of_nat (k # ks)) resp r
        = (if length (rs_Docs resp2) < 100 then inspect E shard name re (map word_of_nat ks) resp2 r else Some (resp2, r))"
      using ms(1,3) sn True
      by (simp add: shard_Docs[OF s k] unat_doc_id[OF len k] c_def resp1_def resp2_def entry_of_def Let_def)
    show ?thesis
    proof (cases "length (rs_Docs resp2) < 100")
      case full: False
      then have "100 - length (rs_Docs resp) = 1" using Cons.prems(2) by (simp add: resp2_def resp1_def)
      then show ?thesis using run full True by (auto simp: resp2_def resp1_def)
    next
      case room: True
      then have "100 - length (rs_Docs resp) = Suc (100 - length (rs_Docs resp2))" by (simp add: resp2_def resp1_def)
      then show ?thesis using Cons.IH[of resp2] Cons.prems(1) run room True
        by (auto simp: resp2_def resp1_def algebra_simps)
    qed
  qed
qed

end
