(* ===== verification/Search_Commit.thy ===== *)
theory Search_Commit
  imports Search_Correct
begin

text \<open>
  What a search of a commit returns: the expression is turned into filters, the filters find the documents,
  and the documents are those of the shard that the indexer made.
\<close>

subsection \<open>The parts of an expression\<close>

definition part_re :: "search_env \<Rightarrow> ExpressionPart \<Rightarrow> regex" where
  "part_re E p = the (se_Compile E (ep_expression p))"

definition part_syn :: "search_env \<Rightarrow> ExpressionPart \<Rightarrow> regexp" where
  "part_syn E p = the (se_Parse E (ep_expression p))"

definition part_query :: "search_env \<Rightarrow> ExpressionPart \<Rightarrow> query" where
  "part_query E p = the (RegexpQuery (se_room E) (se_fold E) (part_syn E p))"

text \<open>Parts that the handler accepts and whose queries it can answer.\<close>

definition good_content :: "search_env \<Rightarrow> ExpressionPart \<Rightarrow> bool" where
  "good_content E p \<longleftrightarrow> \<not> ep_negated p \<and> se_Compile E (ep_expression p) \<noteq> None \<and> se_Parse E (ep_expression p) \<noteq> None
    \<and> RegexpQuery (se_room E) (se_fold E) (part_syn E p) \<noteq> None
    \<and> good_filter (queryFilterer (part_query E p))"

definition good_part :: "search_env \<Rightarrow> ExpressionPart \<Rightarrow> bool" where
  "good_part E p \<longleftrightarrow> (case ep_code p of LANGUAGE \<Rightarrow> False | FILE \<Rightarrow> se_Compile E (ep_expression p) \<noteq> None | _ \<Rightarrow> good_content E p)"

text \<open>What a part asks of a document.\<close>

definition part_keeps :: "search_env \<Rightarrow> string \<Rightarrow> doc3 \<Rightarrow> ExpressionPart \<Rightarrow> bool" where
  "part_keeps E pfx d p = (case ep_code p of
     FILE \<Rightarrow> re_Match (part_re E p) (bytes_of (pfx @ d_path d)) = (\<not> ep_negated p)
   | _ \<Rightarrow> qeval (\<lambda>t. sublist t (string_of_bytes (di_data (d_inner d)))) (part_query E p) \<and> re_Match (part_re E p) (d_bytes d))"

lemma content_part_good:
  "good_content E p \<Longrightarrow> content_part E (ep_expression p) = Some (Inr (part_re E p, part_syn E p, part_query E p))"
  by (auto simp: good_content_def content_part_def part_re_def part_syn_def part_query_def)

lemma snippet_parts_good:
  "\<forall>p \<in> set ps. good_content E p \<Longrightarrow> snippet_parts E ps c =
    Some (Inr \<lparr>ch_filters = ch_filters c @ map (\<lambda>p. queryFilterer (part_query E p)) ps,
      ch_exprs = ch_exprs c @ map (part_re E) ps, ch_snippets = ch_snippets c @ map (part_syn E) ps\<rparr>)"
  by (induction ps arbitrary: c) (auto simp: content_part_good, simp add: good_content_def)

lemma match_parts_good:
  "\<forall>p \<in> set ps. good_content E p \<Longrightarrow> match_parts E ps c =
    Some (Inr \<lparr>ch_filters = ch_filters c @ map (\<lambda>p. queryFilterer (part_query E p)) ps,
      ch_exprs = ch_exprs c @ map (part_re E) ps, ch_snippets = ch_snippets c\<rparr>)"
  by (induction ps arbitrary: c) (auto simp: content_part_good, simp add: good_content_def)

lemma file_parts_good:
  "\<forall>p \<in> set ps. se_Compile E (ep_expression p) \<noteq> None \<Longrightarrow> file_parts E pfx ps c =
    Inr (c\<lparr>ch_filters := ch_filters c @ map (\<lambda>p. fileFilterer pfx (part_re E p) (\<not> ep_negated p)) ps\<rparr>)"
  by (induction ps arbitrary: c) (auto simp: part_re_def)

lemma toFilterChain_good:
  assumes "\<forall>p \<in> set parts. good_part E p" and "parts \<noteq> []" and "rq_Parts req = parts"
  shows "\<exists>fs. toFilterChain E req = Some (Inr (fs, se_String E (OpAlternate (map (part_syn E) (by_code SNIPPET parts)))))
    \<and> (\<forall>f \<in> set fs. good_filter f) \<and> (\<exists>f \<in> set fs. \<forall>q. f \<noteq> queryFilterer q)
    \<and> (\<forall>d. (\<forall>f \<in> set fs. passes f d) \<longleftrightarrow> (\<forall>p \<in> set parts. part_keeps E (rq_PathPrefix req) d p))"
proof -
  define snips ms files where "snips = by_code SNIPPET parts" and "ms = by_code MATCH parts" and "files = by_code FILE parts"
  have parts: "set parts = set snips \<union> set ms \<union> set files" "by_code LANGUAGE parts = []"
    using assms(1) by (auto simp: snips_def ms_def files_def by_code_def good_part_def filter_empty_conv split: part_code.splits)
      (metis part_code.exhaust)
  have good: "\<forall>p \<in> set snips. good_content E p" "\<forall>p \<in> set ms. good_content E p"
      "\<forall>p \<in> set files. se_Compile E (ep_expression p) \<noteq> None"
    and code: "\<forall>p \<in> set snips. ep_code p = SNIPPET" "\<forall>p \<in> set ms. ep_code p = MATCH" "\<forall>p \<in> set files. ep_code p = FILE"
    using assms(1) by (auto simp: snips_def ms_def files_def by_code_def good_part_def)
  define qs where "qs = map (\<lambda>p. queryFilterer (part_query E p)) (snips @ ms)"
  define fls where "fls = map (\<lambda>p. fileFilterer (rq_PathPrefix req) (part_re E p) (\<not> ep_negated p)) files"
  define cont where "cont = contentFilterer (rq_ShardId req @ suffixSeparator @ ''raw'') (map (part_re E) (snips @ ms)) True"
  define fs where "fs = (if snips @ ms \<noteq> [] then qs @ fls @ [cont] else qs @ fls)"
  have "\<not> list_ex ep_negated ms" using good(2) by (auto simp: list_ex_iff good_content_def)
  then have "toFilterChain E req = Some (Inr (fs, se_String E (OpAlternate (map (part_syn E) snips))))"
    using snippet_parts_good[OF good(1)] match_parts_good[OF good(2)] file_parts_good[OF good(3)] parts(2)
    unfolding toFilterChain_def Let_def assms(3) snips_def[symmetric] ms_def[symmetric] files_def[symmetric]
    by (auto simp: fs_def qs_def fls_def cont_def)
  moreover have "\<forall>f \<in> set fs. good_filter f"
    using good(1,2) by (auto simp: fs_def qs_def fls_def cont_def good_content_def)
  moreover have "\<exists>f \<in> set fs. \<forall>q. f \<noteq> queryFilterer q"
  proof (cases "snips @ ms = []")
    case True
    then have "files \<noteq> []" using parts(1) assms(2) by auto
    then show ?thesis using True by (cases files) (simp_all add: fs_def fls_def)
  next
    case False
    then show ?thesis by (simp add: fs_def cont_def)
  qed
  moreover have "(\<forall>f \<in> set fs. passes f d) \<longleftrightarrow> (\<forall>p \<in> set parts. part_keeps E (rq_PathPrefix req) d p)" for d
  proof -
    have "part_keeps E (rq_PathPrefix req) d p \<longleftrightarrow> passes (queryFilterer (part_query E p)) d \<and> re_Match (part_re E p) (d_bytes d)"
      if "p \<in> set snips \<union> set ms" for p using code(1,2) that by (auto simp: part_keeps_def)
    moreover have "part_keeps E (rq_PathPrefix req) d p \<longleftrightarrow> passes (fileFilterer (rq_PathPrefix req) (part_re E p) (\<not> ep_negated p)) d"
      if "p \<in> set files" for p using code(3) that by (simp add: part_keeps_def)
    ultimately have "(\<forall>p \<in> set parts. part_keeps E (rq_PathPrefix req) d p) \<longleftrightarrow>
        (\<forall>p \<in> set snips \<union> set ms. passes (queryFilterer (part_query E p)) d) \<and> passes cont d
        \<and> (\<forall>p \<in> set files. passes (fileFilterer (rq_PathPrefix req) (part_re E p) (\<not> ep_negated p)) d)"
      unfolding parts(1) ball_Un cont_def by (simp add: ball_Un del: passes.simps(1,2)) blast
    then show ?thesis by (auto simp: fs_def qs_def fls_def cont_def simp del: passes.simps(1,2))
  qed
  ultimately show ?thesis unfolding snips_def by blast
qed

subsection \<open>The handler on a shard\<close>

lemma sorted_ids:
  assumes "length ds \<le> 2 ^ 32" and "sorted_wrt (<) ns" and "set ns = {n \<in> doc_ids ds. P (doc_at ds n)}"
  shows "ns = map word_of_nat (filter (\<lambda>k. P (ds ! k)) [0..<length ds])"
proof (rule sorted_distinct_set_unique)
  have mono: "(word_of_nat j :: u32) < word_of_nat k" if "j < k" "k < length ds" for j k
    using that assms(1) unat_doc_id[of ds] by (simp add: word_less_nat_alt)
  have "sorted_wrt (\<lambda>j k. j < k) (filter (\<lambda>k. P (ds ! k)) [0..<length ds])" by (simp add: sorted_wrt_filter)
  then have "sorted_wrt (<) (map (word_of_nat :: nat \<Rightarrow> u32) (filter (\<lambda>k. P (ds ! k)) [0..<length ds]))"
    by (simp add: sorted_wrt_map) (erule sorted_wrt_mono_rel[rotated], auto intro: mono)
  then show "sorted (map (word_of_nat :: nat \<Rightarrow> u32) (filter (\<lambda>k. P (ds ! k)) [0..<length ds]))"
    "distinct (map (word_of_nat :: nat \<Rightarrow> u32) (filter (\<lambda>k. P (ds ! k)) [0..<length ds]))"
    by (simp_all only: strict_sorted_iff)
  show "sorted ns" "distinct ns" using assms(2) by (simp_all only: strict_sorted_iff)
  show "set ns = set (map word_of_nat (filter (\<lambda>k. P (ds ! k)) [0..<length ds]))"
    using assms(1,3) by (auto simp: doc_ids_def doc_at_def unat_doc_id)
qed

definition whole :: LoadParams where
  "whole = \<lparr>lp_Start = 0, lp_Length = 0, lp_IgnoreLimit = False\<rparr>"

lemma SearchShard_spec:
  assumes R: "roaring_ok R elems" and s: "shard_holds R elems E (se_shard E v) ds" and blocks: "\<forall>d \<in> set ds. blocks_ok (d_inner d)"
    and sha: "length (rq_ShardSha256 req) = 32" and v: "se_load E (rq_ShardSha256 req) (rq_ShardId req) whole = Inr v"
    and parts: "rq_Parts req \<noteq> []" "\<forall>p \<in> set (rq_Parts req). good_part E p"
    and re: "se_Compile E (se_String E (OpAlternate (map (part_syn E) (by_code SNIPPET (rq_Parts req))))) = Some re" "proper re"
  defines "hits \<equiv> filter (\<lambda>k. \<forall>p \<in> set (rq_Parts req). part_keeps E (rq_PathPrefix req) (ds ! k) p) [0..<length ds]"
  defines "found \<equiv> filter (\<lambda>k. has_snippet re (ds ! k)) hits"
  shows "\<exists>resp. SearchShard R E req = Some (Inr resp) \<and> rs_Docs resp = map (entry_of re ds) (take 100 found)
    \<and> (length found < 100 \<longrightarrow> rs_Matches resp = word_of_nat (length found) \<and> rs_DocsInspected resp = word_of_nat (length hits))"
proof -
  define r where "r = snd (rl_Get E (rq_ShardSha256 req) (rq_ShardId req) whole \<lparr>rl_entries = [], rl_data = (\<lambda>_. None)\<rparr>)"
  have get: "rl_Get E (rq_ShardSha256 req) (rq_ShardId req) whole \<lparr>rl_entries = [], rl_data = (\<lambda>_. None)\<rparr> = (Inr v, r)"
    using v by (simp add: r_def rl_Get_def Let_def)
  obtain fs where fs: "toFilterChain E req = Some (Inr (fs, se_String E (OpAlternate (map (part_syn E) (by_code SNIPPET (rq_Parts req))))))"
    "\<forall>f \<in> set fs. good_filter f" "\<exists>f \<in> set fs. \<forall>q. f \<noteq> queryFilterer q"
    "\<forall>d. (\<forall>f \<in> set fs. passes f d) \<longleftrightarrow> (\<forall>p \<in> set (rq_Parts req). part_keeps E (rq_PathPrefix req) d p)"
    using toFilterChain_good[OF parts(2,1)] by blast
  obtain post where post: "run_filters R E (se_shard E v) fs None r = Some (Inr (Some post), r)"
    "elems post = {n \<in> doc_ids ds. \<forall>f \<in> set fs. passes f (doc_at ds n)}"
    using run_filters_spec[OF R s fs(2), of None r] fs(3) by (fastforce simp: universe_docs_def)
  have len: "length ds \<le> 2 ^ 32" using s by (simp add: shard_holds_def)
  have ids: "bm_ToArray R post = map word_of_nat hits"
    unfolding hits_def using post(2) fs(4) by (intro sorted_ids[OF len]) (simp_all add: roaring_simps(8,9)[OF R])
  have "\<forall>k \<in> set hits. k < length ds" by (simp add: hits_def)
  from inspect_spec[OF s re(2) blocks this, of "\<lparr>rs_Docs = [], rs_Matches = word_of_nat (length hits), rs_DocsInspected = 0\<rparr>"]
  obtain resp where resp: "inspect E (se_shard E v) (rq_ShardId req @ ''.raw'') re (map word_of_nat hits)
        \<lparr>rs_Docs = [], rs_Matches = word_of_nat (length hits), rs_DocsInspected = 0\<rparr> r = Some (resp, r)"
    "rs_Docs resp = map (entry_of re ds) (take 100 found)"
    "length found < 100 \<longrightarrow> rs_Matches resp = word_of_nat (length hits) - word_of_nat (length (filter (\<lambda>k. \<not> has_snippet re (ds ! k)) hits))
       \<and> rs_DocsInspected resp = word_of_nat (length hits)" by (auto simp: found_def)
  have "SearchShard R E req = Some (Inr resp)"
    using get fs(1) re(1) post(1) resp(1) sha
    by (simp add: SearchShard_def whole_def[symmetric] ids Let_def)
  moreover have "length hits = length found + length (filter (\<lambda>k. \<not> has_snippet re (ds ! k)) hits)"
    unfolding found_def by (rule sum_length_filter_compl[symmetric])
  ultimately show ?thesis using resp(2,3) by auto
qed

subsection \<open>Searching a commit\<close>

definition commit_doc :: "(docInnerW \<Rightarrow> byte list) \<Rightarrow> object_File \<Rightarrow> doc3" where
  "commit_doc enc f = (of_Name f, enc (file_content f), file_content f)"

lemma slice_concat:
  assumes "k < length xs"
  shows "slice_range (concat xs) (int (length (concat (take k xs)))) (int (length (xs ! k))) = Some (xs ! k)"
proof -
  have "concat xs = concat (take k xs) @ xs ! k @ concat (drop (Suc k) xs)"
    using assms by (metis append_take_drop_id concat_append Cons_nth_drop_Suc concat.simps(2))
  then have "length (concat (take k xs)) + length (xs ! k) \<le> length (concat xs)" by simp
  then show ?thesis using take_drop_concat[OF assms] by (simp add: slice_range_def)
qed

lemma commit_shard_holds:
  assumes R: "roaring_ok R elems" and i: "holds_files elems enc sha gs i" and len: "length gs \<le> 2 ^ 32"
    and small: "length (concat (map (\<lambda>f. enc (file_content f)) gs)) < 2 ^ 24"
    and s: "ToShard R i = Some (s, i')" and dec: "\<forall>c. se_inner E (enc c) = c"
  shows "shard_holds R elems E s (map (commit_doc enc) gs)"
proof -
  define xs where "xs = map enc (map file_content gs)"
  have docs: "w2_docs i = map (\<lambda>j. file_meta (gs ! j) (ref_of enc sha (map file_content gs) j)) [0..<length gs]"
    and raw: "w2_raw i = xs" and rawlen: "w2_rawLength i < maxInlineRaw"
    using i small unfolding holds_files_def holds2_def by (simp_all add: xs_def maxInlineRaw_def comp_def)
  have s': "is_raw s = Some (concat xs)" "is_docs s = fst (flushDocs True i)"
    using s rawlen by (auto simp: ToShard_def raw flushDocs_def)
  have ids: "map dc_path (is_docs s) = map of_Name gs"
    "serves R elems (is_lists s) (\<lambda>t. {word_of_nat k | k. k < length gs \<and> t \<in> set (file_trigrams (file_data (gs ! k)))})"
    using ToShard_spec[OF R i] s by auto
  have "tri_map (map (commit_doc enc) gs) = (\<lambda>t. {word_of_nat k | k. k < length gs \<and> t \<in> set (file_trigrams (file_data (gs ! k)))})"
    unfolding tri_map_def[abs_def] by (simp add: commit_doc_def file_content_def content_def cong: conj_cong)
  moreover have "slice_range (concat xs) (dc_start (is_docs s ! k)) (dc_length (is_docs s ! k)) = Some (d_bytes (map (commit_doc enc) gs ! k))"
    if "k < length gs" for k
    using slice_concat[of k xs] that unfolding s'(2)
    by (simp add: flushDocs_def docs file_meta_def ref_of_def xs_def commit_doc_def take_map)
  ultimately show ?thesis unfolding shard_holds_def using ids s'(1) len dec by (simp add: commit_doc_def comp_def)
qed


subsection \<open>An instance\<close>

text \<open>A codec of contents, and a matcher of one literal.\<close>

fun enc_bytes :: "byte list \<Rightarrow> byte list" where
  "enc_bytes [] = [0]"
| "enc_bytes (b # bs) = 1 # b # enc_bytes bs"

fun dec_bytes :: "byte list \<Rightarrow> byte list \<times> byte list" where
  "dec_bytes (m # b # r) = (if m = 0 then ([], b # r) else let (bs, r) = dec_bytes r in (b # bs, r))"
| "dec_bytes r = ([], drop 1 r)"

lemma dec_enc_bytes: "dec_bytes (enc_bytes bs @ r) = (bs, r)"
proof (induction bs)
  case Nil
  then show ?case by (cases r) simp_all
qed simp

definition enc_inner :: "docInnerW \<Rightarrow> byte list" where
  "enc_inner c = enc_bytes (di_hash c) @ enc_bytes (concat (map uint32_bytes (di_blockToLine c))) @ di_data c"

definition dec_inner :: "byte list \<Rightarrow> docInnerW" where
  "dec_inner b = (let (hash, b) = dec_bytes b; (blocks, b) = dec_bytes b
     in \<lparr>di_hash = hash, di_blockToLine = be32_list blocks, di_data = b\<rparr>)"

lemma dec_enc_inner: "dec_inner (enc_inner c) = c"
  by (simp add: dec_inner_def enc_inner_def dec_enc_bytes be32_list_bytes)

definition literal :: "string \<Rightarrow> regex" where
  "literal w = \<lparr>re_Match = (\<lambda>b. str_index (string_of_bytes b) w \<noteq> None),
     re_FindIndex = (\<lambda>b. map_option (\<lambda>i. (i, i + length w)) (str_index (string_of_bytes b) w))\<rparr>"

lemma literal_proper: "w \<noteq> [] \<Longrightarrow> proper (literal w)"
  by (auto simp: proper_def literal_def string_of_bytes_def dest!: str_index_Some)

definition demo_env :: "IndexShard \<Rightarrow> search_env" where
  "demo_env s = \<lparr>se_Compile = (\<lambda>w. Some (literal w)), se_Parse = (\<lambda>_. Some abc_def), se_String = (\<lambda>_. ''abcdef''),
     se_room = (\<lambda>e n. False), se_fold = id, se_load = (\<lambda>key name params. Inr []), se_shard = (\<lambda>_. s), se_inner = dec_inner\<rparr>"

definition demo_part :: ExpressionPart where
  "demo_part = \<lparr>ep_expression = ''abcdef'', ep_code = SNIPPET, ep_negated = False\<rparr>"

definition demo_req :: SearchShardRequest where
  "demo_req = \<lparr>rq_ShardId = ''0a'', rq_ShardSha256 = replicate 32 0, rq_Parts = [demo_part], rq_PathPrefix = []\<rparr>"

definition letters :: object_File where
  "letters = \<lparr>of_Name = ''NOTES'', of_Mode = ModeRegular, of_Size = 7, of_Hash = [], of_Reader = Some (bytes_of ''xabcdef'', False)\<rparr>"

lemma letters_accepted: "accepted letters"
proof -
  have "utf8_Valid ''xabcdef''" by (simp add: utf8_Valid_ascii utf8_Valid.simps[of "[]"])
  then have "text2 (bytes_of ''xabcdef'')" by (subst text2_string) (simp_all add: bytes_of_def byte_of_def)
  then show ?thesis by (simp add: accepted_def letters_def file_data_def maxDocSize_def)
qed

lemma letters_content: "file_content letters = \<lparr>di_hash = [], di_blockToLine = [], di_data = bytes_of ''xabcdef''\<rparr>"
proof -
  have "length (block_lines (bytes_of ''xabcdef'')) = 0" by (simp add: length_block_lines)
  then show ?thesis by (simp add: file_content_def content_def letters_def file_data_def)
qed

lemma demo_part_good: "good_part (demo_env s) demo_part"
  by (simp add: demo_part_def good_part_def good_content_def demo_env_def part_syn_def part_query_def abc_def_query)

lemma demo_part_keeps: "part_keeps (demo_env s) [] (commit_doc enc_inner letters) demo_part"
proof -
  have "string_of_bytes [0, 0] = [CHR 0x00, CHR 0x00]" by code_simp
  then have "string_of_bytes ([0, 0] @ bytes_of ''xabcdef'') = [CHR 0x00, CHR 0x00] @ ''xabcdef''"
    unfolding string_of_bytes_def map_append by (simp flip: string_of_bytes_def)
  moreover have "sublist ''abc'' ''xabcdef''" "sublist ''def'' ''xabcdef''" by (simp_all add: sublist_code)
  ultimately show ?thesis
    by (simp add: part_keeps_def demo_part_def demo_env_def part_query_def part_syn_def part_re_def abc_def_query
        commit_doc_def letters_content enc_inner_def literal_def)
qed

lemma demo_snippet: "has_snippet (literal ''abcdef'') (commit_doc enc_inner letters)"
  by (simp add: has_snippet_def commit_doc_def letters_content literal_def)


end
