(* ===== verification/Snippets.thy ===== *)
theory Snippets
  imports Search_Correct
begin

text \<open>
  The snippet of a match: the lines from the one in which it starts to the one in which it ends, the number of
  the first of them, and where the match is in them.
\<close>

subsection \<open>Lines\<close>

lemma line_from_split:
  assumes "p \<le> length b"
  obtains u w where "take p b = u @ w" "length u = line_from b p" "u = [] \<or> last u = 10" "10 \<notin> set w"
proof
  define w where "w = rev (takeWhile (\<lambda>c. c \<noteq> 10) (rev (take p b)))"
  define u where "u = rev (dropWhile (\<lambda>c. c \<noteq> 10) (rev (take p b)))"
  show split: "take p b = u @ w" unfolding u_def w_def by (metis rev_append rev_rev_ident takeWhile_dropWhile_id)
  have "length u + length w = p" using arg_cong[OF split, of length] assms by simp
  then show "length u = line_from b p" by (simp add: line_from_def w_def)
  show "u = [] \<or> last u = 10" using hd_dropWhile[of "\<lambda>c. c \<noteq> 10" "rev (take p b)"] by (auto simp: u_def last_rev)
  show "10 \<notin> set w" by (auto simp: w_def dest: set_takeWhileD)
qed

lemma line_end_cases:
  assumes "q \<le> length b"
  shows "q \<le> line_end b q" "line_end b q \<le> length b"
    and "10 \<notin> set (drop q b) \<Longrightarrow> line_end b q = length b"
    and "10 \<in> set (drop q b) \<Longrightarrow> \<exists>w. take (line_end b q - q) (drop q b) = w @ [10] \<and> 10 \<notin> set w"
proof -
  show "q \<le> line_end b q" using assms by (simp add: line_end_def split: option.splits)
  show "line_end b q \<le> length b"
    using assms nl_index_bound[of "drop q b"] by (fastforce simp: line_end_def split: option.splits)
  show "10 \<notin> set (drop q b) \<Longrightarrow> line_end b q = length b" by (simp add: line_end_def nl_index_def)
  assume nl: "10 \<in> set (drop q b)"
  then obtain u v where uv: "drop q b = u @ 10 # v" "10 \<notin> set u" by (meson split_list_first)
  then have "nl_index (drop q b) = Some (length u)" using nl_index_Some by blast
  then show "\<exists>w. take (line_end b q - q) (drop q b) = w @ [10] \<and> 10 \<notin> set w" using uv by (simp add: line_end_def)
qed

subsection \<open>Line numbers\<close>

lemma multiples_of: "filter (\<lambda>i. 4096 dvd i) [1..<Suc n] = map (\<lambda>j. Suc j * 4096) [0..<n div 4096]" for n :: nat
proof (induction n)
  case (Suc n)
  have upt: "[1..<Suc (Suc n)] = [1..<Suc n] @ [Suc n]" by simp
  show ?case
  proof (cases "4096 dvd Suc n")
    case True
    have d: "Suc n div 4096 = Suc (n div 4096)" using True by (simp add: div_Suc dvd_eq_mod_eq_0)
    have "Suc n div 4096 * 4096 = Suc n" using True by (rule dvd_div_mult_self)
    then have "Suc (n div 4096) * 4096 = Suc n" unfolding d .
    then show ?thesis unfolding upt filter_append Suc d using True by simp
  next
    case False
    then have "Suc n div 4096 = n div 4096" by (simp add: div_Suc dvd_eq_mod_eq_0)
    then show ?thesis unfolding upt filter_append Suc using False by simp
  qed
qed simp

lemma block_lines_nth: "j < length d div 4096 \<Longrightarrow> block_lines d ! j = word_of_nat (line_at d (Suc j * 4096 - 1))"
proof -
  assume j: "j < length d div 4096"
  have "(i AND 0xFFF = 0) = (4096 dvd i)" for i :: nat
    using take_bit_eq_mask[of 12 i] by (simp add: mask_eq_exp_minus_1 take_bit_eq_mod dvd_eq_mod_eq_0)
  then have "block_lines d = map (\<lambda>i. word_of_nat (line_at d (i - 1))) (filter (\<lambda>i. 4096 dvd i) [1..<Suc (length d)])"
    by (simp only: block_lines_def)
  then show ?thesis using j by (simp only: multiples_of) simp
qed

text \<open>The number that the snippet of a match at \<open>p\<close> gets: that of its line, but one less when a block starts with
  this line.\<close>

definition first_line :: "byte list \<Rightarrow> nat \<Rightarrow> nat" where
  "first_line b p = line_at b p - (if 4096 \<le> p \<and> b ! (p div 4096 * 4096 - 1) = 10 then 1 else 0)"

lemma count_list_split: "m \<le> p \<Longrightarrow> count_list (take p b) x = count_list (take m b) x + count_list (take (p - m) (drop m b)) x"
  by (metis count_list_append le_add_diff_inverse take_add)

lemma first_line_blocks:
  assumes p: "p < length b" and j: "p div 4096 = Suc j"
  shows "word_of_nat (count_list (take (p - Suc j * 4096) (drop (Suc j * 4096) b)) 10) + block_lines b ! j = (word_of_nat (first_line b p) :: u32)"
proof -
  define m where "m = Suc j * 4096"
  have m: "m \<le> p" "0 < m" "m = p div 4096 * 4096" using j by (simp_all add: m_def)
  have "m - 1 < length b" using m p by simp
  then have "take m b = take (m - 1) b @ [b ! (m - 1)]" using m(2) take_Suc_conv_app_nth[of "m - 1" b] by simp
  then have cnt: "count_list (take p b) 10 = count_list (take (m - 1) b) 10 + (if b ! (m - 1) = 10 then 1 else 0)
      + count_list (take (p - m) (drop m b)) 10" using count_list_split[OF m(1), of b 10] by simp
  have "4096 \<le> p" using j by (metis Suc_neq_Zero div_less not_less)
  then have "first_line b p = count_list (take (p - m) (drop m b)) 10 + line_at b (m - 1)"
    using cnt m(3) by (simp add: first_line_def line_at_def)
  moreover have "p div 4096 \<le> length b div 4096" using p by (intro div_le_mono) simp
  then have "block_lines b ! j = word_of_nat (line_at b (m - 1))" using j by (subst block_lines_nth) (simp_all add: m_def)
  ultimately show ?thesis by (simp add: m_def)
qed

text \<open>C39. The snippet of a match is the text of the lines it touches, with the match at the right place in it. Its
  line number is that of the line in which the match starts, but one less when the byte before the block of
  4096 bytes with the start of the match is a newline.\<close>

theorem buildSnippet_lines:
  assumes "blocks_ok c" and "p < q" and "q \<le> length (di_data c)"
  shows "\<exists>s u v. buildSnippet c (p, q) = Some s \<and> di_data c = u @ sn_Lines s @ v
    \<and> length u \<le> p \<and> q \<le> length (u @ sn_Lines s)
    \<and> (u = [] \<or> last u = 10) \<and> 10 \<notin> set (take (p - length u) (sn_Lines s))
    \<and> (if 10 \<in> set (drop q (di_data c)) then \<exists>w. drop (q - length u) (sn_Lines s) = w @ [10] \<and> 10 \<notin> set w else v = [])
    \<and> sn_Matches s = [word_of_nat (p - length u), word_of_nat (q - length u)]
    \<and> sn_FirstLine s = word_of_nat (first_line (di_data c) p)"
proof -
  define b where "b = di_data c"
  have p: "p < length b" "p \<le> length b" and q: "q \<le> length b" using assms by (simp_all add: b_def)
  obtain u w where u: "take p b = u @ w" "length u = line_from b p" "u = [] \<or> last u = 10" "10 \<notin> set w"
    using line_from_split[OF p(2)] by blast
  define ls le where "ls = line_from b p" and "le = line_end b q"
  have len: "length u + length w = p" using arg_cong[OF u(1), of length] p(2) by simp
  have le: "q \<le> le" "le \<le> length b" using line_end_cases(1,2)[OF q] by (simp_all add: le_def)
  have ls: "ls \<le> p" "length u = ls" using len u(2) by (simp_all add: ls_def)
  define lines where "lines = take (le - ls) (drop ls b)"
  have ub: "u = take ls b" using u(1) ls len by (metis append_eq_conv_conj take_take min.absorb1)
  have "le - ls + ls = le" using ls le assms(2) by simp
  then have "drop ls b = lines @ drop le b"
    using append_take_drop_id[of "le - ls" "drop ls b"] by (simp only: lines_def drop_drop)
  then have split: "b = u @ lines @ drop le b" using append_take_drop_id[of ls b] ub by metis
  have "take (p - ls) lines = drop ls (take p b)"
    using ls le assms(2) unfolding lines_def drop_take take_take by (simp add: min_def)
  then have "take (p - ls) lines = w" using u(1) ls(2) by simp
  moreover have "drop (q - ls) lines = take (le - q) (drop q b)"
    using ls le assms(2) unfolding lines_def by (simp add: drop_take)
  moreover have "length (u @ lines) = le" using ls le assms(2) by (simp add: lines_def)
  moreover have "buildSnippet c (p, q) = Some \<lparr>sn_Lines = lines, sn_FirstLine = word_of_nat (first_line b p),
      sn_Matches = [word_of_nat (p - ls), word_of_nat (q - ls)]\<rparr>"
  proof (cases "p div 4096")
    case 0
    then have "p < 4096" by (simp add: div_eq_0_iff)
    then show ?thesis using 0 assms(2,3)
      by (simp add: buildSnippet_def b_def[symmetric] ls_def le_def lines_def Let_def first_line_def line_at_def)
  next
    case (Suc j)
    have "Suc j \<le> length b div 4096" unfolding Suc[symmetric] using p(2) by (rule div_le_mono)
    then have "BlockToLine c j = Some (block_lines b ! j)"
      using assms(1) length_block_lines[of b] by (auto simp: BlockToLine_def blocks_ok_def b_def)
    then show ?thesis using first_line_blocks[OF p(1) Suc] Suc assms(2,3)
      by (simp add: buildSnippet_def b_def[symmetric] ls_def le_def lines_def Let_def)
  qed
  ultimately have "buildSnippet c (p, q) = Some \<lparr>sn_Lines = lines, sn_FirstLine = word_of_nat (first_line b p),
      sn_Matches = [word_of_nat (p - length u), word_of_nat (q - length u)]\<rparr>"
    "10 \<notin> set (take (p - length u) lines)" "drop (q - length u) lines = take (le - q) (drop q b)" "q \<le> length (u @ lines)"
    using u(4) ls(2) le by simp_all
  then show ?thesis using split u(3) ls line_end_cases(3,4)[OF q] unfolding b_def[symmetric] le_def[symmetric]
    by (intro exI conjI) (assumption | simp)+
qed

theorem buildSnippet_lines_witness:
  "\<exists>s. buildSnippet (content [] (bytes_of ''abcdef'')) (2, 4) = Some s \<and> sn_Lines s = bytes_of ''abcdef''
    \<and> sn_Matches s = [2, 4] \<and> sn_FirstLine s = 1"
proof -
  define c where "c = content [] (bytes_of ''abcdef'')"
  have data: "di_data c = bytes_of ''abcdef''" by (simp add: c_def content_def)
  have nl: "10 \<notin> set (di_data c)" unfolding data by (simp add: bytes_of_def byte_of_def)
  have blocks: "blocks_ok c" by (simp add: c_def blocks_ok_def content_def)
  have len: "4 \<le> length (di_data c)" "(2 :: nat) < 4" by (simp_all add: data)
  obtain s u v where s: "buildSnippet c (2, 4) = Some s" "di_data c = u @ sn_Lines s @ v" "u = [] \<or> last u = 10"
      "if 10 \<in> set (drop 4 (di_data c)) then \<exists>w. drop (4 - length u) (sn_Lines s) = w @ [10] \<and> 10 \<notin> set w else v = []"
      "sn_Matches s = [word_of_nat (2 - length u), word_of_nat (4 - length u)]" "sn_FirstLine s = word_of_nat (first_line (di_data c) 2)"
    using buildSnippet_lines[OF blocks len(2,1)] by blast
  have "10 \<notin> set u" "10 \<notin> set (drop 4 (di_data c))" using nl s(2) by (auto dest: in_set_dropD)
  then have "u = []" "v = []" using s(3,4) by (metis last_in_set, simp)
  moreover have "first_line (di_data c) 2 = 1" unfolding data by (simp add: first_line_def line_at_def bytes_of_def byte_of_def)
  ultimately have "sn_Lines s = di_data c" "sn_Matches s = [2, 4]" "sn_FirstLine s = 1" using s(2,5,6) by simp_all
  with s(1) show ?thesis unfolding data unfolding c_def by blast
qed

end
