(* ===== verification/Storage.thy ===== *)
theory Storage
  imports Utf8 Index2
begin

text \<open>
  The storage server, \<^verbatim>\<open>cmd/storage/main.go\<close>, with its two clients: the indexer writes shards
  (\<^verbatim>\<open>writeShard\<close> of \<^verbatim>\<open>cmd/cindex-git\<close>), the search server loads ranges of them (\<^verbatim>\<open>cacheLoader\<close> of
  \<^verbatim>\<open>cmd/cindex-serve\<close>).

  The file system is a map from paths to contents; the only failure of it is a missing file. A stream of
  messages is a list, with the way it ends. \<open>sha\<close> is SHA-256, \<open>root\<close> the directory of the server.
\<close>

subsection \<open>The server\<close>

type_synonym files = "string \<Rightarrow> byte list option"

datatype storage_error =
  NoShardID | BadShardID | BadSuffix | NotFound | OutOfRange | BadSeek | EmptyBlock | UnexpectedEOF | StreamBroken |
  Overflow | Corruption | BitmapErr

definition blockSize :: nat where "blockSize = 64 * 2 ^ 10"

definition shardIDRegexp :: "string \<Rightarrow> bool" where
  "shardIDRegexp s \<longleftrightarrow> s \<noteq> [] \<and> list_all (\<lambda>c. c \<in> set ''0123456789abcdef'') s"

definition validateShardIDAndSuffix :: "string \<Rightarrow> string \<Rightarrow> storage_error option" where
  "validateShardIDAndSuffix shardID sfx =
     (if shardID = [] then Some NoShardID
      else if \<not> shardIDRegexp shardID then Some BadShardID
      else if sfx \<noteq> [] \<and> sfx \<noteq> ''raw'' then Some BadSuffix
      else None)"

definition getPath :: "string \<Rightarrow> string \<Rightarrow> string \<Rightarrow> string" where
  "getPath root shardID sfx =
     (let path = root @ ''/'' @ shardID in if sfx \<noteq> [] then path @ ''.'' @ sfx else path)"

definition GetShardMetadata :: "string \<Rightarrow> files \<Rightarrow> string \<Rightarrow> string \<Rightarrow> storage_error + int" where
  "GetShardMetadata root fs shardID sfx = (case validateShardIDAndSuffix shardID sfx of
     Some e \<Rightarrow> Inl e
   | None \<Rightarrow> (case fs (getPath root shardID sfx) of None \<Rightarrow> Inl NotFound | Some f \<Rightarrow> Inr (int (length f))))"

definition to_int64 :: "int \<Rightarrow> int" where
  "to_int64 n = sint (word_of_int n :: 64 word)"

text \<open>The loop of \<^verbatim>\<open>ReadShard\<close>: a read gives at least one byte unless the file ends, otherwise \<open>1 + rd pos\<close> bytes
  if they are there and fit the buffer. The value has the blocks sent and the error, if any.\<close>

function read_loop :: "(nat \<Rightarrow> nat) \<Rightarrow> byte list \<Rightarrow> nat \<Rightarrow> nat \<Rightarrow> byte list list \<times> storage_error option" where
  "read_loop rd f pos remaining =
     (if remaining = 0 then ([], None)
      else
        let size = (if remaining < blockSize then remaining else blockSize); avail = length f - pos
        in if avail = 0 then ([], Some UnexpectedEOF)
           else
             let n = min (1 + rd pos) (min size avail); (blocks, err) = read_loop rd f (pos + n) (remaining - n)
             in (take n (drop pos f) # blocks, err))"
  by auto
termination by (relation "measure (\<lambda>(rd, f, pos, remaining). remaining)") (auto simp: blockSize_def)

declare read_loop.simps [simp del]

definition ReadShard ::
  "string \<Rightarrow> (nat \<Rightarrow> nat) \<Rightarrow> files \<Rightarrow> string \<Rightarrow> string \<Rightarrow> int \<Rightarrow> int \<Rightarrow> byte list list \<times> storage_error option"
where
  "ReadShard root rd fs shardID sfx offset len = (case validateShardIDAndSuffix shardID sfx of
     Some e \<Rightarrow> ([], Some e)
   | None \<Rightarrow> (case fs (getPath root shardID sfx) of
       None \<Rightarrow> ([], Some NotFound)
     | Some f \<Rightarrow>
         if to_int64 (offset + len) > int (length f) then ([], Some OutOfRange)
         else if offset < 0 then ([], Some BadSeek)
         else read_loop rd f (nat offset) (nat len)))"

record WriteShardRequest =
  wr_ShardId :: string
  wr_Suffix :: string
  wr_Block :: "byte list"

text \<open>The messages of a client; the stream ends with \<^verbatim>\<open>io.EOF\<close> or is broken.\<close>

type_synonym write_stream = "WriteShardRequest list \<times> bool"

fun write_loop :: "string \<Rightarrow> files \<Rightarrow> WriteShardRequest list \<Rightarrow> bool \<Rightarrow> files \<times> storage_error option" where
  "write_loop path fs [] eof = (fs, if eof then None else Some StreamBroken)"
| "write_loop path fs (req # reqs) eof =
     (if wr_Block req = [] then (fs, Some EmptyBlock)
      else write_loop path (fs(path \<mapsto> (case fs path of None \<Rightarrow> wr_Block req | Some f \<Rightarrow> f @ wr_Block req))) reqs eof)"

text \<open>What is hashed is what is written.\<close>

definition WriteShard :: "string \<Rightarrow> (byte list \<Rightarrow> byte list) \<Rightarrow> files \<Rightarrow> write_stream \<Rightarrow> files \<times> (storage_error + byte list)" where
  "WriteShard root sha fs stream = (case stream of
     ([], eof) \<Rightarrow> (fs, Inl (if eof then UnexpectedEOF else StreamBroken))
   | (head # reqs, eof) \<Rightarrow>
       (case validateShardIDAndSuffix (wr_ShardId head) (wr_Suffix head) of
          Some e \<Rightarrow> (fs, Inl e)
        | None \<Rightarrow>
            let path = getPath root (wr_ShardId head) (wr_Suffix head);
                (fs, err) = write_loop path (fs(path \<mapsto> wr_Block head)) reqs eof
            in (fs, case err of Some e \<Rightarrow> Inl e | None \<Rightarrow> Inr (sha (the (fs path))))))"

subsection \<open>Writing a shard\<close>

definition maxBlockSize :: nat where "maxBlockSize = 64 * 2 ^ 10"

function streamBytes :: "byte list \<Rightarrow> WriteShardRequest list" where
  "streamBytes b =
     (if b = [] then []
      else
        let chunk = (if maxBlockSize > length b then length b else maxBlockSize)
        in \<lparr>wr_ShardId = [], wr_Suffix = [], wr_Block = take chunk b\<rparr> # streamBytes (drop chunk b))"
  by auto
termination by (relation "measure length") (auto simp: maxBlockSize_def)

declare streamBytes.simps [simp del]

definition write_header :: "string \<Rightarrow> string \<Rightarrow> WriteShardRequest" where
  "write_header shardID sfx = \<lparr>wr_ShardId = shardID, wr_Suffix = sfx, wr_Block = []\<rparr>"

text \<open>One upload of \<^verbatim>\<open>writeShard\<close>: the header, the blocks of each piece, and the comparison of the hashes.\<close>

definition upload_pieces ::
  "string \<Rightarrow> (byte list \<Rightarrow> byte list) \<Rightarrow> files \<Rightarrow> string \<Rightarrow> string \<Rightarrow> byte list list \<Rightarrow> files \<times> storage_error option"
where
  "upload_pieces root sha fs shardID sfx pieces =
     (let (fs, resp) = WriteShard root sha fs (write_header shardID sfx # concat (map streamBytes pieces), True)
      in (fs, case resp of
           Inl e \<Rightarrow> Some e
         | Inr h \<Rightarrow> if h \<noteq> sha (concat pieces) then Some Corruption else None))"

definition writeShard ::
  "string \<Rightarrow> (byte list \<Rightarrow> byte list) \<Rightarrow> (IndexShard \<Rightarrow> byte list) \<Rightarrow> 'b bitmap_ops \<Rightarrow> files \<Rightarrow> string \<Rightarrow> 'b IndexWriter2 \<Rightarrow>
     files \<times> (nat \<times> byte list \<times> storage_error option)"
where
  "writeShard root sha senc R fs shardID iw = (case ToShard R iw of
     None \<Rightarrow> (fs, 0, sha [], Some BitmapErr)
   | Some (s, iw) \<Rightarrow>
       let b = senc s; l = length b; h = sha b;
           (fs, err) = upload_pieces root sha fs shardID [] [b]
       in case err of
         Some e \<Rightarrow> (fs, l, h, Some e)
       | None \<Rightarrow>
           if RawBytes iw = [] then (fs, l, h, None)
           else let (fs, err) = upload_pieces root sha fs shardID ''raw'' (RawBytes iw) in (fs, l, h, err))"

subsection \<open>Loading\<close>

definition separator :: string where "separator = ''||''"

definition split_name :: "string \<Rightarrow> string \<times> string" where
  "split_name name = (case str_index name separator of
     None \<Rightarrow> (name, [])
   | Some idx \<Rightarrow> (take idx name, drop (idx + length separator) name))"

definition loader_Size :: "string \<Rightarrow> files \<Rightarrow> string \<Rightarrow> storage_error + int" where
  "loader_Size root fs name =
     (let (shardID, sfx) = split_name name in
      case GetShardMetadata root fs shardID sfx of
        Inl e \<Rightarrow> Inl e
      | Inr len \<Rightarrow> let ret = to_int32 len in if ret \<noteq> len then Inl Overflow else Inr ret)"

text \<open>The blocks are copied into the body, of which \<open>room\<close> bytes are left.\<close>

fun recv_loop :: "byte list list \<Rightarrow> nat \<Rightarrow> byte list \<times> nat" where
  "recv_loop [] room = ([], room)"
| "recv_loop (block # blocks) room =
     (let n = min room (length block); (body, room) = recv_loop blocks (room - n) in (take n block @ body, room))"

text \<open>\<^verbatim>\<open>Load\<close> into a body of \<open>len\<close> bytes; the result is the body.\<close>

definition loader_Load :: "string \<Rightarrow> (nat \<Rightarrow> nat) \<Rightarrow> files \<Rightarrow> string \<Rightarrow> int \<Rightarrow> nat \<Rightarrow> storage_error + byte list" where
  "loader_Load root rd fs name offset len =
     (let (shardID, sfx) = split_name name;
          (blocks, err) = ReadShard root rd fs shardID sfx offset (to_int32 (int len));
          (body, room) = recv_loop blocks len
      in case err of
        Some e \<Rightarrow> Inl e
      | None \<Rightarrow> if room = 0 then Inr body else Inl UnexpectedEOF)"

end
