(* ===== verification/Storage_Correct.thy ===== *)
theory Storage_Correct
  imports Storage Git_Index
begin

text \<open>
  What is uploaded is loaded again: every range of a stored shard, whatever the sizes of the reads and the
  cuts into messages. A shard that the indexer stores is found under its id, and its second file too.
\<close>

subsection \<open>Uploads\<close>

lemma streamBytes_blocks:
  "concat (map wr_Block (streamBytes b)) = b" "\<forall>req \<in> set (streamBytes b). wr_Block req \<noteq> []"
proof (induction b rule: streamBytes.induct)
  case (1 b)
  have pos: "b \<noteq> [] \<Longrightarrow> (if maxBlockSize > length b then length b else maxBlockSize) \<noteq> 0" by (simp add: maxBlockSize_def)
  {
    case 1
    then show ?case using "1.IH"(1) by (cases "b = []") (simp_all add: streamBytes.simps[of b] streamBytes.simps[of "[]"] Let_def)
  next
    case 2
    then show ?case using "1.IH"(2) pos by (cases "b = []") (auto simp: streamBytes.simps[of b] streamBytes.simps[of "[]"] Let_def)
  }
qed

lemma write_loop_spec:
  "\<forall>req \<in> set reqs. wr_Block req \<noteq> [] \<Longrightarrow> fs path = Some f \<Longrightarrow>
    write_loop path fs reqs True = (fs(path \<mapsto> f @ concat (map wr_Block reqs)), None)"
  by (induction reqs arbitrary: fs f) (auto simp: fun_upd_idem)

lemma upload_pieces_spec:
  assumes "shardIDRegexp sid" and "sfx = [] \<or> sfx = ''raw''"
  shows "upload_pieces root sha fs sid sfx pieces = (fs(getPath root sid sfx \<mapsto> concat pieces), None)"
proof -
  have valid: "validateShardIDAndSuffix sid sfx = None" using assms by (auto simp: validateShardIDAndSuffix_def shardIDRegexp_def)
  define reqs where "reqs = concat (map streamBytes pieces)"
  have "concat (map wr_Block reqs) = concat pieces" unfolding reqs_def
    by (induction pieces) (simp_all add: streamBytes_blocks(1))
  moreover have "\<forall>req \<in> set reqs. wr_Block req \<noteq> []" using streamBytes_blocks(2) by (auto simp: reqs_def)
  ultimately show ?thesis
    using write_loop_spec[of reqs "fs(getPath root sid sfx \<mapsto> [])" "getPath root sid sfx" "[]"]
    by (simp add: upload_pieces_def WriteShard_def write_header_def valid reqs_def Let_def)
qed

subsection \<open>Loads\<close>

lemma read_loop_spec:
  "pos + remaining \<le> length f \<Longrightarrow> \<exists>blocks. read_loop rd f pos remaining = (blocks, None) \<and> concat blocks = take remaining (drop pos f)"
proof (induction remaining arbitrary: pos rule: less_induct)
  case (less remaining)
  show ?case
  proof (cases "remaining = 0")
    case True
    then show ?thesis by (simp add: read_loop.simps)
  next
    case False
    define size where "size = (if remaining < blockSize then remaining else blockSize)"
    define n where "n = min (Suc (rd pos)) (min size (length f - pos))"
    have n: "0 < n" "n \<le> remaining" using False less.prems by (auto simp: n_def size_def blockSize_def)
    then obtain blocks where b: "read_loop rd f (pos + n) (remaining - n) = (blocks, None)"
      "concat blocks = take (remaining - n) (drop (pos + n) f)"
      using less.IH[of "remaining - n" "pos + n"] less.prems by auto
    have "length f - pos \<noteq> 0" using False less.prems by simp
    then have "read_loop rd f pos remaining = (take n (drop pos f) # blocks, None)"
      using False b(1) by (simp add: read_loop.simps[of rd f pos remaining] size_def[symmetric] n_def[symmetric] Let_def)
    moreover have "take n (drop pos f) @ take (remaining - n) (drop (pos + n) f) = take remaining (drop pos f)"
      using n(2) take_add[of n "remaining - n" "drop pos f"] by (simp add: add.commute)
    ultimately show ?thesis using b(2) by simp
  qed
qed

lemma recv_loop_spec: "length (concat blocks) = n \<Longrightarrow> recv_loop blocks n = (concat blocks, 0)"
  by (induction blocks arbitrary: n) (auto simp: Let_def)

lemma split_name_spec:
  assumes "shardIDRegexp sid"
  shows "split_name sid = (sid, [])" "split_name (sid @ separator @ ''raw'') = (sid, ''raw'')"
proof -
  have "\<forall>c \<in> set sid. c \<in> set ''0123456789abcdef''" using assms unfolding shardIDRegexp_def list_all_iff by (rule conjunct2)
  moreover have "CHR ''|'' \<notin> set ''0123456789abcdef''" by simp
  ultimately have bar: "CHR ''|'' \<notin> set sid" by blast
  have "str_index (sid @ r) separator = map_option ((+) (length sid)) (str_index r separator)" if "CHR ''|'' \<notin> set sid" for r sid
    using that
  proof (induction sid)
    case Nil
    then show ?case by (cases "str_index r separator") simp_all
  next
    case (Cons c sid)
    then have "\<not> prefix separator (c # sid @ r)" by (simp add: separator_def)
    then show ?case using Cons by (cases "str_index r separator") simp_all
  qed
  note at = this[OF bar]
  have "str_index [] separator = None" by (simp add: separator_def)
  then show "split_name sid = (sid, [])" using at[of "[]"] by (simp add: split_name_def)
  have "str_index (separator @ ''raw'') separator = Some 0" by (simp add: separator_def)
  then show "split_name (sid @ separator @ ''raw'') = (sid, ''raw'')" using at[of "separator @ ''raw''"] by (simp add: split_name_def)
qed

lemma load_spec:
  assumes "validateShardIDAndSuffix sid sfx = None" and "split_name name = (sid, sfx)" and f: "fs (getPath root sid sfx) = Some f"
    and small: "length f < 2 ^ 31"
  shows "loader_Size root fs name = Inr (int (length f))"
    and "offset + len \<le> length f \<Longrightarrow> loader_Load root rd fs name (int offset) len = Inr (take len (drop offset f))"
    and "length f < offset + len \<Longrightarrow> offset + len < 2 ^ 31 \<Longrightarrow> loader_Load root rd fs name (int offset) len = Inl OutOfRange"
proof -
  have i32: "to_int32 (int n) = int n" if "n < 2 ^ 31" for n using that by (intro to_int32_small) simp_all
  show "loader_Size root fs name = Inr (int (length f))"
    using assms small i32[OF small] by (simp add: loader_Size_def GetShardMetadata_def)
  have i64: "to_int64 (int n) = int n" if "n < 2 ^ 32" for n
    using that by (simp add: to_int64_def signed_of_int signed_of_nat signed_take_bit_int_eq_self)
  show "loader_Load root rd fs name (int offset) len = Inr (take len (drop offset f))" if le: "offset + len \<le> length f"
  proof -
    obtain blocks where b: "read_loop rd f offset len = (blocks, None)" "concat blocks = take len (drop offset f)"
      using read_loop_spec[OF le] by blast
    have "ReadShard root rd fs sid sfx (int offset) (int len) = (blocks, None)"
      using assms(1) f b(1) le small i64[of "offset + len"] by (simp add: ReadShard_def)
    moreover have "recv_loop blocks len = (concat blocks, 0)" using b(2) le by (intro recv_loop_spec) simp
    ultimately show ?thesis using assms(2) b(2) le small i32[of len] by (simp add: loader_Load_def)
  qed
  show "loader_Load root rd fs name (int offset) len = Inl OutOfRange" if "length f < offset + len" "offset + len < 2 ^ 31"
    using assms that i32[of len] i64[of "offset + len"] by (simp add: loader_Load_def ReadShard_def)
qed

subsection \<open>Stored shards\<close>

text \<open>C38. A stored shard is loaded again: when the indexer has written a shard under a valid id, its size is the size
  of its encoding, and every range of it is loaded exactly, whatever the sizes of the reads. If the contents
  did not fit into the shard, the same holds for its second file. Ranges past the end are refused, and the
  files of other shards are left alone.\<close>

theorem stored_shard_loads:
  assumes "shardIDRegexp sid" and "ToShard R iw = Some (s, iw')"
    and "length (senc s) < 2 ^ 31" and "length (concat (RawBytes iw')) < 2 ^ 31"
  shows "\<exists>fs'. writeShard root sha senc R fs sid iw = (fs', length (senc s), sha (senc s), None)
    \<and> loader_Size root fs' sid = Inr (int (length (senc s)))
    \<and> (\<forall>rd offset len. offset + len < 2 ^ 31 \<longrightarrow> loader_Load root rd fs' sid (int offset) len =
         (if offset + len \<le> length (senc s) then Inr (take len (drop offset (senc s))) else Inl OutOfRange))
    \<and> (RawBytes iw' \<noteq> [] \<longrightarrow> (\<forall>rd offset len. offset + len < 2 ^ 31 \<longrightarrow>
         loader_Load root rd fs' (sid @ ''||raw'') (int offset) len =
         (if offset + len \<le> length (concat (RawBytes iw')) then Inr (take len (drop offset (concat (RawBytes iw')))) else Inl OutOfRange)))
    \<and> (\<forall>path. path \<noteq> getPath root sid [] \<longrightarrow> path \<noteq> getPath root sid ''raw'' \<longrightarrow> fs' path = fs path)"
proof -
  have valid: "validateShardIDAndSuffix sid [] = None" "validateShardIDAndSuffix sid ''raw'' = None"
    using assms(1) by (auto simp: validateShardIDAndSuffix_def shardIDRegexp_def)
  have other: "getPath root sid [] \<noteq> getPath root sid ''raw''" by (simp add: getPath_def)
  have names: "split_name sid = (sid, [])" "split_name (sid @ ''||raw'') = (sid, ''raw'')"
    using split_name_spec[OF assms(1)] by (simp_all add: separator_def)
  define fs1 where "fs1 = fs(getPath root sid [] \<mapsto> senc s)"
  define fs' where "fs' = (if RawBytes iw' = [] then fs1 else fs1(getPath root sid ''raw'' \<mapsto> concat (RawBytes iw')))"
  have "upload_pieces root sha fs sid [] [senc s] = (fs1, None)" using upload_pieces_spec[OF assms(1), of "[]"] by (simp add: fs1_def)
  moreover have "upload_pieces root sha fs1 sid ''raw'' (RawBytes iw') = (fs1(getPath root sid ''raw'' \<mapsto> concat (RawBytes iw')), None)"
    using upload_pieces_spec[OF assms(1), of "''raw''"] by simp
  ultimately have "writeShard root sha senc R fs sid iw = (fs', length (senc s), sha (senc s), None)"
    by (simp add: writeShard_def assms(2) fs'_def Let_def)
  moreover have f: "fs' (getPath root sid []) = Some (senc s)" using other by (simp add: fs'_def fs1_def)
  moreover have r: "RawBytes iw' \<noteq> [] \<Longrightarrow> fs' (getPath root sid ''raw'') = Some (concat (RawBytes iw'))" by (simp add: fs'_def)
  moreover have "\<forall>path. path \<noteq> getPath root sid [] \<longrightarrow> path \<noteq> getPath root sid ''raw'' \<longrightarrow> fs' path = fs path"
    by (simp add: fs'_def fs1_def)
  ultimately show ?thesis
    using load_spec[where root = root and fs = fs', OF valid(1) names(1) f assms(3)]
      load_spec[where root = root and fs = fs', OF valid(2) names(2) r assms(4)]
    by (intro exI[of _ fs']) (simp add: not_le)
qed

theorem stored_shard_loads_witness:
  "\<exists>fs' s iw'. ToShard list_bitmaps empty_writer = Some (s, iw')
    \<and> writeShard ''/data'' (\<lambda>_. [0]) (\<lambda>_. bytes_of ''shard'') list_bitmaps (\<lambda>_. None) ''0a'' empty_writer = (fs', 5, [0], None)
    \<and> loader_Load ''/data'' (\<lambda>_. 0) fs' ''0a'' 1 3 = Inr (bytes_of ''har'')
    \<and> loader_Load ''/data'' (\<lambda>_. 0) fs' ''0a'' 1 5 = Inl OutOfRange"
proof -
  obtain s iw' where s: "ToShard list_bitmaps empty_writer = Some (s, iw')" "RawBytes iw' = []"
    by (simp add: ToShard_def flushPostingLists_def empty_writer_def flushDocs_def RawBytes_def maxInlineRaw_def)
  have sid: "shardIDRegexp ''0a''" by (simp add: shardIDRegexp_def)
  have n5: "length (bytes_of ''shard'') = 5" by simp
  have len: "length (bytes_of ''shard'') < 2 ^ 31" "length (concat (RawBytes iw')) < 2 ^ 31" using s(2) by simp_all
  from stored_shard_loads[OF sid s(1), where senc = "\<lambda>_. bytes_of ''shard''" and root = "''/data''" and sha = "\<lambda>_. [0]" and fs = "\<lambda>_. None", OF len, unfolded n5]
  obtain fs' where fs': "writeShard ''/data'' (\<lambda>_. [0]) (\<lambda>_. bytes_of ''shard'') list_bitmaps (\<lambda>_. None) ''0a'' empty_writer = (fs', 5, [0], None)"
    "\<forall>rd offset len. offset + len < 2 ^ 31 \<longrightarrow> loader_Load ''/data'' rd fs' ''0a'' (int offset) len =
         (if offset + len \<le> 5 then Inr (take len (drop offset (bytes_of ''shard''))) else Inl OutOfRange)" by (elim exE conjE) (rule that; assumption)
  have "loader_Load ''/data'' (\<lambda>_. 0) fs' ''0a'' 1 3 = Inr (bytes_of ''har'')"
    using fs'(2)[rule_format, of 1 3 "\<lambda>_. 0"] by (simp add: bytes_of_def)
  moreover have "loader_Load ''/data'' (\<lambda>_. 0) fs' ''0a'' 1 5 = Inl OutOfRange" using fs'(2)[rule_format, of 1 5 "\<lambda>_. 0"] by simp
  ultimately show ?thesis using s(1) fs'(1) by blast
qed

end
