(* ===== verification/Spec2Isabelle.thy ===== *)
theory Spec2Isabelle
  imports Alternate_Alias End_To_End Merge_Correct Expression Byte_Prog_Correct Grep_Correct
    Shard_Cache_Correct Manifest_Correct Search_Commit Snippets Storage_Correct
begin

text \<open>
  A verification development for codesearch, a regular expression search over trigram indexes,
  written in Go.

  \<^bold>\<open>The program.\<close> An indexer (\<^verbatim>\<open>cmd/cindex\<close>, package \<^verbatim>\<open>index\<close>) scans files, collects the
  trigrams (three-byte windows) of each text and writes an index file: the paths indexed, the
  names of the files, and for every trigram the sorted list of the ids of the files that have it. A
  search (\<^verbatim>\<open>cmd/csearch\<close>) analyses a regular expression into a Boolean query over trigrams,
  evaluates the query on the posting lists, and runs the matcher (package \<^verbatim>\<open>regexp\<close>) only on the files
  that are left. Newer parts of the repository serve such indexes from a cluster of shards
  (\<^verbatim>\<open>cmd/cindex-serve\<close>, \<^verbatim>\<open>cmd/storage\<close>, packages \<^verbatim>\<open>index2\<close>, \<^verbatim>\<open>repo\<close>, \<^verbatim>\<open>expr\<close>).

  \<^bold>\<open>Conventions\<close> (\<open>Prelude\<close>). Strings and byte slices are lists; \<^verbatim>\<open>uint32\<close> and \<^verbatim>\<open>uint64\<close> are words;
  a panic or a fatal error is a value of \<open>fault\<close>, or \<open>None\<close> where there is one way to fail. Files and
  temporary files are the lists of their bytes. A loop that may not end is a
  \<^theory_text>\<open>partial_function\<close> whose value \<open>None\<close> means that it does not return; the
  properties show that it returns.

  \<^bold>\<open>Regular expressions to queries.\<close>
    \<^item> \<open>String_Set\<close>, \<open>Query\<close>, \<open>Regexp_Info\<close> model \<^verbatim>\<open>index/regexp.go\<close>: string sets, queries with
      their simplifications (\<open>andOr\<close>), and the analysis \<open>analyze\<close> with \<open>simplify\<close>.
      \<open>Regexp_Syntax\<close> has the syntax trees of \<^verbatim>\<open>regexp/syntax\<close> and what they match (\<open>rmatch\<close>).
    \<^item> \<open>Regexp_Sound\<close>: every text with a match satisfies the query, and the analysis ends.
      Go's \<^verbatim>\<open>append\<close> may write into a shared array in one place of \<open>alternate\<close>; whether there is
      room for that is the argument \<open>room\<close>, such a run has the value \<open>None\<close>, and
      \<open>Alternate_Alias\<close> shows what then goes wrong.

  \<^bold>\<open>The index file.\<close>
    \<^item> \<open>Sparse_Set\<close> (\<^verbatim>\<open>sparse/set.go\<close>), \<open>Buf_Writer\<close>, \<open>Post_Sort\<close>, \<open>Post_Heap\<close>, \<open>Index_Write\<close> model
      \<^verbatim>\<open>index/write.go\<close>: buffered output and encodings, radix sort of post entries, the heap
      that merges sorted runs, and the writer (\<open>Add_file\<close>, \<open>flushPost\<close>, \<open>mergePost\<close>, \<open>Flush\<close>).
    \<^item> \<open>Index_Read\<close> models \<^verbatim>\<open>index/read.go\<close>: \<open>Open\<close>, names, \<open>findList\<close>, posting readers, \<open>PostingQuery\<close>.
    \<^item> \<open>Index_Format\<close> is the file format as a function of paths and documents. \<open>Index_Scan\<close> and
      \<open>Index_Write_Correct\<close> show that the writer implements it, \<open>Posting_Lists\<close>, \<open>Index_Layout\<close> and
      \<open>Index_Query\<close> that the reader inverts it and that queries are answered exactly.
      \<open>End_To_End\<close> composes them: a search misses no indexed file with a match.
    \<^item> \<open>Index_Merge\<close> models \<^verbatim>\<open>index/merge.go\<close>; \<open>Merge_Maps\<close>, \<open>Merge_Postings\<close> and \<open>Merge_Correct\<close> show which
      documents stay, how they are renumbered and what lists are written.

  \<^bold>\<open>Matching.\<close>
    \<^item> \<open>Matcher\<close> models \<^verbatim>\<open>regexp/match.go\<close>: the queues of instructions, the encoding of a state as a key, the
      lazily built automaton and the search of a text. \<open>Matcher_Queues\<close>, \<open>Matcher_States\<close>,
      \<open>Matcher_Cache\<close> and \<open>Matcher_Correct\<close> show that it returns the end of the first line in which the
      program has a run, whatever the cache holds.
    \<^item> \<open>Byte_Prog\<close> models \<^verbatim>\<open>regexp/utf.go\<close> and the ranges of \<^verbatim>\<open>regexp/copy.go\<close>, which turn a program over runes
      into one over bytes. \<open>Byte_Ranges\<close> has the arithmetic of UTF-8, \<open>Byte_Machine\<close> what a machine under
      construction spells, \<open>Byte_Folding\<close> the classes with case folding, and \<open>Byte_Prog_Correct\<close> that the
      program over bytes reads the encodings of what the program over runes reads.
    \<^item> \<open>Grep\<close> models the chunks, lines and output of \<^verbatim>\<open>Grep.Reader\<close>, and \<open>Grep_Correct\<close> shows that exactly
      the matching lines are printed.

  \<^bold>\<open>The search service.\<close>
    \<^item> \<open>Utf8\<close> and \<open>Expression\<close> model \<^verbatim>\<open>expr/expr.go\<close>: the splitting of an expression into parts and the
      cleaning of their regular expressions; what is written part by part is parsed into these
      parts, and parsing stays in range on valid text.
    \<^item> \<open>Shard_Cache\<close> models \<^verbatim>\<open>cmd/cindex-serve/cache\<close>, whose lock makes each operation one step.
      \<open>Shard_Cache_Correct\<close> runs clients and loaders in any order: space is conserved, and in an orderly
      history, in which no key is loaded again before an abandoned load of it has ended, nothing panics,
      the counters are exact, the limit holds and the cache drains.
    \<^item> \<open>Index2\<close> models \<^verbatim>\<open>index2\<close>: the writer of shards (\<open>Add2\<close>, \<open>AddObject\<close>, \<open>ToShard\<close>) and the queries of their
      reader (\<open>FindTrigram\<close>, \<open>PostingQuery2\<close>). \<open>Index2_Scan\<close> shows what the scan of a file collects,
      \<open>Index2_Writer\<close> what the writer holds after some files, \<open>Index2_Query\<close> that its posting lists are found
      again, and \<open>Index2_Correct\<close> that queries are answered exactly. \<open>Git_Index\<close> models \<^verbatim>\<open>indexRepo\<close> of
      \<^verbatim>\<open>cmd/cindex-git\<close> and composes them: a commit becomes a shard in which its files are found.
    \<^item> \<open>Search_Server\<close> models \<^verbatim>\<open>SearchShard\<close> of \<^verbatim>\<open>cmd/cindex-serve/main.go\<close> with its filters, loader and snippets.
      \<open>Search_Correct\<close> shows what the filters find in a shard that holds the contents of its documents, and
      \<open>Search_Commit\<close> what the search of an indexed commit returns. \<open>Snippets\<close> has the lines and line numbers.
    \<^item> \<open>Storage\<close> models \<^verbatim>\<open>cmd/storage\<close> and its clients, \<^verbatim>\<open>writeShard\<close> of the indexer and \<^verbatim>\<open>cacheLoader\<close> of the
      search server; \<open>Storage_Correct\<close> shows that what is stored is loaded.
    \<^item> \<open>Repo\<close> models \<^verbatim>\<open>repo/repo.go\<close>: the manifest, the states of shards, and the directory of its revisions.
      \<open>Manifest_Server\<close> models the handlers of the metadata service in \<^verbatim>\<open>cmd/cindex-serve/main.go\<close> and
      \<^verbatim>\<open>manifestTxn\<close>, cut into the steps between which other transactions run. Loading a manifest and
      changing it is one step: a published revision is never changed, and the program does not call
      \<^verbatim>\<open>CleanupManifests\<close>. \<open>Manifest_Store\<close> shows that the stored transactions have the effect of running
      one after another, \<open>Manifest_Correct\<close> that manifests stay well formed.

  \<^bold>\<open>Interfaces.\<close> \<open>ordered_set\<close> (\<open>Sparse_Set\<close>) is what the scan and the matcher rely on of a sparse
  set, \<open>entry_queue\<close> (\<open>Post_Heap\<close>) what the writer relies on of the heap; both are interpreted on the
  models of the code.

  \<^bold>\<open>Bounds.\<close> There is no fuel but in \<open>drain\<close>, which counts the entries of the heap. Indexes are
  below 4GB, as the code enforces; programs have fewer than \<open>2 ^ 32\<close> instructions.

  \<^bold>\<open>Parameters.\<close> \<open>SimpleFold\<close> of the \<^verbatim>\<open>unicode\<close> package and the parser and printer of \<^verbatim>\<open>regexp/syntax\<close>
  are arguments of the definitions that use them; so are JSON, orderedcode, time and random numbers for
  manifests, and SHA-256, the encoding of flatbuffers and roaring bitmaps for shards. What is relied on
  of bitmaps is \<open>roaring_ok\<close>: they are sets, and reading them back gives the same set.

  \<^bold>\<open>Not modelled.\<close> Memory mapping, logging, flags, fetching with git and the command line tools, which are input
  and output around the packages above; generated code (protocol buffers, flatbuffers), of which only data
  types and two accessors are used; and failures of files other than missing ones.
\<close>

end
